(* ===== verification/Prelude.thy ===== *)
theory Prelude
  imports Main "HOL-Library.AList"
begin

text \<open>
  Vocabulary shared by every component: JavaScript exceptions as values, the sequencing of
  fallible steps, the arithmetic limits of JavaScript numbers, string checks and tables.

  An exception of the source is a value of \<open>js_error\<close>; the constructors are the error
  classes of \<^verbatim>\<open>src/\<close>, with the machine-readable code or reason each class carries. The
  human-readable message of an error and its \<^verbatim>\<open>cause\<close> property are not modelled; \<open>OperationAborted\<close> is
  the reason of the abort signal of the running operation.
\<close>

subsection \<open>Exceptions as values\<close>

text \<open>The \<^verbatim>\<open>CanonicalBinaryErrorCode\<close> union of \<^verbatim>\<open>content-store/canonical-binary.ts\<close>.\<close>

datatype canonical_binary_error_code =
    Invalid_integer
  | Limit_exceeded
  | Non_canonical
  | Trailing_data
  | Truncated
  | Unexpected_value

text \<open>The \<^verbatim>\<open>PackErrorCode\<close> union of \<^verbatim>\<open>content-store/pack.ts\<close>.\<close>

datatype pack_error_code =
    Pack_invalid_input
  | Pack_invalid_format
  | Pack_integrity
  | Pack_limit_exceeded
  | Pack_verification_required

text \<open>The \<^verbatim>\<open>MultiPackIndexErrorCode\<close> union of \<^verbatim>\<open>content-store/multi-pack-index.ts\<close>.\<close>

datatype midx_error_code =
    Midx_invalid_input
  | Midx_corrupt
  | Midx_limit_exceeded

text \<open>The \<^verbatim>\<open>ContentRepresentationErrorCode\<close> union of \<^verbatim>\<open>content-store/representation.ts\<close>.\<close>

datatype representation_error_code =
    Decoded_length_mismatch
  | Identity_mismatch
  | Unsupported_encoding

text \<open>The \<^verbatim>\<open>CompactionPlanningErrorCode\<close> union of \<^verbatim>\<open>content-store/compaction.ts\<close>.\<close>

datatype compaction_error_code =
    Compaction_invalid_input
  | Compaction_integrity
  | Compaction_limit_exceeded

text \<open>The \<^verbatim>\<open>MetadataHistoryResetReason\<close> union of \<^verbatim>\<open>infrastructure/metadata-error.ts\<close>.\<close>

datatype metadata_history_reset_reason = Epoch_changed | Reset_pending

text \<open>The kinds of \<^verbatim>\<open>TreeManifestError\<close> in \<^verbatim>\<open>tree-formats/manifest-codec.ts\<close>.\<close>

datatype tree_manifest_error_kind =
    Invalid_tree_manifest
  | Format_incompatible
  | Object_integrity

datatype js_error =
    CanonicalBinaryError canonical_binary_error_code
  | Delta1FormatError
  | PackFormatError pack_error_code
  | MultiPackIndexError midx_error_code
  | ContentRepresentationError representation_error_code
  | CompactionPlanningError compaction_error_code
  | ZstdCodecError
  | MetadataError
  | MetadataHistoryResetError metadata_history_reset_reason int int
  | WorkspaceAuthorityError
  | WorkspaceScopeError
  | TreeManifestError tree_manifest_error_kind
  | PlainError
  | TypeError
  | RangeError
  | OperationAborted
  | IncompleteSnapshotError
  | InconsistentSnapshotScopeError
  | BlobStagingError

type_synonym 'a result = "js_error + 'a"

subsection \<open>Sequencing fallible steps\<close>

named_theorems result_simps \<open>rewriting of sequenced fallible steps\<close>

definition rbind :: "'e + 'a \<Rightarrow> ('a \<Rightarrow> 'e + 'b) \<Rightarrow> 'e + 'b" where
  "rbind m f = (case m of Inl e \<Rightarrow> Inl e | Inr x \<Rightarrow> f x)"

lemma rbind_Inl [simp, result_simps]: "rbind (Inl e) f = Inl e"
  by (simp add: rbind_def)

lemma rbind_Inr [simp, result_simps]: "rbind (Inr x) f = f x"
  by (simp add: rbind_def)

lemma rbind_eq_Inr [result_simps]:
  "rbind m f = Inr y \<longleftrightarrow> (\<exists>x. m = Inr x \<and> f x = Inr y)"
  by (cases m) auto

text \<open>A guard that throws, \<^verbatim>\<open>if (c) throw e\<close>, in front of a step.\<close>

lemma guard_eq_Inr [result_simps]:
  "(if c then Inl e else m) = Inr y \<longleftrightarrow> \<not> c \<and> m = Inr y"
  by simp

lemma rbind_eq_InrE [elim]:
  assumes "rbind m f = Inr y"
  obtains x where "m = Inr x" and "f x = Inr y"
  using assms by (cases m) auto

lemma rbind_cong [fundef_cong]:
  assumes "m = m'" and "\<And>x. m' = Inr x \<Longrightarrow> f x = g x"
  shows "rbind m f = rbind m' g"
  using assms by (cases m') auto

lemma rbind_assoc: "rbind (rbind m f) g = rbind m (\<lambda>x. rbind (f x) g)"
  by (cases m) auto

text \<open>Run a fallible step over a list, stopping at the first error (a \<^verbatim>\<open>for\<close> loop that throws).\<close>

fun rmap :: "('a \<Rightarrow> 'e + 'b) \<Rightarrow> 'a list \<Rightarrow> 'e + 'b list" where
  "rmap f [] = Inr []"
| "rmap f (x # xs) = rbind (f x) (\<lambda>y. rbind (rmap f xs) (\<lambda>ys. Inr (y # ys)))"

lemma rmap_Inr: "(\<And>x. x \<in> set xs \<Longrightarrow> f x = Inr (g x)) \<Longrightarrow> rmap f xs = Inr (map g xs)"
  by (induction xs) auto

lemma rmap_eq_Inr:
  "rmap f xs = Inr ys \<longleftrightarrow> list_all2 (\<lambda>x y. f x = Inr y) xs ys"
proof (induction xs arbitrary: ys)
  case Nil
  then show ?case by (auto simp: eq_commute)
next
  case (Cons x xs)
  then show ?case by (cases ys) (auto simp: rbind_eq_Inr)
qed

lemma rmap_length: "rmap f xs = Inr ys \<Longrightarrow> length ys = length xs"
  by (simp add: rmap_eq_Inr list_all2_lengthD)

subsection \<open>JavaScript numbers\<close>

text \<open>
  A JavaScript number that carries an integer is an \<open>int\<close>; \<^verbatim>\<open>Number.isSafeInteger\<close> bounds it.
\<close>

definition MAX_SAFE_INTEGER :: int where
  "MAX_SAFE_INTEGER = 9007199254740991"

definition isSafeInteger :: "int \<Rightarrow> bool" where
  "isSafeInteger v \<longleftrightarrow> - MAX_SAFE_INTEGER \<le> v \<and> v \<le> MAX_SAFE_INTEGER"

lemma MAX_SAFE_INTEGER_pow: "MAX_SAFE_INTEGER = 2 ^ 53 - 1"
  by (simp add: MAX_SAFE_INTEGER_def)

abbreviation safe_unsigned :: "int \<Rightarrow> bool" where
  "safe_unsigned v \<equiv> isSafeInteger v \<and> \<not> v < 0"

lemma safe_unsigned_iff: "safe_unsigned v \<longleftrightarrow> 0 \<le> v \<and> v \<le> MAX_SAFE_INTEGER"
  by (auto simp: isSafeInteger_def MAX_SAFE_INTEGER_def)

subsection \<open>Strings\<close>

text \<open>The lowercase hexadecimal digits of the patterns \<^verbatim>\<open>/^[0-9a-f]{64}$/u\<close>.\<close>

definition hex_digits :: string where
  "hex_digits = ''0123456789abcdef''"

definition is_sha256_hex :: "string \<Rightarrow> bool" where
  "is_sha256_hex s \<longleftrightarrow> length s = 64 \<and> list_all (\<lambda>c. c \<in> set hex_digits) s"

subsection \<open>Tables\<close>

text \<open>
  A relational table with a primary key is an association list with distinct keys, so that a
  query over all rows is computable.
\<close>

definition table_ok :: "('k \<times> 'v) list \<Rightarrow> bool" where
  "table_ok t \<longleftrightarrow> distinct (map fst t)"

lemma table_ok_Nil [simp]: "table_ok []"
  by (simp add: table_ok_def)

lemma table_ok_update [simp]: "table_ok t \<Longrightarrow> table_ok (AList.update k v t)"
  by (simp add: table_ok_def distinct_update)

lemma table_ok_delete [simp]: "table_ok t \<Longrightarrow> table_ok (AList.delete k t)"
  by (simp add: table_ok_def distinct_delete)

lemma map_of_update [simp]: "map_of (AList.update k v t) = (map_of t)(k \<mapsto> v)"
  by (rule update_conv')

lemma map_of_delete [simp]: "map_of (AList.delete k t) = (map_of t)(k := None)"
  by (rule delete_conv')

lemma table_row_iff: "table_ok t \<Longrightarrow> (k, v) \<in> set t \<longleftrightarrow> map_of t k = Some v"
  by (simp add: table_ok_def)

end
