(* ===== verification/Canonical_Binary.thy ===== *)
theory Canonical_Binary
  imports Prelude "HOL-Library.Word"
begin

text \<open>
  The canonical binary layer, \<^verbatim>\<open>src/infrastructure/content-store/canonical-binary.ts\<close>: unsigned
  varints restricted to safe integers, the bounded writer and the offset-tracking reader. At the
  end, the interface of a canonical codec over the reader: what is read is exactly what the writer
  of the value would have put there, and nothing else is accepted.
\<close>

unbundle bit_operations_syntax

type_synonym byte = "8 word"
type_synonym bytes = "byte list"

abbreviation byteLength :: "bytes \<Rightarrow> int" where
  "byteLength bs \<equiv> int (length bs)"

subsection \<open>Unsigned varints\<close>

definition assertSafeUnsignedInteger :: "int \<Rightarrow> unit result" where
  "assertSafeUnsignedInteger value =
     (if \<not> isSafeInteger value \<or> value < 0 then Inl (CanonicalBinaryError Invalid_integer) else Inr ())"

text \<open>The loop of \<^verbatim>\<open>unsignedVarintLength\<close> over \<^verbatim>\<open>remaining\<close> and \<^verbatim>\<open>length\<close>.\<close>

function varint_length_loop :: "int \<Rightarrow> int \<Rightarrow> int" where
  "varint_length_loop remaining len =
     (if remaining \<ge> 0x80 then varint_length_loop (remaining div 0x80) (len + 1) else len)"
  by pat_completeness auto
termination by (relation "measure (\<lambda>(r, _). nat r)") auto

declare varint_length_loop.simps [simp del]

definition unsignedVarintLength :: "int \<Rightarrow> int result" where
  "unsignedVarintLength value =
     rbind (assertSafeUnsignedInteger value) (\<lambda>_. Inr (varint_length_loop value 1))"

text \<open>The filling loop of \<^verbatim>\<open>encodeUnsignedVarint\<close>; the count is the number of bytes left to fill.\<close>

fun encode_varint_loop :: "nat \<Rightarrow> int \<Rightarrow> bytes" where
  "encode_varint_loop 0 remaining = []"
| "encode_varint_loop (Suc k) remaining =
     (let payload = remaining mod 0x80; remaining' = remaining div 0x80
      in word_of_int (payload OR (if remaining' = 0 then 0 else 0x80)) # encode_varint_loop k remaining')"

definition encodeUnsignedVarint :: "int \<Rightarrow> bytes result" where
  "encodeUnsignedVarint value =
     rbind (unsignedVarintLength value) (\<lambda>n. Inr (encode_varint_loop (nat n) value))"

text \<open>
  The loop of \<^verbatim>\<open>decodeUnsignedVarint\<close> over the bytes from \<^verbatim>\<open>index\<close> on. The divisions of the source
  are by powers of two and exact on safe integers, so \<open>div\<close> is \<^verbatim>\<open>Math.floor\<close> of the quotient.
\<close>

fun decode_varint_loop :: "bytes \<Rightarrow> int \<Rightarrow> int \<Rightarrow> int \<Rightarrow> int \<Rightarrow> (int \<times> int) result" where
  "decode_varint_loop [] value factor index offset = Inl (CanonicalBinaryError Truncated)"
| "decode_varint_loop (b # bs) value factor index offset =
     (let payload = uint (b AND 0x7F) in
      if payload > (MAX_SAFE_INTEGER - value) div factor then Inl (CanonicalBinaryError Invalid_integer)
      else let value' = value + payload * factor in
        if b AND 0x80 = 0
        then rbind (unsignedVarintLength value') (\<lambda>n.
               if index - offset + 1 \<noteq> n then Inl (CanonicalBinaryError Non_canonical)
               else Inr (value', index + 1))
        else if factor > MAX_SAFE_INTEGER div 0x80 then Inl (CanonicalBinaryError Invalid_integer)
        else decode_varint_loop bs value' (factor * 0x80) (index + 1) offset)"

definition decodeUnsignedVarint :: "bytes \<Rightarrow> int \<Rightarrow> (int \<times> int) result" where
  "decodeUnsignedVarint input offset =
     rbind (assertSafeUnsignedInteger offset) (\<lambda>_.
       if offset > byteLength input then Inl (CanonicalBinaryError Truncated)
       else decode_varint_loop (drop (nat offset) input) 0 1 offset offset)"

subsection \<open>The writer\<close>

record canonical_writer =
  parts :: "bytes list"
  writer_length :: int

definition newCanonicalWriter :: canonical_writer where
  "newCanonicalWriter = \<lparr>parts = [], writer_length = 0\<rparr>"

definition writeBytes :: "bytes \<Rightarrow> canonical_writer \<Rightarrow> canonical_writer result" where
  "writeBytes v w =
     (if byteLength v > MAX_SAFE_INTEGER - writer_length w then Inl (CanonicalBinaryError Limit_exceeded)
      else Inr \<lparr>parts = parts w @ [v], writer_length = writer_length w + byteLength v\<rparr>)"

definition writeByte :: "int \<Rightarrow> canonical_writer \<Rightarrow> canonical_writer result" where
  "writeByte v w =
     (if v < 0 \<or> v > 0xFF then Inl (CanonicalBinaryError Invalid_integer) else writeBytes [word_of_int v] w)"

definition writeVarint :: "int \<Rightarrow> canonical_writer \<Rightarrow> canonical_writer result" where
  "writeVarint v w = rbind (encodeUnsignedVarint v) (\<lambda>bs. writeBytes bs w)"

definition writeLengthPrefixedBytes :: "bytes \<Rightarrow> canonical_writer \<Rightarrow> canonical_writer result" where
  "writeLengthPrefixedBytes v w = rbind (writeVarint (byteLength v) w) (writeBytes v)"

definition finish :: "canonical_writer \<Rightarrow> bytes" where
  "finish w = concat (parts w)"

subsection \<open>The reader\<close>

record canonical_reader =
  reader_input :: bytes
  reader_offset :: int

definition newCanonicalReader :: "bytes \<Rightarrow> canonical_reader" where
  "newCanonicalReader bs = \<lparr>reader_input = bs, reader_offset = 0\<rparr>"

definition remaining :: "canonical_reader \<Rightarrow> int" where
  "remaining r = byteLength (reader_input r) - reader_offset r"

definition readByte :: "canonical_reader \<Rightarrow> (int \<times> canonical_reader) result" where
  "readByte r =
     (if remaining r < 1 then Inl (CanonicalBinaryError Truncated)
      else Inr (uint (reader_input r ! nat (reader_offset r)), r\<lparr>reader_offset := reader_offset r + 1\<rparr>))"

definition readVarint :: "canonical_reader \<Rightarrow> (int \<times> canonical_reader) result" where
  "readVarint r =
     rbind (decodeUnsignedVarint (reader_input r) (reader_offset r)) (\<lambda>(v, nextOffset).
       Inr (v, r\<lparr>reader_offset := nextOffset\<rparr>))"

definition readBytes :: "int \<Rightarrow> canonical_reader \<Rightarrow> (bytes \<times> canonical_reader) result" where
  "readBytes len r =
     rbind (assertSafeUnsignedInteger len) (\<lambda>_.
       if len > remaining r then Inl (CanonicalBinaryError Truncated)
       else Inr (take (nat len) (drop (nat (reader_offset r)) (reader_input r)), r\<lparr>reader_offset := reader_offset r + len\<rparr>))"

definition readLengthPrefixedBytes ::
  "int \<Rightarrow> canonical_reader \<Rightarrow> (bytes \<times> canonical_reader) result" where
  "readLengthPrefixedBytes maxLength r =
     rbind (assertSafeUnsignedInteger maxLength) (\<lambda>_.
     rbind (readVarint r) (\<lambda>(len, r').
       if len > maxLength then Inl (CanonicalBinaryError Limit_exceeded) else readBytes len r'))"

definition expectBytes :: "bytes \<Rightarrow> canonical_reader \<Rightarrow> canonical_reader result" where
  "expectBytes expected r =
     rbind (readBytes (byteLength expected) r) (\<lambda>(observed, r').
       if observed \<noteq> expected then Inl (CanonicalBinaryError Unexpected_value) else Inr r')"

definition assertEnd :: "canonical_reader \<Rightarrow> unit result" where
  "assertEnd r = (if remaining r \<noteq> 0 then Inl (CanonicalBinaryError Trailing_data) else Inr ())"

subsection \<open>Arithmetic of bytes\<close>

lemma assertSafe_Inr [simp]: "assertSafeUnsignedInteger v = Inr u \<longleftrightarrow> safe_unsigned v"
  by (auto simp: assertSafeUnsignedInteger_def)

lemma assertSafe_ok: "safe_unsigned v \<Longrightarrow> assertSafeUnsignedInteger v = Inr ()"
  by simp

lemma assertSafe_ok2 [simp]: "isSafeInteger v \<Longrightarrow> 0 \<le> v \<Longrightarrow> assertSafeUnsignedInteger v = Inr ()"
  by simp

lemma safe_length: "byteLength bs \<le> n \<Longrightarrow> isSafeInteger n \<Longrightarrow> isSafeInteger (byteLength bs)"
  by (auto simp: isSafeInteger_def MAX_SAFE_INTEGER_def)

lemma byte_payload: "uint (b AND 0x7F :: byte) = uint b mod 128"
proof -
  have "(0x7F :: byte) = mask 7" by (simp add: mask_eq_exp_minus_1)
  then have "b AND 0x7F = take_bit 7 b" by (simp only: take_bit_eq_mask)
  then have "uint (b AND 0x7F) = take_bit 7 (uint b)" by (simp only: unsigned_take_bit_eq)
  then show ?thesis by (simp add: take_bit_eq_mod)
qed

lemma byte_last: "(b AND 0x80 :: byte) = 0 \<longleftrightarrow> uint b < 128"
proof -
  have "(b AND 2 ^ 7 = 0) \<longleftrightarrow> \<not> bit b 7" by (rule and_exp_eq_0_iff_not_bit)
  moreover have "bit b 7 \<longleftrightarrow> bit (uint b) 7" by (simp add: bit_uint_iff)
  moreover have "bit (uint b) 7 \<longleftrightarrow> odd (uint b div 128)" by (simp add: bit_iff_odd)
  moreover have "uint b div 128 = (if uint b < 128 then 0 else 1)"
  proof -
    have "0 \<le> uint b" and "uint b < 256" using uint_bounded [of b] by auto
    then show ?thesis by presburger
  qed
  ultimately show ?thesis by (simp split: if_splits)
qed

lemma payload_flag: "0 \<le> p \<Longrightarrow> p < 128 \<Longrightarrow> p OR 0x80 = p + (128 :: int)"
proof -
  assume p: "0 \<le> p" "p < 128"
  have "p AND 2 ^ 7 = 0 \<longleftrightarrow> \<not> bit p 7" by (rule and_exp_eq_0_iff_not_bit)
  moreover have "\<not> bit p 7" using p by (simp add: bit_iff_odd)
  ultimately have "p AND 0x80 = 0" by simp
  with plus_and_or [of p "0x80"] show ?thesis by simp
qed

subsection \<open>Varint digits\<close>

lemma zdiv_less_iff: "n div q < m \<longleftrightarrow> n < m * q" if "0 < (q::int)"
proof
  assume "n div q < m"
  then have "q * (n div q + 1) \<le> q * m" using that by (intro mult_left_mono) auto
  moreover have "n < q * (n div q + 1)"
    using mult_div_mod_eq [of q n] pos_mod_bound [OF that, of n] unfolding distrib_left mult_1_right by linarith
  ultimately show "n < m * q" by (simp add: mult.commute)
next
  assume "n < m * q"
  show "n div q < m"
  proof (rule ccontr)
    assume "\<not> n div q < m"
    then have "q * m \<le> q * (n div q)" using that by (intro mult_left_mono) auto
    also have "\<dots> \<le> n"
      using mult_div_mod_eq [of q n] pos_mod_sign [OF that, of n] by linarith
    finally show False using \<open>n < m * q\<close> by (simp add: mult.commute)
  qed
qed

lemma le_zdiv_iff: "0 < (q::int) \<Longrightarrow> m \<le> n div q \<longleftrightarrow> m * q \<le> n"
  using zdiv_less_iff [of q n m] by (simp add: linorder_not_less [symmetric])

text \<open>
  The bytes of \<open>m\<close> base-128 digits, least significant first, all but the last with the
  continuation bit; the canonical encoding has as many digits as the value needs.
\<close>

fun digits :: "nat \<Rightarrow> int \<Rightarrow> bytes" where
  "digits 0 w = []"
| "digits (Suc 0) w = [word_of_int w]"
| "digits (Suc (Suc m)) w = word_of_int (w mod 128 + 128) # digits (Suc m) (w div 128)"

definition varint_length :: "int \<Rightarrow> nat" where
  "varint_length v = nat (varint_length_loop v 1)"

definition varint :: "int \<Rightarrow> bytes" where
  "varint v = digits (varint_length v) v"

lemma varint_length_loop_add: "varint_length_loop v (n + k) = varint_length_loop v n + k"
proof (induction v n rule: varint_length_loop.induct)
  case (1 r len)
  then show ?case
    by (subst (1 2) varint_length_loop.simps) (auto simp: algebra_simps)
qed

lemma varint_length_loop_ge: "n \<le> varint_length_loop v n"
proof (induction v n rule: varint_length_loop.induct)
  case (1 r len)
  then show ?case by (subst varint_length_loop.simps) auto
qed

lemma varint_length_small: "v < 128 \<Longrightarrow> varint_length v = 1"
  by (simp add: varint_length_def varint_length_loop.simps)

lemma varint_length_big: "128 \<le> v \<Longrightarrow> varint_length v = Suc (varint_length (v div 128))"
proof -
  assume "128 \<le> v"
  then have "varint_length_loop v 1 = varint_length_loop (v div 128) 1 + 1"
    using varint_length_loop_add [of "v div 128" 1 1] by (simp add: varint_length_loop.simps [of v])
  moreover have "1 \<le> varint_length_loop (v div 128) 1" by (rule varint_length_loop_ge)
  ultimately show ?thesis by (simp add: varint_length_def nat_add_distrib)
qed

lemma varint_length_pos [simp]: "0 < varint_length v"
  using varint_length_loop_ge [of 1 v] by (simp add: varint_length_def)

lemma varint_length_loop_eq: "varint_length_loop v 1 = int (varint_length v)"
  using varint_length_loop_ge [of 1 v] by (simp add: varint_length_def)

lemma varint_length_iff:
  assumes "0 \<le> v"
  shows "varint_length v = Suc m \<longleftrightarrow> v < 128 ^ Suc m \<and> (m = 0 \<or> 128 ^ m \<le> v)"
  using assms
proof (induction m arbitrary: v)
  case 0
  then show ?case
    by (cases "v < 128") (auto simp: varint_length_small varint_length_big)
next
  case (Suc m)
  show ?case
  proof (cases "v < 128")
    case True
    have "(1::int) \<le> 128 ^ m" by simp
    then have "\<not> 128 * 128 ^ m \<le> v" using True by linarith
    with True show ?thesis by (auto simp: varint_length_small)
  next
    case False
    have "v div 128 < 128 ^ Suc m \<longleftrightarrow> v < 128 ^ Suc (Suc m)"
      using zdiv_less_iff [of 128 v "128 ^ Suc m"] by (simp add: algebra_simps)
    moreover have "128 ^ m \<le> v div 128 \<longleftrightarrow> 128 ^ Suc m \<le> v"
      using le_zdiv_iff [of 128 "128 ^ m" v] by (simp add: algebra_simps)
    moreover have "128 ^ 0 \<le> v div 128" using False le_zdiv_iff [of 128 1 v] by simp
    ultimately show ?thesis
      using Suc.IH [of "v div 128"] Suc.prems False
      by (cases m) (auto simp: varint_length_big)
  qed
qed

lemma length_digits [simp]: "length (digits m w) = m"
  by (induction m w rule: digits.induct) auto

lemma length_varint [simp]: "length (varint v) = varint_length v"
  by (simp add: varint_def)

lemma unsignedVarintLength_Inr: "safe_unsigned v \<Longrightarrow> unsignedVarintLength v = Inr (int (varint_length v))"
  by (simp add: unsignedVarintLength_def assertSafe_ok varint_length_loop_eq)

lemma encode_loop_digits:
  assumes "0 \<le> w"
  shows "encode_varint_loop (varint_length w) w = digits (varint_length w) w"
proof -
  have "encode_varint_loop m w = digits m w" if "varint_length w = m" for m
    using that assms
  proof (induction m w rule: digits.induct)
    case (1 w)
    then show ?case by simp
  next
    case (2 w)
    then have "w < 128" using varint_length_iff [of w 0] by simp
    with 2 show ?case by simp
  next
    case (3 m w)
    then have big: "128 \<le> w" using varint_length_small [of w] by (cases "w < 128") auto
    with 3 have "varint_length (w div 128) = Suc m" by (simp add: varint_length_big)
    with 3 big have "encode_varint_loop (Suc m) (w div 128) = digits (Suc m) (w div 128)" by simp
    moreover have "w div 128 \<noteq> 0" using big by (simp add: zdiv_eq_0_iff)
    ultimately show ?case by (simp add: Let_def payload_flag)
  qed
  then show ?thesis by simp
qed

lemma encodeUnsignedVarint_Inr: "encodeUnsignedVarint v = Inr bs \<longleftrightarrow> safe_unsigned v \<and> bs = varint v"
proof (cases "safe_unsigned v")
  case True
  then show ?thesis
    by (auto simp: encodeUnsignedVarint_def unsignedVarintLength_Inr encode_loop_digits varint_def)
next
  case False
  then show ?thesis
    by (auto simp: encodeUnsignedVarint_def unsignedVarintLength_def rbind_eq_Inr)
qed

subsection \<open>Decoding digits\<close>

lemma uint_low_digit: "0 \<le> w \<Longrightarrow> w < 128 \<Longrightarrow> uint (word_of_int w :: byte) = w"
  by (simp add: unsigned_of_int take_bit_eq_mod)

lemma uint_high_digit: "uint (word_of_int (w mod 128 + 128) :: byte) = w mod 128 + 128"
proof -
  have "0 \<le> w mod 128 + 128" and "w mod 128 + 128 < 256" by simp_all
  then have "(w mod 128 + 128) mod 256 = w mod 128 + 128" by (intro mod_pos_pos_trivial)
  then show ?thesis by (simp only: unsigned_of_int take_bit_eq_mod) simp
qed

text \<open>Reading the digits of \<open>w\<close> on top of \<open>value\<close>: the loop accepts exactly the minimal number of them.\<close>

lemma decode_digits:
  assumes "0 \<le> w" and "w < 128 ^ m" and "0 < m" and "0 \<le> acc" and "acc + w * 128 ^ k \<le> MAX_SAFE_INTEGER"
    and "varint_length (acc + w * 128 ^ k) = k + m" and "index = off + int k"
  shows "decode_varint_loop (digits m w @ t) acc (128 ^ k) index off
    = Inr (acc + w * 128 ^ k, index + int m)"
  using assms
proof (induction m w arbitrary: acc k index rule: digits.induct)
  case (1 w)
  then show ?case by simp
next
  case (2 w)
  have pos: "(0::int) < 128 ^ k" by simp
  have "w * 128 ^ k \<le> MAX_SAFE_INTEGER - acc" using "2.prems" by simp
  then have fits: "w \<le> (MAX_SAFE_INTEGER - acc) div 128 ^ k"
    using le_zdiv_iff [OF pos] by simp
  have "0 \<le> acc + w * 128 ^ k" using "2.prems" by simp
  with "2.prems" have len: "unsignedVarintLength (acc + w * 128 ^ k) = Inr (int (Suc k))"
    by (subst unsignedVarintLength_Inr) (simp_all add: safe_unsigned_iff)
  have byte: "uint (word_of_int w :: byte) = w" using "2.prems" by (intro uint_low_digit) auto
  then show ?case
    using "2.prems" fits len by (auto simp: Let_def byte_payload byte_last)
next
  case (3 m w)
  let ?p = "w mod 128"
  obtain c :: byte where high: "digits (Suc (Suc m)) w = c # digits (Suc m) (w div 128)" "uint c = ?p + 128"
    using uint_high_digit [of w] by (metis digits.simps(3))
  have neg: "(?p < 0) = False" by (simp add: not_less)
  have pos: "(0::int) < 128 ^ k" by simp
  have split: "w = ?p + w div 128 * 128" by simp
  have total: "(acc + ?p * 128 ^ k) + w div 128 * 128 ^ Suc k = acc + w * 128 ^ k"
  proof -
    have "?p * 128 ^ k + w div 128 * 128 ^ Suc k = (?p + w div 128 * 128) * 128 ^ k"
      by (simp only: power_Suc distrib_left distrib_right ac_simps)
    then show ?thesis unfolding split [symmetric] by simp
  qed
  have nn: "0 \<le> w div 128 * 128 ^ Suc k" using "3.prems"(1) by (simp add: pos_imp_zdiv_nonneg_iff)
  then have "?p * 128 ^ k \<le> MAX_SAFE_INTEGER - acc" using total "3.prems"(5) by linarith
  then have fits: "?p \<le> (MAX_SAFE_INTEGER - acc) div 128 ^ k"
    using le_zdiv_iff [OF pos] by simp
  have vnn: "0 \<le> acc + w * 128 ^ k" using "3.prems" by simp
  have "(128::int) ^ Suc k \<le> 128 ^ (k + Suc m)" by (rule power_increasing) auto
  also have "\<dots> \<le> acc + w * 128 ^ k"
    using varint_length_iff [OF vnn, of "k + Suc m"] "3.prems"(6) by simp
  finally have "128 ^ k \<le> MAX_SAFE_INTEGER div 128"
    using "3.prems"(5) le_zdiv_iff [of 128 "128 ^ k" MAX_SAFE_INTEGER] by simp
  moreover have "decode_varint_loop (digits (Suc m) (w div 128) @ t) (acc + ?p * 128 ^ k) (128 ^ Suc k)
      (index + 1) off = Inr (acc + ?p * 128 ^ k + w div 128 * 128 ^ Suc k, index + 1 + int (Suc m))"
  proof (rule "3.IH")
    show "w div 128 < 128 ^ Suc m"
      using "3.prems"(2) zdiv_less_iff [of 128 w "128 ^ Suc m"] by (simp add: mult.commute)
    show "acc + ?p * 128 ^ k + w div 128 * 128 ^ Suc k \<le> MAX_SAFE_INTEGER"
      unfolding total by (rule "3.prems"(5))
    show "varint_length (acc + ?p * 128 ^ k + w div 128 * 128 ^ Suc k) = Suc k + Suc m"
      unfolding total using "3.prems"(6) by simp
  qed (use "3.prems" in \<open>simp_all add: pos_imp_zdiv_nonneg_iff\<close>)
  ultimately show ?case
    using fits unfolding total high(1) by (simp add: neg high(2) Let_def byte_payload byte_last mult.commute)
qed

text \<open>What the loop accepts is the digits of a value, as many as that value needs.\<close>

lemma decode_loop_inverse:
  assumes "decode_varint_loop bs acc (128 ^ k) index off = Inr (v, next)"
    and "0 \<le> acc" and "index = off + int k"
  shows "\<exists>m w t. 0 < m \<and> 0 \<le> w \<and> w < 128 ^ m \<and> bs = digits m w @ t \<and> v = acc + w * 128 ^ k \<and>
     v \<le> MAX_SAFE_INTEGER \<and> varint_length v = k + m \<and> next = index + int m"
  using assms
proof (induction bs arbitrary: acc k index)
  case Nil
  then show ?case by simp
next
  case (Cons b bs)
  define p where "p = uint b mod 128"
  have p: "0 \<le> p" "p < 128" by (simp_all add: p_def)
  have pos: "(0::int) < 128 ^ k" by simp
  have fits: "p \<le> (MAX_SAFE_INTEGER - acc) div 128 ^ k"
    using Cons.prems(1) by (auto simp: Let_def byte_payload p_def split: if_splits)
  then have bound: "acc + p * 128 ^ k \<le> MAX_SAFE_INTEGER"
    using le_zdiv_iff [OF pos, of p "MAX_SAFE_INTEGER - acc"] by simp
  have nn: "0 \<le> acc + p * 128 ^ k" using Cons.prems(2) p by simp
  show ?case
  proof (cases "uint b < 128")
    case True
    then have b: "b = word_of_int p" by (simp add: p_def)
    have "safe_unsigned (acc + p * 128 ^ k)" using nn bound safe_unsigned_iff by blast
    note len = unsignedVarintLength_Inr [OF this]
    have "v = acc + p * 128 ^ k" "next = index + 1" "varint_length v = Suc k"
      using Cons.prems True fits len
      by (auto simp: Let_def byte_payload byte_last p_def [symmetric] rbind_eq_Inr safe_unsigned_iff
          split: if_splits)
    then show ?thesis using p bound b
      by (intro exI [of _ 1] exI [of _ p] exI [of _ bs]) simp
  next
    case False
    then have "128 \<le> uint b" "uint b < 256" using uint_bounded [of b] by auto
    then have "p + 128 = uint b" unfolding p_def by presburger
    then have b: "b = word_of_int (p + 128)" by simp
    have rec: "decode_varint_loop bs (acc + p * 128 ^ k) (128 ^ Suc k) (index + 1) off = Inr (v, next)"
      using Cons.prems(1) False fits
      by (auto simp: Let_def byte_payload byte_last p_def [symmetric] mult.commute split: if_splits)
    obtain m w t where ih: "0 < m" "0 \<le> w" "w < 128 ^ m" "bs = digits m w @ t"
        "v = acc + p * 128 ^ k + w * 128 ^ Suc k" "v \<le> MAX_SAFE_INTEGER"
        "varint_length v = Suc k + m" "next = index + 1 + int m"
      using Cons.IH [OF rec nn] Cons.prems(3) by fastforce
    let ?w = "p + 128 * w"
    obtain m' where m: "m = Suc m'" using ih(1) by (cases m) auto
    have "?w mod 128 = p" "?w div 128 = w" using p by simp_all
    then have "b # bs = digits (Suc m) ?w @ t" using b ih(4) m by simp
    moreover have "?w < 128 ^ Suc m" using ih(3) p by simp
    moreover have "v = acc + ?w * 128 ^ k" using ih(5) by (simp add: algebra_simps)
    ultimately show ?thesis
      using ih p by (intro exI [of _ "Suc m"] exI [of _ ?w] exI [of _ t]) simp
  qed
qed

subsection \<open>Positions of a reader\<close>

definition reader_ok :: "canonical_reader \<Rightarrow> bool" where
  "reader_ok r \<longleftrightarrow> 0 \<le> reader_offset r \<and> reader_offset r \<le> byteLength (reader_input r) \<and> byteLength (reader_input r) \<le> MAX_SAFE_INTEGER"

definition rest_of :: "canonical_reader \<Rightarrow> bytes" where
  "rest_of r = drop (nat (reader_offset r)) (reader_input r)"

text \<open>The reader behind the given bytes.\<close>

definition after :: "bytes \<Rightarrow> canonical_reader \<Rightarrow> canonical_reader" where
  "after bs r = r\<lparr>reader_offset := reader_offset r + byteLength bs\<rparr>"

lemma after_Nil [simp]: "after [] r = r"
  by (simp add: after_def)

lemma after_after: "after b (after a r) = after (a @ b) r"
  by (simp add: after_def)

lemma rest_length: "reader_ok r \<Longrightarrow> byteLength (rest_of r) = remaining r"
  by (auto simp: rest_of_def reader_ok_def remaining_def)

lemma reader_ok_after: "reader_ok r \<Longrightarrow> rest_of r = bs @ t \<Longrightarrow> reader_ok (after bs r)"
  using rest_length [of r] by (auto simp: reader_ok_def after_def remaining_def)

lemma rest_after: "reader_ok r \<Longrightarrow> rest_of r = bs @ t \<Longrightarrow> rest_of (after bs r) = t"
proof -
  assume ok: "reader_ok r" and eq: "rest_of r = bs @ t"
  have "nat (reader_offset r + int (length bs)) = length bs + nat (reader_offset r)"
    using ok by (simp add: reader_ok_def nat_add_distrib)
  then have "rest_of (after bs r) = drop (length bs) (rest_of r)"
    by (simp add: rest_of_def after_def drop_drop)
  then show ?thesis by (simp add: eq)
qed

lemma new_reader [simp]:
  "rest_of (newCanonicalReader bs) = bs"
  "reader_ok (newCanonicalReader bs) \<longleftrightarrow> byteLength bs \<le> MAX_SAFE_INTEGER"
  by (simp_all add: newCanonicalReader_def rest_of_def reader_ok_def)

lemma assertEnd_Inr [simp]: "reader_ok r \<Longrightarrow> assertEnd r = Inr u \<longleftrightarrow> rest_of r = []"
  using rest_length [of r] by (auto simp: assertEnd_def)

subsection \<open>The interface of a canonical codec\<close>

text \<open>
  A codec pairs the bytes written for a value with the reader of such a value. It is canonical when
  the reader returns a value exactly when the value is valid and its own bytes come next, and then
  stands right behind them.
\<close>

definition starts :: "canonical_reader \<Rightarrow> bytes \<Rightarrow> bool" where
  "starts r bs \<longleftrightarrow> (\<exists>t. rest_of r = bs @ t)"

lemma starts_append: "reader_ok r \<Longrightarrow> starts r (a @ b) \<longleftrightarrow> starts r a \<and> starts (after a r) b"
  by (auto simp: starts_def rest_after)

text \<open>The whole rest of the input as a chunk and the rest behind it.\<close>

lemma rest_append: "reader_ok r \<Longrightarrow> rest_of r = a @ b \<longleftrightarrow> starts r a \<and> rest_of (after a r) = b"
  by (auto simp: starts_def rest_after)

lemma rest_chunk: "reader_ok r \<Longrightarrow> rest_of r = a \<longleftrightarrow> starts r a \<and> rest_of (after a r) = []"
  using rest_append [of r a "[]"] by simp

lemma after_append: "after (a @ b) r = after b (after a r)"
  by (simp add: after_after)

lemma starts_Nil [simp]: "starts r []"
  by (simp add: starts_def)

lemma starts_ok [simp]: "reader_ok r \<Longrightarrow> starts r bs \<Longrightarrow> reader_ok (after bs r)"
  by (auto simp: starts_def reader_ok_after)

locale canonical_codec =
  fixes wr :: "'a \<Rightarrow> bytes"
    and valid :: "'a \<Rightarrow> bool"
    and rd :: "canonical_reader \<Rightarrow> ('a \<times> canonical_reader) result"
  assumes canonical: "reader_ok r \<Longrightarrow>
    rd r = Inr (x, r') \<longleftrightarrow> valid x \<and> starts r (wr x) \<and> r' = after (wr x) r"
begin

lemma reads: "reader_ok r \<Longrightarrow> valid x \<Longrightarrow> starts r (wr x) \<Longrightarrow> rd r = Inr (x, after (wr x) r)"
  by (simp add: canonical)

lemma read_ok: "reader_ok r \<Longrightarrow> rd r = Inr (x, r') \<Longrightarrow> reader_ok r'"
  by (auto simp: canonical starts_ok)

text \<open>No valid value's bytes start another one's: a stream of values splits in one way.\<close>

lemma prefix_free:
  assumes "valid x" and "valid y" and "wr x @ s = wr y @ t"
    and "byteLength (wr x @ s) \<le> MAX_SAFE_INTEGER"
  shows "x = y \<and> s = t"
proof -
  let ?r = "newCanonicalReader (wr x @ s)"
  have ok: "reader_ok ?r" using assms(4) by simp
  have "rd ?r = Inr (x, after (wr x) ?r)"
    by (rule reads [OF ok assms(1)]) (simp add: starts_def)
  moreover have "rd ?r = Inr (y, after (wr y) ?r)"
    by (rule reads [OF ok assms(2)]) (simp add: starts_def assms(3))
  ultimately have "x = y" by simp
  then show ?thesis using assms(3) by simp
qed

end

text \<open>Reading a counted sequence of values, one after the other.\<close>

fun read_many ::
  "(canonical_reader \<Rightarrow> ('a \<times> canonical_reader) result) \<Rightarrow> nat \<Rightarrow> canonical_reader \<Rightarrow>
     ('a list \<times> canonical_reader) result" where
  "read_many rd 0 r = Inr ([], r)"
| "read_many rd (Suc n) r =
     rbind (rd r) (\<lambda>(x, r1). rbind (read_many rd n r1) (\<lambda>(xs, r2). Inr (x # xs, r2)))"

context canonical_codec
begin

lemma read_many_canonical:
  assumes "reader_ok r"
  shows "read_many rd n r = Inr (xs, r') \<longleftrightarrow>
    length xs = n \<and> list_all valid xs \<and> starts r (concat (map wr xs)) \<and>
    r' = after (concat (map wr xs)) r"
  using assms
proof (induction n arbitrary: xs r r')
  case 0
  then show ?case by auto
next
  case (Suc n)
  show ?case
  proof (cases xs)
    case Nil
    then show ?thesis by (auto simp: rbind_eq_Inr)
  next
    case (Cons x ys)
    have "read_many rd (Suc n) r = Inr (x # ys, r') \<longleftrightarrow>
        valid x \<and> starts r (wr x) \<and> read_many rd n (after (wr x) r) = Inr (ys, r')"
      using Suc.prems by (auto simp: rbind_eq_Inr canonical)
    also have "\<dots> \<longleftrightarrow> valid x \<and> starts r (wr x) \<and> length ys = n \<and> list_all valid ys \<and>
        starts (after (wr x) r) (concat (map wr ys)) \<and> r' = after (wr x @ concat (map wr ys)) r"
      using Suc.IH [of "after (wr x) r"] starts_ok [OF Suc.prems, of "wr x"] by (auto simp: after_after)
    finally show ?thesis using Suc.prems by (auto simp: Cons starts_append)
  qed
qed

end

subsection \<open>The elementary codecs\<close>

lemma decodeUnsignedVarint_iff:
  assumes "reader_ok r"
  shows "decodeUnsignedVarint (reader_input r) (reader_offset r) = Inr (v, next) \<longleftrightarrow>
    safe_unsigned v \<and> starts r (varint v) \<and> next = reader_offset r + int (varint_length v)"
proof -
  have "safe_unsigned (reader_offset r)" and "reader_offset r \<le> byteLength (reader_input r)"
    using assms safe_unsigned_iff [of "reader_offset r"] by (auto simp: reader_ok_def)
  then have loop: "decodeUnsignedVarint (reader_input r) (reader_offset r)
      = decode_varint_loop (rest_of r) 0 (128 ^ 0) (reader_offset r) (reader_offset r)"
    by (auto simp: decodeUnsignedVarint_def rest_of_def)
  show ?thesis
  proof
    assume "decodeUnsignedVarint (reader_input r) (reader_offset r) = Inr (v, next)"
    then have "decode_varint_loop (rest_of r) 0 (128 ^ 0) (reader_offset r) (reader_offset r) = Inr (v, next)"
      by (simp only: loop)
    then obtain m w t where "0 \<le> w" "rest_of r = digits m w @ t" "v = 0 + w * 128 ^ 0"
        "v \<le> MAX_SAFE_INTEGER" "varint_length v = 0 + m" "next = reader_offset r + int m"
      using decode_loop_inverse [of "rest_of r" 0 0 "reader_offset r" "reader_offset r" v "next"] by auto
    then show "safe_unsigned v \<and> starts r (varint v) \<and> next = reader_offset r + int (varint_length v)"
      using safe_unsigned_iff [of v] by (auto simp: starts_def varint_def)
  next
    assume read: "safe_unsigned v \<and> starts r (varint v) \<and> next = reader_offset r + int (varint_length v)"
    then obtain t where t: "rest_of r = digits (varint_length v) v @ t"
      by (auto simp: starts_def varint_def)
    have v: "0 \<le> v" "v \<le> MAX_SAFE_INTEGER" using read safe_unsigned_iff by auto
    obtain m where m: "varint_length v = Suc m" using varint_length_pos [of v] by (cases "varint_length v") auto
    then have "v < 128 ^ varint_length v" using varint_length_iff [OF v(1), of m] by simp
    then show "decodeUnsignedVarint (reader_input r) (reader_offset r) = Inr (v, next)"
      using decode_digits [of v "varint_length v" 0 0 "reader_offset r" "reader_offset r" t] v read
      by (simp add: loop t)
  qed
qed

lemma readVarint_canonical:
  "reader_ok r \<Longrightarrow> readVarint r = Inr (v, r') \<longleftrightarrow>
     safe_unsigned v \<and> starts r (varint v) \<and> r' = after (varint v) r"
  by (auto simp: readVarint_def rbind_eq_Inr decodeUnsignedVarint_iff after_def)

lemma starts_remaining: "reader_ok r \<Longrightarrow> starts r bs \<Longrightarrow> byteLength bs \<le> remaining r"
  using rest_length [of r] by (auto simp: starts_def)

lemma starts_take: "starts r bs \<longleftrightarrow> length bs \<le> length (rest_of r) \<and> take (length bs) (rest_of r) = bs"
  by (auto simp: starts_def intro: exI [of _ "drop (length bs) (rest_of r)"])
    (metis append_take_drop_id)

lemma readBytes_canonical:
  assumes "reader_ok r"
  shows "readBytes n r = Inr (bs, r') \<longleftrightarrow>
    safe_unsigned n \<and> byteLength bs = n \<and> starts r bs \<and> r' = after bs r"
proof (cases "safe_unsigned n \<and> n \<le> remaining r")
  case True
  then have len: "length (take (nat n) (rest_of r)) = nat n" "nat n \<le> length (rest_of r)"
    using rest_length [OF assms] by auto
  have size: "byteLength (take (nat n) (rest_of r)) = n" using len True by auto
  have "readBytes n r = Inr (take (nat n) (rest_of r), after (take (nat n) (rest_of r)) r)"
    using True unfolding after_def size by (auto simp: readBytes_def simp flip: rest_of_def)
  then show ?thesis using True len by (auto simp: starts_take)
next
  case False
  then show ?thesis
    using starts_remaining [OF assms, of bs] by (auto simp: readBytes_def rbind_eq_Inr)
qed

lemma readByte_canonical:
  assumes "reader_ok r"
  shows "readByte r = Inr (v, r') \<longleftrightarrow>
    0 \<le> v \<and> v < 256 \<and> starts r [word_of_int v] \<and> r' = after [word_of_int v] r"
proof (cases "rest_of r")
  case Nil
  then show ?thesis using rest_length [OF assms] by (auto simp: readByte_def starts_def)
next
  case (Cons b t)
  then have len: "\<not> remaining r < 1" using rest_length [OF assms] by simp
  then have "nat (reader_offset r) < length (reader_input r)" using assms by (auto simp: remaining_def reader_ok_def)
  then have b: "reader_input r ! nat (reader_offset r) = b"
    using Cons by (metis Cons_nth_drop_Suc list.inject rest_of_def)
  have range: "0 \<le> uint b" "uint b < 256" using uint_bounded [of b] by auto
  have inv: "uint (word_of_int v :: byte) = v" if "0 \<le> v" "v < 256"
    using that by (simp add: unsigned_of_int take_bit_eq_mod)
  show ?thesis
    using len b Cons range inv by (auto simp: readByte_def starts_def after_def)
qed

lemma readLengthPrefixed_canonical:
  assumes "reader_ok r"
  shows "readLengthPrefixedBytes maxLength r = Inr (bs, r') \<longleftrightarrow>
    safe_unsigned maxLength \<and> byteLength bs \<le> maxLength \<and>
    starts r (varint (byteLength bs) @ bs) \<and> r' = after (varint (byteLength bs) @ bs) r"
proof
  assume "readLengthPrefixedBytes maxLength r = Inr (bs, r')"
  then obtain len r1 where "safe_unsigned maxLength" "readVarint r = Inr (len, r1)" "len \<le> maxLength"
      "readBytes len r1 = Inr (bs, r')"
    by (auto simp: readLengthPrefixedBytes_def rbind_eq_Inr not_less split: if_splits)
  moreover from this have "starts r (varint len)" "r1 = after (varint len) r"
    using assms by (simp_all add: readVarint_canonical)
  moreover from this have "reader_ok r1" using starts_ok [OF assms, of "varint len"] by simp
  ultimately show "safe_unsigned maxLength \<and> byteLength bs \<le> maxLength \<and>
      starts r (varint (byteLength bs) @ bs) \<and> r' = after (varint (byteLength bs) @ bs) r"
    using assms by (auto simp: readBytes_canonical starts_append after_after)
next
  assume right: "safe_unsigned maxLength \<and> byteLength bs \<le> maxLength \<and>
      starts r (varint (byteLength bs) @ bs) \<and> r' = after (varint (byteLength bs) @ bs) r"
  then have parts: "starts r (varint (byteLength bs))"
      "starts (after (varint (byteLength bs)) r) bs"
    using assms by (auto simp: starts_append)
  have safe: "safe_unsigned (byteLength bs)"
    using right by (auto simp: isSafeInteger_def)
  have "readVarint r = Inr (byteLength bs, after (varint (byteLength bs)) r)"
    using assms parts safe by (simp add: readVarint_canonical)
  moreover have "readBytes (byteLength bs) (after (varint (byteLength bs)) r) = Inr (bs, r')"
    using starts_ok [OF assms parts(1)] parts(2) safe right by (simp add: readBytes_canonical after_after)
  ultimately show "readLengthPrefixedBytes maxLength r = Inr (bs, r')"
    using right by (simp add: readLengthPrefixedBytes_def)
qed

lemma expectBytes_canonical:
  assumes "reader_ok r"
  shows "expectBytes e r = Inr r' \<longleftrightarrow> starts r e \<and> r' = after e r"
proof -
  have "safe_unsigned (byteLength e)" if "starts r e"
    using starts_remaining [OF assms that] assms by (auto simp: isSafeInteger_def reader_ok_def remaining_def)
  then show ?thesis
    using assms
    by (auto simp: expectBytes_def rbind_eq_Inr readBytes_canonical split: if_splits)
qed

interpretation varint_codec: canonical_codec varint "\<lambda>v. safe_unsigned v" readVarint
  by unfold_locales (rule readVarint_canonical)

interpretation byte_codec: canonical_codec "\<lambda>v. [word_of_int v]" "\<lambda>v. 0 \<le> v \<and> v < 256" readByte
  by unfold_locales (simp add: readByte_canonical)

interpretation bytes_codec: canonical_codec "\<lambda>bs. bs" "\<lambda>bs. safe_unsigned n \<and> byteLength bs = n" "readBytes n"
  for n
  by unfold_locales (auto simp: readBytes_canonical)

interpretation prefixed_codec: canonical_codec "\<lambda>bs. varint (byteLength bs) @ bs"
  "\<lambda>bs. safe_unsigned maxLength \<and> byteLength bs \<le> maxLength" "readLengthPrefixedBytes maxLength"
  for maxLength
  by unfold_locales (auto simp: readLengthPrefixed_canonical)

lemmas canonical_reads =
  readVarint_canonical readByte_canonical readBytes_canonical readLengthPrefixed_canonical
  expectBytes_canonical

text \<open>A single byte as a chunk, kept whole by the rewriting of layouts.\<close>

definition byte1 :: "int \<Rightarrow> bytes" where
  "byte1 v = [word_of_int v]"

lemma length_byte1 [simp]: "length (byte1 v) = 1"
  by (simp add: byte1_def)

lemma readByte_one:
  "reader_ok r \<Longrightarrow> readByte r = Inr (v, r') \<longleftrightarrow>
     0 \<le> v \<and> v < 256 \<and> starts r (byte1 v) \<and> r' = after (byte1 v) r"
  by (simp add: readByte_canonical byte1_def)

text \<open>Rewriting a decoder, guard by guard and read by read, into what its input looks like.\<close>

lemmas decoding = canonical_reads rbind_eq_Inr guard_eq_Inr split_paired_Ex prod.case

lemmas decoding_chunks = readVarint_canonical readByte_one readBytes_canonical readLengthPrefixed_canonical
  expectBytes_canonical rbind_eq_Inr guard_eq_Inr split_paired_Ex prod.case

lemmas layout = rest_chunk starts_append after_append

subsection \<open>What a writer has written\<close>

text \<open>The writer that holds the given chunks; every write within the safe range adds one.\<close>

definition writer_at :: "bytes list \<Rightarrow> canonical_writer" where
  "writer_at vs = \<lparr>parts = vs, writer_length = byteLength (concat vs)\<rparr>"

lemma new_writer [simp]: "newCanonicalWriter = writer_at []"
  by (simp add: newCanonicalWriter_def writer_at_def)

lemma finish_writer [simp]: "finish (writer_at vs) = concat vs"
  by (simp add: finish_def writer_at_def)

lemma writeBytes_at:
  "writeBytes v (writer_at vs) = Inr w' \<longleftrightarrow>
     byteLength (concat vs) + byteLength v \<le> MAX_SAFE_INTEGER \<and> w' = writer_at (vs @ [v])"
  by (auto simp: writeBytes_def writer_at_def)

lemma writeVarint_at:
  "writeVarint n (writer_at vs) = Inr w' \<longleftrightarrow> safe_unsigned n \<and>
     byteLength (concat vs) + int (varint_length n) \<le> MAX_SAFE_INTEGER \<and> w' = writer_at (vs @ [varint n])"
  by (auto simp: writeVarint_def rbind_eq_Inr encodeUnsignedVarint_Inr writeBytes_at)

lemma writeByte_at:
  "writeByte v (writer_at vs) = Inr w' \<longleftrightarrow> 0 \<le> v \<and> v < 256 \<and>
     byteLength (concat vs) + 1 \<le> MAX_SAFE_INTEGER \<and> w' = writer_at (vs @ [[word_of_int v]])"
  by (auto simp: writeByte_def writeBytes_at)

lemma writePrefixed_at:
  "writeLengthPrefixedBytes v (writer_at vs) = Inr w' \<longleftrightarrow>
     byteLength (concat vs) + int (varint_length (byteLength v)) + byteLength v \<le> MAX_SAFE_INTEGER \<and>
     w' = writer_at (vs @ [varint (byteLength v), v])"
  by (auto simp: writeLengthPrefixedBytes_def rbind_eq_Inr writeVarint_at writeBytes_at isSafeInteger_def)

lemma writeByte_one_at:
  "writeByte v (writer_at vs) = Inr w' \<longleftrightarrow> 0 \<le> v \<and> v < 256 \<and>
     byteLength (concat vs) + 1 \<le> MAX_SAFE_INTEGER \<and> w' = writer_at (vs @ [byte1 v])"
  by (simp add: writeByte_at byte1_def)

lemmas writes_at = writeBytes_at writeVarint_at writeByte_at writePrefixed_at

subsection \<open>Properties\<close>

text \<open>C8. Canonical varints: decoding at an offset of an input returns a value exactly when the bytes
  found there are the encoding of that value, and then the offset behind it; every other input,
  truncated, overlong or beyond the safe integers, is an exception.\<close>

theorem varint_decodes_only_its_encoding:
  assumes "0 \<le> off" and "off \<le> byteLength bs" and "byteLength bs \<le> MAX_SAFE_INTEGER"
  shows "decodeUnsignedVarint bs off = Inr (v, next) \<longleftrightarrow>
    (\<exists>encoded tail. encodeUnsignedVarint v = Inr encoded \<and> drop (nat off) bs = encoded @ tail \<and>
       next = off + byteLength encoded)"
proof -
  let ?r = "\<lparr>reader_input = bs, reader_offset = off\<rparr>"
  have "reader_ok ?r" using assms by (simp add: reader_ok_def)
  from decodeUnsignedVarint_iff [OF this, of v "next"] show ?thesis
    by (auto simp: encodeUnsignedVarint_Inr starts_def rest_of_def)
qed

theorem varint_decodes_only_its_encoding_witness:
  "decodeUnsignedVarint [7, 0xAC, 0x02, 9] 1 = Inr (300, 3)"
proof -
  have "encodeUnsignedVarint 300 = Inr [0xAC, 0x02]" by code_simp
  then show ?thesis
    using varint_decodes_only_its_encoding [of 1 "[7, 0xAC, 0x02, 9]" 300 3]
    by (simp add: MAX_SAFE_INTEGER_def)
qed

text \<open>Size of varints: every safe non-negative integer has an encoding, of as many bytes as
  \<open>unsignedVarintLength\<close> announces, between one and eight, and nothing else has one.\<close>

theorem varint_encoding_size:
  "(encodeUnsignedVarint v = Inr bs) =
     (unsignedVarintLength v = Inr (byteLength bs) \<and> bs = varint v \<and> 1 \<le> length bs \<and> length bs \<le> 8)"
proof (cases "safe_unsigned v")
  case True
  then have v: "0 \<le> v" "v \<le> MAX_SAFE_INTEGER" using safe_unsigned_iff by auto
  obtain m where m: "varint_length v = Suc m" using varint_length_pos [of v] by (cases "varint_length v") auto
  have "m \<le> 7"
  proof (rule ccontr)
    assume "\<not> m \<le> 7"
    then have "(128::int) ^ 8 \<le> 128 ^ m" by (intro power_increasing) auto
    also have "\<dots> \<le> v" using varint_length_iff [OF v(1), of m] m \<open>\<not> m \<le> 7\<close> by simp
    finally show False using v(2) by (simp add: MAX_SAFE_INTEGER_def)
  qed
  then show ?thesis using True m by (auto simp: encodeUnsignedVarint_Inr unsignedVarintLength_Inr)
next
  case False
  then show ?thesis
    by (auto simp: encodeUnsignedVarint_Inr unsignedVarintLength_def rbind_eq_Inr)
qed

end
