(* ===== verification/FastCDC.thy ===== *)
theory FastCDC
  imports Canonical_Binary
begin

text \<open>
  Content-defined chunking, \<^verbatim>\<open>src/infrastructure/content-store/fastcdc.ts\<close>: the fixed Gear profile,
  the pure partition of an input and the streaming builder. The fingerprint is a 32-bit word, as
  \<^verbatim>\<open>| 0\<close> makes it in the source.
\<close>

subsection \<open>The profile\<close>

definition MINIMUM_BYTES :: int where "MINIMUM_BYTES = 16 * 1024"
definition AVERAGE_BYTES :: int where "AVERAGE_BYTES = 64 * 1024"
definition MAXIMUM_BYTES :: int where "MAXIMUM_BYTES = 256 * 1024"
definition PRE_AVERAGE_MASK :: "32 word" where "PRE_AVERAGE_MASK = 0x0003FFFF"
definition POST_AVERAGE_MASK :: "32 word" where "POST_AVERAGE_MASK = 0x00003FFF"

text \<open>The xorshift expansion of \<^verbatim>\<open>createGearTable\<close>, for the given number of entries.\<close>

fun createGearTable :: "nat \<Rightarrow> 32 word \<Rightarrow> 32 word list" where
  "createGearTable 0 state = []"
| "createGearTable (Suc n) state =
     (let s1 = state XOR push_bit 13 state;
          s2 = s1 XOR drop_bit 17 s1;
          s3 = s2 XOR push_bit 5 s2
      in s3 # createGearTable n s3)"

definition GEAR_TABLE :: "32 word list" where
  "GEAR_TABLE = createGearTable 256 0x243F6A88"

subsection \<open>The next boundary\<close>

text \<open>One scanning loop: the first index whose fingerprint the mask clears, or the last fingerprint.\<close>

fun gear_scan :: "32 word \<Rightarrow> bytes \<Rightarrow> 32 word \<Rightarrow> int \<Rightarrow> int option \<times> 32 word" where
  "gear_scan m [] fingerprint index = (None, fingerprint)"
| "gear_scan m (b # bs) fingerprint index =
     (let fp = push_bit 1 fingerprint + GEAR_TABLE ! unat b
      in if fp AND m = 0 then (Some index, fp) else gear_scan m bs fp (index + 1))"

definition subarray :: "int \<Rightarrow> int \<Rightarrow> bytes \<Rightarrow> bytes" where
  "subarray lo hi bs = take (nat (hi - lo)) (drop (nat lo) bs)"

definition nextChunkLength :: "bytes \<Rightarrow> int \<Rightarrow> int" where
  "nextChunkLength input start =
     (let remaining = byteLength input - start in
      if remaining \<le> MINIMUM_BYTES then remaining
      else let boundedLength = min remaining MAXIMUM_BYTES;
               normalLength = min boundedLength AVERAGE_BYTES;
               normalEnd = start + normalLength
        in (case gear_scan PRE_AVERAGE_MASK (subarray (start + MINIMUM_BYTES) normalEnd input) 0
                   (start + MINIMUM_BYTES) of
              (Some index, _) \<Rightarrow> index - start
            | (None, fingerprint) \<Rightarrow>
                (case gear_scan POST_AVERAGE_MASK (subarray normalEnd (start + boundedLength) input)
                        fingerprint normalEnd of
                   (Some index, _) \<Rightarrow> index - start
                 | (None, _) \<Rightarrow> boundedLength)))"

subsection \<open>The pure partition\<close>

record fastcdc_chunk =
  chunk_offset :: int
  chunk_length :: int

function chunk_loop :: "bytes \<Rightarrow> int \<Rightarrow> fastcdc_chunk list result" where
  "chunk_loop input off =
     (if off < byteLength input
      then let len = nextChunkLength input off
        in if len \<le> 0 then Inl RangeError
           else rbind (chunk_loop input (off + len)) (\<lambda>chunks.
             Inr (\<lparr>chunk_offset = off, chunk_length = len\<rparr> # chunks))
      else Inr [])"
  by pat_completeness auto
termination
  by (relation "measure (\<lambda>(input, off). nat (byteLength input - off))") auto

declare chunk_loop.simps [simp del]

definition chunkFastCdcV1 :: "bytes \<Rightarrow> fastcdc_chunk list result" where
  "chunkFastCdcV1 input = chunk_loop input 0"

subsection \<open>The streaming builder\<close>

record stream_chunk =
  sc_offset :: int
  sc_length :: int
  sc_bytes :: bytes

text \<open>
  The builder's fields; \<open>buffered\<close> is the used prefix of the fixed buffer, \<open>sunk\<close> what the sink was
  given. The sink is a parameter: whether it settles or rejects the chunk it is given.
\<close>

record stream_builder =
  buffered :: bytes
  chunkCount :: int
  decodedBytes :: int
  active :: bool
  settled :: bool
  failed :: bool
  sunk :: "stream_chunk list"

definition newStreamBuilder :: stream_builder where
  "newStreamBuilder = \<lparr>buffered = [], chunkCount = 0, decodedBytes = 0, active = False,
     settled = False, failed = False, sunk = []\<rparr>"

definition beginOperation :: "stream_builder \<Rightarrow> stream_builder result" where
  "beginOperation b =
     (if active b then Inl PlainError
      else if settled b \<or> failed b then Inl PlainError
      else Inr (b\<lparr>active := True\<rparr>))"

definition emitOneChunk ::
  "(stream_chunk \<Rightarrow> bool) \<Rightarrow> stream_builder \<Rightarrow> stream_builder \<times> unit result" where
  "emitOneChunk sink b =
     (let len = nextChunkLength (buffered b) 0 in
      if len \<le> 0 \<or> len > byteLength (buffered b) then (b, Inl RangeError)
      else let chunk = \<lparr>sc_offset = decodedBytes b, sc_length = len, sc_bytes = subarray 0 len (buffered b)\<rparr>;
               b1 = b\<lparr>buffered := drop (nat len) (buffered b)\<rparr>
        in if len > MAX_SAFE_INTEGER - decodedBytes b1 then (b1, Inl RangeError)
           else if chunkCount b1 = MAX_SAFE_INTEGER then (b1, Inl RangeError)
           else let b2 = b1\<lparr>decodedBytes := decodedBytes b1 + len, chunkCount := chunkCount b1 + 1,
                            sunk := sunk b1 @ [chunk]\<rparr>
             in (b2, if sink chunk then Inr () else Inl PlainError))"

text \<open>
  The loop of \<^verbatim>\<open>push\<close> over the unread input. A buffer longer than its capacity would make it spin,
  so its value is optional; that it always returns is proved.
\<close>

partial_function (option) push_loop ::
  "(stream_chunk \<Rightarrow> bool) \<Rightarrow> bytes \<Rightarrow> stream_builder \<Rightarrow> (stream_builder \<times> unit result) option" where
  "push_loop sink unread b =
     (if unread = [] then Some (b, Inr ())
      else let copied = nat (min (byteLength unread) (MAXIMUM_BYTES - byteLength (buffered b)));
               b1 = b\<lparr>buffered := buffered b @ take copied unread\<rparr>
        in if byteLength (buffered b1) = MAXIMUM_BYTES
           then (case emitOneChunk sink b1 of
                   (b2, Inl e) \<Rightarrow> Some (b2, Inl e)
                 | (b2, Inr _) \<Rightarrow> push_loop sink (drop copied unread) b2)
           else push_loop sink (drop copied unread) b1)"

text \<open>The \<^verbatim>\<open>catch\<close> and \<^verbatim>\<open>finally\<close> clauses around either operation.\<close>

definition settle :: "stream_builder \<times> 'a result \<Rightarrow> stream_builder \<times> 'a result" where
  "settle out = (case out of
     (b, Inl e) \<Rightarrow> (b\<lparr>failed := True, active := False\<rparr>, Inl e)
   | (b, Inr x) \<Rightarrow> (b\<lparr>active := False\<rparr>, Inr x))"

definition push ::
  "(stream_chunk \<Rightarrow> bool) \<Rightarrow> bytes \<Rightarrow> stream_builder \<Rightarrow> (stream_builder \<times> unit result) option" where
  "push sink chunk b =
     (case beginOperation b of
        Inl e \<Rightarrow> Some (b, Inl e)
      | Inr b1 \<Rightarrow> map_option settle (push_loop sink chunk b1))"

function finish_loop ::
  "(stream_chunk \<Rightarrow> bool) \<Rightarrow> stream_builder \<Rightarrow> stream_builder \<times> unit result" where
  "finish_loop sink b =
     (if buffered b \<noteq> []
      then (case emitOneChunk sink b of
              (b1, Inl e) \<Rightarrow> (b1, Inl e)
            | (b1, Inr _) \<Rightarrow> finish_loop sink b1)
      else (b, Inr ()))"
  by pat_completeness auto
termination
  by (relation "measure (\<lambda>(sink, b). length (buffered b))")
    (auto simp: emitOneChunk_def Let_def split: if_splits)

declare finish_loop.simps [simp del]

definition finishStream ::
  "(stream_chunk \<Rightarrow> bool) \<Rightarrow> stream_builder \<Rightarrow> stream_builder \<times> (int \<times> int) result" where
  "finishStream sink b =
     (case beginOperation b of
        Inl e \<Rightarrow> (b, Inl e)
      | Inr b1 \<Rightarrow> settle
          (case finish_loop sink b1 of
             (b2, Inl e) \<Rightarrow> (b2, Inl e)
           | (b2, Inr _) \<Rightarrow> (b2\<lparr>settled := True\<rparr>, Inr (chunkCount b2, decodedBytes b2))))"

subsection \<open>Boundaries\<close>

lemmas profile = MINIMUM_BYTES_def AVERAGE_BYTES_def MAXIMUM_BYTES_def

lemma gear_scan_range:
  "gear_scan m bs fp i = (Some k, fp') \<Longrightarrow> i \<le> k \<and> k < i + byteLength bs"
  by (induction m bs fp i rule: gear_scan.induct) (fastforce simp: Let_def split: if_splits)+

lemma gear_scan_shift:
  "gear_scan m bs fp (i + d) = (map_option (\<lambda>k. k + d) (fst (gear_scan m bs fp i)), snd (gear_scan m bs fp i))"
  by (induction m bs fp i rule: gear_scan.induct) (auto simp: Let_def algebra_simps)

lemma window_nat: "0 \<le> lo \<Longrightarrow> hi \<le> byteLength bs \<Longrightarrow> nat (hi - lo) \<le> length bs - nat lo"
  by linarith

lemma length_subarray: "0 \<le> lo \<Longrightarrow> hi \<le> byteLength bs \<Longrightarrow> length (subarray lo hi bs) = nat (hi - lo)"
  using window_nat [of lo hi bs] by (simp add: subarray_def min_def)

text \<open>The two scans of a window of a chunk, with the ends of its normal and its bounded part.\<close>

definition scan_window :: "bytes \<Rightarrow> int \<Rightarrow> int \<Rightarrow> int \<Rightarrow> int" where
  "scan_window input start normalLength boundedLength =
     (case gear_scan PRE_AVERAGE_MASK (subarray (start + MINIMUM_BYTES) (start + normalLength) input) 0
              (start + MINIMUM_BYTES) of
         (Some index, _) \<Rightarrow> index - start
       | (None, fingerprint) \<Rightarrow>
           (case gear_scan POST_AVERAGE_MASK (subarray (start + normalLength) (start + boundedLength) input)
                   fingerprint (start + normalLength) of
              (Some index, _) \<Rightarrow> index - start
            | (None, _) \<Rightarrow> boundedLength))"

lemma nextChunkLength_form:
  "nextChunkLength input start =
     (if byteLength input - start \<le> MINIMUM_BYTES then byteLength input - start
      else scan_window input start (min (min (byteLength input - start) MAXIMUM_BYTES) AVERAGE_BYTES)
             (min (byteLength input - start) MAXIMUM_BYTES))"
  by (simp only: nextChunkLength_def Let_def scan_window_def)

lemma scan_window_range:
  assumes "0 \<le> start" and "MINIMUM_BYTES \<le> n" and "n \<le> b" and "start + b \<le> byteLength input"
  shows "MINIMUM_BYTES \<le> scan_window input start n b \<and> scan_window input start n b \<le> b"
proof -
  have "length (subarray (start + MINIMUM_BYTES) (start + n) input) = nat (n - MINIMUM_BYTES)"
    using assms by (subst length_subarray) (auto simp: profile)
  moreover have "length (subarray (start + n) (start + b) input) = nat (b - n)"
    using assms by (subst length_subarray) (auto simp: profile)
  ultimately show ?thesis
    using assms by (auto simp: scan_window_def split: prod.splits option.splits dest!: gear_scan_range)
qed

lemma nextChunkLength_bounds:
  assumes "0 \<le> start" and "start < byteLength input"
  shows "0 < nextChunkLength input start \<and> nextChunkLength input start \<le> byteLength input - start
    \<and> nextChunkLength input start \<le> MAXIMUM_BYTES
    \<and> (nextChunkLength input start < MINIMUM_BYTES \<longrightarrow> nextChunkLength input start = byteLength input - start)"
proof (cases "byteLength input - start \<le> MINIMUM_BYTES")
  case True
  then show ?thesis using assms by (simp add: nextChunkLength_form profile)
next
  case False
  then have "MINIMUM_BYTES \<le> nextChunkLength input start
      \<and> nextChunkLength input start \<le> min (byteLength input - start) MAXIMUM_BYTES"
    unfolding nextChunkLength_form if_not_P [OF False]
    using assms by (intro scan_window_range) (auto simp: profile)
  then show ?thesis by (auto simp: profile)
qed

text \<open>A boundary depends on the next maximum-sized window only.\<close>

lemma subarray_drop: "0 \<le> s \<Longrightarrow> 0 \<le> lo \<Longrightarrow> subarray (s + lo) (s + hi) bs = subarray lo hi (drop (nat s) bs)"
  by (simp add: subarray_def nat_add_distrib add.commute)

lemma gear_scan_at:
  "gear_scan m bs fp (start + i)
     = (map_option (\<lambda>k. start + k) (fst (gear_scan m bs fp i)), snd (gear_scan m bs fp i))"
  using gear_scan_shift [of m bs fp i start] by (simp add: add.commute)

lemma scan_window_drop:
  assumes "0 \<le> start" and "0 \<le> n"
  shows "scan_window input start n b = scan_window (drop (nat start) input) 0 n b"
proof -
  have seg: "subarray (start + lo) (start + hi) input = subarray lo hi (drop (nat start) input)"
    if "0 \<le> lo" for lo hi using assms(1) that by (rule subarray_drop)
  have min: "0 \<le> MINIMUM_BYTES" by (simp add: profile)
  obtain o1 f1 where one: "gear_scan PRE_AVERAGE_MASK (subarray MINIMUM_BYTES n (drop (nat start) input)) 0
      MINIMUM_BYTES = (o1, f1)" by fastforce
  obtain o2 f2 where two: "gear_scan POST_AVERAGE_MASK (subarray n b (drop (nat start) input)) f1 n = (o2, f2)"
    by fastforce
  show ?thesis
    by (cases o1; cases o2)
      (simp_all add: scan_window_def seg [OF min] seg [OF assms(2)] gear_scan_at one two)
qed

lemma nextChunkLength_drop:
  assumes "0 \<le> start" and "start \<le> byteLength input"
  shows "nextChunkLength input start = nextChunkLength (drop (nat start) input) 0"
proof -
  have len: "byteLength (drop (nat start) input) = byteLength input - start" using assms by simp
  show ?thesis
  proof (cases "byteLength input - start \<le> MINIMUM_BYTES")
    case True
    then show ?thesis unfolding nextChunkLength_form len by simp
  next
    case False
    then have "0 \<le> min (min (byteLength input - start) MAXIMUM_BYTES) AVERAGE_BYTES" by (simp add: profile)
    with False show ?thesis
      unfolding nextChunkLength_form len by (simp add: scan_window_drop [OF assms(1)])
  qed
qed

lemma nextChunkLength_window:
  assumes "MAXIMUM_BYTES \<le> byteLength bs"
  shows "nextChunkLength (bs @ t) 0 = nextChunkLength bs 0"
proof -
  have seg: "subarray lo hi (bs @ t) = subarray lo hi bs" if "0 \<le> lo" "hi \<le> MAXIMUM_BYTES" for lo hi
    using that assms window_nat [of lo hi bs] by (auto simp: subarray_def)
  have min: "min (byteLength (bs @ t) - 0) MAXIMUM_BYTES = MAXIMUM_BYTES"
      "min (byteLength bs - 0) MAXIMUM_BYTES = MAXIMUM_BYTES" using assms by auto
  have big: "\<not> byteLength (bs @ t) - 0 \<le> MINIMUM_BYTES" "\<not> byteLength bs - 0 \<le> MINIMUM_BYTES"
    using assms by (auto simp: profile)
  have "subarray (0 + MINIMUM_BYTES) (0 + min MAXIMUM_BYTES AVERAGE_BYTES) (bs @ t)
      = subarray (0 + MINIMUM_BYTES) (0 + min MAXIMUM_BYTES AVERAGE_BYTES) bs"
    and "subarray (0 + min MAXIMUM_BYTES AVERAGE_BYTES) (0 + MAXIMUM_BYTES) (bs @ t)
      = subarray (0 + min MAXIMUM_BYTES AVERAGE_BYTES) (0 + MAXIMUM_BYTES) bs"
    by (rule seg; simp add: profile)+
  then show ?thesis
    unfolding nextChunkLength_form if_not_P [OF big(1)] if_not_P [OF big(2)] min scan_window_def
    by (simp only:)
qed

subsection \<open>The cut of an input\<close>

text \<open>The specification: cut_chunks one boundary after the other off the front.\<close>

function cut_chunks :: "bytes \<Rightarrow> bytes list" where
  "cut_chunks bs = (if bs = [] then []
     else let n = nat (nextChunkLength bs 0) in
       if n = 0 then [] else take n bs # cut_chunks (drop n bs))"
  by pat_completeness auto
termination by (relation "measure length") auto

declare cut_chunks.simps [simp del]

lemma cut_Nil [simp]: "cut_chunks [] = []"
  by (simp add: cut_chunks.simps)

lemma cut_step:
  assumes "bs \<noteq> []"
  shows "cut_chunks bs = take (nat (nextChunkLength bs 0)) bs # cut_chunks (drop (nat (nextChunkLength bs 0)) bs)"
  using assms nextChunkLength_bounds [of 0 bs] by (subst cut_chunks.simps) (simp add: Let_def)

lemma cut_concat: "concat (cut_chunks bs) = bs"
proof (induction bs rule: cut_chunks.induct)
  case (1 bs)
  show ?case
  proof (cases "bs = []")
    case False
    then have "nat (nextChunkLength bs 0) \<noteq> 0" using nextChunkLength_bounds [of 0 bs] by simp
    with 1 False show ?thesis by (simp add: cut_step [OF False])
  qed simp
qed

fun chunk_records :: "int \<Rightarrow> bytes list \<Rightarrow> fastcdc_chunk list" where
  "chunk_records off [] = []"
| "chunk_records off (c # cs) =
     \<lparr>chunk_offset = off, chunk_length = byteLength c\<rparr> # chunk_records (off + byteLength c) cs"

lemma chunk_loop_cut:
  assumes "0 \<le> off" and "off \<le> byteLength input"
  shows "chunk_loop input off = Inr (chunk_records off (cut_chunks (drop (nat off) input)))"
  using assms
proof (induction input off rule: chunk_loop.induct)
  case (1 input off)
  show ?case
  proof (cases "off < byteLength input")
    case False
    then show ?thesis by (subst chunk_loop.simps) simp
  next
    case True
    define n where "n = nextChunkLength input off"
    note bounds = nextChunkLength_bounds [OF "1.prems"(1) True, folded n_def]
    have ih: "chunk_loop input (off + n) = Inr (chunk_records (off + n) (cut_chunks (drop (nat (off + n)) input)))"
      using bounds "1.prems" by (intro "1.IH" [OF True n_def]) auto
    have "drop (nat off) input \<noteq> []" using True "1.prems" by simp
    then have "cut_chunks (drop (nat off) input)
        = take (nat n) (drop (nat off) input) # cut_chunks (drop (nat (off + n)) input)"
      using nextChunkLength_drop [of off input] "1.prems" bounds
      by (subst cut_step) (simp_all add: n_def nat_add_distrib add.commute)
    moreover have "byteLength (take (nat n) (drop (nat off) input)) = n"
      using bounds "1.prems" by (simp, arith)
    ultimately show ?thesis
      using True bounds ih by (subst chunk_loop.simps) (simp add: Let_def n_def [symmetric])
  qed
qed

subsection \<open>The streaming builder cuts the same way\<close>

fun stream_records :: "int \<Rightarrow> bytes list \<Rightarrow> stream_chunk list" where
  "stream_records off [] = []"
| "stream_records off (c # cs) =
     \<lparr>sc_offset = off, sc_length = byteLength c, sc_bytes = c\<rparr> # stream_records (off + byteLength c) cs"

text \<open>
  A builder on its way through an input: what it has sunk is the cut of the bytes it has decoded, and
  the buffer holds the others, whichever of the continuations \<open>T\<close> may follow.
\<close>

definition streaming :: "bytes set \<Rightarrow> stream_builder \<Rightarrow> bytes \<Rightarrow> bool" where
  "streaming T b seen \<longleftrightarrow> (\<exists>chunks. seen = concat chunks @ buffered b \<and> [] \<notin> set chunks \<and>
     sunk b = stream_records 0 chunks \<and> decodedBytes b = byteLength (concat chunks) \<and>
     chunkCount b = int (length chunks) \<and>
     (\<forall>t \<in> T. cut_chunks (seen @ t) = chunks @ cut_chunks (buffered b @ t)))"

lemma streaming_mono: "streaming T b seen \<Longrightarrow> T' \<subseteq> T \<Longrightarrow> streaming T' b seen"
  unfolding streaming_def by blast

lemma stream_records_append:
  "stream_records off (xs @ [c]) =
     stream_records off xs @ [\<lparr>sc_offset = off + byteLength (concat xs), sc_length = byteLength c, sc_bytes = c\<rparr>]"
  by (induction xs arbitrary: off) (auto simp: algebra_simps)

lemma length_nonempty_chunks: "[] \<notin> set chunks \<Longrightarrow> length chunks \<le> length (concat chunks)"
proof (induction chunks)
  case (Cons c chunks)
  then have "0 < length c" "length chunks \<le> length (concat chunks)" by auto
  then have "Suc (length chunks) \<le> length c + length (concat chunks)" by linarith
  then show ?case by simp
qed simp

text \<open>Emitting a chunk is one step of the cut, when the buffer is full or nothing more will come.\<close>

lemma emit_streaming:
  assumes st: "streaming T b seen" and ne: "buffered b \<noteq> []"
    and fin: "MAXIMUM_BYTES \<le> byteLength (buffered b) \<or> T \<subseteq> {[]}"
    and size: "byteLength seen \<le> MAX_SAFE_INTEGER" and sinks: "\<forall>c. sink c"
  shows "\<exists>b'. emitOneChunk sink b = (b', Inr ()) \<and> streaming T b' seen
    \<and> length (buffered b') < length (buffered b)
    \<and> active b' = active b \<and> settled b' = settled b \<and> failed b' = failed b"
proof -
  obtain chunks where d: "seen = concat chunks @ buffered b" "[] \<notin> set chunks"
      "sunk b = stream_records 0 chunks" "decodedBytes b = byteLength (concat chunks)"
      "chunkCount b = int (length chunks)" "\<And>t. t \<in> T \<Longrightarrow> cut_chunks (seen @ t) = chunks @ cut_chunks (buffered b @ t)"
    using st unfolding streaming_def by metis
  define n where "n = nextChunkLength (buffered b) 0"
  have n: "0 < n" "n \<le> byteLength (buffered b)"
    using nextChunkLength_bounds [of 0 "buffered b"] ne by (auto simp: n_def)
  define c where "c = take (nat n) (buffered b)"
  have c: "byteLength c = n" "c \<noteq> []" "buffered b = c @ drop (nat n) (buffered b)"
    using n by (auto simp: c_def min_def)
  have bound: "\<not> n > MAX_SAFE_INTEGER - decodedBytes b"
    using size n d(1,4) by simp
  have "0 < length (buffered b)" using ne by simp
  then have "length chunks < length seen"
    unfolding d(1) length_append using length_nonempty_chunks [OF d(2)] by linarith
  then have few: "chunkCount b \<noteq> MAX_SAFE_INTEGER" using d(5) size by simp
  let ?b' = "b\<lparr>buffered := drop (nat n) (buffered b), decodedBytes := decodedBytes b + n,
     chunkCount := chunkCount b + 1,
     sunk := sunk b @ [\<lparr>sc_offset = decodedBytes b, sc_length = n, sc_bytes = c\<rparr>]\<rparr>"
  have emit: "emitOneChunk sink b = (?b', Inr ())"
    using n bound few sinks
    by (simp add: emitOneChunk_def Let_def n_def [symmetric] c_def subarray_def)
  have step: "cut_chunks (buffered b @ t) = c # cut_chunks (drop (nat n) (buffered b) @ t)" if "t \<in> T" for t
  proof -
    have same: "nextChunkLength (buffered b @ t) 0 = n"
      using fin that nextChunkLength_window [of "buffered b" t] by (auto simp: n_def)
    have "buffered b @ t \<noteq> []" using ne by simp
    from cut_step [OF this] show ?thesis
      unfolding same using n by (simp add: c_def)
  qed
  have "streaming T ?b' seen"
    unfolding streaming_def
    by (rule exI [of _ "chunks @ [c]"])
      (use c d step in \<open>auto simp: stream_records_append\<close>)
  moreover have "length (drop (nat n) (buffered b)) < length (buffered b)" using n ne by simp
  ultimately show ?thesis using emit by (intro exI [of _ ?b']) simp
qed

lemma streaming_feed:
  assumes "streaming UNIV b seen"
  shows "streaming UNIV (b\<lparr>buffered := buffered b @ fed\<rparr>) (seen @ fed)"
proof -
  obtain chunks where d: "seen = concat chunks @ buffered b" "[] \<notin> set chunks"
      "sunk b = stream_records 0 chunks" "decodedBytes b = byteLength (concat chunks)"
      "chunkCount b = int (length chunks)" "\<And>t. cut_chunks (seen @ t) = chunks @ cut_chunks (buffered b @ t)"
    using assms unfolding streaming_def by (metis UNIV_I)
  show ?thesis
    unfolding streaming_def
    by (rule exI [of _ chunks]) (use d d(6) [of "fed @ t" for t] in auto)
qed

text \<open>A push always returns, and has moved the whole input through the builder.\<close>

lemma push_loop_streams:
  assumes "streaming UNIV b seen" and "byteLength (buffered b) < MAXIMUM_BYTES"
    and "byteLength (seen @ unread) \<le> MAX_SAFE_INTEGER" and "\<forall>c. sink c"
  shows "\<exists>b'. push_loop sink unread b = Some (b', Inr ()) \<and> streaming UNIV b' (seen @ unread)
    \<and> byteLength (buffered b') < MAXIMUM_BYTES
    \<and> active b' = active b \<and> settled b' = settled b \<and> failed b' = failed b"
  using assms
proof (induction "length unread" arbitrary: unread b seen rule: less_induct)
  case less
  show ?case
  proof (cases "unread = []")
    case True
    then show ?thesis using less.prems by (subst push_loop.simps) auto
  next
    case False
    define k where "k = nat (min (byteLength unread) (MAXIMUM_BYTES - byteLength (buffered b)))"
    have k: "0 < k" "k \<le> length unread" using False less.prems(2) by (auto simp: k_def)
    let ?b1 = "b\<lparr>buffered := buffered b @ take k unread\<rparr>"
    have one: "streaming UNIV ?b1 (seen @ take k unread)" by (rule streaming_feed [OF less.prems(1)])
    have "int k \<le> MAXIMUM_BYTES - byteLength (buffered b)" using less.prems(2) by (simp add: k_def)
    then have cap: "byteLength (buffered ?b1) \<le> MAXIMUM_BYTES" by simp
    have short: "length (drop k unread) < length unread" using k by simp
    have whole: "(seen @ take k unread) @ drop k unread = seen @ unread" by simp
    have total: "byteLength ((seen @ take k unread) @ drop k unread) \<le> MAX_SAFE_INTEGER"
      unfolding whole by (rule less.prems(3))
    show ?thesis
    proof (cases "byteLength (buffered ?b1) = MAXIMUM_BYTES")
      case False
      have loop: "push_loop sink unread b = push_loop sink (drop k unread) ?b1"
        using False \<open>unread \<noteq> []\<close> by (subst push_loop.simps) (simp add: Let_def k_def)
      have "\<exists>b'. push_loop sink (drop k unread) ?b1 = Some (b', Inr ())
          \<and> streaming UNIV b' ((seen @ take k unread) @ drop k unread)
          \<and> byteLength (buffered b') < MAXIMUM_BYTES
          \<and> active b' = active ?b1 \<and> settled b' = settled ?b1 \<and> failed b' = failed ?b1"
        by (rule less.hyps [OF short one _ total less.prems(4)]) (use cap False in simp)
      then show ?thesis unfolding loop whole by simp
    next
      case True
      then have ne: "buffered ?b1 \<noteq> []" by (auto simp: profile)
      have seen1: "byteLength (seen @ take k unread) \<le> MAX_SAFE_INTEGER" using less.prems(3) by simp
      obtain b2 where b2: "emitOneChunk sink ?b1 = (b2, Inr ())" "streaming UNIV b2 (seen @ take k unread)"
          "length (buffered b2) < length (buffered ?b1)"
          "active b2 = active ?b1" "settled b2 = settled ?b1" "failed b2 = failed ?b1"
        using emit_streaming [OF one ne _ seen1 less.prems(4)] True by auto
      have loop: "push_loop sink unread b = push_loop sink (drop k unread) b2"
        using True b2(1) \<open>unread \<noteq> []\<close> by (subst push_loop.simps) (simp add: Let_def k_def)
      have "\<exists>b'. push_loop sink (drop k unread) b2 = Some (b', Inr ())
          \<and> streaming UNIV b' ((seen @ take k unread) @ drop k unread)
          \<and> byteLength (buffered b') < MAXIMUM_BYTES
          \<and> active b' = active b2 \<and> settled b' = settled b2 \<and> failed b' = failed b2"
        by (rule less.hyps [OF short b2(2) _ total less.prems(4)]) (use b2(3) True in simp)
      then show ?thesis using b2(4-6) unfolding loop whole by simp
    qed
  qed
qed

lemma finish_loop_streams:
  assumes "streaming {[]} b seen" and "byteLength seen \<le> MAX_SAFE_INTEGER" and "\<forall>c. sink c"
  shows "\<exists>b'. finish_loop sink b = (b', Inr ()) \<and> streaming {[]} b' seen \<and> buffered b' = []
    \<and> active b' = active b \<and> settled b' = settled b \<and> failed b' = failed b"
  using assms
proof (induction "length (buffered b)" arbitrary: b rule: less_induct)
  case less
  show ?case
  proof (cases "buffered b = []")
    case True
    then show ?thesis using less.prems(1) by (subst finish_loop.simps) simp
  next
    case False
    obtain b1 where b1: "emitOneChunk sink b = (b1, Inr ())" "streaming {[]} b1 seen"
        "length (buffered b1) < length (buffered b)"
        "active b1 = active b" "settled b1 = settled b" "failed b1 = failed b"
      using emit_streaming [OF less.prems(1) False _ less.prems(2,3)] by auto
    from less.hyps [OF b1(3,2) less.prems(2,3)] b1 False show ?thesis
      by (subst finish_loop.simps) simp
  qed
qed

subsection \<open>Properties\<close>

text \<open>Pushing several inputs one after the other; a push that does not return or fails stops the run.\<close>

fun push_all ::
  "(stream_chunk \<Rightarrow> bool) \<Rightarrow> bytes list \<Rightarrow> stream_builder \<Rightarrow> stream_builder option" where
  "push_all sink [] b = Some b"
| "push_all sink (i # is) b =
     (case push sink i b of
        Some (b', Inr _) \<Rightarrow> push_all sink is b'
      | _ \<Rightarrow> None)"

lemma push_all_streams:
  assumes "streaming UNIV b seen" and "byteLength (buffered b) < MAXIMUM_BYTES"
    and "\<not> active b" and "\<not> settled b" and "\<not> failed b"
    and "byteLength (seen @ concat inputs) \<le> MAX_SAFE_INTEGER" and "\<forall>c. sink c"
  shows "\<exists>b'. push_all sink inputs b = Some b' \<and> streaming UNIV b' (seen @ concat inputs)
    \<and> \<not> active b' \<and> \<not> settled b' \<and> \<not> failed b'"
  using assms
proof (induction inputs arbitrary: b seen)
  case Nil
  then show ?case by simp
next
  case (Cons i inputs)
  let ?b0 = "b\<lparr>active := True\<rparr>"
  have started: "beginOperation b = Inr ?b0" using Cons.prems(3-5) by (simp add: beginOperation_def)
  have st0: "streaming UNIV ?b0 seen" using Cons.prems(1) by (simp add: streaming_def)
  obtain b1 where b1: "push_loop sink i ?b0 = Some (b1, Inr ())" "streaming UNIV b1 (seen @ i)"
      "byteLength (buffered b1) < MAXIMUM_BYTES" "settled b1 = settled ?b0" "failed b1 = failed ?b0"
    using push_loop_streams [OF st0, of i sink] Cons.prems(2,6,7) by auto
  have "push sink i b = Some (b1\<lparr>active := False\<rparr>, Inr ())"
    by (simp add: push_def started b1(1) settle_def)
  moreover have "\<exists>b'. push_all sink inputs (b1\<lparr>active := False\<rparr>) = Some b'
      \<and> streaming UNIV b' ((seen @ i) @ concat inputs) \<and> \<not> active b' \<and> \<not> settled b' \<and> \<not> failed b'"
    by (rule Cons.IH) (use b1 Cons.prems in \<open>auto simp: streaming_def\<close>)
  ultimately show ?case by simp
qed

lemma cut_lengths:
  assumes "cut_chunks bs = xs @ c # ys"
  shows "0 < length c \<and> byteLength c \<le> MAXIMUM_BYTES \<and> (ys \<noteq> [] \<longrightarrow> MINIMUM_BYTES \<le> byteLength c)"
  using assms
proof (induction bs arbitrary: xs rule: cut_chunks.induct)
  case (1 bs)
  show ?case
  proof (cases "bs = []")
    case True
    with 1 show ?thesis by simp
  next
    case False
    define n where "n = nextChunkLength bs 0"
    have n: "0 < n" "n \<le> byteLength bs" "n \<le> MAXIMUM_BYTES" "n < MINIMUM_BYTES \<longrightarrow> n = byteLength bs"
      using nextChunkLength_bounds [of 0 bs] False by (auto simp: n_def)
    note step = cut_step [OF False, folded n_def]
    show ?thesis
    proof (cases xs)
      case Nil
      then have c: "c = take (nat n) bs" and ys: "ys = cut_chunks (drop (nat n) bs)" using "1.prems" step by simp_all
      have "byteLength c = n" using n by (simp add: c)
      moreover have "n < byteLength bs" if "ys \<noteq> []" using that n(2) ys by (cases "n = byteLength bs") auto
      ultimately show ?thesis using n by auto
    next
      case (Cons x xs')
      then have "cut_chunks (drop (nat n) bs) = xs' @ c # ys" using "1.prems" step by simp
      then show ?thesis using "1.IH" [OF False refl] n(1) by (simp add: n_def)
    qed
  qed
qed

text \<open>C10. The partition: chunking any input returns, never the no-progress exception; the chunks lie one
  behind the other from offset 0 on and together are the input, each is between 1 byte and the maximum,
  and all but the last are at least the minimum.\<close>

theorem fastcdc_partitions_the_input:
  "\<exists>chunks. chunkFastCdcV1 bs = Inr (chunk_records 0 chunks) \<and> concat chunks = bs \<and>
     list_all (\<lambda>c. 0 < length c \<and> byteLength c \<le> MAXIMUM_BYTES) chunks \<and>
     list_all (\<lambda>c. MINIMUM_BYTES \<le> byteLength c) (butlast chunks)"
proof (intro exI conjI)
  show "chunkFastCdcV1 bs = Inr (chunk_records 0 (cut_chunks bs))"
    using chunk_loop_cut [of 0 bs] by (simp add: chunkFastCdcV1_def)
  show "concat (cut_chunks bs) = bs" by (rule cut_concat)
  show "list_all (\<lambda>c. 0 < length c \<and> byteLength c \<le> MAXIMUM_BYTES) (cut_chunks bs)"
    unfolding list_all_iff
  proof
    fix c assume "c \<in> set (cut_chunks bs)"
    then obtain xs ys where "cut_chunks bs = xs @ c # ys" using split_list by fast
    from cut_lengths [OF this] show "0 < length c \<and> byteLength c \<le> MAXIMUM_BYTES" by simp
  qed
  show "list_all (\<lambda>c. MINIMUM_BYTES \<le> byteLength c) (butlast (cut_chunks bs))"
  proof (cases "cut_chunks bs" rule: rev_cases)
    case (snoc cs l)
    have "MINIMUM_BYTES \<le> byteLength c" if "c \<in> set cs" for c
    proof -
      from split_list [OF that] obtain xs ys where "cs = xs @ c # ys" by blast
      then have "cut_chunks bs = xs @ c # (ys @ [l])" using snoc by simp
      from cut_lengths [OF this] show ?thesis by simp
    qed
    with snoc show ?thesis by (simp add: list_all_iff)
  qed simp
qed

text \<open>C11. Streaming: however an input is split into pushes, with a sink that settles, every push returns,
  finishing returns the totals, and the sink has received, in order and with their offsets and bytes,
  exactly the chunks of the partition of the whole input.\<close>

theorem streaming_equals_the_partition:
  assumes "byteLength (concat inputs) \<le> MAX_SAFE_INTEGER" and "\<forall>c. sink c"
  shows "\<exists>b b' chunks. push_all sink inputs newStreamBuilder = Some b
    \<and> finishStream sink b = (b', Inr (int (length chunks), byteLength (concat inputs)))
    \<and> sunk b' = stream_records 0 chunks \<and> concat chunks = concat inputs
    \<and> chunkFastCdcV1 (concat inputs) = Inr (chunk_records 0 chunks)"
proof -
  have "streaming UNIV newStreamBuilder []" by (simp add: streaming_def newStreamBuilder_def)
  then obtain b where b: "push_all sink inputs newStreamBuilder = Some b"
      "streaming UNIV b (concat inputs)" "\<not> active b" "\<not> settled b" "\<not> failed b"
    using push_all_streams [of newStreamBuilder "[]" inputs sink] assms
    by (auto simp: newStreamBuilder_def profile)
  let ?b0 = "b\<lparr>active := True\<rparr>"
  have st: "streaming {[]} ?b0 (concat inputs)"
    using streaming_mono [OF b(2), of "{[]}"] by (simp add: streaming_def)
  obtain b1 where b1: "finish_loop sink ?b0 = (b1, Inr ())" "streaming {[]} b1 (concat inputs)" "buffered b1 = []"
    using finish_loop_streams [OF st assms] by blast
  then obtain chunks where c: "concat inputs = concat chunks" "sunk b1 = stream_records 0 chunks"
      "decodedBytes b1 = byteLength (concat chunks)" "chunkCount b1 = int (length chunks)"
      "cut_chunks (concat inputs) = chunks"
    by (auto simp: streaming_def)
  have "beginOperation b = Inr ?b0" using b(3-5) by (simp add: beginOperation_def)
  then have "finishStream sink b = (b1\<lparr>settled := True, active := False\<rparr>,
      Inr (int (length chunks), byteLength (concat inputs)))"
    by (simp add: finishStream_def b1(1) settle_def c)
  moreover have "chunkFastCdcV1 (concat inputs) = Inr (chunk_records 0 chunks)"
    using chunk_loop_cut [of 0 "concat inputs"] c(5) by (simp add: chunkFastCdcV1_def)
  ultimately show ?thesis using b(1) c(1,2)
    by (intro exI [of _ b] exI [of _ "b1\<lparr>settled := True, active := False\<rparr>"] exI [of _ chunks]) simp
qed

theorem streaming_equals_the_partition_witness:
  "\<exists>b b' chunks. push_all (\<lambda>_. True) [[1, 2], [3]] newStreamBuilder = Some b
    \<and> finishStream (\<lambda>_. True) b = (b', Inr (int (length chunks), 3))
    \<and> sunk b' = stream_records 0 chunks \<and> concat chunks = [1, 2, 3]"
  using streaming_equals_the_partition [of "[[1, 2], [3]]" "\<lambda>_. True"]
  by (auto simp: MAX_SAFE_INTEGER_def)

end
