(* ===== verification/Pack_Delta.thy ===== *)
theory Pack_Delta
  imports FastCDC
begin

text \<open>
  The \<^verbatim>\<open>delta1\<close> representation, \<^verbatim>\<open>src/infrastructure/content-store/pack-delta.ts\<close>: programs of COPY and
  ADD instructions over an earlier full base, their validation, canonical encoding and application.
\<close>

subsection \<open>Programs\<close>

definition DELTA1_MAX_TARGET_BYTES :: int where "DELTA1_MAX_TARGET_BYTES = MAXIMUM_BYTES"
definition DELTA1_MAX_BASE_BYTES :: int where "DELTA1_MAX_BASE_BYTES = MAXIMUM_BYTES"
definition DELTA1_MAX_INSTRUCTIONS :: int where "DELTA1_MAX_INSTRUCTIONS = 8 * 1024"
definition DELTA1_MAX_PAYLOAD_BYTES :: int where "DELTA1_MAX_PAYLOAD_BYTES = 256 * 1024"
definition DELTA1_MAX_BASE_BACK_DISTANCE :: int where "DELTA1_MAX_BASE_BACK_DISTANCE = 65535"
definition DELTA1_FORMAT_VERSION :: int where "DELTA1_FORMAT_VERSION = 1"
definition COPY_OPCODE :: int where "COPY_OPCODE = 0"
definition ADD_OPCODE :: int where "ADD_OPCODE = 1"

datatype delta1_instruction =
    Copy int int
  | Add bytes

record delta1_program =
  baseBackDistance :: int
  instructions :: "delta1_instruction list"

abbreviation invalidDelta :: "'a result" where
  "invalidDelta \<equiv> Inl Delta1FormatError"

definition assertPositiveSafeInteger :: "int \<Rightarrow> unit result" where
  "assertPositiveSafeInteger v = (if \<not> isSafeInteger v \<or> v \<le> 0 then invalidDelta else Inr ())"

definition assertTargetLength :: "int \<Rightarrow> unit result" where
  "assertTargetLength targetLength =
     (if \<not> isSafeInteger targetLength \<or> targetLength < 0 \<or> targetLength > DELTA1_MAX_TARGET_BYTES
      then invalidDelta else Inr ())"

definition checkedOutputLength :: "int \<Rightarrow> int \<Rightarrow> int result" where
  "checkedOutputLength current added =
     (if added > DELTA1_MAX_TARGET_BYTES - current then invalidDelta else Inr (current + added))"

fun validate_instructions :: "delta1_instruction list \<Rightarrow> int \<Rightarrow> int result" where
  "validate_instructions [] outputLength = Inr outputLength"
| "validate_instructions (Copy baseOffset len # rest) outputLength =
     (if \<not> isSafeInteger baseOffset \<or> baseOffset < 0 \<or> baseOffset > DELTA1_MAX_BASE_BYTES
      then invalidDelta
      else rbind (assertPositiveSafeInteger len) (\<lambda>_.
        if len > DELTA1_MAX_BASE_BYTES - baseOffset then invalidDelta
        else rbind (checkedOutputLength outputLength len) (validate_instructions rest)))"
| "validate_instructions (Add bs # rest) outputLength =
     rbind (assertPositiveSafeInteger (byteLength bs)) (\<lambda>_.
       rbind (checkedOutputLength outputLength (byteLength bs)) (validate_instructions rest))"

definition validateProgram :: "delta1_program \<Rightarrow> int \<Rightarrow> unit result" where
  "validateProgram program expectedTargetLength =
     rbind (assertTargetLength expectedTargetLength) (\<lambda>_.
     rbind (assertPositiveSafeInteger (baseBackDistance program)) (\<lambda>_.
       if baseBackDistance program > DELTA1_MAX_BASE_BACK_DISTANCE then invalidDelta
       else if length (instructions program) = 0 \<or> int (length (instructions program)) > DELTA1_MAX_INSTRUCTIONS
       then invalidDelta
       else rbind (validate_instructions (instructions program) 0) (\<lambda>outputLength.
         if outputLength \<noteq> expectedTargetLength then invalidDelta else Inr ())))"

subsection \<open>Encoding\<close>

fun measure_instructions :: "delta1_instruction list \<Rightarrow> int \<Rightarrow> int result" where
  "measure_instructions [] len = Inr len"
| "measure_instructions (Copy baseOffset n # rest) len =
     rbind (unsignedVarintLength baseOffset) (\<lambda>a. rbind (unsignedVarintLength n) (\<lambda>b.
       measure_instructions rest (len + 1 + (a + b))))"
| "measure_instructions (Add bs # rest) len =
     rbind (unsignedVarintLength (byteLength bs)) (\<lambda>a.
       measure_instructions rest (len + 1 + (a + byteLength bs)))"

definition measureDelta1ProgramBytes :: "delta1_program \<Rightarrow> int \<Rightarrow> int result" where
  "measureDelta1ProgramBytes program expectedTargetLength =
     rbind (validateProgram program expectedTargetLength) (\<lambda>_.
     rbind (unsignedVarintLength (baseBackDistance program)) (\<lambda>a.
     rbind (unsignedVarintLength (int (length (instructions program)))) (\<lambda>b.
       measure_instructions (instructions program) (1 + a + b))))"

fun write_instructions ::
  "delta1_instruction list \<Rightarrow> canonical_writer \<Rightarrow> canonical_writer result" where
  "write_instructions [] w = Inr w"
| "write_instructions (Copy baseOffset len # rest) w =
     rbind (writeByte COPY_OPCODE w) (\<lambda>w. rbind (writeVarint baseOffset w) (\<lambda>w.
     rbind (writeVarint len w) (write_instructions rest)))"
| "write_instructions (Add bs # rest) w =
     rbind (writeByte ADD_OPCODE w) (\<lambda>w. rbind (writeLengthPrefixedBytes bs w) (write_instructions rest))"

definition encodeDelta1Program :: "delta1_program \<Rightarrow> int \<Rightarrow> bytes result" where
  "encodeDelta1Program program expectedTargetLength =
     rbind (measureDelta1ProgramBytes program expectedTargetLength) (\<lambda>expectedEncodedLength.
       if expectedEncodedLength > DELTA1_MAX_PAYLOAD_BYTES then invalidDelta
       else rbind (writeByte DELTA1_FORMAT_VERSION newCanonicalWriter) (\<lambda>w.
         rbind (writeVarint (baseBackDistance program) w) (\<lambda>w.
         rbind (writeVarint (int (length (instructions program))) w) (\<lambda>w.
         rbind (write_instructions (instructions program) w) (\<lambda>w.
           let encoded = finish w in
           if byteLength encoded \<noteq> expectedEncodedLength then invalidDelta else Inr encoded)))))"

subsection \<open>Decoding\<close>

fun decode_instructions ::
  "nat \<Rightarrow> int \<Rightarrow> canonical_reader \<Rightarrow> (delta1_instruction list \<times> canonical_reader) result" where
  "decode_instructions 0 outputLength r = Inr ([], r)"
| "decode_instructions (Suc n) outputLength r =
     rbind (readByte r) (\<lambda>(opcode, r).
       if opcode = COPY_OPCODE then
         rbind (readVarint r) (\<lambda>(baseOffset, r). rbind (readVarint r) (\<lambda>(len, r).
           if len = 0 then invalidDelta
           else if baseOffset > DELTA1_MAX_BASE_BYTES \<or> len > DELTA1_MAX_BASE_BYTES - baseOffset
           then invalidDelta
           else rbind (checkedOutputLength outputLength len) (\<lambda>outputLength'.
             rbind (decode_instructions n outputLength' r) (\<lambda>(rest, r).
               Inr (Copy baseOffset len # rest, r)))))
       else if opcode = ADD_OPCODE then
         rbind (readLengthPrefixedBytes DELTA1_MAX_TARGET_BYTES r) (\<lambda>(bs, r).
           if byteLength bs = 0 then invalidDelta
           else rbind (checkedOutputLength outputLength (byteLength bs)) (\<lambda>outputLength'.
             rbind (decode_instructions n outputLength' r) (\<lambda>(rest, r). Inr (Add bs # rest, r))))
       else invalidDelta)"

text \<open>The \<^verbatim>\<open>catch\<close> clause: a codec error becomes a delta error.\<close>

fun rethrow_delta :: "'a result \<Rightarrow> 'a result" where
  "rethrow_delta (Inl (CanonicalBinaryError c)) = invalidDelta"
| "rethrow_delta m = m"

definition decodeDelta1Program :: "bytes \<Rightarrow> int \<Rightarrow> delta1_program result" where
  "decodeDelta1Program encoded expectedTargetLength =
     rbind (assertTargetLength expectedTargetLength) (\<lambda>_.
       if byteLength encoded > DELTA1_MAX_PAYLOAD_BYTES then invalidDelta
       else rethrow_delta (
         rbind (readByte (newCanonicalReader encoded)) (\<lambda>(version, r).
           if version \<noteq> DELTA1_FORMAT_VERSION then invalidDelta
           else rbind (readVarint r) (\<lambda>(back, r).
             if back = 0 \<or> back > DELTA1_MAX_BASE_BACK_DISTANCE then invalidDelta
             else rbind (readVarint r) (\<lambda>(instructionCount, r).
               if instructionCount = 0 \<or> instructionCount > DELTA1_MAX_INSTRUCTIONS then invalidDelta
               else rbind (decode_instructions (nat instructionCount) 0 r) (\<lambda>(is, r).
                 rbind (assertEnd r) (\<lambda>_.
                   let program = \<lparr>baseBackDistance = back, instructions = is\<rparr> in
                   rbind (validateProgram program expectedTargetLength) (\<lambda>_. Inr program))))))))"

subsection \<open>Application\<close>

text \<open>\<^verbatim>\<open>TypedArray.prototype.set\<close>: it throws when the source does not fit.\<close>

definition typed_set :: "bytes \<Rightarrow> bytes \<Rightarrow> int \<Rightarrow> bytes result" where
  "typed_set target source off =
     (if off + byteLength source > byteLength target then Inl RangeError
      else Inr (take (nat off) target @ source @ drop (nat off + length source) target))"

fun apply_instructions ::
  "delta1_instruction list \<Rightarrow> bytes \<Rightarrow> bytes \<Rightarrow> int \<Rightarrow> (bytes \<times> int) result" where
  "apply_instructions [] base target targetOffset = Inr (target, targetOffset)"
| "apply_instructions (Copy baseOffset len # rest) base target targetOffset =
     (if baseOffset > byteLength base \<or> len > byteLength base - baseOffset then invalidDelta
      else rbind (typed_set target (subarray baseOffset (baseOffset + len) base) targetOffset) (\<lambda>target'.
        apply_instructions rest base target' (targetOffset + len)))"
| "apply_instructions (Add bs # rest) base target targetOffset =
     rbind (typed_set target bs targetOffset) (\<lambda>target'.
       apply_instructions rest base target' (targetOffset + byteLength bs))"

definition applyDelta1Program :: "delta1_program \<Rightarrow> bytes \<Rightarrow> int \<Rightarrow> bytes result" where
  "applyDelta1Program program base expectedTargetLength =
     rbind (validateProgram program expectedTargetLength) (\<lambda>_.
       if byteLength base > DELTA1_MAX_BASE_BYTES then invalidDelta
       else rbind (apply_instructions (instructions program) base
                     (replicate (nat expectedTargetLength) 0) 0) (\<lambda>(target, targetOffset).
         if targetOffset \<noteq> expectedTargetLength then invalidDelta else Inr target))"

subsection \<open>Valid programs and their bytes\<close>

fun instruction_ok :: "delta1_instruction \<Rightarrow> bool" where
  "instruction_ok (Copy baseOffset len) \<longleftrightarrow>
     0 \<le> baseOffset \<and> 0 < len \<and> baseOffset + len \<le> DELTA1_MAX_BASE_BYTES"
| "instruction_ok (Add bs) \<longleftrightarrow> bs \<noteq> []"

fun output_length :: "delta1_instruction \<Rightarrow> int" where
  "output_length (Copy baseOffset len) = len"
| "output_length (Add bs) = byteLength bs"

definition total_output :: "delta1_instruction list \<Rightarrow> int" where
  "total_output is = sum_list (map output_length is)"

fun instruction_bytes :: "delta1_instruction \<Rightarrow> bytes" where
  "instruction_bytes (Copy baseOffset len) = [0] @ varint baseOffset @ varint len"
| "instruction_bytes (Add bs) = [1] @ varint (byteLength bs) @ bs"

definition program_bytes :: "delta1_program \<Rightarrow> bytes" where
  "program_bytes p = [1] @ varint (baseBackDistance p) @ varint (int (length (instructions p))) @
     concat (map instruction_bytes (instructions p))"

definition program_ok :: "delta1_program \<Rightarrow> int \<Rightarrow> bool" where
  "program_ok p n \<longleftrightarrow> 0 \<le> n \<and> n \<le> DELTA1_MAX_TARGET_BYTES \<and>
     0 < baseBackDistance p \<and> baseBackDistance p \<le> DELTA1_MAX_BASE_BACK_DISTANCE \<and>
     instructions p \<noteq> [] \<and> int (length (instructions p)) \<le> DELTA1_MAX_INSTRUCTIONS \<and>
     list_all instruction_ok (instructions p) \<and> total_output (instructions p) = n"

lemmas delta_limits = DELTA1_MAX_TARGET_BYTES_def DELTA1_MAX_BASE_BYTES_def DELTA1_MAX_INSTRUCTIONS_def
  DELTA1_MAX_PAYLOAD_BYTES_def DELTA1_MAX_BASE_BACK_DISTANCE_def MAXIMUM_BYTES_def

lemma safe_small: "0 \<le> v \<Longrightarrow> v \<le> 1000000 \<Longrightarrow> isSafeInteger v"
  by (simp add: isSafeInteger_def MAX_SAFE_INTEGER_def)

lemma output_positive: "instruction_ok i \<Longrightarrow> 0 < output_length i"
  by (cases i) auto

lemma total_output_Cons [simp]: "total_output (i # is) = output_length i + total_output is"
  by (simp add: total_output_def)

lemma total_output_Nil [simp]: "total_output [] = 0"
  by (simp add: total_output_def)

lemma total_output_nonneg: "list_all instruction_ok is \<Longrightarrow> 0 \<le> total_output is"
  by (induction "is") (auto dest: output_positive)

lemma checkedOutput_Inr:
  "checkedOutputLength c a = Inr v \<longleftrightarrow> c + a \<le> DELTA1_MAX_TARGET_BYTES \<and> v = c + a"
  by (auto simp: checkedOutputLength_def)

lemma assertPositive_Inr: "assertPositiveSafeInteger v = Inr u \<longleftrightarrow> isSafeInteger v \<and> 0 < v"
  by (auto simp: assertPositiveSafeInteger_def)

lemma instruction_ok_range:
  "instruction_ok (Copy a n) \<Longrightarrow> isSafeInteger a \<and> isSafeInteger n \<and> 0 \<le> a \<and> 0 < n"
  by (auto simp: delta_limits intro: safe_small)

lemma validate_instructions_Inr:
  assumes "0 \<le> out" and "out \<le> DELTA1_MAX_TARGET_BYTES"
  shows "validate_instructions is out = Inr v \<longleftrightarrow>
    list_all instruction_ok is \<and> out + total_output is \<le> DELTA1_MAX_TARGET_BYTES \<and> v = out + total_output is"
  using assms
proof (induction "is" arbitrary: out)
  case Nil
  then show ?case by auto
next
  case (Cons i rest)
  have later: "out + output_length i \<le> DELTA1_MAX_TARGET_BYTES"
    if "list_all instruction_ok rest" "out + (output_length i + total_output rest) \<le> DELTA1_MAX_TARGET_BYTES"
    using total_output_nonneg [OF that(1)] that(2) by linarith
  have step: "validate_instructions (i # rest) out = Inr v \<longleftrightarrow> instruction_ok i \<and>
      out + output_length i \<le> DELTA1_MAX_TARGET_BYTES \<and> validate_instructions rest (out + output_length i) = Inr v"
  proof (cases i)
    case (Copy a n)
    then show ?thesis
      using instruction_ok_range [of a n]
      by (auto simp: rbind_eq_Inr checkedOutput_Inr assertPositive_Inr guard_eq_Inr)
  next
    case (Add bs)
    then show ?thesis
      using Cons.prems
      by (auto simp: rbind_eq_Inr checkedOutput_Inr assertPositive_Inr delta_limits intro!: safe_small)
  qed
  show ?case
    using Cons.IH [of "out + output_length i"] Cons.prems later output_positive [of i]
    unfolding step by auto
qed

lemma validateProgram_Inr: "validateProgram p n = Inr u \<longleftrightarrow> program_ok p n"
proof -
  have "0 \<le> DELTA1_MAX_TARGET_BYTES" by (simp add: delta_limits)
  then show ?thesis
    using validate_instructions_Inr [of 0 "instructions p"]
    by (auto simp: validateProgram_def rbind_eq_Inr guard_eq_Inr assertTargetLength_def assertPositive_Inr
        program_ok_def delta_limits intro: safe_small)
qed

subsection \<open>The encoder writes the bytes of the program\<close>

lemma length_instruction_bytes:
  "byteLength (instruction_bytes i) = 1 + (case i of
     Copy a n \<Rightarrow> int (varint_length a) + int (varint_length n)
   | Add bs \<Rightarrow> int (varint_length (byteLength bs)) + byteLength bs)"
  by (cases i) auto

lemma add_safe: "output_length (Add bs) \<le> DELTA1_MAX_TARGET_BYTES \<Longrightarrow> isSafeInteger (byteLength bs)"
  by (auto simp: delta_limits intro: safe_small)

lemma instruction_fits:
  assumes "list_all instruction_ok (i # rest)" and "total_output (i # rest) \<le> DELTA1_MAX_TARGET_BYTES"
  shows "output_length i \<le> DELTA1_MAX_TARGET_BYTES \<and> total_output rest \<le> DELTA1_MAX_TARGET_BYTES"
  using assms total_output_nonneg [of rest] output_positive [of i] by auto

lemma measure_instructions_Inr:
  assumes "list_all instruction_ok is" and "total_output is \<le> DELTA1_MAX_TARGET_BYTES"
  shows "measure_instructions is len = Inr (len + byteLength (concat (map instruction_bytes is)))"
  using assms
proof (induction "is" arbitrary: len)
  case Nil
  then show ?case by simp
next
  case (Cons i rest)
  have fits: "output_length i \<le> DELTA1_MAX_TARGET_BYTES" "total_output rest \<le> DELTA1_MAX_TARGET_BYTES"
    using instruction_fits [OF Cons.prems] by auto
  have ok: "instruction_ok i" "list_all instruction_ok rest" using Cons.prems by auto
  have "measure_instructions (i # rest) len = measure_instructions rest (len + byteLength (instruction_bytes i))"
  proof (cases i)
    case (Copy a n)
    have "unsignedVarintLength a = Inr (int (varint_length a))" "unsignedVarintLength n = Inr (int (varint_length n))"
      using instruction_ok_range [OF ok(1) [unfolded Copy]] by (simp_all add: unsignedVarintLength_Inr)
    then show ?thesis by (simp add: Copy add.assoc)
  next
    case (Add bs)
    have "unsignedVarintLength (byteLength bs) = Inr (int (varint_length (byteLength bs)))"
      using fits(1) add_safe [of bs] by (simp add: Add unsignedVarintLength_Inr)
    then show ?thesis by (simp add: Add add.assoc)
  qed
  then show ?case
    unfolding Cons.IH [OF ok(2) fits(2)] by simp
qed

lemma write_instructions_at:
  assumes "list_all instruction_ok is" and "total_output is \<le> DELTA1_MAX_TARGET_BYTES"
    and "byteLength (concat vs) + byteLength (concat (map instruction_bytes is)) \<le> MAX_SAFE_INTEGER"
  shows "\<exists>vs'. write_instructions is (writer_at vs) = Inr (writer_at vs')
    \<and> concat vs' = concat vs @ concat (map instruction_bytes is)"
  using assms
proof (induction "is" arbitrary: vs)
  case Nil
  then show ?case by auto
next
  case (Cons i rest)
  note fits = instruction_fits [OF Cons.prems(1,2)]
  have ok: "instruction_ok i" "list_all instruction_ok rest" using Cons.prems by auto
  obtain ws where ws: "write_instructions (i # rest) (writer_at vs) = write_instructions rest (writer_at ws)"
      "concat ws = concat vs @ instruction_bytes i"
  proof (cases i)
    case (Copy a n)
    have "write_instructions (i # rest) (writer_at vs)
        = write_instructions rest (writer_at (vs @ [[0], varint a, varint n]))"
    proof -
      have one: "writeByte COPY_OPCODE (writer_at vs) = Inr (writer_at (vs @ [[0]]))"
        using Cons.prems(3) Copy by (simp add: writeByte_at COPY_OPCODE_def)
      have two: "writeVarint a (writer_at (vs @ [[0]])) = Inr (writer_at (vs @ [[0], varint a]))"
        using Cons.prems(3) instruction_ok_range [OF ok(1) [unfolded Copy]] by (simp add: Copy writeVarint_at)
      have three: "writeVarint n (writer_at (vs @ [[0], varint a])) = Inr (writer_at (vs @ [[0], varint a, varint n]))"
        using Cons.prems(3) instruction_ok_range [OF ok(1) [unfolded Copy]] by (simp add: Copy writeVarint_at)
      show ?thesis by (simp add: Copy one two three)
    qed
    then show thesis by (rule that) (simp add: Copy)
  next
    case (Add bs)
    have "write_instructions (i # rest) (writer_at vs)
        = write_instructions rest (writer_at (vs @ [[1], varint (byteLength bs), bs]))"
    proof -
      have one: "writeByte ADD_OPCODE (writer_at vs) = Inr (writer_at (vs @ [[1]]))"
        using Cons.prems(3) Add by (simp add: writeByte_at ADD_OPCODE_def)
      have two: "writeLengthPrefixedBytes bs (writer_at (vs @ [[1]]))
          = Inr (writer_at (vs @ [[1], varint (byteLength bs), bs]))"
        using Cons.prems(3) Add by (simp add: writePrefixed_at)
      show ?thesis by (simp add: Add one two)
    qed
    then show thesis by (rule that) (simp add: Add)
  qed
  have "\<exists>vs'. write_instructions rest (writer_at ws) = Inr (writer_at vs')
      \<and> concat vs' = concat ws @ concat (map instruction_bytes rest)"
    by (rule Cons.IH) (use ok fits ws Cons.prems(3) in auto)
  then show ?case using ws by auto
qed

lemma program_parts:
  assumes "program_ok p n"
  shows "list_all instruction_ok (instructions p)" "total_output (instructions p) \<le> DELTA1_MAX_TARGET_BYTES"
    "isSafeInteger (baseBackDistance p)" "isSafeInteger (int (length (instructions p)))"
    "0 < baseBackDistance p"
  using assms by (auto simp: program_ok_def delta_limits intro: safe_small)

lemma measure_Inr:
  "measureDelta1ProgramBytes p n = Inr len \<longleftrightarrow> program_ok p n \<and> len = byteLength (program_bytes p)"
proof (cases "program_ok p n")
  case True
  note parts = program_parts [OF True]
  have "validateProgram p n = Inr ()" using True by (simp add: validateProgram_Inr)
  then have "measureDelta1ProgramBytes p n = Inr (byteLength (program_bytes p))"
    using parts measure_instructions_Inr [OF parts(1,2)]
    by (simp add: measureDelta1ProgramBytes_def unsignedVarintLength_Inr program_bytes_def add.assoc)
  with True show ?thesis by auto
next
  case False
  then show ?thesis by (auto simp: measureDelta1ProgramBytes_def rbind_eq_Inr validateProgram_Inr)
qed

lemma encode_Inr:
  "encodeDelta1Program p n = Inr bs \<longleftrightarrow>
     program_ok p n \<and> byteLength (program_bytes p) \<le> DELTA1_MAX_PAYLOAD_BYTES \<and> bs = program_bytes p"
proof (cases "program_ok p n \<and> byteLength (program_bytes p) \<le> DELTA1_MAX_PAYLOAD_BYTES")
  case True
  note parts = program_parts [OF conjunct1 [OF True]]
  have size: "byteLength (program_bytes p) \<le> MAX_SAFE_INTEGER"
    using True by (auto simp: delta_limits MAX_SAFE_INTEGER_def)
  let ?vs = "[[1], varint (baseBackDistance p), varint (int (length (instructions p)))]"
  have fits: "byteLength (concat ?vs) + byteLength (concat (map instruction_bytes (instructions p))) \<le> MAX_SAFE_INTEGER"
    using size by (simp add: program_bytes_def)
  obtain vs' where w: "write_instructions (instructions p) (writer_at ?vs) = Inr (writer_at vs')"
      "concat vs' = concat ?vs @ concat (map instruction_bytes (instructions p))"
    using write_instructions_at [OF parts(1,2) fits] by blast
  have one: "writeByte DELTA1_FORMAT_VERSION (writer_at []) = Inr (writer_at [[1]])"
    by (simp add: writeByte_at DELTA1_FORMAT_VERSION_def MAX_SAFE_INTEGER_def)
  have two: "writeVarint (baseBackDistance p) (writer_at [[1]]) = Inr (writer_at [[1], varint (baseBackDistance p)])"
    using fits parts by (simp add: writeVarint_at)
  have three: "writeVarint (int (length (instructions p))) (writer_at [[1], varint (baseBackDistance p)])
      = Inr (writer_at ?vs)"
    using fits parts by (simp add: writeVarint_at)
  have bytes: "concat vs' = program_bytes p" by (simp add: w(2) program_bytes_def)
  have "measureDelta1ProgramBytes p n = Inr (byteLength (program_bytes p))" using True measure_Inr by blast
  then have "encodeDelta1Program p n = Inr (program_bytes p)"
    using True by (simp add: encodeDelta1Program_def one two three w(1) bytes)
  with True show ?thesis by auto
next
  case False
  then show ?thesis
    by (auto simp: encodeDelta1Program_def rbind_eq_Inr measure_Inr guard_eq_Inr)
qed

subsection \<open>The decoder accepts the bytes of valid programs\<close>

lemma instruction_layout:
  assumes "reader_ok r"
  shows "starts r (instruction_bytes (Copy a k)) \<longleftrightarrow>
      starts r [0] \<and> starts (after [0] r) (varint a) \<and> starts (after (varint a) (after [0] r)) (varint k)"
    and "starts r (instruction_bytes (Add bs)) \<longleftrightarrow>
      starts r [1] \<and> starts (after [1] r) (varint (byteLength bs)) \<and>
      starts (after (varint (byteLength bs)) (after [1] r)) bs"
    and "after (instruction_bytes (Copy a k)) r = after (varint k) (after (varint a) (after [0] r))"
    and "after (instruction_bytes (Add bs)) r = after bs (after (varint (byteLength bs)) (after [1] r))"
  using assms starts_append [OF assms, of "[0]" "varint a @ varint k"]
    starts_append [OF assms, of "[1]" "varint (byteLength bs) @ bs"]
  by (auto simp: starts_append after_after)

lemma decode_instructions_Inr:
  assumes "reader_ok r" and "0 \<le> out" and "out \<le> DELTA1_MAX_TARGET_BYTES"
  shows "decode_instructions n out r = Inr (is, r') \<longleftrightarrow> length is = n \<and> list_all instruction_ok is \<and>
    out + total_output is \<le> DELTA1_MAX_TARGET_BYTES \<and>
    starts r (concat (map instruction_bytes is)) \<and> r' = after (concat (map instruction_bytes is)) r"
  using assms
proof (induction n arbitrary: out r "is" r')
  case 0
  then show ?case by auto
next
  case (Suc n)
  have first: "decode_instructions (Suc n) out r = Inr (i # rest, r') \<longleftrightarrow>
      instruction_ok i \<and> out + output_length i \<le> DELTA1_MAX_TARGET_BYTES \<and> starts r (instruction_bytes i) \<and>
      decode_instructions n (out + output_length i) (after (instruction_bytes i) r) = Inr (rest, r')" for i rest
  proof (cases i)
    case (Copy a k)
    have "isSafeInteger a \<and> isSafeInteger k" if "0 \<le> a" "0 < k" "a + k \<le> DELTA1_MAX_BASE_BYTES"
      using that by (auto simp: delta_limits intro: safe_small)
    then show ?thesis
      using Suc.prems
      by (auto simp: Copy decoding checkedOutput_Inr COPY_OPCODE_def ADD_OPCODE_def instruction_layout
          simp del: instruction_bytes.simps cong: conj_cong if_cong)
  next
    case (Add bs)
    have "isSafeInteger DELTA1_MAX_TARGET_BYTES" "0 \<le> DELTA1_MAX_TARGET_BYTES"
      by (simp_all add: delta_limits isSafeInteger_def MAX_SAFE_INTEGER_def)
    then show ?thesis
      using Suc.prems
      by (auto simp: Add decoding checkedOutput_Inr COPY_OPCODE_def ADD_OPCODE_def instruction_layout
          starts_append after_append simp del: instruction_bytes.simps cong: conj_cong if_cong)
  qed
  show ?case
  proof (cases "is")
    case Nil
    then show ?thesis by (auto simp: rbind_eq_Inr guard_eq_Inr split: if_splits)
  next
    case (Cons i rest)
    show ?thesis
    proof (cases "instruction_ok i \<and> out + output_length i \<le> DELTA1_MAX_TARGET_BYTES \<and> starts r (instruction_bytes i)")
      case True
      have ok: "reader_ok (after (instruction_bytes i) r)" using True Suc.prems by simp
      have "0 \<le> out + output_length i" using True output_positive [of i] Suc.prems by simp
      from Suc.IH [OF ok this] True show ?thesis
        using Suc.prems unfolding Cons first by (auto simp: starts_append after_after)
    next
      case False
      then show ?thesis
        using total_output_nonneg [of rest] Suc.prems unfolding Cons first by (auto simp: starts_append)
    qed
  qed
qed

lemma rethrow_delta_Inr: "rethrow_delta m = Inr x \<longleftrightarrow> m = Inr x"
  by (cases m rule: rethrow_delta.cases) auto

lemma decode_Inr:
  "decodeDelta1Program encoded n = Inr p \<longleftrightarrow>
     program_ok p n \<and> byteLength encoded \<le> DELTA1_MAX_PAYLOAD_BYTES \<and> encoded = program_bytes p"
proof (cases "byteLength encoded \<le> DELTA1_MAX_PAYLOAD_BYTES")
  case False
  then show ?thesis by (auto simp: decodeDelta1Program_def rbind_eq_Inr guard_eq_Inr)
next
  case True
  then have "byteLength encoded \<le> MAX_SAFE_INTEGER" by (simp add: delta_limits MAX_SAFE_INTEGER_def)
  then obtain r where new: "newCanonicalReader encoded = r" and r: "reader_ok r" and whole: "encoded = rest_of r"
    by (metis new_reader)
  let ?n = "\<lambda>p. int (length (instructions p))"
  have bytes: "rest_of r = program_bytes p \<longleftrightarrow> starts r [1] \<and> starts (after [1] r) (varint (baseBackDistance p)) \<and>
      starts (after (varint (baseBackDistance p)) (after [1] r)) (varint (?n p)) \<and>
      starts (after (varint (?n p)) (after (varint (baseBackDistance p)) (after [1] r)))
        (concat (map instruction_bytes (instructions p))) \<and>
      rest_of (after (concat (map instruction_bytes (instructions p)))
        (after (varint (?n p)) (after (varint (baseBackDistance p)) (after [1] r)))) = []" for p
    unfolding program_bytes_def rest_append [OF r]
    using r by (simp add: rest_append rest_chunk [of _ "concat (map instruction_bytes (instructions p))"]
        cong: conj_cong)
  have target: "assertTargetLength n = Inr () \<longleftrightarrow> 0 \<le> n \<and> n \<le> DELTA1_MAX_TARGET_BYTES"
    by (auto simp: assertTargetLength_def delta_limits intro: safe_small)
  have nn: "0 \<le> DELTA1_MAX_TARGET_BYTES" by (simp add: delta_limits)
  have inner: "decodeDelta1Program encoded n = Inr p \<longleftrightarrow> program_ok p n \<and> rest_of r = program_bytes p"
  proof (cases p)
    case (fields dist insts)
    show ?thesis
      unfolding decodeDelta1Program_def new bytes
      using True r nn
      by (simp add: target rethrow_delta_Inr decoding decode_instructions_Inr Let_def validateProgram_Inr
          DELTA1_FORMAT_VERSION_def fields cong: conj_cong)
        (auto simp: program_ok_def, rule exI [of _ dist],
          auto simp: delta_limits intro!: exI [of _ "int (length insts)"] safe_small)
  qed
  show ?thesis using inner True by (simp add: whole)
qed

subsection \<open>Application\<close>

fun instruction_output :: "bytes \<Rightarrow> delta1_instruction \<Rightarrow> bytes" where
  "instruction_output base (Copy baseOffset len) = subarray baseOffset (baseOffset + len) base"
| "instruction_output base (Add bs) = bs"

fun in_base :: "bytes \<Rightarrow> delta1_instruction \<Rightarrow> bool" where
  "in_base base (Copy baseOffset len) \<longleftrightarrow> baseOffset + len \<le> byteLength base"
| "in_base base (Add bs) \<longleftrightarrow> True"

lemma output_size:
  "instruction_ok i \<Longrightarrow> in_base base i \<Longrightarrow> byteLength (instruction_output base i) = output_length i"
  by (cases i) (auto simp: length_subarray)

lemma typed_set_fits:
  "length source \<le> length room \<Longrightarrow>
     typed_set (written @ room) source (byteLength written) = Inr (written @ source @ drop (length source) room)"
  by (simp add: typed_set_def)

lemma apply_instructions_Inr:
  assumes "list_all instruction_ok is" and "total_output is \<le> byteLength room"
  shows "apply_instructions is base (written @ room) (byteLength written) =
    (if list_all (in_base base) is
     then Inr (written @ concat (map (instruction_output base) is) @ drop (nat (total_output is)) room,
               byteLength written + total_output is)
     else invalidDelta)"
  using assms
proof (induction "is" arbitrary: written room)
  case Nil
  then show ?case by simp
next
  case (Cons i rest)
  have ok: "instruction_ok i" "list_all instruction_ok rest" using Cons.prems by auto
  show ?case
  proof (cases "in_base base i")
    case False
    then show ?thesis using ok by (cases i) auto
  next
    case True
    let ?out = "instruction_output base i"
    have size: "byteLength ?out = output_length i" by (rule output_size [OF ok(1) True])
    then have fits: "length ?out \<le> length room"
      using Cons.prems(2) total_output_nonneg [OF ok(2)] by simp
    have step: "apply_instructions (i # rest) base (written @ room) (byteLength written)
        = apply_instructions rest base ((written @ ?out) @ drop (length ?out) room) (byteLength (written @ ?out))"
      using True ok(1) size typed_set_fits [OF fits] by (cases i) auto
    have "total_output rest \<le> byteLength (drop (length ?out) room)"
      using Cons.prems(2) size fits by simp
    note ih = Cons.IH [OF ok(2) this, of "written @ ?out"]
    have "nat (total_output (i # rest)) = length ?out + nat (total_output rest)"
      using size total_output_nonneg [OF ok(2)] by simp
    then show ?thesis
      unfolding step ih using True size by (simp add: drop_drop add.commute)
  qed
qed

subsection \<open>Properties\<close>

text \<open>The delta codec is canonical: decoding against an expected target length accepts exactly the byte
  strings that encoding produces for programs of that length; every other payload is a delta error or
  another exception, and the encoder's own length check never fails.\<close>

theorem delta_codec_is_canonical:
  "(decodeDelta1Program encoded n = Inr p) = (encodeDelta1Program p n = Inr encoded)"
  by (auto simp: decode_Inr encode_Inr)

text \<open>Reconstruction: applying a program returns exactly when the program is valid for the expected
  length and every COPY lies inside the base; the result is the concatenation of what the instructions
  name, of the expected length, and no write ever leaves the target.\<close>

theorem delta_application_reconstructs:
  "applyDelta1Program p base n = Inr target \<longleftrightarrow>
     validateProgram p n = Inr () \<and> byteLength base \<le> DELTA1_MAX_BASE_BYTES \<and>
     list_all (in_base base) (instructions p) \<and>
     target = concat (map (instruction_output base) (instructions p)) \<and> byteLength target = n"
proof (cases "program_ok p n")
  case False
  then show ?thesis by (auto simp: applyDelta1Program_def rbind_eq_Inr validateProgram_Inr)
next
  case True
  note parts = program_parts [OF True]
  have total: "total_output (instructions p) = n" "0 \<le> n" using True by (auto simp: program_ok_def)
  have out: "byteLength (concat (map (instruction_output base) (instructions p))) = n"
    if "list_all (in_base base) (instructions p)"
  proof -
    have "byteLength (concat (map (instruction_output base) is)) = total_output is"
      if "list_all instruction_ok is" "list_all (in_base base) is" for "is"
      using that by (induction "is") (auto simp: output_size)
    then show ?thesis using that parts(1) total by simp
  qed
  have "apply_instructions (instructions p) base (replicate (nat n) 0) 0 =
      (if list_all (in_base base) (instructions p)
       then Inr (concat (map (instruction_output base) (instructions p)), n) else invalidDelta)"
    using apply_instructions_Inr [OF parts(1), of "replicate (nat n) 0" base "[]"] total by simp
  moreover have "validateProgram p n = Inr ()" using True by (simp add: validateProgram_Inr)
  ultimately show ?thesis
    using out by (auto simp: applyDelta1Program_def rbind_eq_Inr guard_eq_Inr split: if_splits)
qed

end
