(* ===== verification/Record_Envelope.thy ===== *)
theory Record_Envelope
  imports Canonical_Binary
begin

text \<open>
  Logical identifiers, \<^verbatim>\<open>src/infrastructure/content-store/ids.ts\<close>, and the canonical record
  envelope, \<^verbatim>\<open>src/infrastructure/content-store/record.ts\<close>. The digest function of the runtime is a
  parameter \<open>sha256\<close>; where its length matters it is a named hypothesis.
\<close>

subsection \<open>Identifiers\<close>

definition SHA256_BYTE_LENGTH :: int where "SHA256_BYTE_LENGTH = 32"
definition SHA256_HEX_LENGTH :: int where "SHA256_HEX_LENGTH = SHA256_BYTE_LENGTH * 2"

definition ascii :: "string \<Rightarrow> bytes" where
  "ascii s = map (\<lambda>c. of_nat (of_char c)) s"

definition RECIPE_ID_DOMAIN_TAG :: bytes where
  "RECIPE_ID_DOMAIN_TAG = ascii ''cyclotomy.recipe.v1'' @ [0]"

text \<open>\<^verbatim>\<open>Buffer.from(_, "hex")\<close> and \<^verbatim>\<open>toString("hex")\<close>.\<close>

definition hex_digit :: "int \<Rightarrow> char" where
  "hex_digit n = hex_digits ! nat n"

definition nibble :: "char \<Rightarrow> int" where
  "nibble c = int (length (takeWhile (\<lambda>d. d \<noteq> c) hex_digits))"

definition toHex :: "bytes \<Rightarrow> string" where
  "toHex bs = concat (map (\<lambda>b. [hex_digit (uint b div 16), hex_digit (uint b mod 16)]) bs)"

fun fromHex :: "string \<Rightarrow> bytes" where
  "fromHex (a # b # s) = word_of_int (16 * nibble a + nibble b) # fromHex s"
| "fromHex _ = []"

definition digestHex :: "(bytes \<Rightarrow> bytes) \<Rightarrow> bytes list \<Rightarrow> string" where
  "digestHex sha256 chunks = toHex (sha256 (concat chunks))"

definition contentIdFromBytes :: "(bytes \<Rightarrow> bytes) \<Rightarrow> bytes \<Rightarrow> string" where
  "contentIdFromBytes sha256 bs = digestHex sha256 [bs]"

definition recipeIdFromCanonicalBytes :: "(bytes \<Rightarrow> bytes) \<Rightarrow> bytes \<Rightarrow> string" where
  "recipeIdFromCanonicalBytes sha256 bs = digestHex sha256 [RECIPE_ID_DOMAIN_TAG, bs]"

definition parseSha256 :: "string \<Rightarrow> string result" where
  "parseSha256 v = (if \<not> is_sha256_hex v then Inl TypeError else Inr v)"

definition parseContentId :: "string \<Rightarrow> string result" where "parseContentId v = parseSha256 v"
definition parseRecipeId :: "string \<Rightarrow> string result" where "parseRecipeId v = parseSha256 v"
definition parseMetadataId :: "string \<Rightarrow> string result" where "parseMetadataId v = parseSha256 v"

definition idToBytes :: "string \<Rightarrow> bytes result" where
  "idToBytes i = rbind (parseSha256 i) (\<lambda>v. Inr (fromHex v))"

definition contentIdFromDigestBytes :: "bytes \<Rightarrow> string result" where
  "contentIdFromDigestBytes bs = (if byteLength bs \<noteq> SHA256_BYTE_LENGTH then Inl TypeError else Inr (toHex bs))"

definition recipeIdFromDigestBytes :: "bytes \<Rightarrow> string result" where
  "recipeIdFromDigestBytes bs = (if byteLength bs \<noteq> SHA256_BYTE_LENGTH then Inl TypeError else Inr (toHex bs))"

definition metadataIdFromDigestBytes :: "bytes \<Rightarrow> string result" where
  "metadataIdFromDigestBytes bs = (if byteLength bs \<noteq> SHA256_BYTE_LENGTH then Inl TypeError else Inr (toHex bs))"

lemma position_of_nth: "distinct xs \<Longrightarrow> i < length xs \<Longrightarrow> length (takeWhile (\<lambda>d. d \<noteq> xs ! i) xs) = i"
proof (induction xs arbitrary: i)
  case (Cons x xs)
  then show ?case by (cases i) auto
qed simp

lemma hex_nibble: "0 \<le> n \<Longrightarrow> n < 16 \<Longrightarrow> nibble (hex_digit n) = n"
proof -
  assume n: "0 \<le> n" "n < 16"
  have "distinct hex_digits" "nat n < length hex_digits" using n by (simp_all add: hex_digits_def)
  from position_of_nth [OF this] n show ?thesis by (simp add: nibble_def hex_digit_def)
qed

lemma nibble_hex: "c \<in> set hex_digits \<Longrightarrow> hex_digit (nibble c) = c \<and> 0 \<le> nibble c \<and> nibble c < 16"
  by (auto simp: hex_digits_def hex_digit_def nibble_def)

lemma hex_digit_set: "0 \<le> n \<Longrightarrow> n < 16 \<Longrightarrow> hex_digit n \<in> set hex_digits"
proof -
  assume "0 \<le> n" "n < 16"
  then have "nat n < length hex_digits" by (simp add: hex_digits_def)
  then show ?thesis unfolding hex_digit_def by (rule nth_mem)
qed

lemma byte_nibbles: "0 \<le> uint b div 16 \<and> uint (b :: byte) div 16 < 16 \<and> 0 \<le> uint b mod 16 \<and> uint b mod 16 < 16"
proof -
  have "0 \<le> uint b" "uint b < 256" using uint_bounded [of b] by auto
  then have "uint b div 16 < 16" by presburger
  then show ?thesis by (simp add: pos_imp_zdiv_nonneg_iff)
qed

lemma fromHex_toHex [simp]: "fromHex (toHex bs) = bs"
proof (induction bs)
  case (Cons b bs)
  have "16 * (uint b div 16) + uint b mod 16 = uint b" by simp
  then show ?case using Cons byte_nibbles [of b] by (simp add: toHex_def hex_nibble)
qed (simp add: toHex_def)

lemma length_toHex [simp]: "length (toHex bs) = 2 * length bs"
  by (induction bs) (simp_all add: toHex_def)

lemma toHex_hex: "list_all (\<lambda>c. c \<in> set hex_digits) (toHex bs)"
  by (induction bs) (use byte_nibbles in \<open>auto simp: toHex_def intro: hex_digit_set\<close>)

lemma toHex_fromHex:
  "even (length s) \<Longrightarrow> list_all (\<lambda>c. c \<in> set hex_digits) s \<Longrightarrow> toHex (fromHex s) = s"
proof (induction s rule: fromHex.induct)
  case (1 a b s)
  have a: "hex_digit (nibble a) = a" "0 \<le> nibble a" "nibble a < 16" using nibble_hex [of a] 1 by auto
  have b: "hex_digit (nibble b) = b" "0 \<le> nibble b" "nibble b < 16" using nibble_hex [of b] 1 by auto
  have "uint (word_of_int (16 * nibble a + nibble b) :: byte) = 16 * nibble a + nibble b"
    using a b by (simp only: unsigned_of_int take_bit_eq_mod) simp
  moreover have "(16 * nibble a + nibble b) div 16 = nibble a" "(16 * nibble a + nibble b) mod 16 = nibble b"
    using b by simp_all
  ultimately have "toHex (fromHex (a # b # s)) = a # b # toHex (fromHex s)"
    using a(1) b(1) by (simp add: toHex_def)
  then show ?case using 1 by simp
qed (auto simp: toHex_def)

lemma length_fromHex: "length (fromHex s) = length s div 2"
  by (induction s rule: fromHex.induct) auto

lemma sha256_hex_toHex [simp]: "is_sha256_hex (toHex bs) \<longleftrightarrow> length bs = 32"
  using toHex_hex [of bs] by (auto simp: is_sha256_hex_def)

lemma id_bytes: "is_sha256_hex i \<Longrightarrow> length (fromHex i) = 32 \<and> toHex (fromHex i) = i"
  by (simp add: is_sha256_hex_def length_fromHex toHex_fromHex)

lemma idToBytes_Inr: "idToBytes i = Inr bs \<longleftrightarrow> is_sha256_hex i \<and> bs = fromHex i"
  by (auto simp: idToBytes_def parseSha256_def)

lemma id_of_digest: "length bs = 32 \<and> toHex bs = i \<longleftrightarrow> is_sha256_hex i \<and> bs = fromHex i"
  using id_bytes [of i] by auto

lemma contentIdFromBytes_hex: "length (sha256 bs) = 32 \<Longrightarrow> is_sha256_hex (contentIdFromBytes sha256 bs)"
  by (simp add: contentIdFromBytes_def digestHex_def)

subsection \<open>Records\<close>

definition RECORD_MAGIC :: bytes where "RECORD_MAGIC = [0x43, 0x59, 0x52, 0x43]"
definition RECORD_FLAGS_NONE :: int where "RECORD_FLAGS_NONE = 0"
definition RECORD_FORMAT_VERSION :: int where "RECORD_FORMAT_VERSION = 1"

datatype record_kind = Kind_content | Kind_recipe | Kind_tree_root | Kind_tree_node | Kind_scope
datatype record_encoding = Raw | Zstd_v1 | Chunked_v1 | Delta1

definition RECORD_KIND_CODES :: "(record_kind \<times> int) list" where
  "RECORD_KIND_CODES = [(Kind_content, 1), (Kind_recipe, 2), (Kind_tree_root, 3), (Kind_tree_node, 4),
     (Kind_scope, 5)]"

definition RECORD_ENCODING_CODES :: "(record_encoding \<times> int) list" where
  "RECORD_ENCODING_CODES = [(Raw, 0), (Zstd_v1, 1), (Chunked_v1, 2), (Delta1, 3)]"

record record_envelope =
  rec_kind :: record_kind
  rec_encoding :: record_encoding
  logicalId :: string
  decodedLength :: int
  payload :: bytes

record record_decode_limits =
  maxDecodedBytes :: int
  maxPayloadBytes :: int

definition assertLength :: "int \<Rightarrow> unit result" where
  "assertLength v = (if \<not> isSafeInteger v \<or> v < 0 then Inl TypeError else Inr ())"

text \<open>The \<^verbatim>\<open>for\<close> loops over the entries of a code table.\<close>

fun from_code :: "('k \<times> int) list \<Rightarrow> int \<Rightarrow> 'k result" where
  "from_code [] code = Inl (CanonicalBinaryError Unexpected_value)"
| "from_code ((k, expectedCode) # entries) code = (if code = expectedCode then Inr k else from_code entries code)"

definition kindFromCode :: "int \<Rightarrow> record_kind result" where
  "kindFromCode code = from_code RECORD_KIND_CODES code"

definition encodingFromCode :: "int \<Rightarrow> record_encoding result" where
  "encodingFromCode code = from_code RECORD_ENCODING_CODES code"

definition assertCompatibleEncoding :: "record_kind \<Rightarrow> record_encoding \<Rightarrow> unit result" where
  "assertCompatibleEncoding kind encoding =
     (if (encoding = Chunked_v1 \<or> encoding = Delta1) \<and> kind \<noteq> Kind_content
      then Inl (CanonicalBinaryError Unexpected_value) else Inr ())"

definition assertRecordShape :: "record_envelope \<Rightarrow> unit result" where
  "assertRecordShape rec =
     rbind (assertLength (decodedLength rec)) (\<lambda>_.
     rbind (if rec_kind rec = Kind_recipe then parseRecipeId (logicalId rec)
            else if rec_kind rec = Kind_content then parseContentId (logicalId rec)
            else parseMetadataId (logicalId rec)) (\<lambda>_.
     rbind (assertCompatibleEncoding (rec_kind rec) (rec_encoding rec)) (\<lambda>_.
       if rec_encoding rec = Raw \<and> byteLength (payload rec) \<noteq> decodedLength rec
       then Inl (CanonicalBinaryError Unexpected_value)
       else if rec_encoding rec = Chunked_v1 \<and> byteLength (payload rec) \<noteq> SHA256_BYTE_LENGTH
       then Inl (CanonicalBinaryError Unexpected_value)
       else Inr ())))"

fun recordKindCode :: "record_kind \<Rightarrow> int" where
  "recordKindCode Kind_content = 1"
| "recordKindCode Kind_recipe = 2"
| "recordKindCode Kind_tree_root = 3"
| "recordKindCode Kind_tree_node = 4"
| "recordKindCode Kind_scope = 5"

fun recordEncodingCode :: "record_encoding \<Rightarrow> int" where
  "recordEncodingCode Raw = 0"
| "recordEncodingCode Zstd_v1 = 1"
| "recordEncodingCode Chunked_v1 = 2"
| "recordEncodingCode Delta1 = 3"

definition encodeRecord :: "record_envelope \<Rightarrow> bytes result" where
  "encodeRecord rec =
     rbind (assertRecordShape rec) (\<lambda>_.
     rbind (writeBytes RECORD_MAGIC newCanonicalWriter) (\<lambda>w.
     rbind (writeByte RECORD_FORMAT_VERSION w) (\<lambda>w.
     rbind (writeByte (recordKindCode (rec_kind rec)) w) (\<lambda>w.
     rbind (writeByte (recordEncodingCode (rec_encoding rec)) w) (\<lambda>w.
     rbind (writeVarint RECORD_FLAGS_NONE w) (\<lambda>w.
     rbind (idToBytes (logicalId rec)) (\<lambda>idBytes.
     rbind (writeBytes idBytes w) (\<lambda>w.
     rbind (writeVarint (decodedLength rec) w) (\<lambda>w.
     rbind (writeVarint (byteLength (payload rec)) w) (\<lambda>w.
     rbind (writeBytes (payload rec) w) (\<lambda>w.
       Inr (finish w))))))))))))"

definition decodeRecord :: "bytes \<Rightarrow> record_decode_limits \<Rightarrow> record_envelope result" where
  "decodeRecord encoded limits =
     rbind (assertLength (maxDecodedBytes limits)) (\<lambda>_.
     rbind (assertLength (maxPayloadBytes limits)) (\<lambda>_.
     rbind (expectBytes RECORD_MAGIC (newCanonicalReader encoded)) (\<lambda>r.
     rbind (readByte r) (\<lambda>(version, r).
       if version \<noteq> RECORD_FORMAT_VERSION then Inl (CanonicalBinaryError Unexpected_value)
       else rbind (readByte r) (\<lambda>(kindCode, r).
       rbind (kindFromCode kindCode) (\<lambda>kind.
       rbind (readByte r) (\<lambda>(encodingCode, r).
       rbind (encodingFromCode encodingCode) (\<lambda>encoding.
       rbind (assertCompatibleEncoding kind encoding) (\<lambda>_.
       rbind (readVarint r) (\<lambda>(flags, r).
         if flags \<noteq> RECORD_FLAGS_NONE then Inl (CanonicalBinaryError Unexpected_value)
         else rbind (readBytes SHA256_BYTE_LENGTH r) (\<lambda>(digest, r).
         rbind (readVarint r) (\<lambda>(decodedLen, r).
           if decodedLen > maxDecodedBytes limits then Inl (CanonicalBinaryError Limit_exceeded)
           else rbind (readVarint r) (\<lambda>(payloadLen, r).
             if payloadLen > maxPayloadBytes limits then Inl (CanonicalBinaryError Limit_exceeded)
             else rbind (readBytes payloadLen r) (\<lambda>(body, r).
             rbind (assertEnd r) (\<lambda>_.
               if encoding = Raw \<and> payloadLen \<noteq> decodedLen
               then Inl (CanonicalBinaryError Unexpected_value)
               else if encoding = Chunked_v1 \<and> payloadLen \<noteq> SHA256_BYTE_LENGTH
               then Inl (CanonicalBinaryError Unexpected_value)
               else rbind (if kind = Kind_recipe then recipeIdFromDigestBytes digest
                           else if kind = Kind_content then contentIdFromDigestBytes digest
                           else metadataIdFromDigestBytes digest) (\<lambda>i.
                 Inr \<lparr>rec_kind = kind, rec_encoding = encoding, logicalId = i,
                      decodedLength = decodedLen, payload = body\<rparr>))))))))))))))))"

subsection \<open>The bytes of a record\<close>

definition record_shape :: "record_envelope \<Rightarrow> bool" where
  "record_shape rec \<longleftrightarrow> safe_unsigned (decodedLength rec) \<and> is_sha256_hex (logicalId rec) \<and>
     (rec_encoding rec \<in> {Chunked_v1, Delta1} \<longrightarrow> rec_kind rec = Kind_content) \<and>
     (rec_encoding rec = Raw \<longrightarrow> byteLength (payload rec) = decodedLength rec) \<and>
     (rec_encoding rec = Chunked_v1 \<longrightarrow> length (payload rec) = 32)"

definition record_chunks :: "record_envelope \<Rightarrow> bytes list" where
  "record_chunks rec = [RECORD_MAGIC, [1], [word_of_int (recordKindCode (rec_kind rec))],
     [word_of_int (recordEncodingCode (rec_encoding rec))], varint 0, fromHex (logicalId rec),
     varint (decodedLength rec), varint (byteLength (payload rec)), payload rec]"

lemma assertLength_Inr [simp]: "assertLength v = Inr u \<longleftrightarrow> safe_unsigned v"
  by (auto simp: assertLength_def)

lemma shape_Inr: "assertRecordShape rec = Inr u \<longleftrightarrow> record_shape rec"
  by (auto simp: assertRecordShape_def record_shape_def rbind_eq_Inr parseRecipeId_def parseContentId_def
      parseMetadataId_def parseSha256_def assertCompatibleEncoding_def SHA256_BYTE_LENGTH_def split: if_splits)

lemma kind_code_range [simp]: "0 \<le> recordKindCode k" "recordKindCode k < 256"
  by (cases k; simp)+

lemma encoding_code_range [simp]: "0 \<le> recordEncodingCode e" "recordEncodingCode e < 256"
  by (cases e; simp)+

lemma kindFromCode_Inr: "kindFromCode c = Inr k \<longleftrightarrow> recordKindCode k = c"
  by (cases k) (auto simp: kindFromCode_def RECORD_KIND_CODES_def)

lemma encodingFromCode_Inr: "encodingFromCode c = Inr e \<longleftrightarrow> recordEncodingCode e = c"
  by (cases e) (auto simp: encodingFromCode_def RECORD_ENCODING_CODES_def)

lemma small_safe [simp]: "isSafeInteger 0" "isSafeInteger 1" "isSafeInteger 32"
  by (simp_all add: isSafeInteger_def MAX_SAFE_INTEGER_def)

lemma encodeRecord_Inr:
  "encodeRecord rec = Inr bs \<longleftrightarrow>
     record_shape rec \<and> byteLength (concat (record_chunks rec)) \<le> MAX_SAFE_INTEGER \<and>
     bs = concat (record_chunks rec)"
proof -
  have "safe_unsigned (byteLength (payload rec)) \<longleftrightarrow> byteLength (payload rec) \<le> MAX_SAFE_INTEGER"
    by (auto simp: isSafeInteger_def MAX_SAFE_INTEGER_def)
  then show ?thesis
    by (auto simp: encodeRecord_def rbind_eq_Inr shape_Inr writes_at idToBytes_Inr
        RECORD_FORMAT_VERSION_def RECORD_FLAGS_NONE_def record_chunks_def)
      (auto simp: record_shape_def)
qed

lemma digest_id_Inr:
  "contentIdFromDigestBytes bs = Inr i \<longleftrightarrow> is_sha256_hex i \<and> bs = fromHex i"
  "recipeIdFromDigestBytes bs = Inr i \<longleftrightarrow> is_sha256_hex i \<and> bs = fromHex i"
  "metadataIdFromDigestBytes bs = Inr i \<longleftrightarrow> is_sha256_hex i \<and> bs = fromHex i"
  using id_of_digest [of bs i]
  by (auto simp: contentIdFromDigestBytes_def recipeIdFromDigestBytes_def metadataIdFromDigestBytes_def
      SHA256_BYTE_LENGTH_def)

lemma digest_ids_agree:
  "recipeIdFromDigestBytes = contentIdFromDigestBytes" "metadataIdFromDigestBytes = contentIdFromDigestBytes"
  by (simp_all add: fun_eq_iff contentIdFromDigestBytes_def recipeIdFromDigestBytes_def metadataIdFromDigestBytes_def)

lemma decodeRecord_Inr:
  assumes ok: "byteLength encoded \<le> MAX_SAFE_INTEGER"
    and "safe_unsigned (maxDecodedBytes limits)" and "safe_unsigned (maxPayloadBytes limits)"
  shows "decodeRecord encoded limits = Inr rec \<longleftrightarrow>
    record_shape rec \<and> encoded = concat (record_chunks rec) \<and>
    decodedLength rec \<le> maxDecodedBytes limits \<and> byteLength (payload rec) \<le> maxPayloadBytes limits"
proof -
  obtain r where new: "newCanonicalReader encoded = r" and r: "reader_ok r" and whole: "encoded = rest_of r"
    using ok by (metis new_reader)
  show ?thesis
    unfolding record_chunks_def decodeRecord_def new digest_ids_agree if_cancel
    unfolding whole
    using r assms(2,3)
    by (simp add: decoding layout kindFromCode_Inr encodingFromCode_Inr RECORD_FORMAT_VERSION_def
        RECORD_FLAGS_NONE_def digest_ids_agree digest_id_Inr SHA256_BYTE_LENGTH_def
        cong: conj_cong del: append_Cons)
      (cases rec, auto simp: record_shape_def assertCompatibleEncoding_def id_bytes intro: safe_length)
qed

subsection \<open>Properties\<close>

definition sample_record :: record_envelope where
  "sample_record = \<lparr>rec_kind = Kind_content, rec_encoding = Raw, logicalId = replicate 64 CHR ''7'',
     decodedLength = 2, payload = [0xFF, 0x00]\<rparr>"

text \<open>C9. Record round trip: within its limits, decoding accepts exactly the byte strings that encoding
  produces, and returns the record that was encoded; every other input is an exception.\<close>

theorem record_codec_is_canonical:
  assumes "byteLength encoded \<le> MAX_SAFE_INTEGER"
    and "isSafeInteger (maxDecodedBytes limits)" and "0 \<le> maxDecodedBytes limits"
    and "isSafeInteger (maxPayloadBytes limits)" and "0 \<le> maxPayloadBytes limits"
  shows "decodeRecord encoded limits = Inr rec \<longleftrightarrow>
    encodeRecord rec = Inr encoded \<and> decodedLength rec \<le> maxDecodedBytes limits \<and>
    byteLength (payload rec) \<le> maxPayloadBytes limits"
  using decodeRecord_Inr [of encoded limits rec] assms by (auto simp: encodeRecord_Inr)

theorem record_codec_is_canonical_witness:
  "\<exists>encoded. encodeRecord sample_record = Inr encoded \<and>
     decodeRecord encoded \<lparr>maxDecodedBytes = 10, maxPayloadBytes = 10\<rparr> = Inr sample_record"
proof -
  let ?limits = "\<lparr>maxDecodedBytes = 10, maxPayloadBytes = 10\<rparr>"
  have ok: "record_shape sample_record" and size: "byteLength (concat (record_chunks sample_record)) \<le> MAX_SAFE_INTEGER"
    by code_simp+
  then have enc: "encodeRecord sample_record = Inr (concat (record_chunks sample_record))"
    by (simp add: encodeRecord_Inr)
  then have "decodeRecord (concat (record_chunks sample_record)) ?limits = Inr sample_record"
    using record_codec_is_canonical [of "concat (record_chunks sample_record)" ?limits sample_record] size
    by (simp add: sample_record_def isSafeInteger_def MAX_SAFE_INTEGER_def)
  with enc show ?thesis by blast
qed

text \<open>Identifiers: the digest of an identifier is 32 bytes, an identifier is accepted exactly when
  it is 64 lowercase hexadecimal digits, and it is recovered from its digest.\<close>

theorem identifier_round_trip:
  "(idToBytes i = Inr digest) = (is_sha256_hex i \<and> contentIdFromDigestBytes digest = Inr i)"
  using id_of_digest [of digest i]
  by (auto simp: idToBytes_Inr contentIdFromDigestBytes_def SHA256_BYTE_LENGTH_def)

end
