(* ===== verification/Chunk_Recipe.thy ===== *)
theory Chunk_Recipe
  imports Record_Envelope FastCDC
begin

text \<open>
  Chunk recipes, \<^verbatim>\<open>src/infrastructure/content-store/chunk-recipe.ts\<close>: references, the summaries of
  leaf and branch nodes, and the canonical encoding of nodes and roots.
\<close>

subsection \<open>Constants\<close>

definition ROOT_MAGIC :: bytes where "ROOT_MAGIC = [0x43, 0x59, 0x52, 0x52]"
definition NODE_MAGIC :: bytes where "NODE_MAGIC = [0x43, 0x59, 0x52, 0x4E]"
definition RECIPE_FORMAT_VERSION :: int where "RECIPE_FORMAT_VERSION = 1"
definition FASTCDC_V1_PROFILE_CODE :: int where "FASTCDC_V1_PROFILE_CODE = 1"
definition LEAF_NODE_CODE :: int where "LEAF_NODE_CODE = 1"
definition BRANCH_NODE_CODE :: int where "BRANCH_NODE_CODE = 2"
definition CONTENT_REFERENCE_CODE :: int where "CONTENT_REFERENCE_CODE = 1"
definition RECIPE_REFERENCE_CODE :: int where "RECIPE_REFERENCE_CODE = 2"
definition MAX_LEAF_REFERENCES :: int where "MAX_LEAF_REFERENCES = 768"
definition MAX_BRANCH_REFERENCES :: int where "MAX_BRANCH_REFERENCES = 480"
definition CHUNKED_CONTENT_MIN_BYTES :: int where "CHUNKED_CONTENT_MIN_BYTES = 64 * 1024 + 1"
definition MAX_RECIPE_OBJECT_BYTES :: int where "MAX_RECIPE_OBJECT_BYTES = 32 * 1024"
definition MAX_RECIPE_DEPTH :: int where "MAX_RECIPE_DEPTH = 8"

subsection \<open>References, nodes and roots\<close>

record content_chunk_reference =
  cr_contentId :: string
  cr_decodedLength :: int

record recipe_summary =
  s_decodedLength :: int
  s_depth :: int
  s_nodeCount :: int
  s_chunkCount :: int

record child_recipe_reference =
  rr_recipeId :: string
  rr_summary :: recipe_summary

datatype recipe_node =
    Leaf_node (node_summary: recipe_summary) (leaf_chunks: "content_chunk_reference list")
  | Branch_node (node_summary: recipe_summary) (branch_children: "child_recipe_reference list")

record recipe_root =
  rt_profile :: string
  rt_contentId :: string
  rt_summary :: recipe_summary
  rt_child :: child_recipe_reference

record recipe_graph_limits =
  maxChunks :: int
  maxDecoded :: int
  maxDepth :: int
  maxNodes :: int

definition FASTCDC_V1_ID :: string where "FASTCDC_V1_ID = ''fastcdc-v1''"

abbreviation binary_error :: "canonical_binary_error_code \<Rightarrow> 'a result" where
  "binary_error c \<equiv> Inl (CanonicalBinaryError c)"

definition assertSafeLength :: "int \<Rightarrow> unit result" where
  "assertSafeLength v = (if \<not> isSafeInteger v \<or> v < 0 then binary_error Invalid_integer else Inr ())"

definition assertPositiveLength :: "int \<Rightarrow> unit result" where
  "assertPositiveLength v =
     rbind (assertSafeLength v) (\<lambda>_. if v = 0 then binary_error Unexpected_value else Inr ())"

definition checkedAdd :: "int \<Rightarrow> int \<Rightarrow> int result" where
  "checkedAdd left right =
     (if right > MAX_SAFE_INTEGER - left then binary_error Invalid_integer else Inr (left + right))"

definition assertLimits :: "recipe_graph_limits \<Rightarrow> unit result" where
  "assertLimits limits =
     rbind (assertSafeLength (maxChunks limits)) (\<lambda>_.
     rbind (assertSafeLength (maxDecoded limits)) (\<lambda>_.
     rbind (assertSafeLength (maxDepth limits)) (\<lambda>_. assertSafeLength (maxNodes limits))))"

definition assertWithinLimits :: "recipe_summary \<Rightarrow> recipe_graph_limits \<Rightarrow> unit result" where
  "assertWithinLimits s limits =
     (if s_decodedLength s > maxDecoded limits then binary_error Limit_exceeded
      else if s_depth s > min (maxDepth limits) MAX_RECIPE_DEPTH then binary_error Limit_exceeded
      else if s_nodeCount s > maxNodes limits then binary_error Limit_exceeded
      else if s_chunkCount s > maxChunks limits then binary_error Limit_exceeded
      else Inr ())"

definition freezeContentReference :: "content_chunk_reference \<Rightarrow> content_chunk_reference result" where
  "freezeContentReference c =
     rbind (parseContentId (cr_contentId c)) (\<lambda>i. Inr \<lparr>cr_contentId = i, cr_decodedLength = cr_decodedLength c\<rparr>)"

definition freezeRecipeReference :: "child_recipe_reference \<Rightarrow> child_recipe_reference result" where
  "freezeRecipeReference c =
     rbind (parseRecipeId (rr_recipeId c)) (\<lambda>i. Inr \<lparr>rr_recipeId = i, rr_summary = rr_summary c\<rparr>)"

subsection \<open>Summaries\<close>

fun summarize_chunks :: "content_chunk_reference list \<Rightarrow> int \<Rightarrow> (content_chunk_reference list \<times> int) result" where
  "summarize_chunks [] acc = Inr ([], acc)"
| "summarize_chunks (c # cs) acc =
     rbind (freezeContentReference c) (\<lambda>owned.
     rbind (assertPositiveLength (cr_decodedLength owned)) (\<lambda>_.
       if cr_decodedLength owned > MAXIMUM_BYTES then binary_error Unexpected_value
       else rbind (checkedAdd acc (cr_decodedLength owned)) (\<lambda>acc2.
         rbind (summarize_chunks cs acc2) (\<lambda>(chunks, sum). Inr (owned # chunks, sum)))))"

definition summarizeLeaf :: "content_chunk_reference list \<Rightarrow> recipe_node result" where
  "summarizeLeaf references =
     (if length references = 0 \<or> int (length references) > MAX_LEAF_REFERENCES
      then binary_error Limit_exceeded
      else rbind (summarize_chunks references 0) (\<lambda>(chunks, acc).
        Inr (Leaf_node \<lparr>s_decodedLength = acc, s_depth = 1, s_nodeCount = 1,
                         s_chunkCount = int (length chunks)\<rparr> chunks)))"

text \<open>The mutable sums of \<^verbatim>\<open>summarizeBranch\<close> travel in a summary.\<close>

fun summarize_children ::
  "child_recipe_reference list \<Rightarrow> recipe_summary \<Rightarrow> (child_recipe_reference list \<times> recipe_summary) result" where
  "summarize_children [] acc = Inr ([], acc)"
| "summarize_children (c # cs) acc =
     rbind (freezeRecipeReference c) (\<lambda>owned.
     let s = rr_summary owned in
     rbind (assertPositiveLength (s_decodedLength s)) (\<lambda>_.
     rbind (assertPositiveLength (s_depth s)) (\<lambda>_.
     rbind (assertPositiveLength (s_nodeCount s)) (\<lambda>_.
     rbind (assertPositiveLength (s_chunkCount s)) (\<lambda>_.
     rbind (checkedAdd (s_decodedLength acc) (s_decodedLength s)) (\<lambda>d.
     rbind (checkedAdd (s_nodeCount acc) (s_nodeCount s)) (\<lambda>n.
     rbind (checkedAdd (s_chunkCount acc) (s_chunkCount s)) (\<lambda>k.
     rbind (summarize_children cs
              \<lparr>s_decodedLength = d, s_depth = max (s_depth acc) (s_depth s), s_nodeCount = n, s_chunkCount = k\<rparr>)
       (\<lambda>(children, sum). Inr (owned # children, sum))))))))))"

definition summarizeBranch :: "child_recipe_reference list \<Rightarrow> recipe_node result" where
  "summarizeBranch references =
     (if length references = 0 \<or> int (length references) > MAX_BRANCH_REFERENCES
      then binary_error Limit_exceeded
      else rbind (summarize_children references
                    \<lparr>s_decodedLength = 0, s_depth = 0, s_nodeCount = 0, s_chunkCount = 0\<rparr>) (\<lambda>(children, sum).
        let depth = s_depth sum + 1 in
        if depth \<ge> MAX_RECIPE_DEPTH then binary_error Limit_exceeded
        else rbind (checkedAdd 1 (s_nodeCount sum)) (\<lambda>nodeCount.
          Inr (Branch_node \<lparr>s_decodedLength = s_decodedLength sum, s_depth = depth, s_nodeCount = nodeCount,
                             s_chunkCount = s_chunkCount sum\<rparr> children))))"

definition referenceFor :: "string \<Rightarrow> recipe_node \<Rightarrow> child_recipe_reference result" where
  "referenceFor recipeId node = freezeRecipeReference \<lparr>rr_recipeId = recipeId, rr_summary = node_summary node\<rparr>"

subsection \<open>Encoding\<close>

definition writeRecipeReference :: "child_recipe_reference \<Rightarrow> canonical_writer \<Rightarrow> canonical_writer result" where
  "writeRecipeReference c w =
     rbind (writeByte RECIPE_REFERENCE_CODE w) (\<lambda>w.
     rbind (idToBytes (rr_recipeId c)) (\<lambda>i.
     rbind (writeBytes i w) (\<lambda>w.
     rbind (writeVarint (s_decodedLength (rr_summary c)) w) (\<lambda>w.
     rbind (writeVarint (s_depth (rr_summary c)) w) (\<lambda>w.
     rbind (writeVarint (s_nodeCount (rr_summary c)) w) (\<lambda>w.
       writeVarint (s_chunkCount (rr_summary c)) w))))))"

definition writeContentReference :: "content_chunk_reference \<Rightarrow> canonical_writer \<Rightarrow> canonical_writer result" where
  "writeContentReference c w =
     rbind (writeByte CONTENT_REFERENCE_CODE w) (\<lambda>w.
     rbind (idToBytes (cr_contentId c)) (\<lambda>i.
     rbind (writeBytes i w) (\<lambda>w. writeVarint (cr_decodedLength c) w)))"

definition assertObjectSize :: "bytes \<Rightarrow> unit result" where
  "assertObjectSize encoded =
     (if byteLength encoded > MAX_RECIPE_OBJECT_BYTES then binary_error Limit_exceeded else Inr ())"

fun write_each :: "('a \<Rightarrow> canonical_writer \<Rightarrow> canonical_writer result) \<Rightarrow> 'a list \<Rightarrow> canonical_writer \<Rightarrow>
    canonical_writer result" where
  "write_each put [] w = Inr w"
| "write_each put (x # xs) w = rbind (put x w) (write_each put xs)"

definition encodeRecipeNode :: "recipe_node \<Rightarrow> bytes result" where
  "encodeRecipeNode node =
     rbind (case node of Leaf_node _ chunks \<Rightarrow> summarizeLeaf chunks
                       | Branch_node _ children \<Rightarrow> summarizeBranch children) (\<lambda>canonical.
       if node_summary canonical \<noteq> node_summary node then binary_error Non_canonical
       else rbind (writeBytes NODE_MAGIC newCanonicalWriter) (\<lambda>w.
         rbind (writeByte RECIPE_FORMAT_VERSION w) (\<lambda>w.
         rbind (writeByte (case node of Leaf_node _ _ \<Rightarrow> LEAF_NODE_CODE | _ \<Rightarrow> BRANCH_NODE_CODE) w) (\<lambda>w.
         rbind (writeVarint (s_decodedLength (node_summary node)) w) (\<lambda>w.
         rbind (case node of
                  Leaf_node _ chunks \<Rightarrow>
                    rbind (writeVarint (int (length chunks)) w) (write_each writeContentReference chunks)
                | Branch_node _ children \<Rightarrow>
                    rbind (writeVarint (int (length children)) w) (write_each writeRecipeReference children))
           (\<lambda>w. let encoded = finish w in rbind (assertObjectSize encoded) (\<lambda>_. Inr encoded)))))))"

definition encodeRecipeRoot :: "recipe_root \<Rightarrow> bytes result" where
  "encodeRecipeRoot root =
     rbind (parseContentId (rt_contentId root)) (\<lambda>_.
     rbind (freezeRecipeReference (rt_child root)) (\<lambda>child.
     rbind (checkedAdd 1 (s_nodeCount (rr_summary child))) (\<lambda>expectedNodes.
       if rt_profile root \<noteq> FASTCDC_V1_ID
         \<or> s_decodedLength (rt_summary root) \<noteq> s_decodedLength (rr_summary child)
         \<or> s_depth (rt_summary root) \<noteq> s_depth (rr_summary child) + 1
         \<or> s_nodeCount (rt_summary root) \<noteq> expectedNodes
         \<or> s_chunkCount (rt_summary root) \<noteq> s_chunkCount (rr_summary child)
       then binary_error Non_canonical
       else if s_decodedLength (rt_summary root) < CHUNKED_CONTENT_MIN_BYTES \<or> s_chunkCount (rt_summary root) < 2
       then binary_error Unexpected_value
       else if s_depth (rt_summary root) > MAX_RECIPE_DEPTH then binary_error Limit_exceeded
       else rbind (writeBytes ROOT_MAGIC newCanonicalWriter) (\<lambda>w.
         rbind (writeByte RECIPE_FORMAT_VERSION w) (\<lambda>w.
         rbind (writeByte FASTCDC_V1_PROFILE_CODE w) (\<lambda>w.
         rbind (idToBytes (rt_contentId root)) (\<lambda>i.
         rbind (writeBytes i w) (\<lambda>w.
         rbind (writeVarint (s_decodedLength (rt_summary root)) w) (\<lambda>w.
         rbind (writeRecipeReference child w) (\<lambda>w.
           let encoded = finish w in rbind (assertObjectSize encoded) (\<lambda>_. Inr encoded)))))))))))"

subsection \<open>Decoding\<close>

definition readContentReference ::
  "canonical_reader \<Rightarrow> (content_chunk_reference \<times> canonical_reader) result" where
  "readContentReference r =
     rbind (readByte r) (\<lambda>(referenceKind, r).
       if referenceKind \<noteq> CONTENT_REFERENCE_CODE then binary_error Unexpected_value
       else rbind (readBytes SHA256_BYTE_LENGTH r) (\<lambda>(digest, r).
         rbind (contentIdFromDigestBytes digest) (\<lambda>i.
         rbind (readVarint r) (\<lambda>(len, r). Inr (\<lparr>cr_contentId = i, cr_decodedLength = len\<rparr>, r)))))"

definition readRecipeReference ::
  "canonical_reader \<Rightarrow> (child_recipe_reference \<times> canonical_reader) result" where
  "readRecipeReference r =
     rbind (readByte r) (\<lambda>(kind, r).
       if kind \<noteq> RECIPE_REFERENCE_CODE then binary_error Unexpected_value
       else rbind (readBytes SHA256_BYTE_LENGTH r) (\<lambda>(digest, r).
         rbind (recipeIdFromDigestBytes digest) (\<lambda>i.
         rbind (readVarint r) (\<lambda>(len, r). rbind (readVarint r) (\<lambda>(depth, r).
         rbind (readVarint r) (\<lambda>(nodes, r). rbind (readVarint r) (\<lambda>(chunks, r).
         rbind (freezeRecipeReference \<lparr>rr_recipeId = i, rr_summary =
            \<lparr>s_decodedLength = len, s_depth = depth, s_nodeCount = nodes, s_chunkCount = chunks\<rparr>\<rparr>) (\<lambda>reference.
         rbind (assertPositiveLength (s_decodedLength (rr_summary reference))) (\<lambda>_.
         rbind (assertPositiveLength (s_depth (rr_summary reference))) (\<lambda>_.
         rbind (assertPositiveLength (s_nodeCount (rr_summary reference))) (\<lambda>_.
         rbind (assertPositiveLength (s_chunkCount (rr_summary reference))) (\<lambda>_.
           Inr (reference, r)))))))))))))"

text \<open>The branches on the node kind in \<^verbatim>\<open>decodeRecipeNode\<close>.\<close>

definition readNodeReferences ::
  "int \<Rightarrow> int \<Rightarrow> recipe_graph_limits \<Rightarrow> canonical_reader \<Rightarrow> (recipe_node \<times> canonical_reader) result" where
  "readNodeReferences kind referenceCount limits r =
     (if kind = LEAF_NODE_CODE then
        (if referenceCount > min MAX_LEAF_REFERENCES (maxChunks limits) then binary_error Limit_exceeded
         else rbind (read_many readContentReference (nat referenceCount) r) (\<lambda>(chunks, r).
           rbind (summarizeLeaf chunks) (\<lambda>node. Inr (node, r))))
      else if kind = BRANCH_NODE_CODE then
        (if referenceCount > min MAX_BRANCH_REFERENCES (maxNodes limits) then binary_error Limit_exceeded
         else rbind (read_many readRecipeReference (nat referenceCount) r) (\<lambda>(children, r).
           rbind (summarizeBranch children) (\<lambda>node. Inr (node, r))))
      else binary_error Unexpected_value)"

definition decodeRecipeNode :: "bytes \<Rightarrow> recipe_graph_limits \<Rightarrow> recipe_node result" where
  "decodeRecipeNode encoded limits =
     rbind (assertLimits limits) (\<lambda>_.
     rbind (assertObjectSize encoded) (\<lambda>_.
     rbind (expectBytes NODE_MAGIC (newCanonicalReader encoded)) (\<lambda>r.
     rbind (readByte r) (\<lambda>(version, r).
       if version \<noteq> RECIPE_FORMAT_VERSION then binary_error Unexpected_value
       else rbind (readByte r) (\<lambda>(kind, r).
         rbind (readVarint r) (\<lambda>(claimedDecodedLength, r).
           if claimedDecodedLength > maxDecoded limits then binary_error Limit_exceeded
           else rbind (readVarint r) (\<lambda>(referenceCount, r).
             rbind (readNodeReferences kind referenceCount limits r) (\<lambda>(node, r).
             rbind (assertEnd r) (\<lambda>_.
               if s_decodedLength (node_summary node) \<noteq> claimedDecodedLength then binary_error Non_canonical
               else rbind (assertWithinLimits (node_summary node) limits) (\<lambda>_. Inr node))))))))))"

definition decodeRecipeRoot :: "bytes \<Rightarrow> recipe_graph_limits \<Rightarrow> recipe_root result" where
  "decodeRecipeRoot encoded limits =
     rbind (assertLimits limits) (\<lambda>_.
     rbind (assertObjectSize encoded) (\<lambda>_.
     rbind (expectBytes ROOT_MAGIC (newCanonicalReader encoded)) (\<lambda>r.
     rbind (readByte r) (\<lambda>(version, r).
       if version \<noteq> RECIPE_FORMAT_VERSION then binary_error Unexpected_value
       else rbind (readByte r) (\<lambda>(profile, r).
         if profile \<noteq> FASTCDC_V1_PROFILE_CODE then binary_error Unexpected_value
         else rbind (readBytes SHA256_BYTE_LENGTH r) (\<lambda>(digest, r).
           rbind (contentIdFromDigestBytes digest) (\<lambda>contentId.
           rbind (readVarint r) (\<lambda>(claimedDecodedLength, r).
           rbind (readRecipeReference r) (\<lambda>(child, r).
           rbind (assertEnd r) (\<lambda>_.
           rbind (checkedAdd 1 (s_nodeCount (rr_summary child))) (\<lambda>nodeCount.
             let s = (rr_summary child)\<lparr>s_depth := s_depth (rr_summary child) + 1, s_nodeCount := nodeCount\<rparr>;
                 root = \<lparr>rt_profile = FASTCDC_V1_ID, rt_contentId = contentId, rt_summary = s, rt_child = child\<rparr>
             in if s_decodedLength s \<noteq> claimedDecodedLength then binary_error Non_canonical
                else if s_decodedLength s < CHUNKED_CONTENT_MIN_BYTES \<or> s_chunkCount s < 2
                then binary_error Unexpected_value
                else rbind (assertWithinLimits s limits) (\<lambda>_. Inr root))))))))))))"

subsection \<open>Elementary facts\<close>

lemma assertSafeLength_Inr [simp]: "assertSafeLength v = Inr u \<longleftrightarrow> safe_unsigned v"
  by (auto simp: assertSafeLength_def)

lemma assertPositiveLength_Inr: "assertPositiveLength v = Inr u \<longleftrightarrow> 0 < v \<and> v \<le> MAX_SAFE_INTEGER"
  by (auto simp: assertPositiveLength_def rbind_eq_Inr isSafeInteger_def MAX_SAFE_INTEGER_def)

lemma checkedAdd_Inr: "checkedAdd a b = Inr c \<longleftrightarrow> a + b \<le> MAX_SAFE_INTEGER \<and> c = a + b"
  by (auto simp: checkedAdd_def)

lemma freezeContentReference_Inr:
  "freezeContentReference c = Inr c' \<longleftrightarrow> is_sha256_hex (cr_contentId c) \<and> c' = c"
  by (cases c) (auto simp: freezeContentReference_def rbind_eq_Inr parseContentId_def parseSha256_def)

lemma freezeRecipeReference_Inr:
  "freezeRecipeReference c = Inr c' \<longleftrightarrow> is_sha256_hex (rr_recipeId c) \<and> c' = c"
  by (cases c) (auto simp: freezeRecipeReference_def rbind_eq_Inr parseRecipeId_def parseSha256_def)

lemma assertObjectSize_Inr [simp]: "assertObjectSize bs = Inr u \<longleftrightarrow> byteLength bs \<le> MAX_RECIPE_OBJECT_BYTES"
  by (auto simp: assertObjectSize_def)

definition limits_ok :: "recipe_graph_limits \<Rightarrow> bool" where
  "limits_ok limits \<longleftrightarrow> assertLimits limits = Inr ()"

definition within :: "recipe_summary \<Rightarrow> recipe_graph_limits \<Rightarrow> bool" where
  "within s limits \<longleftrightarrow> s_decodedLength s \<le> maxDecoded limits \<and> s_depth s \<le> maxDepth limits \<and>
     s_depth s \<le> MAX_RECIPE_DEPTH \<and> s_nodeCount s \<le> maxNodes limits \<and> s_chunkCount s \<le> maxChunks limits"

lemma assertWithinLimits_Inr: "assertWithinLimits s limits = Inr u \<longleftrightarrow> within s limits"
  by (auto simp: assertWithinLimits_def within_def)

lemmas recipe_checks = assertPositiveLength_Inr checkedAdd_Inr freezeContentReference_Inr
  freezeRecipeReference_Inr assertWithinLimits_Inr

subsection \<open>What the summaries compute\<close>

definition chunk_total :: "content_chunk_reference list \<Rightarrow> int" where
  "chunk_total cs = sum_list (map cr_decodedLength cs)"

definition child_total :: "(recipe_summary \<Rightarrow> int) \<Rightarrow> child_recipe_reference list \<Rightarrow> int" where
  "child_total f cs = sum_list (map (f \<circ> rr_summary) cs)"

definition child_depth :: "child_recipe_reference list \<Rightarrow> int" where
  "child_depth cs = foldr (max \<circ> s_depth \<circ> rr_summary) cs 0"

definition chunk_ok :: "content_chunk_reference \<Rightarrow> bool" where
  "chunk_ok c \<longleftrightarrow> is_sha256_hex (cr_contentId c) \<and> 0 < cr_decodedLength c \<and> cr_decodedLength c \<le> MAXIMUM_BYTES"

definition child_ok :: "child_recipe_reference \<Rightarrow> bool" where
  "child_ok c \<longleftrightarrow> is_sha256_hex (rr_recipeId c) \<and>
     (\<forall>f \<in> {s_decodedLength, s_depth, s_nodeCount, s_chunkCount}.
        0 < f (rr_summary c) \<and> f (rr_summary c) \<le> MAX_SAFE_INTEGER)"

lemma summarize_chunks_Inr:
  "a \<le> MAX_SAFE_INTEGER \<Longrightarrow> summarize_chunks cs a = Inr (cs', t) \<longleftrightarrow>
     list_all chunk_ok cs \<and> a + chunk_total cs \<le> MAX_SAFE_INTEGER \<and> cs' = cs \<and> t = a + chunk_total cs"
proof (induction cs arbitrary: a cs' t)
  case (Cons c cs)
  let ?b = "a + cr_decodedLength c"
  have pos: "0 \<le> chunk_total cs" if "list_all chunk_ok cs"
    using that by (induction cs) (auto simp: chunk_total_def chunk_ok_def)
  have step: "summarize_chunks (c # cs) a = Inr (cs', t) \<longleftrightarrow>
      chunk_ok c \<and> ?b \<le> MAX_SAFE_INTEGER \<and> (\<exists>ds. summarize_chunks cs ?b = Inr (ds, t) \<and> cs' = c # ds)"
    by (auto simp: rbind_eq_Inr recipe_checks chunk_ok_def MAXIMUM_BYTES_def MAX_SAFE_INTEGER_def)
  have all: "chunk_total (c # cs) = cr_decodedLength c + chunk_total cs" by (simp add: chunk_total_def)
  show ?case
  proof (cases "?b \<le> MAX_SAFE_INTEGER")
    case True
    show ?thesis unfolding step Cons.IH [OF True] all using True by auto
  next
    case False
    then show ?thesis unfolding step all using pos by auto
  qed
qed (auto simp: chunk_total_def)

definition summary_add :: "recipe_summary \<Rightarrow> child_recipe_reference list \<Rightarrow> recipe_summary" where
  "summary_add a cs =
     \<lparr>s_decodedLength = s_decodedLength a + child_total s_decodedLength cs,
      s_depth = max (s_depth a) (child_depth cs),
      s_nodeCount = s_nodeCount a + child_total s_nodeCount cs,
      s_chunkCount = s_chunkCount a + child_total s_chunkCount cs\<rparr>"

definition sums_safe :: "recipe_summary \<Rightarrow> bool" where
  "sums_safe a \<longleftrightarrow> s_decodedLength a \<le> MAX_SAFE_INTEGER \<and> s_nodeCount a \<le> MAX_SAFE_INTEGER \<and>
     s_chunkCount a \<le> MAX_SAFE_INTEGER"

lemma child_total_nonneg:
  "list_all child_ok cs \<Longrightarrow> f \<in> {s_decodedLength, s_depth, s_nodeCount, s_chunkCount} \<Longrightarrow> 0 \<le> child_total f cs"
  by (induction cs) (auto simp: child_total_def child_ok_def)

lemma child_depth_nonneg: "0 \<le> child_depth cs"
  by (induction cs) (auto simp: child_depth_def)

lemma summary_add_Nil: "0 \<le> s_depth a \<Longrightarrow> summary_add a [] = a"
  by (cases a) (simp add: summary_add_def child_total_def child_depth_def)

lemma summary_add_Cons: "summary_add a (c # cs) = summary_add (summary_add a [c]) cs"
  using child_depth_nonneg [of cs] by (simp add: summary_add_def child_total_def child_depth_def max.assoc)

lemma summary_add_one:
  "0 \<le> s_depth a \<Longrightarrow> summary_add a [c] =
     \<lparr>s_decodedLength = s_decodedLength a + s_decodedLength (rr_summary c),
      s_depth = max (s_depth a) (s_depth (rr_summary c)),
      s_nodeCount = s_nodeCount a + s_nodeCount (rr_summary c),
      s_chunkCount = s_chunkCount a + s_chunkCount (rr_summary c)\<rparr>"
  by (simp add: summary_add_def child_total_def child_depth_def)

lemma summary_add_depth: "0 \<le> s_depth a \<Longrightarrow> 0 \<le> s_depth (summary_add a cs)"
  by (simp add: summary_add_def)

lemma summarize_children_Inr:
  "sums_safe a \<Longrightarrow> 0 \<le> s_depth a \<Longrightarrow> summarize_children cs a = Inr (cs', t) \<longleftrightarrow>
     list_all child_ok cs \<and> sums_safe (summary_add a cs) \<and> cs' = cs \<and> t = summary_add a cs"
proof (induction cs arbitrary: a cs' t)
  case Nil
  then show ?case by (cases a) (auto simp: summary_add_def child_total_def child_depth_def)
next
  case (Cons c cs)
  let ?a = "summary_add a [c]"
  have step: "summarize_children (c # cs) a = Inr (cs', t) \<longleftrightarrow>
      child_ok c \<and> sums_safe ?a \<and> (\<exists>ds. summarize_children cs ?a = Inr (ds, t) \<and> cs' = c # ds)"
    using Cons.prems
    by (auto simp: rbind_eq_Inr recipe_checks child_ok_def summary_add_def sums_safe_def child_total_def child_depth_def Let_def max.absorb1)
  have all: "summary_add ?a cs = summary_add a (c # cs)" by (rule summary_add_Cons [symmetric])
  have safe: "sums_safe ?a" if "list_all child_ok cs" "sums_safe (summary_add ?a cs)"
    using that child_total_nonneg [of cs] by (fastforce simp: summary_add_def sums_safe_def)
  show ?case
  proof (cases "sums_safe ?a")
    case True
    moreover have "0 \<le> s_depth ?a" using Cons.prems by (simp add: summary_add_def)
    ultimately show ?thesis unfolding step using Cons.IH [of ?a] all by auto
  next
    case False
    then show ?thesis unfolding step using safe all by auto
  qed
qed

definition leaf_summary :: "content_chunk_reference list \<Rightarrow> recipe_summary" where
  "leaf_summary cs = \<lparr>s_decodedLength = chunk_total cs, s_depth = 1, s_nodeCount = 1, s_chunkCount = int (length cs)\<rparr>"

definition branch_summary :: "child_recipe_reference list \<Rightarrow> recipe_summary" where
  "branch_summary cs = \<lparr>s_decodedLength = child_total s_decodedLength cs, s_depth = child_depth cs + 1,
     s_nodeCount = 1 + child_total s_nodeCount cs, s_chunkCount = child_total s_chunkCount cs\<rparr>"

definition leaf_ok :: "content_chunk_reference list \<Rightarrow> bool" where
  "leaf_ok cs \<longleftrightarrow> cs \<noteq> [] \<and> int (length cs) \<le> MAX_LEAF_REFERENCES \<and> list_all chunk_ok cs \<and>
     chunk_total cs \<le> MAX_SAFE_INTEGER"

definition branch_ok :: "child_recipe_reference list \<Rightarrow> bool" where
  "branch_ok cs \<longleftrightarrow> cs \<noteq> [] \<and> int (length cs) \<le> MAX_BRANCH_REFERENCES \<and> list_all child_ok cs \<and>
     sums_safe (branch_summary cs) \<and> s_depth (branch_summary cs) < MAX_RECIPE_DEPTH"

text \<open>A node is well formed when its summary is the one computed from its references.\<close>

fun node_ok :: "recipe_node \<Rightarrow> bool" where
  "node_ok (Leaf_node s cs) \<longleftrightarrow> leaf_ok cs \<and> s = leaf_summary cs"
| "node_ok (Branch_node s cs) \<longleftrightarrow> branch_ok cs \<and> s = branch_summary cs"

lemma summarizeLeaf_Inr: "summarizeLeaf cs = Inr n \<longleftrightarrow> leaf_ok cs \<and> n = Leaf_node (leaf_summary cs) cs"
  by (auto simp: summarizeLeaf_def rbind_eq_Inr summarize_chunks_Inr leaf_ok_def leaf_summary_def
      MAX_SAFE_INTEGER_def)

lemma summarizeBranch_Inr:
  "summarizeBranch cs = Inr n \<longleftrightarrow> branch_ok cs \<and> n = Branch_node (branch_summary cs) cs"
proof -
  let ?zero = "\<lparr>s_decodedLength = 0, s_depth = 0, s_nodeCount = 0, s_chunkCount = 0\<rparr>"
  have "sums_safe ?zero" by (simp add: sums_safe_def MAX_SAFE_INTEGER_def)
  moreover have "summary_add ?zero cs = (branch_summary cs)\<lparr>s_depth := child_depth cs,
      s_nodeCount := child_total s_nodeCount cs\<rparr>"
    using child_depth_nonneg [of cs] by (simp add: summary_add_def branch_summary_def)
  ultimately show ?thesis
    by (auto simp: summarizeBranch_def rbind_eq_Inr summarize_children_Inr checkedAdd_Inr branch_ok_def
        sums_safe_def branch_summary_def Let_def)
qed

lemma leaf_total_pos: "leaf_ok cs \<Longrightarrow> 0 < chunk_total cs"
proof -
  assume "leaf_ok cs"
  moreover have "list_all chunk_ok ds \<Longrightarrow> 0 \<le> chunk_total ds" for ds
    by (induction ds) (auto simp: chunk_total_def chunk_ok_def)
  ultimately show ?thesis by (cases cs) (auto simp: leaf_ok_def chunk_total_def chunk_ok_def add_pos_nonneg)
qed

lemma child_total_length:
  "list_all child_ok cs \<Longrightarrow> f \<in> {s_decodedLength, s_depth, s_nodeCount, s_chunkCount} \<Longrightarrow>
     int (length cs) \<le> child_total f cs"
  by (induction cs) (fastforce simp: child_total_def child_ok_def)+

subsection \<open>References as codecs\<close>

definition content_reference_ok :: "content_chunk_reference \<Rightarrow> bool" where
  "content_reference_ok c \<longleftrightarrow> is_sha256_hex (cr_contentId c) \<and> safe_unsigned (cr_decodedLength c)"

definition content_reference_chunks :: "content_chunk_reference \<Rightarrow> bytes list" where
  "content_reference_chunks c = [byte1 CONTENT_REFERENCE_CODE, fromHex (cr_contentId c), varint (cr_decodedLength c)]"

definition recipe_reference_chunks :: "child_recipe_reference \<Rightarrow> bytes list" where
  "recipe_reference_chunks c = [byte1 RECIPE_REFERENCE_CODE, fromHex (rr_recipeId c),
     varint (s_decodedLength (rr_summary c)), varint (s_depth (rr_summary c)),
     varint (s_nodeCount (rr_summary c)), varint (s_chunkCount (rr_summary c))]"

lemma id_size_safe [simp]: "isSafeInteger SHA256_BYTE_LENGTH" "\<not> SHA256_BYTE_LENGTH < 0"
  by (simp_all add: SHA256_BYTE_LENGTH_def)

lemmas recipe_codes = ROOT_MAGIC_def NODE_MAGIC_def RECIPE_FORMAT_VERSION_def FASTCDC_V1_PROFILE_CODE_def
  LEAF_NODE_CODE_def BRANCH_NODE_CODE_def CONTENT_REFERENCE_CODE_def RECIPE_REFERENCE_CODE_def

interpretation content_reference: canonical_codec
  "\<lambda>c. concat (content_reference_chunks c)" content_reference_ok readContentReference
proof
  fix r v r'
  assume r: "reader_ok r"
  show "readContentReference r = Inr (v, r') \<longleftrightarrow> content_reference_ok v \<and>
      starts r (concat (content_reference_chunks v)) \<and> r' = after (concat (content_reference_chunks v)) r"
    unfolding readContentReference_def content_reference_chunks_def
    using r
    by (simp add: decoding_chunks layout recipe_codes cong: conj_cong)
      (cases v, auto simp: content_reference_ok_def id_bytes digest_id_Inr SHA256_BYTE_LENGTH_def)
qed

interpretation recipe_reference: canonical_codec
  "\<lambda>c. concat (recipe_reference_chunks c)" child_ok readRecipeReference
proof
  fix r v r'
  assume r: "reader_ok r"
  show "readRecipeReference r = Inr (v, r') \<longleftrightarrow> child_ok v \<and>
      starts r (concat (recipe_reference_chunks v)) \<and> r' = after (concat (recipe_reference_chunks v)) r"
    unfolding readRecipeReference_def recipe_reference_chunks_def
    using r
    by (simp add: decoding_chunks layout recipe_checks recipe_codes cong: conj_cong)
      (cases v, cases "rr_summary v", auto simp: child_ok_def id_bytes isSafeInteger_def MAX_SAFE_INTEGER_def digest_id_Inr SHA256_BYTE_LENGTH_def)
qed

text \<open>A writer that adds the chunks of each valid value, as long as they fit.\<close>

locale canonical_writes =
  fixes put :: "'a \<Rightarrow> canonical_writer \<Rightarrow> canonical_writer result"
    and chunks :: "'a \<Rightarrow> bytes list"
    and valid :: "'a \<Rightarrow> bool"
  assumes writes: "byteLength (concat vs) \<le> MAX_SAFE_INTEGER \<Longrightarrow> put x (writer_at vs) = Inr w \<longleftrightarrow>
      valid x \<and> byteLength (concat (vs @ chunks x)) \<le> MAX_SAFE_INTEGER \<and> w = writer_at (vs @ chunks x)"
begin

lemma write_each_at:
  "byteLength (concat vs) \<le> MAX_SAFE_INTEGER \<Longrightarrow> write_each put xs (writer_at vs) = Inr w \<longleftrightarrow>
     list_all valid xs \<and> byteLength (concat (vs @ concat (map chunks xs))) \<le> MAX_SAFE_INTEGER \<and>
     w = writer_at (vs @ concat (map chunks xs))"
proof (induction xs arbitrary: vs)
  case Nil
  then show ?case by auto
next
  case (Cons x xs)
  have "write_each put (x # xs) (writer_at vs) = Inr w \<longleftrightarrow>
      valid x \<and> byteLength (concat (vs @ chunks x)) \<le> MAX_SAFE_INTEGER \<and>
      write_each put xs (writer_at (vs @ chunks x)) = Inr w"
    using Cons.prems by (auto simp: rbind_eq_Inr writes)
  then show ?case
    using Cons.IH [of "vs @ chunks x"] by auto
qed

end

interpretation content_writes: canonical_writes writeContentReference content_reference_chunks content_reference_ok
proof
  fix vs x w
  assume "byteLength (concat vs) \<le> MAX_SAFE_INTEGER"
  then show "writeContentReference x (writer_at vs) = Inr w \<longleftrightarrow> content_reference_ok x \<and>
      byteLength (concat (vs @ content_reference_chunks x)) \<le> MAX_SAFE_INTEGER \<and>
      w = writer_at (vs @ content_reference_chunks x)"
    by (auto simp: writeContentReference_def content_reference_chunks_def content_reference_ok_def rbind_eq_Inr
        writeByte_one_at writeBytes_at writeVarint_at idToBytes_Inr recipe_codes id_bytes)
qed

definition recipe_reference_ok :: "child_recipe_reference \<Rightarrow> bool" where
  "recipe_reference_ok c \<longleftrightarrow> is_sha256_hex (rr_recipeId c) \<and>
     (\<forall>f \<in> {s_decodedLength, s_depth, s_nodeCount, s_chunkCount}. safe_unsigned (f (rr_summary c)))"

interpretation recipe_writes: canonical_writes writeRecipeReference recipe_reference_chunks recipe_reference_ok
proof
  fix vs x w
  assume "byteLength (concat vs) \<le> MAX_SAFE_INTEGER"
  then show "writeRecipeReference x (writer_at vs) = Inr w \<longleftrightarrow> recipe_reference_ok x \<and>
      byteLength (concat (vs @ recipe_reference_chunks x)) \<le> MAX_SAFE_INTEGER \<and>
      w = writer_at (vs @ recipe_reference_chunks x)"
    by (auto simp: writeRecipeReference_def recipe_reference_chunks_def recipe_reference_ok_def rbind_eq_Inr
        writeByte_one_at writeBytes_at writeVarint_at idToBytes_Inr recipe_codes id_bytes)
qed

subsection \<open>Nodes as codecs\<close>

fun node_chunks :: "recipe_node \<Rightarrow> bytes list" where
  "node_chunks (Leaf_node s cs) = [NODE_MAGIC, byte1 RECIPE_FORMAT_VERSION, byte1 LEAF_NODE_CODE,
     varint (s_decodedLength s), varint (int (length cs))] @ concat (map content_reference_chunks cs)"
| "node_chunks (Branch_node s cs) = [NODE_MAGIC, byte1 RECIPE_FORMAT_VERSION, byte1 BRANCH_NODE_CODE,
     varint (s_decodedLength s), varint (int (length cs))] @ concat (map recipe_reference_chunks cs)"

lemma recompute_Inr:
  "(case node of Leaf_node _ cs \<Rightarrow> summarizeLeaf cs | Branch_node _ cs \<Rightarrow> summarizeBranch cs) = Inr n \<and>
     node_summary n = node_summary node \<longleftrightarrow> node_ok node \<and> n = node"
  by (cases node) (auto simp: summarizeLeaf_Inr summarizeBranch_Inr)

lemma chunk_ok_reference: "chunk_ok c \<Longrightarrow> content_reference_ok c"
  by (auto simp: chunk_ok_def content_reference_ok_def isSafeInteger_def MAXIMUM_BYTES_def MAX_SAFE_INTEGER_def)

lemma child_ok_reference: "child_ok c \<Longrightarrow> recipe_reference_ok c"
  by (auto simp: child_ok_def recipe_reference_ok_def isSafeInteger_def)

lemma node_ok_references:
  "leaf_ok cs \<Longrightarrow> list_all content_reference_ok cs"
  "branch_ok ds \<Longrightarrow> list_all recipe_reference_ok ds"
  by (auto simp: leaf_ok_def branch_ok_def list_all_iff chunk_ok_reference child_ok_reference)

lemma node_header_safe:
  "leaf_ok cs \<Longrightarrow> safe_unsigned (chunk_total cs) \<and> safe_unsigned (int (length cs))"
  "branch_ok ds \<Longrightarrow> safe_unsigned (child_total s_decodedLength ds) \<and> safe_unsigned (int (length ds))"
proof -
  assume "leaf_ok cs"
  then show "safe_unsigned (chunk_total cs) \<and> safe_unsigned (int (length cs))"
    using leaf_total_pos [of cs]
    by (auto simp: leaf_ok_def isSafeInteger_def MAX_LEAF_REFERENCES_def MAX_SAFE_INTEGER_def)
next
  assume "branch_ok ds"
  then show "safe_unsigned (child_total s_decodedLength ds) \<and> safe_unsigned (int (length ds))"
    using child_total_nonneg [of ds s_decodedLength]
    by (auto simp: branch_ok_def sums_safe_def branch_summary_def isSafeInteger_def MAX_BRANCH_REFERENCES_def
        MAX_SAFE_INTEGER_def)
qed

lemma object_size_safe: "n \<le> MAX_RECIPE_OBJECT_BYTES \<Longrightarrow> n \<le> MAX_SAFE_INTEGER"
  by (simp add: MAX_RECIPE_OBJECT_BYTES_def MAX_SAFE_INTEGER_def)

lemma encodeRecipeNode_Inr:
  "encodeRecipeNode node = Inr enc \<longleftrightarrow>
     node_ok node \<and> enc = concat (node_chunks node) \<and> byteLength enc \<le> MAX_RECIPE_OBJECT_BYTES"
proof -
  have "encodeRecipeNode node = Inr enc \<longleftrightarrow> node_ok node \<and> encodeRecipeNode node = Inr enc"
    using recompute_Inr [of node] by (auto simp: encodeRecipeNode_def rbind_eq_Inr split: if_splits)
  also have "\<dots> \<longleftrightarrow> node_ok node \<and> enc = concat (node_chunks node) \<and> byteLength enc \<le> MAX_RECIPE_OBJECT_BYTES"
  proof (cases node)
    case (Leaf_node s cs)
    then show ?thesis
      using node_ok_references(1) [of cs] node_header_safe(1) [of cs] object_size_safe
      by (auto simp: encodeRecipeNode_def summarizeLeaf_Inr rbind_eq_Inr writeByte_one_at writeBytes_at
          writeVarint_at content_writes.write_each_at leaf_summary_def recipe_codes Let_def)
  next
    case (Branch_node s cs)
    then show ?thesis
      using node_ok_references(2) [of cs] node_header_safe(2) [of cs] object_size_safe
      by (auto simp: encodeRecipeNode_def summarizeBranch_Inr rbind_eq_Inr writeByte_one_at writeBytes_at
          writeVarint_at recipe_writes.write_each_at branch_summary_def recipe_codes Let_def)
  qed
  finally show ?thesis .
qed

lemma limits_ok_safe: "assertLimits limits = Inr u \<longleftrightarrow> limits_ok limits"
  by (simp add: limits_ok_def)

lemma child_ok_content: "list_all chunk_ok cs \<Longrightarrow> list_all content_reference_ok cs"
  by (auto simp: list_all_iff chunk_ok_reference)

text \<open>The parts of a node that its kind decides.\<close>

fun node_kind :: "recipe_node \<Rightarrow> int" where
  "node_kind (Leaf_node _ _) = LEAF_NODE_CODE"
| "node_kind (Branch_node _ _) = BRANCH_NODE_CODE"

fun node_references :: "recipe_node \<Rightarrow> int" where
  "node_references (Leaf_node _ cs) = int (length cs)"
| "node_references (Branch_node _ cs) = int (length cs)"

fun reference_bytes :: "recipe_node \<Rightarrow> bytes" where
  "reference_bytes (Leaf_node _ cs) = concat (map (concat \<circ> content_reference_chunks) cs)"
| "reference_bytes (Branch_node _ cs) = concat (map (concat \<circ> recipe_reference_chunks) cs)"

fun reference_bound :: "recipe_graph_limits \<Rightarrow> recipe_node \<Rightarrow> int" where
  "reference_bound limits (Leaf_node _ _) = maxChunks limits"
| "reference_bound limits (Branch_node _ _) = maxNodes limits"

lemma concat_concat: "concat (concat (map f xs)) = concat (map (concat \<circ> f) xs)"
  by (induction xs) simp_all

lemma node_bytes: "concat (node_chunks node) = NODE_MAGIC @ byte1 RECIPE_FORMAT_VERSION @ byte1 (node_kind node) @
    varint (s_decodedLength (node_summary node)) @ varint (node_references node) @ reference_bytes node"
  by (cases node) (simp_all add: concat_concat)

lemma readNodeReferences_Inr:
  assumes "reader_ok r" and "0 \<le> claim"
  shows "readNodeReferences kind claim limits r = Inr (node, r') \<longleftrightarrow>
    node_ok node \<and> kind = node_kind node \<and> claim = node_references node \<and>
    claim \<le> reference_bound limits node \<and> starts r (reference_bytes node) \<and> r' = after (reference_bytes node) r"
proof (cases node)
  case (Leaf_node s cs)
  then show ?thesis
    using assms
    by (auto simp: readNodeReferences_def rbind_eq_Inr content_reference.read_many_canonical
        summarizeLeaf_Inr summarizeBranch_Inr comp_def recipe_codes split: if_splits)
      (auto simp: leaf_ok_def intro: child_ok_content)
next
  case (Branch_node s cs)
  then show ?thesis
    using assms
    by (auto simp: readNodeReferences_def rbind_eq_Inr recipe_reference.read_many_canonical
        summarizeLeaf_Inr summarizeBranch_Inr comp_def recipe_codes split: if_splits)
      (auto simp: branch_ok_def)
qed

lemma branch_nodes: "branch_ok cs \<Longrightarrow> int (length cs) < s_nodeCount (branch_summary cs)"
  using child_total_length [of cs s_nodeCount] by (auto simp: branch_ok_def branch_summary_def)

lemma node_ok_header:
  "node_ok node \<Longrightarrow> safe_unsigned (s_decodedLength (node_summary node)) \<and> safe_unsigned (node_references node) \<and>
     0 \<le> node_kind node \<and> node_kind node < 256"
  using node_header_safe by (cases node) (auto simp: leaf_summary_def branch_summary_def recipe_codes)

lemma within_header:
  "node_ok node \<Longrightarrow> within (node_summary node) limits \<Longrightarrow>
     s_decodedLength (node_summary node) \<le> maxDecoded limits \<and> node_references node \<le> reference_bound limits node"
  using branch_nodes by (cases node) (fastforce simp: within_def leaf_summary_def)+

lemma decodeRecipeNode_Inr:
  "decodeRecipeNode enc limits = Inr node \<longleftrightarrow>
     limits_ok limits \<and> node_ok node \<and> enc = concat (node_chunks node) \<and>
     byteLength enc \<le> MAX_RECIPE_OBJECT_BYTES \<and> within (node_summary node) limits"
proof (cases "byteLength enc \<le> MAX_RECIPE_OBJECT_BYTES")
  case False
  then show ?thesis by (auto simp: decodeRecipeNode_def rbind_eq_Inr)
next
  case True
  then have "byteLength enc \<le> MAX_SAFE_INTEGER" by (rule object_size_safe)
  then obtain r where new: "newCanonicalReader enc = r" and r: "reader_ok r" and whole: "enc = rest_of r"
    by (metis new_reader)
  show ?thesis
    using True r
    unfolding decodeRecipeNode_def new
    unfolding whole
    by (simp add: decoding_chunks layout recipe_checks limits_ok_safe node_bytes readNodeReferences_Inr
        cong: conj_cong)
      (use node_ok_header [of node] within_header [of node limits] in \<open>auto simp: RECIPE_FORMAT_VERSION_def\<close>)
qed

subsection \<open>Roots as codecs\<close>

definition root_ok :: "recipe_root \<Rightarrow> bool" where
  "root_ok root \<longleftrightarrow> rt_profile root = FASTCDC_V1_ID \<and> is_sha256_hex (rt_contentId root) \<and>
     recipe_reference_ok (rt_child root) \<and> s_nodeCount (rr_summary (rt_child root)) < MAX_SAFE_INTEGER \<and>
     rt_summary root = (rr_summary (rt_child root))
       \<lparr>s_depth := s_depth (rr_summary (rt_child root)) + 1, s_nodeCount := 1 + s_nodeCount (rr_summary (rt_child root))\<rparr> \<and>
     CHUNKED_CONTENT_MIN_BYTES \<le> s_decodedLength (rt_summary root) \<and> 2 \<le> s_chunkCount (rt_summary root) \<and>
     s_depth (rt_summary root) \<le> MAX_RECIPE_DEPTH"

definition root_chunks :: "recipe_root \<Rightarrow> bytes list" where
  "root_chunks root = [ROOT_MAGIC, byte1 RECIPE_FORMAT_VERSION, byte1 FASTCDC_V1_PROFILE_CODE,
     fromHex (rt_contentId root), varint (s_decodedLength (rt_summary root))] @ recipe_reference_chunks (rt_child root)"

lemma summary_equal_iff:
  "s = t \<longleftrightarrow> s_decodedLength s = s_decodedLength t \<and> s_depth s = s_depth t \<and>
     s_nodeCount s = s_nodeCount t \<and> s_chunkCount s = s_chunkCount (t :: recipe_summary)"
  by (cases s; cases t) auto

lemma encodeRecipeRoot_Inr:
  "encodeRecipeRoot root = Inr enc \<longleftrightarrow>
     root_ok root \<and> enc = concat (root_chunks root) \<and> byteLength enc \<le> MAX_RECIPE_OBJECT_BYTES"
  unfolding encodeRecipeRoot_def
  by (simp add: rbind_eq_Inr guard_eq_Inr recipe_checks parseContentId_def parseSha256_def
        writeByte_one_at writeBytes_at writeVarint_at idToBytes_Inr recipe_writes.writes
        Let_def cong: conj_cong)
    (auto simp: root_ok_def root_chunks_def summary_equal_iff [of "rt_summary root"] recipe_reference_ok_def
       recipe_codes id_bytes MAX_RECIPE_OBJECT_BYTES_def MAX_SAFE_INTEGER_def isSafeInteger_def)

lemma child_ok_root:
  "child_ok c \<Longrightarrow> recipe_reference_ok c \<and> safe_unsigned (s_decodedLength (rr_summary c))"
  using child_ok_reference [of c] by (auto simp: child_ok_def isSafeInteger_def)

lemma decodeRecipeRoot_Inr:
  "decodeRecipeRoot enc limits = Inr root \<longleftrightarrow>
     limits_ok limits \<and> root_ok root \<and> child_ok (rt_child root) \<and> enc = concat (root_chunks root) \<and>
     byteLength enc \<le> MAX_RECIPE_OBJECT_BYTES \<and> within (rt_summary root) limits"
proof (cases "byteLength enc \<le> MAX_RECIPE_OBJECT_BYTES")
  case False
  then show ?thesis by (auto simp: decodeRecipeRoot_def rbind_eq_Inr)
next
  case True
  then have "byteLength enc \<le> MAX_SAFE_INTEGER" by (rule object_size_safe)
  then obtain r where new: "newCanonicalReader enc = r" and r: "reader_ok r" and whole: "enc = rest_of r"
    by (metis new_reader)
  have bytes: "concat (root_chunks root) = ROOT_MAGIC @ byte1 RECIPE_FORMAT_VERSION @ byte1 FASTCDC_V1_PROFILE_CODE @
      fromHex (rt_contentId root) @ varint (s_decodedLength (rt_summary root)) @
      concat (recipe_reference_chunks (rt_child root))"
    by (simp add: root_chunks_def)
  show ?thesis
    using True r
    unfolding decodeRecipeRoot_def new
    unfolding whole
    by (simp add: decoding_chunks layout recipe_checks limits_ok_safe bytes recipe_reference.canonical Let_def
        cong: conj_cong)
      (cases root, auto simp: root_ok_def child_ok_root recipe_codes id_bytes digest_id_Inr SHA256_BYTE_LENGTH_def
         within_def CHUNKED_CONTENT_MIN_BYTES_def)
qed

subsection \<open>Properties\<close>

text \<open>Recipe nodes: decoding accepts exactly the byte strings that encoding produces, when the limits
  are valid and the node is within them, and returns the node that was encoded; the node then satisfies
  every check of the encoder, whose summary is recomputed from the references.\<close>

theorem recipe_node_codec_is_canonical:
  "(decodeRecipeNode encoded limits = Inr node) =
     (assertLimits limits = Inr () \<and> encodeRecipeNode node = Inr encoded \<and>
      assertWithinLimits (node_summary node) limits = Inr ())"
  by (auto simp: decodeRecipeNode_Inr encodeRecipeNode_Inr assertWithinLimits_Inr limits_ok_def)

text \<open>Recipe roots: decoding accepts exactly the encodings of roots within the limits whose child has a
  positive depth and node count, which the encoder alone does not ask for.\<close>

theorem recipe_root_codec_is_canonical:
  "(decodeRecipeRoot encoded limits = Inr root) =
     (assertLimits limits = Inr () \<and> encodeRecipeRoot root = Inr encoded \<and>
      assertWithinLimits (rt_summary root) limits = Inr () \<and>
      0 < s_depth (rr_summary (rt_child root)) \<and> 0 < s_nodeCount (rr_summary (rt_child root)))"
proof -
  have "root_ok root \<and> child_ok (rt_child root) \<longleftrightarrow> root_ok root \<and>
      0 < s_depth (rr_summary (rt_child root)) \<and> 0 < s_nodeCount (rr_summary (rt_child root))"
    by (auto simp: root_ok_def child_ok_def recipe_reference_ok_def isSafeInteger_def CHUNKED_CONTENT_MIN_BYTES_def)
  then show ?thesis
    by (auto simp: decodeRecipeRoot_Inr encodeRecipeRoot_Inr assertWithinLimits_Inr limits_ok_def)
qed

end
