(* ===== verification/Recipe_Graph.thy ===== *)
theory Recipe_Graph
  imports Chunk_Recipe
begin

text \<open>
  The authenticated traversal of a recipe graph, \<^verbatim>\<open>authenticateChunkRecipeGraph\<close> of
  \<^verbatim>\<open>src/infrastructure/content-store/chunk-recipe.ts\<close>. The digest \<open>sha256\<close> and the object reader
  \<open>readObject\<close> are parameters; a rejected read is an \<open>Inl\<close>. The recursion of \<^verbatim>\<open>visit\<close> takes a
  number of stack frames; running out of it is the engine's \<^verbatim>\<open>RangeError\<close>. The depth of the root
  always suffices, which is proved.
\<close>

subsection \<open>The traversal\<close>

record expected_content =
  exp_contentId :: string
  exp_decodedLength :: int

record authenticated_graph =
  g_contentId :: string
  g_decodedLength :: int
  g_chunks :: "content_chunk_reference list"
  g_recipeIds :: "string list"

text \<open>The variables that the closure \<^verbatim>\<open>visit\<close> shares; the sets keep the insertion order.\<close>

record visit_state =
  decodedCache :: "string \<rightharpoonup> recipe_node"
  activeIds :: "string list"
  recipeIds :: "string list"
  visitedNodes :: int

definition set_add :: "'a \<Rightarrow> 'a list \<Rightarrow> 'a list" where
  "set_add x xs = (if x \<in> set xs then xs else xs @ [x])"

definition assertAuthenticatedRecipeObject :: "(bytes \<Rightarrow> bytes) \<Rightarrow> string \<Rightarrow> bytes \<Rightarrow> unit result" where
  "assertAuthenticatedRecipeObject sha256 expectedId bs =
     (if recipeIdFromCanonicalBytes sha256 bs \<noteq> expectedId then binary_error Unexpected_value else Inr ())"

text \<open>The node of a reference: from the cache, or read, authenticated, decoded and cached.\<close>

definition cached_node :: "(bytes \<Rightarrow> bytes) \<Rightarrow> (string \<Rightarrow> bytes result) \<Rightarrow> recipe_graph_limits \<Rightarrow> string \<Rightarrow>
    visit_state \<Rightarrow> (recipe_node \<times> visit_state) result" where
  "cached_node sha256 readObject limits i st =
     (case decodedCache st i of
        Some node \<Rightarrow> Inr (node, st)
      | None \<Rightarrow>
          rbind (readObject i) (\<lambda>bs.
          rbind (assertAuthenticatedRecipeObject sha256 i bs) (\<lambda>_.
          rbind (decodeRecipeNode bs limits) (\<lambda>node.
            Inr (node, st\<lparr>decodedCache := (decodedCache st)(i \<mapsto> node)\<rparr>)))))"

type_synonym visit_result = "content_chunk_reference list \<times> recipe_summary"

text \<open>The loop over the children of a branch, for the recursive call \<open>visit\<close>.\<close>

fun visit_children :: "(child_recipe_reference \<Rightarrow> visit_state \<Rightarrow> (visit_result \<times> visit_state) result) \<Rightarrow>
    recipe_graph_limits \<Rightarrow> child_recipe_reference list \<Rightarrow> visit_result \<Rightarrow> visit_state \<Rightarrow>
    (visit_result \<times> visit_state) result" where
  "visit_children visit limits [] acc st = Inr (acc, st)"
| "visit_children visit limits (c # cs) (chunks, s) st =
     rbind (visit c st) (\<lambda>((childChunks, childSummary), st).
     rbind (checkedAdd (s_decodedLength s) (s_decodedLength childSummary)) (\<lambda>len.
     rbind (checkedAdd (s_nodeCount s) (s_nodeCount childSummary)) (\<lambda>nodes.
     rbind (checkedAdd (s_chunkCount s) (s_chunkCount childSummary)) (\<lambda>count.
       if int (length childChunks) > maxChunks limits - int (length chunks)
       then binary_error Limit_exceeded
       else visit_children visit limits cs
              (chunks @ childChunks,
               \<lparr>s_decodedLength = len, s_depth = max (s_depth s) (s_depth childSummary),
                s_nodeCount = nodes, s_chunkCount = count\<rparr>) st))))"

primrec visit_recipe :: "nat \<Rightarrow> (bytes \<Rightarrow> bytes) \<Rightarrow> (string \<Rightarrow> bytes result) \<Rightarrow> recipe_graph_limits \<Rightarrow>
    child_recipe_reference \<Rightarrow> visit_state \<Rightarrow> (visit_result \<times> visit_state) result" where
  "visit_recipe 0 sha256 readObject limits reference st = Inl RangeError"
| "visit_recipe (Suc frames) sha256 readObject limits reference st =
     (let i = rr_recipeId reference; st = st\<lparr>visitedNodes := visitedNodes st + 1\<rparr> in
      if visitedNodes st > maxNodes limits then binary_error Limit_exceeded
      else if i \<in> set (activeIds st) then binary_error Unexpected_value
      else rbind (cached_node sha256 readObject limits i
                    (st\<lparr>activeIds := i # activeIds st, recipeIds := set_add i (recipeIds st)\<rparr>))
        (\<lambda>(node, st).
          if node_summary node \<noteq> rr_summary reference then binary_error Unexpected_value
          else rbind (case node of
              Leaf_node s chunks \<Rightarrow> Inr ((chunks, s\<lparr>s_depth := 1, s_nodeCount := 1\<rparr>), st)
            | Branch_node s children \<Rightarrow>
                rbind (visit_children (visit_recipe frames sha256 readObject limits) limits children
                         ([], \<lparr>s_decodedLength = 0, s_depth = 0, s_nodeCount = 1, s_chunkCount = 0\<rparr>) st)
                  (\<lambda>((chunks, sums), st).
                    let visited = sums\<lparr>s_depth := s_depth sums + 1\<rparr> in
                    if visited \<noteq> s then binary_error Unexpected_value
                    else Inr ((chunks, visited), st)))
            (\<lambda>(visited, st). Inr (visited, st\<lparr>activeIds := removeAll i (activeIds st)\<rparr>))))"

text \<open>The loop of \<^verbatim>\<open>validateContentReferences\<close>.\<close>

fun validate_references :: "content_chunk_reference list \<Rightarrow> int \<Rightarrow> int result" where
  "validate_references [] acc = Inr acc"
| "validate_references (c # cs) acc =
     rbind (parseContentId (cr_contentId c)) (\<lambda>_.
     rbind (assertPositiveLength (cr_decodedLength c)) (\<lambda>_.
       if cr_decodedLength c > MAXIMUM_BYTES \<or> (cs \<noteq> [] \<and> cr_decodedLength c < MINIMUM_BYTES)
       then binary_error Unexpected_value
       else rbind (checkedAdd acc (cr_decodedLength c)) (validate_references cs)))"

definition validateContentReferences :: "content_chunk_reference list \<Rightarrow> int \<Rightarrow> unit result" where
  "validateContentReferences references len =
     (if length references < 2 then binary_error Unexpected_value
      else rbind (validate_references references 0) (\<lambda>acc.
        if acc \<noteq> len then binary_error Unexpected_value else Inr ()))"

text \<open>The stack frames that the traversal is given: \<^verbatim>\<open>MAX_RECIPE_DEPTH\<close>.\<close>

definition recipe_frames :: nat where "recipe_frames = nat MAX_RECIPE_DEPTH"

text \<open>The traversal from a root that is bound to the expected content, and its final checks.\<close>

definition traverse_root :: "(bytes \<Rightarrow> bytes) \<Rightarrow> string \<Rightarrow> recipe_root \<Rightarrow>
    (string \<Rightarrow> bytes result) \<Rightarrow> recipe_graph_limits \<Rightarrow> authenticated_graph result" where
  "traverse_root sha256 rootId root readObject limits =
     rbind (visit_recipe recipe_frames sha256 readObject limits (rt_child root)
              \<lparr>decodedCache = Map.empty, activeIds = [], recipeIds = [rootId], visitedNodes = 1\<rparr>)
       (\<lambda>((chunks, child), st).
         rbind (validateContentReferences chunks (s_decodedLength (rt_summary root))) (\<lambda>_.
           if s_depth child + 1 \<noteq> s_depth (rt_summary root)
             \<or> s_nodeCount child + 1 \<noteq> s_nodeCount (rt_summary root)
             \<or> s_chunkCount child \<noteq> s_chunkCount (rt_summary root)
             \<or> visitedNodes st \<noteq> s_nodeCount (rt_summary root)
           then binary_error Unexpected_value
           else Inr \<lparr>g_contentId = rt_contentId root, g_decodedLength = s_decodedLength (rt_summary root),
                     g_chunks = chunks, g_recipeIds = recipeIds st\<rparr>))"

definition authenticateChunkRecipeGraph :: "(bytes \<Rightarrow> bytes) \<Rightarrow> string \<Rightarrow> expected_content \<Rightarrow>
    (string \<Rightarrow> bytes result) \<Rightarrow> recipe_graph_limits \<Rightarrow> authenticated_graph result" where
  "authenticateChunkRecipeGraph sha256 rootId expected readObject limits =
     rbind (assertLimits limits) (\<lambda>_.
     rbind (parseRecipeId rootId) (\<lambda>_.
     rbind (parseContentId (exp_contentId expected)) (\<lambda>_.
     rbind (assertSafeLength (exp_decodedLength expected)) (\<lambda>_.
       if exp_decodedLength expected < CHUNKED_CONTENT_MIN_BYTES then binary_error Unexpected_value
       else if exp_decodedLength expected > maxDecoded limits then binary_error Limit_exceeded
       else rbind (readObject rootId) (\<lambda>rootBytes.
         rbind (assertAuthenticatedRecipeObject sha256 rootId rootBytes) (\<lambda>_.
         rbind (decodeRecipeRoot rootBytes limits) (\<lambda>root.
           if rt_contentId root \<noteq> exp_contentId expected then binary_error Unexpected_value
           else if s_decodedLength (rt_summary root) \<noteq> exp_decodedLength expected
           then binary_error Unexpected_value
           else traverse_root sha256 rootId root readObject limits)))))))"

subsection \<open>What a recipe stands for\<close>

definition authentic :: "(bytes \<Rightarrow> bytes) \<Rightarrow> (string \<Rightarrow> bytes result) \<Rightarrow> string \<Rightarrow> bytes \<Rightarrow> bool" where
  "authentic sha256 readObject i bs \<longleftrightarrow> readObject i = Inr bs \<and> recipeIdFromCanonicalBytes sha256 bs = i"

definition authentic_node ::
  "(bytes \<Rightarrow> bytes) \<Rightarrow> (string \<Rightarrow> bytes result) \<Rightarrow> recipe_graph_limits \<Rightarrow> string \<Rightarrow> recipe_node \<Rightarrow> bool" where
  "authentic_node sha256 readObject limits i node \<longleftrightarrow>
     (\<exists>bs. authentic sha256 readObject i bs \<and> decodeRecipeNode bs limits = Inr node)"

text \<open>
  A reference expands to chunks: those of the leaves below it, in order. \<open>ids\<close> are the recipe objects
  on the way, each subtree's root before its children.
\<close>

inductive recipe_expands ::
  "(string \<Rightarrow> recipe_node \<Rightarrow> bool) \<Rightarrow> child_recipe_reference \<Rightarrow> content_chunk_reference list \<Rightarrow> string list \<Rightarrow> bool"
  and recipes_expand ::
  "(string \<Rightarrow> recipe_node \<Rightarrow> bool) \<Rightarrow> child_recipe_reference list \<Rightarrow> content_chunk_reference list \<Rightarrow> string list \<Rightarrow> bool"
  for node_at where
  leaf: "node_at (rr_recipeId ref) (Leaf_node (rr_summary ref) cs) \<Longrightarrow>
     recipe_expands node_at ref cs [rr_recipeId ref]"
| branch: "node_at (rr_recipeId ref) (Branch_node (rr_summary ref) children) \<Longrightarrow>
     recipes_expand node_at children cs ids \<Longrightarrow> recipe_expands node_at ref cs (rr_recipeId ref # ids)"
| none: "recipes_expand node_at [] [] []"
| more: "recipe_expands node_at ref cs ids \<Longrightarrow> recipes_expand node_at refs ds js \<Longrightarrow>
     recipes_expand node_at (ref # refs) (cs @ ds) (ids @ js)"

lemma authentic_node_fun:
  "authentic_node sha256 readObject limits i m \<Longrightarrow> authentic_node sha256 readObject limits i n \<Longrightarrow> m = n"
  by (auto simp: authentic_node_def authentic_def)

lemma authentic_node_ok:
  "authentic_node sha256 readObject limits i node \<Longrightarrow> node_ok node \<and> within (node_summary node) limits"
  by (auto simp: authentic_node_def decodeRecipeNode_Inr)

text \<open>An expansion has the totals that the summaries claim.\<close>

lemma child_total_Cons: "child_total f (c # cs) = f (rr_summary c) + child_total f cs"
  by (simp add: child_total_def)

lemma chunk_total_append: "chunk_total (cs @ ds) = chunk_total cs + chunk_total ds"
  by (simp add: chunk_total_def)

lemma expands_totals:
  assumes "\<And>i n. node_at i n \<Longrightarrow> node_ok n"
  shows "recipe_expands node_at ref cs ids \<Longrightarrow>
      chunk_total cs = s_decodedLength (rr_summary ref) \<and> int (length cs) = s_chunkCount (rr_summary ref) \<and>
      int (length ids) = s_nodeCount (rr_summary ref) \<and> list_all chunk_ok cs"
    and "recipes_expand node_at refs cs ids \<Longrightarrow>
      chunk_total cs = child_total s_decodedLength refs \<and> int (length cs) = child_total s_chunkCount refs \<and>
      int (length ids) = child_total s_nodeCount refs \<and> list_all chunk_ok cs"
proof (induction rule: recipe_expands_recipes_expand.inducts)
  case (leaf ref cs)
  then show ?case using assms [OF leaf] by (auto simp: leaf_summary_def leaf_ok_def)
next
  case (branch ref children cs ids)
  then show ?case using assms [OF branch(1)] by (auto simp: branch_summary_def)
next
  case none
  then show ?case by (simp add: child_total_def chunk_total_def)
next
  case (more ref cs ids refs ds js)
  then show ?case by (simp add: child_total_Cons chunk_total_append)
qed

subsection \<open>The traversal finds expansions only\<close>

definition cache_ok :: "(string \<Rightarrow> recipe_node \<Rightarrow> bool) \<Rightarrow> visit_state \<Rightarrow> bool" where
  "cache_ok node_at st \<longleftrightarrow> (\<forall>i n. decodedCache st i = Some n \<longrightarrow> node_at i n)"

definition visited :: "(string \<Rightarrow> recipe_node \<Rightarrow> bool) \<Rightarrow> visit_state \<Rightarrow> string list \<Rightarrow> visit_state \<Rightarrow> bool" where
  "visited node_at st ids st' \<longleftrightarrow> visitedNodes st' = visitedNodes st + int (length ids) \<and>
     recipeIds st' = fold set_add ids (recipeIds st) \<and> activeIds st' = activeIds st \<and> cache_ok node_at st'"

lemma visited_append: "visited p st ids st1 \<Longrightarrow> visited p st1 js st2 \<Longrightarrow> visited p st (ids @ js) st2"
  by (simp add: visited_def)

lemma cached_node_sound:
  assumes "cached_node sha256 readObject limits i st = Inr (node, st')"
    and "cache_ok (authentic_node sha256 readObject limits) st"
  shows "authentic_node sha256 readObject limits i node \<and>
    (\<exists>c. st' = st\<lparr>decodedCache := c\<rparr>) \<and> cache_ok (authentic_node sha256 readObject limits) st'"
proof (cases "decodedCache st i")
  case None
  then obtain bs where "readObject i = Inr bs" "recipeIdFromCanonicalBytes sha256 bs = i"
      "decodeRecipeNode bs limits = Inr node" "st' = st\<lparr>decodedCache := (decodedCache st)(i \<mapsto> node)\<rparr>"
    using assms(1) by (auto simp: cached_node_def assertAuthenticatedRecipeObject_def rbind_eq_Inr split: if_splits)
  moreover from this have "authentic_node sha256 readObject limits i node"
    by (auto simp: authentic_node_def authentic_def)
  ultimately show ?thesis using assms(2) by (auto simp: cache_ok_def)
next
  case (Some n)
  then have "n = node" "st' = st" using assms(1) by (simp_all add: cached_node_def)
  moreover have "st = st\<lparr>decodedCache := decodedCache st\<rparr>" by simp
  ultimately show ?thesis using assms(2) Some unfolding cache_ok_def by metis
qed

lemma visit_children_sound:
  assumes step: "\<And>c cs s st st'. cache_ok node_at st \<Longrightarrow> visit c st = Inr ((cs, s), st') \<Longrightarrow>
      \<exists>ids. recipe_expands node_at c cs ids \<and> s = rr_summary c \<and> visited node_at st ids st'"
    and "cache_ok node_at st" and "0 \<le> s_depth s"
    and "visit_children visit limits refs (a, s) st = Inr ((b, t), st')"
  shows "\<exists>cs ids. b = a @ cs \<and> recipes_expand node_at refs cs ids \<and> t = summary_add s refs \<and>
    visited node_at st ids st'"
  using assms(2-4)
proof (induction refs arbitrary: a s st)
  case Nil
  then have "visited node_at st [] st'" "b = a" "t = s" by (auto simp: visited_def)
  then show ?case using recipe_expands_recipes_expand.none [of node_at] Nil.prems(2)
    by (intro exI [of _ "[]"]) (auto simp: summary_add_Nil)
next
  case (Cons c refs)
  obtain cs1 s1 st1 where one: "visit c st = Inr ((cs1, s1), st1)"
    using Cons.prems(3) by (auto simp: rbind_eq_Inr)
  obtain ids1 where e1: "recipe_expands node_at c cs1 ids1" "s1 = rr_summary c" "visited node_at st ids1 st1"
    using step [OF Cons.prems(1) one] by blast
  have rest: "visit_children visit limits refs (a @ cs1, summary_add s [c]) st1 = Inr ((b, t), st')"
    using Cons.prems(2,3) by (auto simp: one rbind_eq_Inr checkedAdd_Inr e1(2) summary_add_one split: if_splits)
  have "cache_ok node_at st1" using e1(3) by (simp add: visited_def)
  from Cons.IH [OF this summary_add_depth [OF Cons.prems(2)] rest] obtain cs ids where
      e2: "b = (a @ cs1) @ cs" "recipes_expand node_at refs cs ids"
        "t = summary_add s (c # refs)" "visited node_at st1 ids st'"
    unfolding summary_add_Cons [symmetric] by blast
  show ?case
    using recipe_expands_recipes_expand.more [OF e1(1) e2(2)] visited_append [OF e1(3) e2(4)] e2
    by (intro exI [of _ "cs1 @ cs"] exI [of _ "ids1 @ ids"]) auto
qed

text \<open>One frame of the traversal, once its guards have passed and its node is there.\<close>

definition entered :: "string \<Rightarrow> visit_state \<Rightarrow> visit_state" where
  "entered i st = st\<lparr>visitedNodes := visitedNodes st + 1, activeIds := i # activeIds st,
     recipeIds := set_add i (recipeIds st)\<rparr>"

definition left_frame :: "string \<Rightarrow> visit_state \<Rightarrow> visit_state" where
  "left_frame i st = st\<lparr>activeIds := removeAll i (activeIds st)\<rparr>"

lemma visit_recipe_Suc:
  "visit_recipe (Suc n) sha256 readObject limits ref st =
     (if visitedNodes st + 1 > maxNodes limits then binary_error Limit_exceeded
      else if rr_recipeId ref \<in> set (activeIds st) then binary_error Unexpected_value
      else rbind (cached_node sha256 readObject limits (rr_recipeId ref) (entered (rr_recipeId ref) st))
        (\<lambda>(node, st1).
          if node_summary node \<noteq> rr_summary ref then binary_error Unexpected_value
          else rbind (case node of
              Leaf_node s chunks \<Rightarrow> Inr ((chunks, s\<lparr>s_depth := 1, s_nodeCount := 1\<rparr>), st1)
            | Branch_node s children \<Rightarrow>
                rbind (visit_children (visit_recipe n sha256 readObject limits) limits children
                         ([], \<lparr>s_decodedLength = 0, s_depth = 0, s_nodeCount = 1, s_chunkCount = 0\<rparr>) st1)
                  (\<lambda>((chunks, sums), st).
                    if sums\<lparr>s_depth := s_depth sums + 1\<rparr> \<noteq> s then binary_error Unexpected_value
                    else Inr ((chunks, sums\<lparr>s_depth := s_depth sums + 1\<rparr>), st)))
            (\<lambda>(r, st). Inr (r, left_frame (rr_recipeId ref) st))))"
  unfolding visit_recipe.simps Let_def entered_def left_frame_def by simp

declare visit_recipe.simps(2) [simp del]

lemma visited_frame:
  assumes "rr_recipeId ref \<notin> set (activeIds st)" and "visited p (entered (rr_recipeId ref) st) ids st1"
  shows "visited p st (rr_recipeId ref # ids) (left_frame (rr_recipeId ref) st1)"
  using assms by (simp add: visited_def entered_def left_frame_def cache_ok_def)

lemma visited_cached:
  "visited p (st\<lparr>decodedCache := c\<rparr>) ids st' \<longleftrightarrow> visited p st ids st'"
  by (simp add: visited_def)

lemma visit_recipe_sound:
  assumes at: "at = authentic_node sha256 readObject limits"
    and "cache_ok at st" and "visit_recipe n sha256 readObject limits ref st = Inr ((cs, s), st')"
  shows "\<exists>ids. recipe_expands at ref cs ids \<and> s = rr_summary ref \<and> visited at st ids st'"
  using assms(2,3)
proof (induction n arbitrary: ref cs s st st')
  case 0
  then show ?case by simp
next
  case (Suc n)
  let ?i = "rr_recipeId ref"
  have fresh: "?i \<notin> set (activeIds st)"
    using Suc.prems(2) by (auto simp: visit_recipe_Suc split: if_splits)
  then obtain node st1 where read: "cached_node sha256 readObject limits ?i (entered ?i st) = Inr (node, st1)"
      and summary: "node_summary node = rr_summary ref"
    using Suc.prems(2) by (auto simp: visit_recipe_Suc rbind_eq_Inr split: if_splits)
  have "cache_ok at (entered ?i st)" using Suc.prems(1) by (simp add: cache_ok_def entered_def)
  then obtain c where node: "at ?i node" "st1 = (entered ?i st)\<lparr>decodedCache := c\<rparr>" "cache_ok at st1"
    using cached_node_sound [OF read] at by metis
  then have ok: "node_ok node" using authentic_node_ok at by blast
  have frame: "visited at st (?i # ids) (left_frame ?i st2)" if "visited at st1 ids st2" for ids st2
    using visited_frame [OF fresh] that by (simp add: node(2) visited_cached)
  show ?case
  proof (cases node)
    case (Leaf_node s1 ds)
    then have "cs = ds \<and> s = rr_summary ref \<and> st' = left_frame ?i st1"
      using Suc.prems(2) read summary ok fresh by (auto simp: visit_recipe_Suc leaf_summary_def split: if_splits)
    moreover have "recipe_expands at ref ds [?i]"
      using recipe_expands_recipes_expand.leaf [of at ref ds] node(1) summary Leaf_node by simp
    moreover have "visited at st1 [] st1" using node(3) by (simp add: visited_def)
    ultimately show ?thesis using frame by blast
  next
    case (Branch_node s1 children)
    let ?zero = "\<lparr>s_decodedLength = 0, s_depth = 0, s_nodeCount = 1, s_chunkCount = 0\<rparr>"
    have "rbind (rbind (visit_children (visit_recipe n sha256 readObject limits) limits children ([], ?zero) st1)
        (\<lambda>((chunks, sums), st).
          if sums\<lparr>s_depth := s_depth sums + 1\<rparr> \<noteq> s1 then binary_error Unexpected_value
          else Inr ((chunks, sums\<lparr>s_depth := s_depth sums + 1\<rparr>), st)))
        (\<lambda>(r, st). Inr (r, left_frame ?i st)) = Inr ((cs, s), st')"
      using Suc.prems(2) fresh summary Branch_node by (simp add: visit_recipe_Suc read split: if_splits)
    moreover obtain cs0 sums st2 where kids: "visit_children (visit_recipe n sha256 readObject limits) limits children
          ([], ?zero) st1 = Inr ((cs0, sums), st2)"
      using calculation by (cases "visit_children (visit_recipe n sha256 readObject limits) limits children
          ([], ?zero) st1") (simp, metis surj_pair)
    ultimately have parts: "cs0 = cs" "s = s1" "st' = left_frame ?i st2"
      by (simp_all split: if_splits)
    have "0 \<le> s_depth ?zero" by simp
    from visit_children_sound [OF Suc.IH node(3) this kids] obtain ds ids where
      "cs0 = [] @ ds" "recipes_expand at children ds ids" "visited at st1 ids st2" by blast
    then have "recipe_expands at ref cs (?i # ids)" "visited at st1 ids st2"
      using recipe_expands_recipes_expand.branch [of at ref children] node(1) summary Branch_node parts(1) by simp_all
    then show ?thesis using frame [of ids st2] parts summary Branch_node by auto
  qed
qed

subsection \<open>The traversal finds every expansion\<close>

lemma cached_node_complete:
  assumes "authentic_node sha256 readObject limits i node"
    and "cache_ok (authentic_node sha256 readObject limits) st"
  shows "\<exists>c. cached_node sha256 readObject limits i st = Inr (node, st\<lparr>decodedCache := c\<rparr>) \<and>
    cache_ok (authentic_node sha256 readObject limits) (st\<lparr>decodedCache := c\<rparr>)"
proof (cases "decodedCache st i")
  case None
  then have "cached_node sha256 readObject limits i st = Inr (node, st\<lparr>decodedCache := (decodedCache st)(i \<mapsto> node)\<rparr>)"
    using assms(1)
    by (auto simp: cached_node_def authentic_node_def authentic_def assertAuthenticatedRecipeObject_def)
  then show ?thesis using assms by (intro exI [of _ "(decodedCache st)(i \<mapsto> node)"]) (auto simp: cache_ok_def)
next
  case (Some n)
  then have "n = node" using assms authentic_node_fun by (metis cache_ok_def)
  then have "cached_node sha256 readObject limits i st = Inr (node, st\<lparr>decodedCache := decodedCache st\<rparr>)"
    using Some by (simp add: cached_node_def)
  then show ?thesis using assms(2) by (intro exI [of _ "decodedCache st"]) simp
qed

text \<open>No recipe that is being visited can be met again below it: its depth is larger.\<close>

definition guarded :: "(string \<Rightarrow> recipe_node \<Rightarrow> bool) \<Rightarrow> visit_state \<Rightarrow> int \<Rightarrow> bool" where
  "guarded p st d \<longleftrightarrow> (\<forall>i \<in> set (activeIds st). \<exists>m. p i m \<and> d < s_depth (node_summary m))"

lemma child_depth_ge: "c \<in> set cs \<Longrightarrow> s_depth (rr_summary c) \<le> child_depth cs"
  by (induction cs) (auto simp: child_depth_def)

lemma sums_safe_first:
  "list_all child_ok cs \<Longrightarrow> sums_safe (summary_add a cs) \<Longrightarrow> sums_safe a"
  using child_total_nonneg [of cs] by (fastforce simp: summary_add_def sums_safe_def)

lemma visit_children_step:
  assumes "visit c st = Inr ((cs, rr_summary c), st1)" and "0 \<le> s_depth s" and "sums_safe (summary_add s [c])"
    and "int (length a) + int (length cs) \<le> maxChunks limits"
  shows "visit_children visit limits (c # refs) (a, s) st
    = visit_children visit limits refs (a @ cs, summary_add s [c]) st1"
  using assms by (simp add: summary_add_one checkedAdd_def sums_safe_def)

lemma visit_branch_step:
  assumes "rr_recipeId ref \<notin> set (activeIds st)" and "visitedNodes st + 1 \<le> maxNodes limits"
    and "cached_node sha256 readObject limits (rr_recipeId ref) (entered (rr_recipeId ref) st)
      = Inr (Branch_node (rr_summary ref) children, st1)"
    and "visit_children (visit_recipe n sha256 readObject limits) limits children
      ([], \<lparr>s_decodedLength = 0, s_depth = 0, s_nodeCount = 1, s_chunkCount = 0\<rparr>) st1 = Inr ((cs, sums), st2)"
    and "sums\<lparr>s_depth := s_depth sums + 1\<rparr> = rr_summary ref"
  shows "visit_recipe (Suc n) sha256 readObject limits ref st
    = Inr ((cs, rr_summary ref), left_frame (rr_recipeId ref) st2)"
  using assms by (simp add: visit_recipe_Suc)

lemma visit_complete:
  assumes at: "at = authentic_node sha256 readObject limits"
  shows "recipe_expands at ref cs ids \<Longrightarrow> nat (s_depth (rr_summary ref)) \<le> n \<Longrightarrow> cache_ok at st \<Longrightarrow>
      visitedNodes st + int (length ids) \<le> maxNodes limits \<Longrightarrow> guarded at st (s_depth (rr_summary ref)) \<Longrightarrow>
      \<exists>st'. visit_recipe n sha256 readObject limits ref st = Inr ((cs, rr_summary ref), st') \<and> visited at st ids st'"
    and "recipes_expand at refs cs ids \<Longrightarrow> \<forall>c \<in> set refs. nat (s_depth (rr_summary c)) \<le> n \<and>
        guarded at st (s_depth (rr_summary c)) \<Longrightarrow> cache_ok at st \<Longrightarrow>
      visitedNodes st + int (length ids) \<le> maxNodes limits \<Longrightarrow> list_all child_ok refs \<Longrightarrow> 0 \<le> s_depth s \<Longrightarrow>
      sums_safe (summary_add s refs) \<Longrightarrow> int (length a) + int (length cs) \<le> maxChunks limits \<Longrightarrow>
      \<exists>st'. visit_children (visit_recipe n sha256 readObject limits) limits refs (a, s) st
          = Inr ((a @ cs, summary_add s refs), st') \<and> visited at st ids st'"
proof (induction arbitrary: n st and n st a s rule: recipe_expands_recipes_expand.inducts)
  case (leaf ref cs)
  let ?i = "rr_recipeId ref"
  have ok: "leaf_ok cs" "rr_summary ref = leaf_summary cs" using authentic_node_ok leaf(1) at by fastforce+
  then obtain m where n: "n = Suc m" using leaf.prems(1) by (cases n) (auto simp: leaf_summary_def)
  have fresh: "?i \<notin> set (activeIds st)"
    using leaf.prems(4) leaf(1) authentic_node_fun by (fastforce simp: guarded_def at)
  have "cache_ok at (entered ?i st)" using leaf.prems(2) by (simp add: cache_ok_def entered_def)
  then obtain c where read: "cached_node sha256 readObject limits ?i (entered ?i st)
        = Inr (Leaf_node (rr_summary ref) cs, (entered ?i st)\<lparr>decodedCache := c\<rparr>)"
      "cache_ok at ((entered ?i st)\<lparr>decodedCache := c\<rparr>)"
    using cached_node_complete leaf(1) at by blast
  have "visited at ((entered ?i st)\<lparr>decodedCache := c\<rparr>) [] ((entered ?i st)\<lparr>decodedCache := c\<rparr>)"
    using read(2) by (simp add: visited_def)
  then have "visited at st [?i] (left_frame ?i ((entered ?i st)\<lparr>decodedCache := c\<rparr>))"
    using visited_frame [OF fresh] by (simp add: visited_cached)
  moreover have "visit_recipe n sha256 readObject limits ref st
      = Inr ((cs, rr_summary ref), left_frame ?i ((entered ?i st)\<lparr>decodedCache := c\<rparr>))"
    using leaf.prems(3) fresh by (simp add: n visit_recipe_Suc read ok leaf_summary_def)
  ultimately show ?case by blast
next
  case (branch ref children cs ids)
  let ?i = "rr_recipeId ref"
  let ?zero = "\<lparr>s_decodedLength = 0, s_depth = 0, s_nodeCount = 1, s_chunkCount = 0\<rparr>"
  have ok: "branch_ok children" "rr_summary ref = branch_summary children" "within (rr_summary ref) limits"
    using authentic_node_ok branch(1) at by fastforce+
  have depth: "s_depth (rr_summary ref) = child_depth children + 1" using ok(2) by (simp add: branch_summary_def)
  then obtain m where n: "n = Suc m" using branch.prems(1) child_depth_nonneg [of children] by (cases n) auto
  have fresh: "?i \<notin> set (activeIds st)"
    using branch.prems(4) branch(1) authentic_node_fun by (fastforce simp: guarded_def at)
  have "cache_ok at (entered ?i st)" using branch.prems(2) by (simp add: cache_ok_def entered_def)
  then obtain c where read: "cached_node sha256 readObject limits ?i (entered ?i st)
        = Inr (Branch_node (rr_summary ref) children, (entered ?i st)\<lparr>decodedCache := c\<rparr>)"
      and cache: "cache_ok at ((entered ?i st)\<lparr>decodedCache := c\<rparr>)"
    using cached_node_complete branch(1) at by blast
  let ?st = "(entered ?i st)\<lparr>decodedCache := c\<rparr>"
  have act: "activeIds ?st = ?i # activeIds st" "visitedNodes ?st = visitedNodes st + 1"
    by (simp_all add: entered_def)
  have kids: "nat (s_depth (rr_summary k)) \<le> m \<and> guarded at ?st (s_depth (rr_summary k))" if "k \<in> set children" for k
  proof
    have less: "s_depth (rr_summary k) < s_depth (rr_summary ref)" using child_depth_ge [OF that] depth by simp
    then show "nat (s_depth (rr_summary k)) \<le> m" using branch.prems(1) n by simp
    have "\<exists>x. at ?i x \<and> s_depth (rr_summary k) < s_depth (node_summary x)"
      using branch(1) less by (intro exI [of _ "Branch_node (rr_summary ref) children"]) simp
    then show "guarded at ?st (s_depth (rr_summary k))"
      using branch.prems(4) less unfolding guarded_def act by fastforce
  qed
  have ids: "int (length cs) = s_chunkCount (rr_summary ref)"
    using expands_totals(2) [OF _ branch(2)] authentic_node_ok at ok(2) by (auto simp: branch_summary_def)
  have sums: "(summary_add ?zero children)\<lparr>s_depth := s_depth (summary_add ?zero children) + 1\<rparr> = rr_summary ref"
    using child_depth_nonneg [of children] by (simp add: ok(2) branch_summary_def summary_add_def)
  have safe: "sums_safe (summary_add ?zero children)"
    using ok(1) by (simp add: branch_ok_def sums_safe_def branch_summary_def summary_add_def)
  have "\<exists>st'. visit_children (visit_recipe m sha256 readObject limits) limits children ([], ?zero) ?st
      = Inr (([] @ cs, summary_add ?zero children), st') \<and> visited at ?st ids st'"
    by (rule branch(3)) (use kids cache branch.prems(3) ok ids safe in \<open>auto simp: act branch_ok_def within_def\<close>)
  then obtain st2 where loop: "visit_children (visit_recipe m sha256 readObject limits) limits children ([], ?zero) ?st
      = Inr ((cs, summary_add ?zero children), st2)" and st2: "visited at ?st ids st2" by auto
  have "visit_recipe n sha256 readObject limits ref st = Inr ((cs, rr_summary ref), left_frame ?i st2)"
    unfolding n by (rule visit_branch_step [OF fresh _ read loop sums]) (use branch.prems(3) in simp)
  moreover have "visited at st (?i # ids) (left_frame ?i st2)"
    using visited_frame [OF fresh] st2 by (simp add: visited_cached)
  ultimately show ?case by blast
next
  case none
  then show ?case by (auto simp: visited_def summary_add_Nil)
next
  case (more ref cs ids refs ds js)
  have "sums_safe (summary_add s [ref])"
    using more.prems(4,6) sums_safe_first [of refs "summary_add s [ref]"] by (simp add: summary_add_Cons [symmetric])
  moreover obtain st1 where one: "visit_recipe n sha256 readObject limits ref st = Inr ((cs, rr_summary ref), st1)"
      "visited at st ids st1"
    using more(2) [of n st] more.prems(1-3) by auto
  ultimately have step: "visit_children (visit_recipe n sha256 readObject limits) limits (ref # refs) (a, s) st
      = visit_children (visit_recipe n sha256 readObject limits) limits refs (a @ cs, summary_add s [ref]) st1"
    by (intro visit_children_step) (use more.prems in auto)
  have "\<exists>st'. visit_children (visit_recipe n sha256 readObject limits) limits refs (a @ cs, summary_add s [ref]) st1
      = Inr (((a @ cs) @ ds, summary_add (summary_add s [ref]) refs), st') \<and> visited at st1 js st'"
    by (rule more(4))
      (use more.prems one(2) summary_add_depth in \<open>auto simp: visited_def guarded_def summary_add_Cons [symmetric]\<close>)
  then obtain st2 where "visit_children (visit_recipe n sha256 readObject limits) limits refs (a @ cs, summary_add s [ref]) st1
      = Inr ((a @ cs @ ds, summary_add s (ref # refs)), st2)" "visited at st1 js st2"
    by (auto simp: summary_add_Cons [symmetric])
  then show ?case using step visited_append [OF one(2)] by auto
qed

subsection \<open>The authenticated graph\<close>

definition profile_sizes :: "content_chunk_reference list \<Rightarrow> bool" where
  "profile_sizes cs \<longleftrightarrow> list_all (\<lambda>c. MINIMUM_BYTES \<le> cr_decodedLength c) (butlast cs)"

lemma validate_references_Inr:
  "acc \<le> MAX_SAFE_INTEGER \<Longrightarrow> validate_references cs acc = Inr t \<longleftrightarrow>
     list_all chunk_ok cs \<and> profile_sizes cs \<and> acc + chunk_total cs \<le> MAX_SAFE_INTEGER \<and> t = acc + chunk_total cs"
proof (induction cs arbitrary: acc)
  case Nil
  then show ?case by (auto simp: profile_sizes_def chunk_total_def)
next
  case (Cons c cs)
  let ?b = "acc + cr_decodedLength c"
  have pos: "0 \<le> chunk_total cs" if "list_all chunk_ok cs"
    using that by (induction cs) (auto simp: chunk_total_def chunk_ok_def)
  have all: "chunk_total (c # cs) = cr_decodedLength c + chunk_total cs" by (simp add: chunk_total_def)
  have sizes: "profile_sizes (c # cs) \<longleftrightarrow> (cs \<noteq> [] \<longrightarrow> MINIMUM_BYTES \<le> cr_decodedLength c) \<and> profile_sizes cs"
    by (simp add: profile_sizes_def)
  have step: "validate_references (c # cs) acc = Inr t \<longleftrightarrow> chunk_ok c \<and> (cs \<noteq> [] \<longrightarrow> MINIMUM_BYTES \<le> cr_decodedLength c) \<and>
      ?b \<le> MAX_SAFE_INTEGER \<and> validate_references cs ?b = Inr t"
    by (auto simp: rbind_eq_Inr recipe_checks chunk_ok_def parseContentId_def parseSha256_def MAXIMUM_BYTES_def
        MAX_SAFE_INTEGER_def not_less)
  show ?case
  proof (cases "?b \<le> MAX_SAFE_INTEGER")
    case True
    show ?thesis unfolding step Cons.IH [OF True] all sizes using True by auto
  next
    case False
    then show ?thesis unfolding step all using pos by auto
  qed
qed

lemma validateContentReferences_Inr:
  "validateContentReferences cs len = Inr u \<longleftrightarrow>
     2 \<le> length cs \<and> list_all chunk_ok cs \<and> profile_sizes cs \<and> chunk_total cs \<le> MAX_SAFE_INTEGER \<and> len = chunk_total cs"
  by (auto simp: validateContentReferences_def rbind_eq_Inr validate_references_Inr MAX_SAFE_INTEGER_def)

lemma decoded_root:
  assumes "decodeRecipeRoot bs limits = Inr root"
  shows "root_ok root \<and> limits_ok limits \<and> within (rt_summary root) limits \<and>
    nat (s_depth (rr_summary (rt_child root))) \<le> recipe_frames"
  using assms by (auto simp: decodeRecipeRoot_Inr root_ok_def recipe_frames_def)

lemma root_visit:
  assumes root: "decodeRecipeRoot bs limits = Inr root" and at: "at = authentic_node sha256 readObject limits"
  shows "visit_recipe recipe_frames sha256 readObject limits (rt_child root)
      \<lparr>decodedCache = Map.empty, activeIds = [], recipeIds = [rootId], visitedNodes = 1\<rparr> = Inr ((cs, s), st') \<Longrightarrow>
      \<exists>ids. recipe_expands at (rt_child root) cs ids \<and> s = rr_summary (rt_child root) \<and>
        recipeIds st' = fold set_add ids [rootId] \<and> visitedNodes st' = s_nodeCount (rt_summary root)"
    and "recipe_expands at (rt_child root) cs ids \<Longrightarrow>
      \<exists>st'. visit_recipe recipe_frames sha256 readObject limits (rt_child root)
          \<lparr>decodedCache = Map.empty, activeIds = [], recipeIds = [rootId], visitedNodes = 1\<rparr>
        = Inr ((cs, rr_summary (rt_child root)), st') \<and>
        recipeIds st' = fold set_add ids [rootId] \<and> visitedNodes st' = s_nodeCount (rt_summary root)"
proof -
  let ?st = "\<lparr>decodedCache = Map.empty, activeIds = [], recipeIds = [rootId], visitedNodes = 1\<rparr>"
  have start: "cache_ok at ?st" "guarded at ?st d" for d by (simp_all add: cache_ok_def guarded_def)
  have node_ok: "\<And>i n. at i n \<Longrightarrow> node_ok n" using authentic_node_ok at by blast
  have count: "1 + int (length ids) = s_nodeCount (rt_summary root)" if "recipe_expands at (rt_child root) cs ids" for cs ids
    using expands_totals(1) [OF node_ok that] decoded_root [OF root] by (simp add: root_ok_def)
  {
    assume "visit_recipe recipe_frames sha256 readObject limits (rt_child root) ?st = Inr ((cs, s), st')"
    from visit_recipe_sound [OF at start(1) this] obtain ids where
      "recipe_expands at (rt_child root) cs ids" "s = rr_summary (rt_child root)" "visited at ?st ids st'" by blast
    then show "\<exists>ids. recipe_expands at (rt_child root) cs ids \<and> s = rr_summary (rt_child root) \<and>
        recipeIds st' = fold set_add ids [rootId] \<and> visitedNodes st' = s_nodeCount (rt_summary root)"
      using count by (auto simp: visited_def)
  next
    assume e: "recipe_expands at (rt_child root) cs ids"
    have "visitedNodes ?st + int (length ids) \<le> maxNodes limits"
      using count [OF e] decoded_root [OF root] by (simp add: within_def)
    from visit_complete(1) [OF at e _ start(1) this start(2)] decoded_root [OF root] obtain st' where
      "visit_recipe recipe_frames sha256 readObject limits (rt_child root) ?st
        = Inr ((cs, rr_summary (rt_child root)), st')" "visited at ?st ids st'" by blast
    then show "\<exists>st'. visit_recipe recipe_frames sha256 readObject limits (rt_child root) ?st
        = Inr ((cs, rr_summary (rt_child root)), st') \<and>
        recipeIds st' = fold set_add ids [rootId] \<and> visitedNodes st' = s_nodeCount (rt_summary root)"
      using count [OF e] by (auto simp: visited_def)
  }
qed

text \<open>The whole answer, once the root is read, authenticated and bound to the expected content.\<close>

definition graph_of :: "(string \<Rightarrow> recipe_node \<Rightarrow> bool) \<Rightarrow> string \<Rightarrow> recipe_root \<Rightarrow> authenticated_graph \<Rightarrow> bool" where
  "graph_of node_at rootId root g \<longleftrightarrow>
     (\<exists>cs ids. recipe_expands node_at (rt_child root) cs ids \<and> profile_sizes cs \<and>
        g = \<lparr>g_contentId = rt_contentId root, g_decodedLength = s_decodedLength (rt_summary root),
             g_chunks = cs, g_recipeIds = fold set_add ids [rootId]\<rparr>)"

lemma bound_root:
  assumes root: "decodeRecipeRoot bs limits = Inr root" and at: "at = authentic_node sha256 readObject limits"
  shows "traverse_root sha256 rootId root readObject limits = Inr g \<longleftrightarrow> graph_of at rootId root g"
proof
  assume "traverse_root sha256 rootId root readObject limits = Inr g"
  then obtain cs s st where v: "visit_recipe recipe_frames sha256 readObject limits (rt_child root)
         \<lparr>decodedCache = Map.empty, activeIds = [], recipeIds = [rootId], visitedNodes = 1\<rparr> = Inr ((cs, s), st)"
      and c: "validateContentReferences cs (s_decodedLength (rt_summary root)) = Inr ()"
      and g: "g = \<lparr>g_contentId = rt_contentId root, g_decodedLength = s_decodedLength (rt_summary root),
                    g_chunks = cs, g_recipeIds = recipeIds st\<rparr>"
    by (auto simp: traverse_root_def rbind_eq_Inr split: if_splits)
  from root_visit(1) [OF root at v] c g show "graph_of at rootId root g"
    by (auto simp: graph_of_def validateContentReferences_Inr)
next
  assume "graph_of at rootId root g"
  then obtain cs ids where e: "recipe_expands at (rt_child root) cs ids" and sizes: "profile_sizes cs"
      and g: "g = \<lparr>g_contentId = rt_contentId root, g_decodedLength = s_decodedLength (rt_summary root),
             g_chunks = cs, g_recipeIds = fold set_add ids [rootId]\<rparr>"
    by (auto simp: graph_of_def)
  obtain st' where v: "visit_recipe recipe_frames sha256 readObject limits (rt_child root)
          \<lparr>decodedCache = Map.empty, activeIds = [], recipeIds = [rootId], visitedNodes = 1\<rparr>
        = Inr ((cs, rr_summary (rt_child root)), st')"
      "recipeIds st' = fold set_add ids [rootId]" "visitedNodes st' = s_nodeCount (rt_summary root)"
    using root_visit(2) [OF root at e] by blast
  have node_ok: "\<And>i n. at i n \<Longrightarrow> node_ok n" using authentic_node_ok at by blast
  have r: "root_ok root" using decoded_root [OF root] by blast
  have "chunk_total cs = s_decodedLength (rr_summary (rt_child root)) \<and> int (length cs) = s_chunkCount (rr_summary (rt_child root)) \<and>
      int (length ids) = s_nodeCount (rr_summary (rt_child root)) \<and> list_all chunk_ok cs"
    by (rule expands_totals(1) [OF _ e]) (rule node_ok)
  then have "validateContentReferences cs (s_decodedLength (rt_summary root)) = Inr ()"
    using r sizes
    by (auto simp: validateContentReferences_Inr root_ok_def recipe_reference_ok_def isSafeInteger_def)
  then show "traverse_root sha256 rootId root readObject limits = Inr g"
    using r v g by (simp add: traverse_root_def root_ok_def)
qed

subsection \<open>Properties\<close>

text \<open>C12. Authentication of a recipe graph is sound and complete: it succeeds exactly when the root object
  read under its id hashes to it, decodes, and is bound to the expected content id and length, and its
  child expands, through authenticated nodes with the claimed summaries, to chunks whose sizes fit the
  profile; then it returns those chunks in order and every recipe id once, in order of first visit.
  In particular the stack frames always suffice and no genuine graph is taken for a cycle.\<close>

theorem recipe_authentication_is_exact:
  "(authenticateChunkRecipeGraph sha256 rootId expected readObject limits = Inr g) =
     (\<exists>bs root. is_sha256_hex rootId \<and> authentic sha256 readObject rootId bs \<and>
        decodeRecipeRoot bs limits = Inr root \<and> rt_contentId root = exp_contentId expected \<and>
        s_decodedLength (rt_summary root) = exp_decodedLength expected \<and>
        graph_of (authentic_node sha256 readObject limits) rootId root g)"
proof -
  have known: "limits_ok limits \<and> is_sha256_hex (rt_contentId root) \<and> safe_unsigned (s_decodedLength (rt_summary root)) \<and>
      CHUNKED_CONTENT_MIN_BYTES \<le> s_decodedLength (rt_summary root) \<and>
      s_decodedLength (rt_summary root) \<le> maxDecoded limits"
    if "decodeRecipeRoot bs limits = Inr root" for bs root
    using decoded_root [OF that]
    by (auto simp: root_ok_def within_def recipe_reference_ok_def)
  have "(authenticateChunkRecipeGraph sha256 rootId expected readObject limits = Inr g) \<longleftrightarrow>
      limits_ok limits \<and> is_sha256_hex rootId \<and> is_sha256_hex (exp_contentId expected) \<and>
      safe_unsigned (exp_decodedLength expected) \<and> CHUNKED_CONTENT_MIN_BYTES \<le> exp_decodedLength expected \<and>
      exp_decodedLength expected \<le> maxDecoded limits \<and>
      (\<exists>bs root. authentic sha256 readObject rootId bs \<and> decodeRecipeRoot bs limits = Inr root \<and>
        rt_contentId root = exp_contentId expected \<and>
        s_decodedLength (rt_summary root) = exp_decodedLength expected \<and>
        traverse_root sha256 rootId root readObject limits = Inr g)"
    by (auto simp: authenticateChunkRecipeGraph_def rbind_eq_Inr guard_eq_Inr limits_ok_safe parseRecipeId_def
        parseContentId_def parseSha256_def assertAuthenticatedRecipeObject_def authentic_def split: if_splits)
  then show ?thesis using known bound_root [OF _ refl] by metis
qed

end
