(* ===== verification/Workspace_Paths.thy ===== *)
theory Workspace_Paths
  imports Canonical_Binary "HOL-Library.Multiset"
begin

text \<open>
  JavaScript strings as the program's path code uses them, the byte order of
  \<^verbatim>\<open>src/infrastructure/utf8-order.ts\<close> and the path relations of
  \<^verbatim>\<open>src/infrastructure/workspace-path-relations.ts\<close>. A path is a list of UTF-16 code units.
\<close>

subsection \<open>Strings of code units\<close>

type_synonym js_string = "16 word list"

definition js :: "string \<Rightarrow> js_string" where
  "js s = map (\<lambda>c. of_nat (of_char c)) s"

abbreviation SLASH :: "16 word" where "SLASH \<equiv> 0x2F"

definition startsWith :: "js_string \<Rightarrow> js_string \<Rightarrow> bool" where
  "startsWith s p \<longleftrightarrow> take (length p) s = p"

definition endsWith :: "js_string \<Rightarrow> js_string \<Rightarrow> bool" where
  "endsWith s p \<longleftrightarrow> length p \<le> length s \<and> drop (length s - length p) s = p"

text \<open>\<^verbatim>\<open>s.lastIndexOf(c, position)\<close>: a negative position counts as 0.\<close>

definition lastIndexOf :: "js_string \<Rightarrow> 16 word \<Rightarrow> int \<Rightarrow> int" where
  "lastIndexOf s c position =
     (let hits = filter (\<lambda>i. s ! i = c) [0 ..< min (length s) (nat position + 1)]
      in if hits = [] then - 1 else int (last hits))"

definition lastSlash :: "js_string \<Rightarrow> int" where
  "lastSlash s = lastIndexOf s SLASH (int (length s))"

text \<open>\<^verbatim>\<open>s.split("/")\<close>.\<close>

fun split_slash :: "js_string \<Rightarrow> js_string list" where
  "split_slash [] = [[]]"
| "split_slash (c # s) =
     (if c = SLASH then [] # split_slash s
      else (case split_slash s of p # ps \<Rightarrow> (c # p) # ps | [] \<Rightarrow> [[c]]))"

text \<open>The code points of a string: surrogate pairs joined, other surrogates on their own.\<close>

definition high_surrogate :: "16 word \<Rightarrow> bool" where
  "high_surrogate a \<longleftrightarrow> 0xD800 \<le> uint a \<and> uint a \<le> 0xDBFF"

definition low_surrogate :: "16 word \<Rightarrow> bool" where
  "low_surrogate a \<longleftrightarrow> 0xDC00 \<le> uint a \<and> uint a \<le> 0xDFFF"

definition codePointAt :: "js_string \<Rightarrow> int" where
  "codePointAt s = (case s of
      [] \<Rightarrow> 0
    | [a] \<Rightarrow> uint a
    | a # b # _ \<Rightarrow>
        if high_surrogate a \<and> low_surrogate b
        then (uint a - 0xD800) * 0x400 + (uint b - 0xDC00) + 0x10000 else uint a)"

definition code_point_units :: "js_string \<Rightarrow> nat" where
  "code_point_units s = (if codePointAt s > 0xFFFF then 2 else 1)"

function code_points :: "js_string \<Rightarrow> int list" where
  "code_points s = (if s = [] then [] else codePointAt s # code_points (drop (code_point_units s) s))"
  by pat_completeness auto
termination by (relation "measure length") (auto simp: code_point_units_def)

declare code_points.simps [simp del]

definition is_surrogate :: "int \<Rightarrow> bool" where
  "is_surrogate c \<longleftrightarrow> 0xD800 \<le> c \<and> c \<le> 0xDFFF"

definition isWellFormed :: "js_string \<Rightarrow> bool" where
  "isWellFormed s \<longleftrightarrow> list_all (\<lambda>c. \<not> is_surrogate c) (code_points s)"

definition scalar_of :: "int \<Rightarrow> int" where
  "scalar_of c = (if is_surrogate c then 0xFFFD else c)"

text \<open>The bytes of \<^verbatim>\<open>Buffer.from(s, "utf8")\<close>, as numbers.\<close>

definition utf8_scalar :: "int \<Rightarrow> int list" where
  "utf8_scalar x =
     (if x < 0x80 then [x]
      else if x < 0x800 then [0xC0 + x div 64, 0x80 + x mod 64]
      else if x < 0x10000 then [0xE0 + x div 4096, 0x80 + x div 64 mod 64, 0x80 + x mod 64]
      else [0xF0 + x div 262144, 0x80 + x div 4096 mod 64, 0x80 + x div 64 mod 64, 0x80 + x mod 64])"

definition utf8_bytes :: "js_string \<Rightarrow> int list" where
  "utf8_bytes s = concat (map (utf8_scalar \<circ> scalar_of) (code_points s))"

subsection \<open>Sorting\<close>

text \<open>\<^verbatim>\<open>Array.prototype.sort\<close> with a comparator: stable.\<close>

fun insort_cmp :: "('a \<Rightarrow> 'a \<Rightarrow> int) \<Rightarrow> 'a \<Rightarrow> 'a list \<Rightarrow> 'a list" where
  "insort_cmp cmp x [] = [x]"
| "insort_cmp cmp x (y # ys) = (if cmp x y \<le> 0 then x # y # ys else y # insort_cmp cmp x ys)"

definition js_sort :: "('a \<Rightarrow> 'a \<Rightarrow> int) \<Rightarrow> 'a list \<Rightarrow> 'a list" where
  "js_sort cmp xs = foldr (insort_cmp cmp) xs []"

text \<open>The order of numbers, and of the code units that \<^verbatim>\<open>sort()\<close> and \<^verbatim>\<open><\<close> on strings use.\<close>

fun compare_list :: "int list \<Rightarrow> int list \<Rightarrow> int" where
  "compare_list [] [] = 0"
| "compare_list [] (y # ys) = - 1"
| "compare_list (x # xs) [] = 1"
| "compare_list (x # xs) (y # ys) = (if x \<noteq> y then x - y else compare_list xs ys)"

definition compareUnits :: "js_string \<Rightarrow> js_string \<Rightarrow> int" where
  "compareUnits left right = compare_list (map uint left) (map uint right)"

subsection \<open>The byte order\<close>

function compare_utf8_loop :: "js_string \<Rightarrow> js_string \<Rightarrow> int" where
  "compare_utf8_loop left right =
     (if left \<noteq> [] \<and> right \<noteq> []
      then let leftCode = codePointAt left; rightCode = codePointAt right;
               leftScalar = (if 0xD800 \<le> leftCode \<and> leftCode \<le> 0xDFFF then 0xFFFD else leftCode);
               rightScalar = (if 0xD800 \<le> rightCode \<and> rightCode \<le> 0xDFFF then 0xFFFD else rightCode)
        in if leftCode \<noteq> rightCode \<and> leftScalar \<noteq> rightScalar then leftScalar - rightScalar
           else compare_utf8_loop (drop (if leftCode > 0xFFFF then 2 else 1) left)
                                  (drop (if rightCode > 0xFFFF then 2 else 1) right)
      else (if left \<noteq> [] then 1 else 0) - (if right \<noteq> [] then 1 else 0))"
  by pat_completeness auto
termination by (relation "measure (\<lambda>(left, right). length left)") auto

declare compare_utf8_loop.simps [simp del]

definition compareUtf8 :: "js_string \<Rightarrow> js_string \<Rightarrow> int" where
  "compareUtf8 left right = (if left = right then 0 else compare_utf8_loop left right)"

subsection \<open>Path relations\<close>

function addWorkspacePathAncestors :: "js_string \<Rightarrow> js_string list \<Rightarrow> js_string list" where
  "addWorkspacePathAncestors path into =
     (let separator = lastSlash path in
      if separator \<noteq> - 1
      then let ancestor = take (nat separator) path
        in addWorkspacePathAncestors ancestor (if ancestor \<in> set into then into else into @ [ancestor])
      else into)"
  by pat_completeness auto
termination
proof (relation "measure (\<lambda>(path, into). length path)")
  fix path into separator ancestor
  assume "separator = lastSlash path" and "separator \<noteq> - 1" and "ancestor = take (nat separator) path"
  then show "((ancestor, if ancestor \<in> set into then into else into @ [ancestor]), path, into)
      \<in> measure (\<lambda>(path, into). length path)"
    by (auto simp: lastSlash_def lastIndexOf_def Let_def split: if_splits dest!: last_in_set)
qed simp

declare addWorkspacePathAncestors.simps [simp del]

definition workspacePathIsAtOrBelow :: "js_string \<Rightarrow> js_string \<Rightarrow> bool" where
  "workspacePathIsAtOrBelow path root \<longleftrightarrow> path = root \<or> startsWith path (root @ [SLASH])"

function workspacePathSetHasAtOrAbove :: "js_string \<Rightarrow> (js_string \<Rightarrow> bool) \<Rightarrow> bool" where
  "workspacePathSetHasAtOrAbove candidate paths =
     (if paths candidate then True
      else let separator = lastSlash candidate in
        if separator = - 1 then False
        else workspacePathSetHasAtOrAbove (take (nat separator) candidate) paths)"
  by pat_completeness auto
termination
proof (relation "measure (\<lambda>(candidate, paths). length candidate)")
  fix candidate paths separator
  assume "separator = lastSlash candidate" and "separator \<noteq> - 1"
  then show "((take (nat separator) candidate, paths), candidate, paths)
      \<in> measure (\<lambda>(candidate, paths). length candidate)"
    by (auto simp: lastSlash_def lastIndexOf_def Let_def split: if_splits dest!: last_in_set)
qed simp

declare workspacePathSetHasAtOrAbove.simps [simp del]

subsection \<open>Ancestors\<close>

definition strict_ancestor :: "js_string \<Rightarrow> js_string \<Rightarrow> bool" where
  "strict_ancestor a path \<longleftrightarrow> (\<exists>t. path = a @ SLASH # t)"

lemma last_filter_upt:
  assumes "filter P [0 ..< n] \<noteq> []"
  shows "last (filter P [0 ..< n]) < n \<and> P (last (filter P [0 ..< n])) \<and>
    (\<forall>i < n. P i \<longrightarrow> i \<le> last (filter P [0 ..< n]))"
  using assms
proof (induction n)
  case (Suc n)
  show ?case
  proof (cases "P n")
    case False
    with Suc show ?thesis by (auto simp: less_Suc_eq)
  qed (auto simp: less_Suc_eq_le)
qed simp

lemma lastIndexOf_none:
  "lastIndexOf s c p = - 1 \<longleftrightarrow> (\<forall>i < min (length s) (nat p + 1). s ! i \<noteq> c)"
  by (auto simp: lastIndexOf_def Let_def filter_empty_conv)

lemma lastIndexOf_some:
  assumes "lastIndexOf s c p \<noteq> - 1"
  shows "\<exists>i. lastIndexOf s c p = int i \<and> i < length s \<and> i \<le> nat p \<and> s ! i = c \<and>
    (\<forall>j < length s. i < j \<and> j \<le> nat p \<longrightarrow> s ! j \<noteq> c)"
proof -
  define hits where "hits = filter (\<lambda>i. s ! i = c) [0 ..< min (length s) (nat p + 1)]"
  define h where "h = last hits"
  have ne: "hits \<noteq> []" using assms by (auto simp: lastIndexOf_def hits_def)
  then have l: "h < min (length s) (nat p + 1)" "s ! h = c"
      "\<And>i. i < min (length s) (nat p + 1) \<Longrightarrow> s ! i = c \<Longrightarrow> i \<le> h"
    unfolding h_def hits_def using last_filter_upt by blast+
  have "lastIndexOf s c p = int h" using ne by (simp add: lastIndexOf_def hits_def h_def)
  moreover have "s ! j \<noteq> c" if "j < length s" "h < j" "j \<le> nat p" for j
    using l(3) [of j] that by auto
  ultimately show ?thesis using l(1,2) by auto
qed

lemma split_at_last:
  assumes "i < length s" and "s ! i = c" and "\<forall>j < length s. i < j \<longrightarrow> s ! j \<noteq> c"
  shows "s = take i s @ c # drop (Suc i) s \<and> c \<notin> set (drop (Suc i) s)"
  using assms by (auto simp: id_take_nth_drop [symmetric] in_set_conv_nth)

lemma lastSlash_cases:
  obtains (none) "lastSlash s = - 1" and "SLASH \<notin> set s"
  | (some) q t where "lastSlash s = int (length q)" and "s = q @ SLASH # t" and "SLASH \<notin> set t"
      and "take (nat (lastSlash s)) s = q"
proof (cases "lastSlash s = - 1")
  case True
  then have "SLASH \<notin> set s" by (auto simp: lastSlash_def lastIndexOf_none in_set_conv_nth)
  with True none show ?thesis by blast
next
  case False
  then obtain i where i: "lastSlash s = int i" "i < length s" "s ! i = SLASH"
      "\<forall>j < length s. i < j \<longrightarrow> s ! j \<noteq> SLASH"
    using lastIndexOf_some [of s SLASH "int (length s)"] by (auto simp: lastSlash_def)
  then show ?thesis
    using split_at_last [OF i(2,3,4)] by (intro some [of "take i s" "drop (Suc i) s"]) auto
qed

lemma strict_ancestor_last:
  assumes "SLASH \<notin> set t"
  shows "strict_ancestor a (q @ SLASH # t) \<longleftrightarrow> a = q \<or> strict_ancestor a q"
  using assms
  by (auto simp: strict_ancestor_def append_eq_append_conv2 Cons_eq_append_conv append_eq_Cons_conv)

lemma strict_ancestor_none: "SLASH \<notin> set s \<Longrightarrow> \<not> strict_ancestor a s"
  by (auto simp: strict_ancestor_def)

lemma strict_ancestor_length: "strict_ancestor a p \<Longrightarrow> length a < length p"
  by (auto simp: strict_ancestor_def)

lemma strict_ancestor_trans: "strict_ancestor a b \<Longrightarrow> strict_ancestor b c \<Longrightarrow> strict_ancestor a c"
  by (auto simp: strict_ancestor_def)

lemma addWorkspacePathAncestors_set:
  "set (addWorkspacePathAncestors path into) = set into \<union> {a. strict_ancestor a path}"
proof (induction path into rule: addWorkspacePathAncestors.induct)
  case (1 path into)
  show ?case
  proof (cases path rule: lastSlash_cases)
    case none
    then show ?thesis by (subst addWorkspacePathAncestors.simps) (simp add: strict_ancestor_none)
  next
    case (some q t)
    then have "set (addWorkspacePathAncestors q (if q \<in> set into then into else into @ [q]))
        = set (if q \<in> set into then into else into @ [q]) \<union> {a. strict_ancestor a q}"
      using 1 [OF refl _ refl] by auto
    moreover have "addWorkspacePathAncestors path into
        = addWorkspacePathAncestors q (if q \<in> set into then into else into @ [q])"
      using some(1,4) by (subst addWorkspacePathAncestors.simps) (simp add: Let_def)
    moreover have "{a. strict_ancestor a path} = insert q {a. strict_ancestor a q}"
      using strict_ancestor_last [OF some(3)] some(2) by auto
    ultimately show ?thesis by auto
  qed
qed

lemma workspacePathSetHasAtOrAbove_iff:
  "workspacePathSetHasAtOrAbove path paths \<longleftrightarrow> paths path \<or> (\<exists>a. strict_ancestor a path \<and> paths a)"
proof (induction path paths rule: workspacePathSetHasAtOrAbove.induct)
  case (1 path paths)
  show ?case
  proof (cases path rule: lastSlash_cases)
    case none
    then show ?thesis by (subst workspacePathSetHasAtOrAbove.simps) (simp add: strict_ancestor_none)
  next
    case (some q t)
    show ?thesis
    proof (cases "paths path")
      case False
      have "workspacePathSetHasAtOrAbove path paths \<longleftrightarrow> workspacePathSetHasAtOrAbove q paths"
        using some(1,4) False by (subst workspacePathSetHasAtOrAbove.simps) (simp add: Let_def)
      moreover have "workspacePathSetHasAtOrAbove q paths \<longleftrightarrow> paths q \<or> (\<exists>a. strict_ancestor a q \<and> paths a)"
        using 1 [OF False refl] some(1,4) by simp
      ultimately show ?thesis using strict_ancestor_last [OF some(3)] some(2) False by auto
    qed (subst workspacePathSetHasAtOrAbove.simps, simp)
  qed
qed

lemma workspacePathIsAtOrBelow_iff:
  "workspacePathIsAtOrBelow path root \<longleftrightarrow> path = root \<or> strict_ancestor root path"
proof -
  have "startsWith path (root @ [SLASH]) \<longleftrightarrow> (\<exists>t. path = root @ SLASH # t)"
  proof
    assume "startsWith path (root @ [SLASH])"
    then have "path = (root @ [SLASH]) @ drop (length (root @ [SLASH])) path"
      by (metis append_take_drop_id startsWith_def)
    then show "\<exists>t. path = root @ SLASH # t" by (metis append.assoc append_Cons append_Nil)
  qed (auto simp: startsWith_def)
  then show ?thesis by (simp add: workspacePathIsAtOrBelow_def strict_ancestor_def)
qed

subsection \<open>The byte order is the order of the UTF-8 bytes\<close>

definition scalars :: "js_string \<Rightarrow> int list" where
  "scalars s = map scalar_of (code_points s)"

lemma code_points_Nil [simp]: "code_points [] = []"
  by (simp add: code_points.simps)

lemma code_points_step: "s \<noteq> [] \<Longrightarrow> code_points s = codePointAt s # code_points (drop (code_point_units s) s)"
  by (subst code_points.simps) simp

lemma compare_utf8_loop_scalars: "compare_utf8_loop left right = compare_list (scalars left) (scalars right)"
proof (induction left right rule: compare_utf8_loop.induct)
  case (1 left right)
  show ?case
  proof (cases "left \<noteq> [] \<and> right \<noteq> []")
    case True
    then show ?thesis
      using 1 [OF True refl refl refl refl]
      by (subst compare_utf8_loop.simps)
        (simp add: Let_def scalars_def code_points_step scalar_of_def is_surrogate_def code_point_units_def)
  next
    case False
    then show ?thesis
      by (cases left; cases right; subst compare_utf8_loop.simps) (auto simp: scalars_def code_points_step)
  qed
qed

lemma compare_list_refl [simp]: "compare_list xs xs = 0"
  by (induction xs) auto

lemma compareUtf8_scalars: "compareUtf8 left right = compare_list (scalars left) (scalars right)"
  by (simp add: compareUtf8_def compare_utf8_loop_scalars)

lemma code_unit_range: "0 \<le> uint (a :: 16 word) \<and> uint a < 65536"
  using uint_bounded [of a] by simp

lemma codePointAt_range: "0 \<le> codePointAt s \<and> codePointAt s < 0x110000"
proof -
  obtain a b t where "s = [] \<or> s = [a] \<or> s = a # b # t" by (metis list.exhaust)
  then show ?thesis
    using code_unit_range [of a] code_unit_range [of b]
    by (auto simp: codePointAt_def high_surrogate_def low_surrogate_def)
qed

lemma code_points_range: "c \<in> set (code_points s) \<Longrightarrow> 0 \<le> c \<and> c < 0x110000"
proof (induction s rule: code_points.induct)
  case (1 s)
  then show ?case using codePointAt_range [of s] by (cases "s = []") (auto simp: code_points_step)
qed

lemma scalars_range: "c \<in> set (scalars s) \<Longrightarrow> 0 \<le> c \<and> c < 0x110000"
  using code_points_range by (fastforce simp: scalars_def scalar_of_def is_surrogate_def)

text \<open>Two scalars already differ, the same way, in the first byte in which their encodings differ.\<close>

lemma digit_order: "x < y \<Longrightarrow> x div 64 < y div 64 \<or> x div 64 = y div 64 \<and> x mod 64 < y mod 64" for x y :: int
proof -
  assume less: "x < y"
  then have "x div 64 \<le> y div 64" by (intro zdiv_mono1) auto
  moreover have "x mod 64 < y mod 64" if "x div 64 = y div 64"
    using less that mult_div_mod_eq [of 64 x] mult_div_mod_eq [of 64 y] by linarith
  ultimately show ?thesis by linarith
qed

lemma digits_order:
  fixes x y :: int
  assumes "x < y"
  shows "x div 4096 < y div 4096 \<or> x div 4096 = y div 4096 \<and>
      (x div 64 mod 64 < y div 64 mod 64 \<or> x div 64 mod 64 = y div 64 mod 64 \<and> x mod 64 < y mod 64)"
    and "x div 262144 < y div 262144 \<or> x div 262144 = y div 262144 \<and>
      (x div 4096 mod 64 < y div 4096 mod 64 \<or> x div 4096 mod 64 = y div 4096 mod 64 \<and>
       (x div 64 mod 64 < y div 64 mod 64 \<or> x div 64 mod 64 = y div 64 mod 64 \<and> x mod 64 < y mod 64))"
proof -
  have div: "z div 64 div 64 = z div 4096" "z div 4096 div 64 = z div 262144" for z :: int
    by (simp_all flip: zdiv_zmult2_eq)
  from digit_order [OF assms] show two: "x div 4096 < y div 4096 \<or> x div 4096 = y div 4096 \<and>
      (x div 64 mod 64 < y div 64 mod 64 \<or> x div 64 mod 64 = y div 64 mod 64 \<and> x mod 64 < y mod 64)"
  proof
    assume "x div 64 < y div 64"
    from digit_order [OF this] show ?thesis unfolding div by blast
  next
    assume eq: "x div 64 = y div 64 \<and> x mod 64 < y mod 64"
    have "x div 4096 = y div 4096" unfolding div(1) [symmetric] using eq by (simp only:)
    with eq show ?thesis by (simp only: simp_thms)
  qed
  from two show "x div 262144 < y div 262144 \<or> x div 262144 = y div 262144 \<and>
      (x div 4096 mod 64 < y div 4096 mod 64 \<or> x div 4096 mod 64 = y div 4096 mod 64 \<and>
       (x div 64 mod 64 < y div 64 mod 64 \<or> x div 64 mod 64 = y div 64 mod 64 \<and> x mod 64 < y mod 64))"
  proof
    assume "x div 4096 < y div 4096"
    from digit_order [OF this] show ?thesis unfolding div by blast
  next
    assume eq: "x div 4096 = y div 4096 \<and>
      (x div 64 mod 64 < y div 64 mod 64 \<or> x div 64 mod 64 = y div 64 mod 64 \<and> x mod 64 < y mod 64)"
    have "x div 262144 = y div 262144" unfolding div(2) [symmetric] using eq by (simp only:)
    with eq show ?thesis by (simp only: simp_thms)
  qed
qed

lemma compare_digits:
  fixes p q :: int
  shows "p < q \<or> p = q \<and> p1 < q1 \<Longrightarrow>
      compare_list ([h + p, c + p1] @ s) ([h + q, c + q1] @ t) < 0 \<and>
      compare_list ([h + q, c + q1] @ t) ([h + p, c + p1] @ s) > 0"
    and "p < q \<or> p = q \<and> (p1 < q1 \<or> p1 = q1 \<and> p2 < q2) \<Longrightarrow>
      compare_list ([h + p, c + p1, c + p2] @ s) ([h + q, c + q1, c + q2] @ t) < 0 \<and>
      compare_list ([h + q, c + q1, c + q2] @ t) ([h + p, c + p1, c + p2] @ s) > 0"
    and "p < q \<or> p = q \<and> (p1 < q1 \<or> p1 = q1 \<and> (p2 < q2 \<or> p2 = q2 \<and> p3 < q3)) \<Longrightarrow>
      compare_list ([h + p, c + p1, c + p2, c + p3] @ s) ([h + q, c + q1, c + q2, c + q3] @ t) < 0 \<and>
      compare_list ([h + q, c + q1, c + q2, c + q3] @ t) ([h + p, c + p1, c + p2, c + p3] @ s) > 0"
  by auto

lemma utf8_scalar_order:
  assumes "0 \<le> x" "x < y" "y < 0x110000"
  shows "compare_list (utf8_scalar x @ s) (utf8_scalar y @ t) < 0 \<and> compare_list (utf8_scalar y @ t) (utf8_scalar x @ s) > 0"
proof -
  consider "y < 0x80" | "x < 0x80" "0x80 \<le> y" | "0x80 \<le> x" "y < 0x800" | "x < 0x800" "0x800 \<le> y" "0x80 \<le> x"
    | "0x800 \<le> x" "y < 0x10000" | "x < 0x10000" "0x10000 \<le> y" "0x800 \<le> x" | "0x10000 \<le> x"
    using assms by linarith
  then show ?thesis
  proof cases
    case 1
    then show ?thesis using assms by (simp add: utf8_scalar_def)
  next
    case 2
    have "0 \<le> y div 64" "0 \<le> y div 4096" "0 \<le> y div 262144"
      using assms by (simp_all add: pos_imp_zdiv_nonneg_iff)
    then show ?thesis using 2 assms by (auto simp: utf8_scalar_def)
  next
    case 3
    then have form: "utf8_scalar x = [0xC0 + x div 64, 0x80 + x mod 64]"
        "utf8_scalar y = [0xC0 + y div 64, 0x80 + y mod 64]"
      using assms by (simp_all add: utf8_scalar_def)
    show ?thesis unfolding form by (rule compare_digits(1) [OF digit_order [OF assms(2)]])
  next
    case 4
    then have "x div 64 < 32" "0 \<le> y div 4096" "0 \<le> y div 262144"
      using assms by (simp_all add: pos_imp_zdiv_nonneg_iff div_less_iff_less_mult)
    then show ?thesis using 4 assms by (auto simp: utf8_scalar_def)
  next
    case 5
    then have form: "utf8_scalar x = [0xE0 + x div 4096, 0x80 + x div 64 mod 64, 0x80 + x mod 64]"
        "utf8_scalar y = [0xE0 + y div 4096, 0x80 + y div 64 mod 64, 0x80 + y mod 64]"
      using assms by (simp_all add: utf8_scalar_def)
    show ?thesis unfolding form by (rule compare_digits(2) [OF digits_order(1) [OF assms(2)]])
  next
    case 6
    then have "x div 4096 < 16" "0 \<le> y div 262144"
      using assms by (simp_all add: pos_imp_zdiv_nonneg_iff div_less_iff_less_mult)
    then show ?thesis using 6 assms by (auto simp: utf8_scalar_def)
  next
    case 7
    then have form: "utf8_scalar x = [0xF0 + x div 262144, 0x80 + x div 4096 mod 64, 0x80 + x div 64 mod 64, 0x80 + x mod 64]"
        "utf8_scalar y = [0xF0 + y div 262144, 0x80 + y div 4096 mod 64, 0x80 + y div 64 mod 64, 0x80 + y mod 64]"
      using assms by (simp_all add: utf8_scalar_def)
    show ?thesis unfolding form by (rule compare_digits(3) [OF digits_order(2) [OF assms(2)]])
  qed
qed

lemma utf8_scalar_nonempty: "utf8_scalar x \<noteq> []"
  by (simp add: utf8_scalar_def)

lemma compare_list_common: "compare_list (xs @ s) (xs @ t) = compare_list s t"
  by (induction xs) auto

lemma compare_list_utf8:
  assumes "\<forall>x \<in> set xs. 0 \<le> x \<and> x < 0x110000" and "\<forall>y \<in> set ys. 0 \<le> y \<and> y < 0x110000"
  shows "sgn (compare_list xs ys) = sgn (compare_list (concat (map utf8_scalar xs)) (concat (map utf8_scalar ys)))"
  using assms
proof (induction xs ys rule: compare_list.induct)
  case (2 y ys)
  then show ?case using utf8_scalar_nonempty [of y] by (cases "utf8_scalar y") auto
next
  case (3 x xs)
  then show ?case using utf8_scalar_nonempty [of x] by (cases "utf8_scalar x") auto
next
  case (4 x xs y ys)
  show ?case
  proof (cases x y rule: linorder_cases)
    case equal
    with 4 show ?thesis by (simp add: compare_list_common)
  next
    case less
    with 4 utf8_scalar_order [of x y "concat (map utf8_scalar xs)" "concat (map utf8_scalar ys)"] show ?thesis
      by (auto simp: sgn_if)
  next
    case greater
    with 4 utf8_scalar_order [of y x "concat (map utf8_scalar ys)" "concat (map utf8_scalar xs)"] show ?thesis
      by (auto simp: sgn_if)
  qed
qed simp

lemma utf8_bytes_scalars: "utf8_bytes s = concat (map utf8_scalar (scalars s))"
  by (simp add: utf8_bytes_def scalars_def comp_def)

subsection \<open>Comparators\<close>

lemma compare_list_total: "compare_list xs ys \<le> 0 \<or> compare_list ys xs \<le> 0"
  by (induction xs ys rule: compare_list.induct) auto

lemma compare_list_trans: "compare_list xs ys \<le> 0 \<Longrightarrow> compare_list ys zs \<le> 0 \<Longrightarrow> compare_list xs zs \<le> 0"
proof (induction xs ys arbitrary: zs rule: compare_list.induct)
  case (1 zs)
  then show ?case by simp
next
  case (2 y ys)
  then show ?case by (cases zs) auto
next
  case (3 x xs)
  then show ?case by simp
next
  case (4 x xs y ys)
  then show ?case by (cases zs) (auto split: if_splits)
qed

lemma compare_list_zero: "compare_list xs ys = 0 \<longleftrightarrow> xs = ys"
  by (induction xs ys rule: compare_list.induct) auto

lemma compare_list_antisym: "compare_list xs ys \<le> 0 \<Longrightarrow> compare_list ys xs \<le> 0 \<Longrightarrow> xs = ys"
  by (induction xs ys rule: compare_list.induct) (auto split: if_splits)

text \<open>What \<^verbatim>\<open>sort\<close> may rely on: its comparator is a total preorder.\<close>

locale comparator =
  fixes cmp :: "'a \<Rightarrow> 'a \<Rightarrow> int"
  assumes cmp_total: "cmp x y \<le> 0 \<or> cmp y x \<le> 0"
    and cmp_trans: "cmp x y \<le> 0 \<Longrightarrow> cmp y z \<le> 0 \<Longrightarrow> cmp x z \<le> 0"
begin

abbreviation ascending :: "'a list \<Rightarrow> bool" where
  "ascending \<equiv> sorted_wrt (\<lambda>x y. cmp x y \<le> 0)"

lemma set_insort: "set (insort_cmp cmp x ys) = insert x (set ys)"
  by (induction ys) auto

lemma mset_sort [simp]: "mset (js_sort cmp xs) = mset xs"
proof -
  have "mset (insort_cmp cmp x ys) = add_mset x (mset ys)" for x ys by (induction ys) auto
  then show ?thesis by (induction xs) (auto simp: js_sort_def)
qed

lemma set_sort [simp]: "set (js_sort cmp xs) = set xs"
  by (metis mset_sort set_mset_mset)

lemma length_sort [simp]: "length (js_sort cmp xs) = length xs"
  by (metis mset_sort size_mset)

lemma ascending_sort: "ascending (js_sort cmp xs)"
proof -
  have "ascending ys \<Longrightarrow> ascending (insort_cmp cmp x ys)" for x ys
  proof (induction ys)
    case (Cons y ys)
    show ?case
    proof (cases "cmp x y \<le> 0")
      case True
      then show ?thesis using Cons.prems cmp_trans by (auto dest: bspec)
    next
      case False
      then have "cmp y x \<le> 0" using cmp_total by blast
      then show ?thesis using False Cons by (auto simp: set_insort)
    qed
  qed simp
  then show ?thesis by (induction xs) (auto simp: js_sort_def)
qed

lemma sort_ascending: "ascending xs \<Longrightarrow> js_sort cmp xs = xs"
proof (induction xs)
  case (Cons x xs)
  then have "js_sort cmp (x # xs) = insort_cmp cmp x xs" by (simp add: js_sort_def)
  also have "\<dots> = x # xs" using Cons.prems by (cases xs) auto
  finally show ?case .
qed (simp add: js_sort_def)

lemma distinct_sort [simp]: "distinct (map f (js_sort cmp xs)) \<longleftrightarrow> distinct (map f xs)"
  by (metis mset_map mset_sort mset_eq_imp_distinct_iff)

end

interpretation utf8_order: comparator "\<lambda>x y. compareUtf8 (key x) (key y)" for key
  by unfold_locales (auto simp: compareUtf8_scalars compare_list_total intro: compare_list_trans)

interpretation unit_order: comparator compareUnits
  by unfold_locales (auto simp: compareUnits_def compare_list_total intro: compare_list_trans)

lemma compareUnits_zero: "compareUnits x y = 0 \<longleftrightarrow> x = y"
proof -
  have "inj (uint :: 16 word \<Rightarrow> int)" by (rule injI) (metis word_of_int_uint)
  then show ?thesis by (simp add: compareUnits_def compare_list_zero inj_map_eq_map)
qed

text \<open>On well-formed strings the byte order tells different strings apart.\<close>

lemma scalars_well_formed: "isWellFormed s \<Longrightarrow> scalars s = code_points s"
  by (auto simp: scalars_def isWellFormed_def list_all_iff scalar_of_def intro: map_idI)

definition units_of :: "int \<Rightarrow> js_string" where
  "units_of c = (if c \<le> 0xFFFF then [word_of_int c]
     else [word_of_int ((c - 0x10000) div 0x400 + 0xD800), word_of_int ((c - 0x10000) mod 0x400 + 0xDC00)])"

lemma units_codePointAt: "s \<noteq> [] \<Longrightarrow> units_of (codePointAt s) = take (code_point_units s) s"
proof (cases s rule: remdups_adj.cases)
  case (3 a b t)
  show ?thesis
  proof (cases "high_surrogate a \<and> low_surrogate b")
    case True
    then have r: "0 \<le> uint a - 0xD800" "0 \<le> uint b - 0xDC00" "uint b - 0xDC00 < 0x400"
      by (auto simp: high_surrogate_def low_surrogate_def)
    have c: "codePointAt s = (uint a - 0xD800) * 0x400 + (uint b - 0xDC00) + 0x10000"
      using True 3 by (simp add: codePointAt_def)
    have d: "(q * 0x400 + m) div 0x400 = q \<and> (q * 0x400 + m) mod 0x400 = m" if "0 \<le> m" "m < 0x400" for q m :: int
      using that by simp
    have "codePointAt s - 0x10000 = (uint a - 0xD800) * 0x400 + (uint b - 0xDC00)" unfolding c by simp
    then have "(codePointAt s - 0x10000) div 0x400 = uint a - 0xD800"
        "(codePointAt s - 0x10000) mod 0x400 = uint b - 0xDC00"
      using d [OF r(2,3)] by (simp_all only:)
    moreover have "codePointAt s > 0xFFFF" using c r by simp
    ultimately show ?thesis using 3 by (simp add: units_of_def code_point_units_def)
  next
    case False
    then have "codePointAt s = uint a" using 3 by (auto simp: codePointAt_def)
    then show ?thesis using 3 code_unit_range [of a] by (simp add: units_of_def code_point_units_def)
  qed
next
  case (2 a)
  then show ?thesis using code_unit_range [of a] by (simp add: units_of_def code_point_units_def codePointAt_def)
qed simp

lemma units_code_points: "concat (map units_of (code_points s)) = s"
proof (induction s rule: code_points.induct)
  case (1 s)
  then show ?case by (cases "s = []") (simp_all add: code_points_step units_codePointAt)
qed

lemma compareUtf8_zero:
  assumes "isWellFormed x" and "isWellFormed y"
  shows "compareUtf8 x y = 0 \<longleftrightarrow> x = y"
  by (metis assms compareUtf8_scalars compare_list_zero scalars_well_formed units_code_points)

text \<open>C13. The byte order: \<open>compareUtf8\<close>, which never builds the bytes, orders two strings as the
  lexicographic order of their UTF-8 encodings does, with unpaired surrogates replaced.\<close>

theorem compareUtf8_is_the_byte_order:
  "sgn (compareUtf8 left right) = sgn (compare_list (utf8_bytes left) (utf8_bytes right))"
  unfolding compareUtf8_scalars utf8_bytes_scalars by (rule compare_list_utf8) (auto dest: scalars_range)

end
