(* ===== verification/Json_Text.thy ===== *)
theory Json_Text
  imports Workspace_Paths
begin

text \<open>
  Values of the type \<^verbatim>\<open>unknown\<close> that reach the validators, and the text that \<^verbatim>\<open>JSON.stringify\<close> renders
  them to. Rendering is injective, which is what the program relies on when it compares rendered
  objects or names an object by the hash of its text.
\<close>

subsection \<open>Values\<close>

text \<open>\<open>JOther\<close> is any value that the code only tells apart from the others, such as \<^verbatim>\<open>undefined\<close> or a
  number that is not an integer.\<close>

datatype js_value =
    JNull
  | JBool bool
  | JInt int
  | JStr js_string
  | JArr "js_value list"
  | JObj "(js_string \<times> js_value) list"
  | JOther

definition js_field :: "(js_string \<times> js_value) list \<Rightarrow> string \<Rightarrow> js_value" where
  "js_field members k = (case map_of members (js k) of Some v \<Rightarrow> v | None \<Rightarrow> JOther)"

definition exactKeys :: "(js_string \<times> js_value) list \<Rightarrow> string list \<Rightarrow> bool" where
  "exactKeys members expected \<longleftrightarrow> length members = length expected \<and>
     list_all (\<lambda>(k, _). k \<in> set (map js expected)) members"

lemma js_inj [simp]: "js s = js t \<longleftrightarrow> s = t"
proof -
  have "c = d" if "(of_nat (of_char c) :: 16 word) = of_nat (of_char d)" for c d :: char
  proof -
    have "(of_char c :: nat) < 256" "(of_char d :: nat) < 256" by simp_all
    moreover have "unat (of_nat n :: 16 word) = n" if "n < 256" for n using that by (simp add: unat_of_nat)
    ultimately have "(of_char c :: nat) = of_char d" using that by metis
    then show ?thesis by simp
  qed
  then have "inj (\<lambda>c :: char. of_nat (of_char c) :: 16 word)" by (intro injI)
  then show ?thesis by (simp add: js_def inj_map_eq_map)
qed

subsection \<open>Rendering\<close>

abbreviation QUOTE :: "16 word" where "QUOTE \<equiv> 0x22"
abbreviation BACKSLASH :: "16 word" where "BACKSLASH \<equiv> 0x5C"

definition hex_unit :: "int \<Rightarrow> 16 word" where
  "hex_unit n = js ''0123456789abcdef'' ! nat n"

definition unicode_escape :: "16 word \<Rightarrow> js_string" where
  "unicode_escape c = [BACKSLASH, 0x75, hex_unit (uint c div 4096), hex_unit (uint c div 256 mod 16),
     hex_unit (uint c div 16 mod 16), hex_unit (uint c mod 16)]"

definition short_escapes :: "(16 word \<times> 16 word) list" where
  "short_escapes = [(0x08, 0x62), (0x09, 0x74), (0x0A, 0x6E), (0x0C, 0x66), (0x0D, 0x72), (QUOTE, QUOTE),
     (BACKSLASH, BACKSLASH)]"

definition json_unit :: "16 word \<Rightarrow> js_string" where
  "json_unit c =
     (case map_of short_escapes c of
        Some e \<Rightarrow> [BACKSLASH, e]
      | None \<Rightarrow> if uint c < 0x20 \<or> high_surrogate c \<or> low_surrogate c then unicode_escape c else [c])"

fun json_body :: "js_string \<Rightarrow> js_string" where
  "json_body [] = []"
| "json_body [c] = json_unit c"
| "json_body (a # b # s) =
     (if high_surrogate a \<and> low_surrogate b then a # b # json_body s else json_unit a @ json_body (b # s))"

definition json_string :: "js_string \<Rightarrow> js_string" where
  "json_string s = QUOTE # json_body s @ [QUOTE]"

definition digit :: "nat \<Rightarrow> 16 word" where
  "digit n = of_nat (0x30 + n)"

fun decimal :: "nat \<Rightarrow> js_string" where
  "decimal n = (if n < 10 then [digit n] else decimal (n div 10) @ [digit (n mod 10)])"

declare decimal.simps [simp del]

definition json_int :: "int \<Rightarrow> js_string" where
  "json_int i = (if i < 0 then 0x2D # decimal (nat (- i)) else decimal (nat i))"

fun json :: "js_value \<Rightarrow> js_string"
  and json_list :: "js_value list \<Rightarrow> js_string"
  and json_members :: "(js_string \<times> js_value) list \<Rightarrow> js_string" where
  "json JNull = js ''null''"
| "json (JBool b) = (if b then js ''true'' else js ''false'')"
| "json (JInt i) = json_int i"
| "json (JStr s) = json_string s"
| "json (JArr vs) = 0x5B # json_list vs"
| "json (JObj ms) = 0x7B # json_members ms"
| "json JOther = []"
| "json_list [] = [0x5D]"
| "json_list (v # vs) = json v @ (if vs = [] then [0x5D] else 0x2C # json_list vs)"
| "json_members [] = [0x7D]"
| "json_members ((k, v) # ms) = json_string k @ 0x3A # json v @ (if ms = [] then [0x7D] else 0x2C # json_members ms)"

fun rendered :: "js_value \<Rightarrow> bool" where
  "rendered (JArr vs) \<longleftrightarrow> list_all rendered vs"
| "rendered (JObj ms) \<longleftrightarrow> list_all (\<lambda>(k, v). rendered v) ms"
| "rendered JOther \<longleftrightarrow> False"
| "rendered _ \<longleftrightarrow> True"

subsection \<open>Strings\<close>

lemma hex_unit_inj:
  assumes "0 \<le> m" "m < 16" "0 \<le> n" "n < 16"
  shows "hex_unit m = hex_unit n \<longleftrightarrow> m = n"
proof -
  have "distinct (js ''0123456789abcdef'')" "length (js ''0123456789abcdef'') = 16" by code_simp+
  then show ?thesis using assms by (auto simp: hex_unit_def nth_eq_iff_index_eq)
qed

lemma unit_digits:
  fixes c :: "16 word"
  shows "0 \<le> uint c div 4096" "uint c div 4096 < 16" "0 \<le> uint c div 256 mod 16" "uint c div 256 mod 16 < 16"
    "0 \<le> uint c div 16 mod 16" "uint c div 16 mod 16 < 16" "0 \<le> uint c mod 16" "uint c mod 16 < 16"
  using code_unit_range [of c] by (simp_all add: pos_imp_zdiv_nonneg_iff div_less_iff_less_mult)

lemma digits_determine:
  fixes x y :: int
  assumes "x mod 16 = y mod 16" "x div 16 mod 16 = y div 16 mod 16" "x div 256 mod 16 = y div 256 mod 16"
    "x div 4096 = y div 4096"
  shows "x = y"
proof -
  have "z div 256 div 16 = z div 4096" "z div 16 div 16 = z div 256" for z :: int
    by (simp_all flip: zdiv_zmult2_eq)
  then have "x div 256 = y div 256" using assms(3,4) by (metis mult_div_mod_eq)
  then have "x div 16 = y div 16" using assms(2) \<open>\<And>z. z div 16 div 16 = z div 256\<close> by (metis mult_div_mod_eq)
  then show ?thesis using assms(1) by (metis mult_div_mod_eq)
qed

lemma unicode_escape_prefix: "unicode_escape c @ x = unicode_escape d @ y \<longleftrightarrow> c = d \<and> x = y"
proof
  assume "unicode_escape c @ x = unicode_escape d @ y"
  then have "uint c = uint d \<and> x = y"
    by (auto simp: unicode_escape_def hex_unit_inj unit_digits intro: digits_determine)
  then show "c = d \<and> x = y" by (metis word_of_int_uint)
qed simp

text \<open>What a rendered unit begins with.\<close>

lemma json_unit_cases:
  obtains (short) e where "map_of short_escapes c = Some e" and "json_unit c = [BACKSLASH, e]" and "e \<noteq> 0x75"
  | (long) "json_unit c = unicode_escape c" and "map_of short_escapes c = None"
  | (plain) "json_unit c = [c]" and "c \<noteq> QUOTE" and "c \<noteq> BACKSLASH" and "\<not> high_surrogate c"
      and "\<not> low_surrogate c"
proof (cases "map_of short_escapes c")
  case (Some e)
  then have "e \<in> snd ` set short_escapes" by (force dest: map_of_SomeD)
  then have "e \<noteq> 0x75" by (auto simp: short_escapes_def)
  with Some short show ?thesis by (simp add: json_unit_def)
next
  case None
  then have "c \<noteq> QUOTE" "c \<noteq> BACKSLASH" by (auto simp: short_escapes_def)
  with None long plain show ?thesis by (cases "uint c < 0x20 \<or> high_surrogate c \<or> low_surrogate c") (auto simp: json_unit_def)
qed

lemma short_escape_inj: "map_of short_escapes c = Some e \<Longrightarrow> map_of short_escapes d = Some e \<Longrightarrow> c = d"
  by (auto simp: short_escapes_def split: if_splits)

lemma json_unit_prefix: "json_unit c @ x = json_unit d @ y \<longleftrightarrow> c = d \<and> x = y"
proof
  assume eq: "json_unit c @ x = json_unit d @ y"
  show "c = d \<and> x = y"
    by (cases c rule: json_unit_cases; cases d rule: json_unit_cases)
      (use eq in \<open>auto simp: unicode_escape_prefix dest: short_escape_inj\<close>,
       simp_all add: unicode_escape_def)
qed simp

lemma json_unit_head: "\<exists>h t. json_unit c = h # t \<and> h \<noteq> QUOTE \<and> \<not> high_surrogate h"
  by (cases c rule: json_unit_cases) (auto simp: unicode_escape_def high_surrogate_def)

lemma json_body_cases:
  obtains (empty) "s = []" and "json_body s = []"
  | (pair) a b t where "s = a # b # t" and "high_surrogate a" and "low_surrogate b"
      and "json_body s = a # b # json_body t"
  | (single) c t where "s = c # t" and "json_body s = json_unit c @ json_body t"
proof (cases s rule: json_body.cases)
  case 1
  then show ?thesis using empty by simp
next
  case (2 c)
  then show ?thesis using single [of c "[]"] by simp
next
  case (3 a b t)
  then show ?thesis using pair [of a b t] single [of a "b # t"] by (cases "high_surrogate a \<and> low_surrogate b") auto
qed

lemma json_body_prefix: "json_body s @ QUOTE # x = json_body t @ QUOTE # y \<Longrightarrow> s = t \<and> x = y"
proof (induction "length s" arbitrary: s t rule: less_induct)
  case less
  have high: "a \<noteq> QUOTE" if "high_surrogate a" for a using that by (auto simp: high_surrogate_def)
  show ?case
  proof (cases s rule: json_body_cases)
    case empty
    have "t = []"
    proof (cases t rule: json_body_cases)
      case (single c t')
      then show ?thesis using less.prems empty json_unit_head [of c] by auto
    qed (use less.prems empty high in auto)
    with empty less.prems show ?thesis by simp
  next
    case (pair a b s')
    then show ?thesis
    proof (cases t rule: json_body_cases)
      case empty
      then show ?thesis using less.prems pair high by auto
    next
      case (pair a' b' t')
      then show ?thesis using less.prems \<open>json_body s = _\<close> \<open>s = _\<close> less.hyps [of s' t'] by auto
    next
      case (single c t')
      then show ?thesis using less.prems pair json_unit_head [of c] by auto
    qed
  next
    case (single c s')
    then show ?thesis
    proof (cases t rule: json_body_cases)
      case empty
      then show ?thesis using less.prems single json_unit_head [of c] by auto
    next
      case (pair a' b' t')
      then show ?thesis using less.prems single json_unit_head [of c] by auto
    next
      case (single c' t')
      then have "json_unit c @ (json_body s' @ QUOTE # x) = json_unit c' @ (json_body t' @ QUOTE # y)"
        using less.prems \<open>json_body s = _\<close> by simp
      then have "c = c'" "json_body s' @ QUOTE # x = json_body t' @ QUOTE # y" by (auto simp: json_unit_prefix)
      then show ?thesis using less.hyps [of s' t'] single(1) \<open>s = c # s'\<close> by auto
    qed
  qed
qed

lemma json_string_prefix: "json_string s @ x = json_string t @ y \<longleftrightarrow> s = t \<and> x = y"
  using json_body_prefix [of s x t y] by (auto simp: json_string_def)

subsection \<open>Numbers\<close>

definition digit_unit :: "16 word \<Rightarrow> bool" where
  "digit_unit c \<longleftrightarrow> 0x30 \<le> uint c \<and> uint c \<le> 0x39"

lemma digit_unit_of: "m < 10 \<Longrightarrow> digit_unit (digit m) \<and> uint (digit m) = int m + 0x30"
proof -
  assume m: "m < 10"
  have u: "unat (of_nat k :: 16 word) = k" if "k < 256" for k using that by (simp add: unat_of_nat)
  have "unat (digit m) = 0x30 + m" unfolding digit_def by (rule u) (use m in simp)
  then have "uint (digit m) = int (0x30 + m)" by (metis uint_nat)
  then show ?thesis using m by (simp add: digit_unit_def)
qed

lemma decimal_small: "n < 10 \<Longrightarrow> decimal n = [digit n]"
  by (subst decimal.simps) simp

lemma decimal_large: "\<not> n < 10 \<Longrightarrow> decimal n = decimal (n div 10) @ [digit (n mod 10)]"
  by (subst decimal.simps) simp

lemma decimal_digits: "list_all digit_unit (decimal n) \<and> decimal n \<noteq> []"
proof (induction n rule: decimal.induct)
  case (1 n)
  then show ?case
    by (cases "n < 10") (auto simp: decimal_small decimal_large digit_unit_of)
qed

definition decimal_value :: "js_string \<Rightarrow> int" where
  "decimal_value s = foldl (\<lambda>acc c. 10 * acc + (uint c - 0x30)) 0 s"

lemma decimal_value_decimal: "decimal_value (decimal n) = int n"
proof (induction n rule: decimal.induct)
  case (1 n)
  show ?case
  proof (cases "n < 10")
    case True
    then show ?thesis using digit_unit_of [of n] by (simp add: decimal_small decimal_value_def)
  next
    case False
    have "decimal_value (decimal n) = 10 * decimal_value (decimal (n div 10)) + int (n mod 10)"
      using False digit_unit_of [of "n mod 10"] by (simp add: decimal_large decimal_value_def)
    also have "\<dots> = int (10 * (n div 10) + n mod 10)" using 1 [OF False] by (simp only: of_nat_add of_nat_mult of_nat_numeral)
    also have "10 * (n div 10) + n mod 10 = n" by (rule mult_div_mod_eq)
    finally show ?thesis .
  qed
qed

definition delimited :: "js_string \<Rightarrow> bool" where
  "delimited x \<longleftrightarrow> (case x of [] \<Rightarrow> True | c # _ \<Rightarrow> \<not> digit_unit c)"

lemma digits_prefix:
  assumes "list_all P a" "list_all P b" "a @ x = b @ y"
    and "\<And>c t. x = c # t \<Longrightarrow> \<not> P c" "\<And>c t. y = c # t \<Longrightarrow> \<not> P c"
  shows "a = b \<and> x = y"
proof -
  have t: "takeWhile P (a @ x) = a" if "list_all P a" "\<And>c t. x = c # t \<Longrightarrow> \<not> P c" for a x
  proof -
    have "takeWhile P x = []" using that(2) by (cases x) simp_all
    then show ?thesis using that(1) by (simp add: takeWhile_append2 list_all_iff)
  qed
  have one: "takeWhile P (a @ x) = a" and two: "takeWhile P (b @ y) = b"
    by (rule t, fact, fact)+
  have "a = b" using one unfolding assms(3) two by (rule sym)
  with assms(3) show ?thesis by simp
qed

lemma json_int_prefix:
  assumes "json_int i @ x = json_int j @ y" and "delimited x" and "delimited y"
  shows "i = j \<and> x = y"
proof -
  have head: "\<exists>c t. decimal n = c # t \<and> digit_unit c" for n
    using decimal_digits [of n] by (cases "decimal n") auto
  have minus: "\<not> digit_unit 0x2D" by (simp add: digit_unit_def)
  have sep: "m = n \<and> x = y" if "decimal m @ x = decimal n @ y" for m n
  proof -
    have d: "\<And>c t. x = c # t \<Longrightarrow> \<not> digit_unit c" "\<And>c t. y = c # t \<Longrightarrow> \<not> digit_unit c"
      using assms(2,3) by (simp_all add: delimited_def)
    have "decimal m = decimal n \<and> x = y"
      by (rule digits_prefix [of digit_unit, OF _ _ that d]) (simp_all add: decimal_digits)
    then show ?thesis using decimal_value_decimal by (metis of_nat_eq_iff)
  qed
  show ?thesis
  proof (cases "i < 0"; cases "j < 0")
    assume "i < 0" "j < 0"
    then show ?thesis using assms(1) sep [of "nat (- i)" "nat (- j)"] by (auto simp: json_int_def nat_eq_iff2)
  next
    assume "i < 0" "\<not> j < 0"
    then show ?thesis using assms(1) head [of "nat j"] minus by (auto simp: json_int_def)
  next
    assume "\<not> i < 0" "j < 0"
    then show ?thesis using assms(1) head [of "nat i"] minus by (auto simp: json_int_def)
  next
    assume "\<not> i < 0" "\<not> j < 0"
    then show ?thesis using assms(1) sep [of "nat i" "nat j"] by (auto simp: json_int_def)
  qed
qed

subsection \<open>Rendering is injective\<close>

text \<open>The first unit tells the kinds of value apart.\<close>

definition unit_tag :: "16 word \<Rightarrow> nat" where
  "unit_tag c = (if c = 0x6E then 0 else if c = 0x74 then 1 else if c = 0x66 then 2
     else if digit_unit c \<or> c = 0x2D then 3 else if c = QUOTE then 4 else if c = 0x5B then 5
     else if c = 0x7B then 6 else 7)"

fun value_tag :: "js_value \<Rightarrow> nat" where
  "value_tag JNull = 0"
| "value_tag (JBool b) = (if b then 1 else 2)"
| "value_tag (JInt _) = 3"
| "value_tag (JStr _) = 4"
| "value_tag (JArr _) = 5"
| "value_tag (JObj _) = 6"
| "value_tag JOther = 8"

lemma value_tag_neq [simp]: "value_tag v \<noteq> 7"
  by (cases v) auto

lemma digit_tag: "digit_unit c \<Longrightarrow> unit_tag c = 3"
  by (auto simp: unit_tag_def digit_unit_def)

lemma words: "js ''null'' = [0x6E, 0x75, 0x6C, 0x6C]" "js ''true'' = [0x74, 0x72, 0x75, 0x65]"
    "js ''false'' = [0x66, 0x61, 0x6C, 0x73, 0x65]"
  by code_simp+

lemma json_head: "rendered v \<Longrightarrow> \<exists>h t. json v = h # t \<and> unit_tag h = value_tag v"
proof (cases v)
  case (JInt i)
  obtain c t where "decimal (nat \<bar>i\<bar>) = c # t" "digit_unit c"
    using decimal_digits [of "nat \<bar>i\<bar>"] by (cases "decimal (nat \<bar>i\<bar>)") auto
  moreover have "unit_tag 0x2D = 3" by (simp add: unit_tag_def)
  ultimately show ?thesis
    using JInt digit_tag [of c] by (cases "i < 0") (simp_all add: json_int_def)
qed (auto simp: words unit_tag_def digit_unit_def json_string_def)

lemma tag_separators: "unit_tag 0x5D = 7" "unit_tag 0x7D = 7" "unit_tag 0x2C = 7" "unit_tag 0x3A = 7"
  by (simp_all add: unit_tag_def digit_unit_def)

lemma delimited_separators: "delimited (0x5D # x)" "delimited (0x7D # x)" "delimited (0x2C # x)" "delimited []"
  by (simp_all add: delimited_def digit_unit_def)

lemma json_prefix:
  "rendered v \<Longrightarrow> rendered w \<Longrightarrow> delimited x \<Longrightarrow> delimited y \<Longrightarrow> json v @ x = json w @ y \<Longrightarrow> v = w \<and> x = y"
  "list_all rendered vs \<Longrightarrow> list_all rendered ws \<Longrightarrow> json_list vs @ x = json_list ws @ y \<Longrightarrow> vs = ws \<and> x = y"
  "list_all (\<lambda>(k, v). rendered v) ms \<Longrightarrow> list_all (\<lambda>(k, v). rendered v) ns \<Longrightarrow>
     json_members ms @ x = json_members ns @ y \<Longrightarrow> ms = ns \<and> x = y"
proof (induction v and vs and ms arbitrary: w x y and ws x y and ns x y rule: json_json_list_json_members.induct)
  case 1
  then have "value_tag w = value_tag JNull"
    using json_head [of w] json_head [of JNull] by auto
  then have "w = JNull" by (cases w) (auto split: if_splits)
  with 1 show ?case by simp
next
  case (2 b)
  have "value_tag w = value_tag (JBool b)"
    using "2.prems" json_head [of w] json_head [of "JBool b"] by auto
  then obtain c where "w = JBool c" by (cases w) (auto split: if_splits)
  with 2 show ?case by (cases b; cases c) (simp_all add: words)
next
  case (3 i)
  have "value_tag w = value_tag (JInt i)"
    using "3.prems" json_head [of w] json_head [of "JInt i"] by auto
  then obtain j where "w = JInt j" by (cases w) (auto split: if_splits)
  with 3 show ?case using json_int_prefix [of i x j y] by simp
next
  case (4 s)
  have "value_tag w = value_tag (JStr s)"
    using "4.prems" json_head [of w] json_head [of "JStr s"] by auto
  then obtain t where "w = JStr t" by (cases w) (auto split: if_splits)
  with 4 show ?case by (simp add: json_string_prefix)
next
  case (5 vs)
  have "value_tag w = value_tag (JArr vs)"
    using "5.prems" json_head [of w] json_head [of "JArr vs"] by auto
  then obtain ws where w: "w = JArr ws" by (cases w) (auto split: if_splits)
  show ?case using "5.IH" [of ws x y] "5.prems" by (simp add: w)
next
  case (6 ms)
  have "value_tag w = value_tag (JObj ms)"
    using "6.prems" json_head [of w] json_head [of "JObj ms"] by auto
  then obtain ns where w: "w = JObj ns" by (cases w) (auto split: if_splits)
  show ?case using "6.IH" [of ns x y] "6.prems" by (simp add: w)
next
  case 7
  then show ?case by simp
next
  case 8
  show ?case
  proof (cases ws)
    case (Cons w rest)
    then show ?thesis using 8 json_head [of w] tag_separators by auto
  qed (use 8 in simp)
next
  case (9 v vs)
  show ?case
  proof (cases ws)
    case Nil
    then show ?thesis using "9.prems" json_head [of v] tag_separators by auto
  next
    case (Cons w rest)
    define p where "p = (if vs = [] then [0x5D] else 0x2C # json_list vs) @ x"
    define q where "q = (if rest = [] then [0x5D] else 0x2C # json_list rest) @ y"
    have eq: "json v @ p = json w @ q" using "9.prems"(3) Cons by (simp add: p_def q_def)
    have "delimited p" "delimited q" by (auto simp: p_def q_def delimited_separators)
    then have vw: "v = w" and pq: "p = q" using "9.prems"(1,2) Cons "9.IH"(1) [OF _ _ _ _ eq] by simp_all
    show ?thesis
    proof (cases "vs = [] \<or> rest = []")
      case True
      then show ?thesis using pq vw Cons by (auto simp: p_def q_def split: if_splits)
    next
      case False
      then have "json_list vs @ x = json_list rest @ y" using pq by (simp add: p_def q_def)
      then show ?thesis using "9.IH"(2) [of rest x y] "9.prems"(1,2) False vw Cons by simp
    qed
  qed
next
  case 10
  show ?case
  proof (cases ns)
    case (Cons n rest)
    then show ?thesis using "10.prems" by (cases n) (auto simp: json_string_def)
  qed (use 10 in simp)
next
  case (11 k v ms)
  show ?case
  proof (cases ns)
    case Nil
    then show ?thesis using "11.prems" by (auto simp: json_string_def)
  next
    case (Cons n rest)
    obtain l w where n: "n = (l, w)" by (cases n)
    define p where "p = (if ms = [] then [0x7D] else 0x2C # json_members ms) @ x"
    define q where "q = (if rest = [] then [0x7D] else 0x2C # json_members rest) @ y"
    have "json_string k @ 0x3A # json v @ p = json_string l @ 0x3A # json w @ q"
      using "11.prems"(3) Cons n by (simp add: p_def q_def)
    then have kl: "k = l" and eq: "json v @ p = json w @ q" by (auto simp: json_string_prefix)
    have "delimited p" "delimited q" by (auto simp: p_def q_def delimited_separators)
    then have vw: "v = w" and pq: "p = q" using "11.prems"(1,2) Cons n "11.IH"(1) [OF _ _ _ _ eq] by simp_all
    show ?thesis
    proof (cases "ms = [] \<or> rest = []")
      case True
      then show ?thesis using pq kl vw Cons n by (auto simp: p_def q_def split: if_splits)
    next
      case False
      then have "json_members ms @ x = json_members rest @ y" using pq by (simp add: p_def q_def)
      then show ?thesis using "11.IH"(2) [of rest x y] "11.prems"(1,2) False kl vw Cons n by simp
    qed
  qed
qed

lemma json_inj: "rendered v \<Longrightarrow> rendered w \<Longrightarrow> json v = json w \<longleftrightarrow> v = w"
  using json_prefix(1) [of v w "[]" "[]"] by (auto simp: delimited_separators)

subsection \<open>Rendered text is well formed\<close>

lemma code_points_append: "isWellFormed x \<Longrightarrow> code_points (x @ y) = code_points x @ code_points y"
proof (induction x rule: length_induct)
  case (1 x)
  show ?case
  proof (cases "x = []")
    case False
    let ?n = "code_point_units x"
    have wf: "\<not> is_surrogate (codePointAt x)" "isWellFormed (drop ?n x)"
      using 1(2) False by (simp_all add: isWellFormed_def code_points_step)
    have same: "codePointAt (x @ y) = codePointAt x"
      using wf(1) False
      by (cases x rule: remdups_adj.cases; cases y)
        (auto simp: codePointAt_def is_surrogate_def high_surrogate_def)
    have n: "?n \<le> length x"
    proof (cases x rule: remdups_adj.cases)
      case (2 a)
      then show ?thesis using code_unit_range [of a] by (simp add: code_point_units_def codePointAt_def)
    qed (use False in \<open>simp_all add: code_point_units_def\<close>)
    have "drop ?n x = [] \<or> length (drop ?n x) < length x"
      using False by (simp add: code_point_units_def)
    then have "code_points (drop ?n x @ y) = code_points (drop ?n x) @ code_points y"
      using 1(1) wf(2) by fastforce
    then show ?thesis
      using False n same by (simp add: code_points_step [of x] code_points_step [of "x @ y"] code_point_units_def)
  qed simp
qed

lemma well_formed_append: "isWellFormed x \<Longrightarrow> isWellFormed y \<Longrightarrow> isWellFormed (x @ y)"
  by (simp add: isWellFormed_def code_points_append)

lemma well_formed_plain: "list_all (\<lambda>c. uint c < 0xD800) s \<Longrightarrow> isWellFormed s"
proof (induction s)
  case (Cons c s)
  have "isWellFormed [c]"
    using Cons.prems by (simp add: isWellFormed_def code_points_step codePointAt_def code_point_units_def is_surrogate_def)
  then show ?case using well_formed_append [of "[c]" s] Cons by simp
qed (simp add: isWellFormed_def)

lemma js_plain: "isWellFormed (js s)"
proof (rule well_formed_plain)
  have "uint (of_nat (of_char c) :: 16 word) < 0xD800" for c :: char
  proof -
    have "of_char c < (256 :: nat)" by simp
    then have "int (of_char c) < 256" by linarith
    moreover have "uint (of_nat (of_char c) :: 16 word) \<le> int (of_char c)"
      by (simp only: unsigned_of_nat of_nat_le_iff of_nat_take_bit [symmetric] take_bit_nat_less_eq_self)
    ultimately show ?thesis by linarith
  qed
  then show "list_all (\<lambda>c. uint c < 0xD800) (js s)" by (simp add: js_def list_all_iff)
qed

lemma hex_unit_plain: "0 \<le> n \<Longrightarrow> n < 16 \<Longrightarrow> uint (hex_unit n) < 0xD800"
proof -
  assume "0 \<le> n" "n < 16"
  then have "hex_unit n \<in> set (js ''0123456789abcdef'')" unfolding hex_unit_def by (intro nth_mem) (simp add: js_def)
  moreover have "list_all (\<lambda>c. uint c < 0xD800) (js ''0123456789abcdef'')" by code_simp
  ultimately show ?thesis by (simp add: list_all_iff)
qed

lemma json_unit_well_formed: "isWellFormed (json_unit c)"
proof (cases "map_of short_escapes c")
  case (Some e)
  then have "(c, e) \<in> set short_escapes" by (rule map_of_SomeD)
  moreover have "list_all (\<lambda>(c, e). uint e < 0xD800) short_escapes" by code_simp
  ultimately have "uint e < 0xD800" by (auto simp: list_all_iff)
  then show ?thesis using Some by (simp add: json_unit_def well_formed_plain)
next
  case None
  show ?thesis
  proof (cases "uint c < 0x20 \<or> high_surrogate c \<or> low_surrogate c")
    case True
    have r: "0 \<le> uint c div 4096" "uint c div 4096 < 16"
      using code_unit_range [of c] by (simp_all add: pos_imp_zdiv_nonneg_iff div_less_iff_less_mult)
    have "list_all (\<lambda>c. uint c < 0xD800) (unicode_escape c)"
      using hex_unit_plain [OF r] by (simp add: unicode_escape_def hex_unit_plain)
    then show ?thesis using True None by (simp add: json_unit_def well_formed_plain)
  next
    case False
    then have "isWellFormed [c]"
      by (auto simp: isWellFormed_def code_points_step codePointAt_def code_point_units_def is_surrogate_def
          high_surrogate_def low_surrogate_def)
    with False None show ?thesis by (simp add: json_unit_def)
  qed
qed

lemma pair_well_formed: "high_surrogate a \<Longrightarrow> low_surrogate b \<Longrightarrow> isWellFormed [a, b]"
proof -
  assume ab: "high_surrogate a" "low_surrogate b"
  then have "codePointAt [a, b] = (uint a - 0xD800) * 0x400 + (uint b - 0xDC00) + 0x10000" "codePointAt [a, b] > 0xFFFF"
    by (auto simp: codePointAt_def high_surrogate_def low_surrogate_def)
  then show ?thesis by (simp add: isWellFormed_def code_points_step code_point_units_def is_surrogate_def)
qed

lemma json_body_well_formed: "isWellFormed (json_body s)"
proof (induction s rule: json_body.induct)
  case (2 c)
  show ?case using json_unit_well_formed [of c] by simp
next
  case (3 a b s)
  then show ?case
    using well_formed_append [of "[a, b]" "json_body s"] by (simp add: pair_well_formed json_unit_well_formed well_formed_append)
qed (simp add: isWellFormed_def)

lemma well_formed_Cons: "uint c < 0xD800 \<Longrightarrow> isWellFormed s \<Longrightarrow> isWellFormed (c # s)"
  using well_formed_append [of "[c]" s] well_formed_plain [of "[c]"] by simp

lemma json_string_well_formed: "isWellFormed (json_string s)"
  using json_body_well_formed [of s] by (simp add: json_string_def well_formed_Cons well_formed_append well_formed_plain)

lemma json_int_well_formed: "isWellFormed (json_int i)"
proof -
  have "list_all (\<lambda>c. uint c < 0xD800) (decimal n)" for n
    using decimal_digits [of n] by (auto simp: list_all_iff digit_unit_def)
  then show ?thesis by (simp add: json_int_def well_formed_Cons well_formed_plain)
qed

lemma json_well_formed:
  "isWellFormed (json v)" "isWellFormed (json_list vs)" "isWellFormed (json_members ms)"
proof (induction v and vs and ms rule: json_json_list_json_members.induct)
  case (11 k v ms)
  then show ?case by (simp add: json_string_well_formed well_formed_append well_formed_Cons well_formed_plain)
qed (simp_all add: js_plain json_string_well_formed json_int_well_formed well_formed_Cons well_formed_append well_formed_plain)

lemma utf8_bytes_inj: "isWellFormed x \<Longrightarrow> isWellFormed y \<Longrightarrow> utf8_bytes x = utf8_bytes y \<longleftrightarrow> x = y"
proof
  assume wf: "isWellFormed x" "isWellFormed y" and "utf8_bytes x = utf8_bytes y"
  then have "sgn (compareUtf8 x y) = 0" using compareUtf8_is_the_byte_order [of x y] by simp
  then show "x = y" using compareUtf8_zero [OF wf] by (simp add: sgn_if split: if_splits)
qed simp

end
