(* ===== verification/Workspace_Scope.thy ===== *)
theory Workspace_Scope
  imports Json_Text
begin

text \<open>
  Workspace scopes, \<^verbatim>\<open>src/infrastructure/workspace-scope.ts\<close>: canonical relative paths, canonical base64
  and the canonical form of a scope that arrives as untrusted data. Unicode normalization and the
  locale case mappings of the runtime are a parameter, a \<open>unicode\<close> record.
\<close>

subsection \<open>The Unicode tables of the runtime\<close>

record unicode =
  nfc :: "js_string \<Rightarrow> js_string"
  upper :: "js_string \<Rightarrow> js_string"
  lower :: "js_string \<Rightarrow> js_string"

subsection \<open>Constants and types\<close>

definition MAX_GITIGNORE_SOURCES :: int where "MAX_GITIGNORE_SOURCES = 100000"
definition MAX_GITIGNORE_SOURCE_BYTES :: int where "MAX_GITIGNORE_SOURCE_BYTES = 256 * 1024"
definition MAX_GITIGNORE_POLICY_BYTES :: int where "MAX_GITIGNORE_POLICY_BYTES = 16 * 1024 * 1024"
definition MAX_GIT_VERSION_BYTES :: int where "MAX_GIT_VERSION_BYTES = 256"
definition ABSOLUTE_MAX_WORKSPACE_RELATIVE_PATH_BYTES :: int where
  "ABSOLUTE_MAX_WORKSPACE_RELATIVE_PATH_BYTES = 1024 * 1024"
definition ABSOLUTE_MAX_WORKSPACE_RELATIVE_PATH_COMPONENTS :: int where
  "ABSOLUTE_MAX_WORKSPACE_RELATIVE_PATH_COMPONENTS = 4096"

record workspace_path_limits =
  maxPathBytes :: int
  maxPathComponents :: int

definition ABSOLUTE_WORKSPACE_PATH_LIMITS :: workspace_path_limits where
  "ABSOLUTE_WORKSPACE_PATH_LIMITS = \<lparr>maxPathBytes = ABSOLUTE_MAX_WORKSPACE_RELATIVE_PATH_BYTES,
     maxPathComponents = ABSOLUTE_MAX_WORKSPACE_RELATIVE_PATH_COMPONENTS\<rparr>"

record gitignore_source =
  src_path :: js_string
  contentsBase64 :: js_string

record git_evaluator =
  ev_version :: js_string
  precomposeUnicode :: bool

record git_scope =
  repositoryPrefix :: js_string
  evaluator :: "git_evaluator option"
  ignoreCase :: bool
  gitignoreSources :: "gitignore_source list"
  infoExcludeBase64 :: js_string
  globalExcludeBase64 :: js_string

datatype workspace_scope = All_managed | Git_scope git_scope

subsection \<open>Paths\<close>

definition ascii_lower :: "16 word \<Rightarrow> 16 word" where
  "ascii_lower c = (if 0x41 \<le> uint c \<and> uint c \<le> 0x5A then c + 0x20 else c)"

definition portableWorkspacePathKey :: "unicode \<Rightarrow> js_string \<Rightarrow> js_string" where
  "portableWorkspacePathKey u path =
     (if list_all (\<lambda>c. uint c \<le> 0x7F) path then map ascii_lower path
      else let once = nfc u (lower u (upper u (nfc u path)))
        in nfc u (lower u (upper u once)))"

definition assertWorkspacePathLimits :: "workspace_path_limits \<Rightarrow> unit result" where
  "assertWorkspacePathLimits limits =
     (if \<not> isSafeInteger (maxPathBytes limits) \<or> maxPathBytes limits \<le> 0
         \<or> maxPathBytes limits > ABSOLUTE_MAX_WORKSPACE_RELATIVE_PATH_BYTES
         \<or> \<not> isSafeInteger (maxPathComponents limits) \<or> maxPathComponents limits \<le> 0
         \<or> maxPathComponents limits > ABSOLUTE_MAX_WORKSPACE_RELATIVE_PATH_COMPONENTS
      then Inl WorkspaceScopeError else Inr ())"

definition unsafe_component :: "unicode \<Rightarrow> js_string \<Rightarrow> bool" where
  "unsafe_component u component \<longleftrightarrow> length component = 0 \<or> component = js ''.'' \<or> component = js ''..''
     \<or> portableWorkspacePathKey u component = js ''.git''"

definition canonicalWorkspaceRelativePath ::
  "unicode \<Rightarrow> js_value \<Rightarrow> bool \<Rightarrow> workspace_path_limits \<Rightarrow> js_string result" where
  "canonicalWorkspaceRelativePath u v allowRoot limits =
     rbind (assertWorkspacePathLimits limits) (\<lambda>_.
       case v of
         JStr s \<Rightarrow>
           if \<not> isWellFormed s \<or> 0 \<in> set s \<or> 0x5C \<in> set s \<or> startsWith s [SLASH] \<or> s \<noteq> nfc u s
             \<or> (\<not> allowRoot \<and> length s = 0) then Inl WorkspaceScopeError
           else if int (length (utf8_bytes s)) > maxPathBytes limits then Inl WorkspaceScopeError
           else if s = [] \<and> allowRoot then Inr s
           else let components = split_slash s in
             if int (length components) > maxPathComponents limits then Inl WorkspaceScopeError
             else if list_ex (unsafe_component u) components then Inl WorkspaceScopeError
             else Inr s
       | _ \<Rightarrow> Inl WorkspaceScopeError)"

subsection \<open>Base64\<close>

definition base64_alphabet :: string where
  "base64_alphabet = ''ABCDEFGHIJKLMNOPQRSTUVWXYZabcdefghijklmnopqrstuvwxyz0123456789+/''"

abbreviation PAD :: "16 word" where "PAD \<equiv> 0x3D"

definition base64_char :: "int \<Rightarrow> 16 word" where
  "base64_char n = js base64_alphabet ! nat n"

definition base64_value :: "16 word \<Rightarrow> int" where
  "base64_value c = int (length (takeWhile (\<lambda>d. d \<noteq> c) (js base64_alphabet)))"

text \<open>\<^verbatim>\<open>toString("base64")\<close>.\<close>

fun base64_encode :: "bytes \<Rightarrow> js_string" where
  "base64_encode [] = []"
| "base64_encode [a] = [base64_char (uint a div 4), base64_char (uint a mod 4 * 16), PAD, PAD]"
| "base64_encode [a, b] = [base64_char (uint a div 4), base64_char (uint a mod 4 * 16 + uint b div 16),
     base64_char (uint b mod 16 * 4), PAD]"
| "base64_encode (a # b # c # bs) =
     base64_char (uint a div 4) # base64_char (uint a mod 4 * 16 + uint b div 16) #
     base64_char (uint b mod 16 * 4 + uint c div 64) # base64_char (uint c mod 64) # base64_encode bs"

text \<open>\<^verbatim>\<open>Buffer.from(_, "base64")\<close> on groups of four characters of the alphabet, padding at the end.\<close>

fun base64_decode :: "js_string \<Rightarrow> bytes" where
  "base64_decode (a # b # c # d # s) =
     (let x = base64_value a; y = base64_value b; z = base64_value c; w = base64_value d in
      if c = PAD then [word_of_int (x * 4 + y div 16)]
      else if d = PAD then [word_of_int (x * 4 + y div 16), word_of_int (y mod 16 * 16 + z div 4)]
      else word_of_int (x * 4 + y div 16) # word_of_int (y mod 16 * 16 + z div 4) #
           word_of_int (z mod 4 * 64 + w) # base64_decode s)"
| "base64_decode s = []"

definition base64_code :: "16 word \<Rightarrow> bool" where
  "base64_code c \<longleftrightarrow> (0x41 \<le> uint c \<and> uint c \<le> 0x5A) \<or> (0x61 \<le> uint c \<and> uint c \<le> 0x7A)
     \<or> (0x30 \<le> uint c \<and> uint c \<le> 0x39) \<or> uint c = 0x2B \<or> uint c = 0x2F"

definition decodeCanonicalBase64 :: "js_value \<Rightarrow> bytes result" where
  "decodeCanonicalBase64 v =
     (case v of
        JStr s \<Rightarrow>
          if length s mod 4 \<noteq> 0 \<or> int (length s) > (MAX_GITIGNORE_SOURCE_BYTES + 2) div 3 * 4
          then Inl WorkspaceScopeError
          else let padding = (if endsWith s [PAD, PAD] then 2 else if endsWith s [PAD] then 1 else 0);
                   body = length s - padding
            in if \<not> list_all base64_code (take body s) then Inl WorkspaceScopeError
               else if \<not> list_all (\<lambda>c. c = PAD) (drop body s) then Inl WorkspaceScopeError
               else let decoded = base64_decode s in
                 if base64_encode decoded \<noteq> s then Inl WorkspaceScopeError
                 else if byteLength decoded > MAX_GITIGNORE_SOURCE_BYTES then Inl WorkspaceScopeError
                 else if 0 \<in> set decoded then Inl WorkspaceScopeError
                 else Inr decoded
      | _ \<Rightarrow> Inl WorkspaceScopeError)"

subsection \<open>Scopes\<close>

definition canonicalGitVersion :: "js_value \<Rightarrow> js_string result" where
  "canonicalGitVersion v =
     (case v of
        JStr s \<Rightarrow>
          if length s = 0 \<or> int (length (utf8_bytes s)) > MAX_GIT_VERSION_BYTES
            \<or> list_ex (\<lambda>c. uint c < 0x20 \<or> uint c > 0x7E) s
          then Inl WorkspaceScopeError else Inr s
      | _ \<Rightarrow> Inl WorkspaceScopeError)"

definition canonicalGitEvaluator :: "js_value \<Rightarrow> git_evaluator option result" where
  "canonicalGitEvaluator v =
     (case v of
        JNull \<Rightarrow> Inr None
      | JObj members \<Rightarrow>
          if \<not> exactKeys members [''version'', ''precomposeUnicode''] then Inl WorkspaceScopeError
          else (case js_field members ''precomposeUnicode'' of
              JBool p \<Rightarrow> rbind (canonicalGitVersion (js_field members ''version'')) (\<lambda>version.
                Inr (Some \<lparr>ev_version = version, precomposeUnicode = p\<rparr>))
            | _ \<Rightarrow> Inl WorkspaceScopeError)
      | _ \<Rightarrow> Inl WorkspaceScopeError)"

definition sourceIsRelevant :: "js_string \<Rightarrow> js_string \<Rightarrow> bool" where
  "sourceIsRelevant path prefix =
     (let suffix = js ''/.gitignore'';
          base = (if path = js ''.gitignore'' then Some []
                  else if endsWith path suffix then Some (take (length path - length suffix) path)
                  else None)
      in case base of
          None \<Rightarrow> False
        | Some base \<Rightarrow> base = prefix \<or> base = [] \<or> startsWith prefix (base @ [SLASH])
            \<or> startsWith base (if prefix = [] then [] else prefix @ [SLASH]))"

definition workspaceLocalGitignorePath ::
  "unicode \<Rightarrow> git_scope \<Rightarrow> js_string \<Rightarrow> workspace_path_limits \<Rightarrow> js_string option result" where
  "workspaceLocalGitignorePath u scope repositoryPath limits =
     rbind (canonicalWorkspaceRelativePath u (JStr repositoryPath) False limits) (\<lambda>path.
       if repositoryPrefix scope = [] then Inr (Some path)
       else let prefix = repositoryPrefix scope @ [SLASH] in
         Inr (if startsWith path prefix then Some (drop (length prefix) path) else None))"

definition workspaceScopePathKey ::
  "unicode \<Rightarrow> git_scope \<Rightarrow> js_string \<Rightarrow> workspace_path_limits \<Rightarrow> js_string result" where
  "workspaceScopePathKey u scope workspacePath limits =
     rbind (canonicalWorkspaceRelativePath u (JStr workspacePath) False limits) (\<lambda>path.
       Inr (if ignoreCase scope then lower u path else path))"

definition workspaceGitignoreSource ::
  "unicode \<Rightarrow> js_string \<Rightarrow> bytes \<Rightarrow> workspace_path_limits \<Rightarrow> gitignore_source result" where
  "workspaceGitignoreSource u path contents limits =
     rbind (canonicalWorkspaceRelativePath u (JStr path) False limits) (\<lambda>p.
       Inr \<lparr>src_path = p, contentsBase64 = base64_encode contents\<rparr>)"

text \<open>The closure \<^verbatim>\<open>decodeBudgeted\<close>: the encoded text, and the bytes counted so far.\<close>

definition decodeBudgeted :: "js_value \<Rightarrow> int \<Rightarrow> (js_string \<times> int) result" where
  "decodeBudgeted encoded totalBytes =
     rbind (decodeCanonicalBase64 encoded) (\<lambda>decoded.
       if byteLength decoded > MAX_GITIGNORE_SOURCE_BYTES then Inl WorkspaceScopeError
       else if totalBytes + byteLength decoded > MAX_GITIGNORE_POLICY_BYTES then Inl WorkspaceScopeError
       else (case encoded of JStr s \<Rightarrow> Inr (s, totalBytes + byteLength decoded)
             | _ \<Rightarrow> Inl WorkspaceScopeError))"

definition canonical_source :: "unicode \<Rightarrow> workspace_path_limits \<Rightarrow> js_string \<Rightarrow> js_value \<Rightarrow> int \<Rightarrow>
    (gitignore_source \<times> int) result" where
  "canonical_source u limits prefix source totalBytes =
     (case source of
        JObj members \<Rightarrow>
          if \<not> exactKeys members [''path'', ''contentsBase64''] then Inl WorkspaceScopeError
          else rbind (canonicalWorkspaceRelativePath u (js_field members ''path'') False limits) (\<lambda>path.
            if \<not> sourceIsRelevant path prefix then Inl WorkspaceScopeError
            else rbind (decodeBudgeted (js_field members ''contentsBase64'') totalBytes) (\<lambda>(contents, totalBytes).
              Inr (\<lparr>src_path = path, contentsBase64 = contents\<rparr>, totalBytes)))
      | _ \<Rightarrow> Inl WorkspaceScopeError)"

fun canonical_sources :: "unicode \<Rightarrow> workspace_path_limits \<Rightarrow> js_string \<Rightarrow> js_value list \<Rightarrow> int \<Rightarrow>
    (gitignore_source list \<times> int) result" where
  "canonical_sources u limits prefix [] totalBytes = Inr ([], totalBytes)"
| "canonical_sources u limits prefix (v # vs) totalBytes =
     rbind (canonical_source u limits prefix v totalBytes) (\<lambda>(source, totalBytes).
     rbind (canonical_sources u limits prefix vs totalBytes) (\<lambda>(sources, totalBytes).
       Inr (source # sources, totalBytes)))"

fun adjacent_duplicate :: "js_string list \<Rightarrow> bool" where
  "adjacent_duplicate (p # q # ps) \<longleftrightarrow> p = q \<or> adjacent_duplicate (q # ps)"
| "adjacent_duplicate _ \<longleftrightarrow> False"

definition canonical_git_scope :: "unicode \<Rightarrow> (js_string \<times> js_value) list \<Rightarrow> bool \<Rightarrow> js_value list \<Rightarrow>
    workspace_path_limits \<Rightarrow> workspace_scope result" where
  "canonical_git_scope u candidate caseless sources limits =
     (if int (length sources) > MAX_GITIGNORE_SOURCES then Inl WorkspaceScopeError
      else rbind (canonicalWorkspaceRelativePath u (js_field candidate ''repositoryPrefix'') True limits) (\<lambda>prefix.
        rbind (canonicalGitEvaluator (js_field candidate ''evaluator'')) (\<lambda>ev.
        rbind (canonical_sources u limits prefix sources 0) (\<lambda>(listed, totalBytes).
          let sorted = js_sort (\<lambda>x y. compareUtf8 (src_path x) (src_path y)) listed in
          if adjacent_duplicate (map src_path sorted) then Inl WorkspaceScopeError
          else rbind (decodeBudgeted (js_field candidate ''infoExcludeBase64'') totalBytes) (\<lambda>(info, totalBytes).
            rbind (decodeBudgeted (js_field candidate ''globalExcludeBase64'') totalBytes) (\<lambda>(global, totalBytes).
              Inr (Git_scope \<lparr>repositoryPrefix = prefix, evaluator = ev, ignoreCase = caseless,
                gitignoreSources = sorted, infoExcludeBase64 = info, globalExcludeBase64 = global\<rparr>)))))))"

definition GIT_SCOPE_KEYS :: "string list" where
  "GIT_SCOPE_KEYS = [''kind'', ''repositoryPrefix'', ''evaluator'', ''ignoreCase'', ''gitignoreSources'',
     ''infoExcludeBase64'', ''globalExcludeBase64'']"

definition canonicalizeWorkspaceScope :: "unicode \<Rightarrow> js_value \<Rightarrow> workspace_path_limits \<Rightarrow> workspace_scope result" where
  "canonicalizeWorkspaceScope u v limits =
     rbind (assertWorkspacePathLimits limits) (\<lambda>_.
       case v of
         JObj candidate \<Rightarrow>
           if js_field candidate ''kind'' = JStr (js ''all-managed'')
           then (if \<not> exactKeys candidate [''kind''] then Inl WorkspaceScopeError else Inr All_managed)
           else if js_field candidate ''kind'' \<noteq> JStr (js ''git'') \<or> \<not> exactKeys candidate GIT_SCOPE_KEYS
           then Inl WorkspaceScopeError
           else (case (js_field candidate ''ignoreCase'', js_field candidate ''gitignoreSources'') of
               (JBool caseless, JArr sources) \<Rightarrow> canonical_git_scope u candidate caseless sources limits
             | _ \<Rightarrow> Inl WorkspaceScopeError)
       | _ \<Rightarrow> Inl WorkspaceScopeError)"

text \<open>A scope as the plain object that the rest of the program holds.\<close>

definition evaluator_value :: "git_evaluator option \<Rightarrow> js_value" where
  "evaluator_value e = (case e of None \<Rightarrow> JNull
     | Some e \<Rightarrow> JObj [(js ''version'', JStr (ev_version e)), (js ''precomposeUnicode'', JBool (precomposeUnicode e))])"

definition source_value :: "gitignore_source \<Rightarrow> js_value" where
  "source_value s = JObj [(js ''path'', JStr (src_path s)), (js ''contentsBase64'', JStr (contentsBase64 s))]"

fun scope_value :: "workspace_scope \<Rightarrow> js_value" where
  "scope_value All_managed = JObj [(js ''kind'', JStr (js ''all-managed''))]"
| "scope_value (Git_scope s) = JObj
     [(js ''kind'', JStr (js ''git'')), (js ''repositoryPrefix'', JStr (repositoryPrefix s)),
      (js ''evaluator'', evaluator_value (evaluator s)), (js ''ignoreCase'', JBool (ignoreCase s)),
      (js ''gitignoreSources'', JArr (map source_value (gitignoreSources s))),
      (js ''infoExcludeBase64'', JStr (infoExcludeBase64 s)),
      (js ''globalExcludeBase64'', JStr (globalExcludeBase64 s))]"

definition workspaceScopeBytes :: "js_string \<Rightarrow> bytes result" where
  "workspaceScopeBytes encoded = decodeCanonicalBase64 (JStr encoded)"

definition workspaceScopesEqual :: "unicode \<Rightarrow> workspace_scope \<Rightarrow> workspace_scope \<Rightarrow>
    workspace_path_limits \<Rightarrow> bool result" where
  "workspaceScopesEqual u left right limits =
     rbind (canonicalizeWorkspaceScope u (scope_value left) limits) (\<lambda>l.
     rbind (canonicalizeWorkspaceScope u (scope_value right) limits) (\<lambda>r.
       Inr (json (scope_value l) = json (scope_value r))))"

subsection \<open>Canonical base64\<close>

lemma alphabet: "length (js base64_alphabet) = 64" "distinct (js base64_alphabet)"
    "list_all base64_code (js base64_alphabet)"
  by code_simp+

lemma pad_no_code: "\<not> base64_code PAD"
  by code_simp

lemma base64_char_code: "0 \<le> n \<Longrightarrow> n < 64 \<Longrightarrow> base64_code (base64_char n) \<and> base64_char n \<noteq> PAD"
proof -
  assume "0 \<le> n" "n < 64"
  then have "base64_char n \<in> set (js base64_alphabet)" unfolding base64_char_def using alphabet(1) by (intro nth_mem) simp
  then have "base64_code (base64_char n)" using alphabet(3) by (simp only: list_all_iff)
  then show ?thesis using pad_no_code by (metis (full_types))
qed

lemma position_nth: "distinct xs \<Longrightarrow> i < length xs \<Longrightarrow> length (takeWhile (\<lambda>d. d \<noteq> xs ! i) xs) = i"
proof (induction xs arbitrary: i)
  case (Cons x xs)
  then show ?case by (cases i) auto
qed simp

lemma base64_value_char [simp]: "0 \<le> n \<Longrightarrow> n < 64 \<Longrightarrow> base64_value (base64_char n) = n"
  using position_nth [OF alphabet(2), of "nat n"] alphabet(1) by (simp add: base64_value_def base64_char_def)

lemma byte_range: "0 \<le> uint (b :: byte) \<and> uint b < 256"
  using uint_bounded [of b] by simp

text \<open>The three bytes of a group from its four six-bit digits.\<close>

lemma byte_parts:
  fixes b :: byte
  shows "0 \<le> uint b div 4" "uint b div 4 < 64" "0 \<le> uint b mod 4" "uint b mod 4 < 4"
    "0 \<le> uint b div 16" "uint b div 16 < 16" "0 \<le> uint b mod 16" "uint b mod 16 < 16"
    "0 \<le> uint b div 64" "uint b div 64 < 4" "0 \<le> uint b mod 64" "uint b mod 64 < 64"
  using byte_range [of b] by (simp_all add: pos_imp_zdiv_nonneg_iff div_less_iff_less_mult)

lemma digit_pair:
  fixes m q :: int
  shows "0 \<le> m \<Longrightarrow> m < 4 \<Longrightarrow> 0 \<le> m * 16 \<and> m * 16 < 64"
    and "0 \<le> m \<Longrightarrow> m < 16 \<Longrightarrow> 0 \<le> m * 4 \<and> m * 4 < 64"
    and "0 \<le> m \<Longrightarrow> m < 4 \<Longrightarrow> 0 \<le> q \<Longrightarrow> q < 16 \<Longrightarrow> 0 \<le> m * 16 + q \<and> m * 16 + q < 64"
    and "0 \<le> m \<Longrightarrow> m < 16 \<Longrightarrow> 0 \<le> q \<Longrightarrow> q < 4 \<Longrightarrow> 0 \<le> m * 4 + q \<and> m * 4 + q < 64"
  by auto

lemma group_digits:
  fixes a b c :: byte
  shows "0 \<le> uint a div 4 \<and> uint a div 4 < 64" "0 \<le> uint a mod 4 * 16 \<and> uint a mod 4 * 16 < 64"
    "0 \<le> uint a mod 4 * 16 + uint b div 16 \<and> uint a mod 4 * 16 + uint b div 16 < 64"
    "0 \<le> uint b mod 16 * 4 \<and> uint b mod 16 * 4 < 64"
    "0 \<le> uint b mod 16 * 4 + uint c div 64 \<and> uint b mod 16 * 4 + uint c div 64 < 64"
    "0 \<le> uint c mod 64 \<and> uint c mod 64 < 64"
  by (rule digit_pair byte_parts conjI)+

lemma split_digits:
  fixes m q :: int
  assumes "0 \<le> q" and "q < n"
  shows "(m * n + q) div n = m" and "(m * n + q) mod n = q"
  using assms by simp_all

lemma group_bytes:
  fixes a b c :: byte
  shows "uint a div 4 * 4 + (uint a mod 4 * 16 + uint b div 16) div 16 = uint a"
    "(uint a mod 4 * 16 + uint b div 16) mod 16 * 16 + (uint b mod 16 * 4 + uint c div 64) div 4 = uint b"
    "(uint b mod 16 * 4 + uint c div 64) mod 4 * 64 + uint c mod 64 = uint c"
    "uint a div 4 * 4 + (uint a mod 4 * 16) div 16 = uint a"
    "(uint a mod 4 * 16 + uint b div 16) mod 16 * 16 + (uint b mod 16 * 4) div 4 = uint b"
  by (simp_all only: split_digits [OF byte_parts(5,6) [of b]] split_digits [OF byte_parts(9,10) [of c]]
      nonzero_mult_div_cancel_right [of "16::int"] nonzero_mult_div_cancel_right [of "4::int"]
      div_mult_mod_eq numeral_neq_zero not_False_eq_True)

lemma base64_decode_encode: "base64_decode (base64_encode bs) = bs"
  by (induction bs rule: base64_encode.induct)
    (simp_all add: group_digits base64_char_code Let_def byte_parts div_pos_pos_trivial mod_pos_pos_trivial
      del: of_int_add of_int_mult)

lemma groups_of_three: "(5 + n) div 3 = Suc ((n + 2) div 3)" for n :: nat
  by presburger

lemma base64_encode_form:
  "\<exists>body p. base64_encode bs = body @ replicate p PAD \<and> p \<le> 2 \<and> list_all base64_code body \<and>
     length (base64_encode bs) = (length bs + 2) div 3 * 4"
proof (induction bs rule: base64_encode.induct)
  case 1
  then show ?case by (intro exI [of _ "[]"] exI [of _ 0]) simp
next
  case (2 a)
  then show ?case
    by (intro exI [of _ "[base64_char (uint a div 4), base64_char (uint a mod 4 * 16)]"] exI [of _ 2])
      (simp add: base64_char_code group_digits numeral_2_eq_2)
next
  case (3 a b)
  then show ?case
    by (intro exI [of _ "[base64_char (uint a div 4), base64_char (uint a mod 4 * 16 + uint b div 16),
        base64_char (uint b mod 16 * 4)]"] exI [of _ 1])
      (simp add: base64_char_code group_digits)
next
  case (4 a b c bs)
  then obtain body p where "base64_encode bs = body @ replicate p PAD" "p \<le> 2" "list_all base64_code body"
      "length (base64_encode bs) = (length bs + 2) div 3 * 4" by blast
  then show ?case
    by (intro exI [of _ "base64_char (uint a div 4) # base64_char (uint a mod 4 * 16 + uint b div 16) #
        base64_char (uint b mod 16 * 4 + uint c div 64) # base64_char (uint c mod 64) # body"] exI [of _ p])
      (simp_all add: base64_char_code group_digits groups_of_three del: One_nat_def add_2_eq_Suc')
qed

lemma padding_of:
  assumes "list_all base64_code body" and "p \<le> 2"
  shows "(if endsWith (body @ replicate p PAD) [PAD, PAD] then 2
          else if endsWith (body @ replicate p PAD) [PAD] then 1 else 0) = p"
proof -
  have last: "c \<noteq> PAD" if "body = cs @ [c]" for cs c using assms(1) that pad_no_code by auto
  consider "p = 0" | "p = 1" | "p = 2" using assms(2) by linarith
  then show ?thesis
    using last
    by cases (cases body rule: rev_cases; auto simp: endsWith_def numeral_2_eq_2 Suc_diff_le)+
qed

lemma decodeCanonicalBase64_Inr:
  "decodeCanonicalBase64 v = Inr bs \<longleftrightarrow> v = JStr (base64_encode bs) \<and>
     byteLength bs \<le> MAX_GITIGNORE_SOURCE_BYTES \<and> 0 \<notin> set bs"
proof
  assume "decodeCanonicalBase64 v = Inr bs"
  then show "v = JStr (base64_encode bs) \<and> byteLength bs \<le> MAX_GITIGNORE_SOURCE_BYTES \<and> 0 \<notin> set bs"
    by (auto simp: decodeCanonicalBase64_def Let_def split: js_value.splits if_splits)
next
  assume r: "v = JStr (base64_encode bs) \<and> byteLength bs \<le> MAX_GITIGNORE_SOURCE_BYTES \<and> 0 \<notin> set bs"
  obtain body p where form: "base64_encode bs = body @ replicate p PAD" "p \<le> 2" "list_all base64_code body"
      "length (base64_encode bs) = (length bs + 2) div 3 * 4"
    using base64_encode_form [of bs] by blast
  have "length (base64_encode bs) mod 4 = 0" by (simp add: form(4))
  moreover have "int (length (base64_encode bs)) \<le> (MAX_GITIGNORE_SOURCE_BYTES + 2) div 3 * 4"
  proof -
    have "(length bs + 2) div 3 \<le> 262146 div 3"
      using r by (intro div_le_mono) (simp add: MAX_GITIGNORE_SOURCE_BYTES_def)
    then show ?thesis by (simp add: form(4) MAX_GITIGNORE_SOURCE_BYTES_def)
  qed
  moreover note padding_of [OF form(3,2)]
  ultimately show "decodeCanonicalBase64 v = Inr bs"
    using r base64_decode_encode [of bs]
    by (simp add: decodeCanonicalBase64_def Let_def form(1) form(3)) (simp add: list_all_iff)
qed

subsection \<open>Canonical paths\<close>

definition limits_valid :: "workspace_path_limits \<Rightarrow> bool" where
  "limits_valid limits \<longleftrightarrow> assertWorkspacePathLimits limits = Inr ()"

definition path_ok :: "unicode \<Rightarrow> bool \<Rightarrow> workspace_path_limits \<Rightarrow> js_string \<Rightarrow> bool" where
  "path_ok u allowRoot limits s \<longleftrightarrow> isWellFormed s \<and> 0 \<notin> set s \<and> 0x5C \<notin> set s \<and> \<not> startsWith s [SLASH] \<and>
     nfc u s = s \<and> int (length (utf8_bytes s)) \<le> maxPathBytes limits \<and>
     (if s = [] then allowRoot
      else int (length (split_slash s)) \<le> maxPathComponents limits \<and>
        \<not> list_ex (unsafe_component u) (split_slash s))"

lemma canonicalWorkspaceRelativePath_Inr:
  "canonicalWorkspaceRelativePath u v allowRoot limits = Inr p \<longleftrightarrow>
     limits_valid limits \<and> v = JStr p \<and> path_ok u allowRoot limits p"
  by (cases v) (auto simp: canonicalWorkspaceRelativePath_def rbind_eq_Inr path_ok_def limits_valid_def Let_def
      split: if_splits)

lemma split_slash_parts: "c \<in> set (split_slash s) \<Longrightarrow> SLASH \<notin> set c"
proof (induction s arbitrary: c)
  case (Cons a s)
  then show ?case by (auto split: if_splits list.splits)
qed simp

lemma split_slash_nonempty [simp]: "split_slash s \<noteq> []"
  by (induction s) (auto split: list.splits)

lemma split_slash_join: "s = concat (map (\<lambda>c. c @ [SLASH]) (butlast (split_slash s))) @ last (split_slash s)"
proof (induction s)
  case (Cons a s)
  then show ?case by (cases "split_slash s") auto
qed simp

text \<open>The directory a file system reaches from a root by a list of components, or nothing when a step
  leaves the root. The innermost name comes first.\<close>

fun walk :: "js_string list \<Rightarrow> js_string list \<Rightarrow> js_string list option" where
  "walk stack [] = Some stack"
| "walk stack (c # cs) =
     (if c = [] \<or> c = js ''.'' then walk stack cs
      else if c = js ''..'' then (case stack of [] \<Rightarrow> None | _ # up \<Rightarrow> walk up cs)
      else walk (c # stack) cs)"

lemma unsafe_git: "js ''.git'' = portableWorkspacePathKey u c \<Longrightarrow> unsafe_component u c"
  unfolding unsafe_component_def by (simp only: simp_thms)

lemma walk_safe: "\<not> list_ex (unsafe_component u) cs \<Longrightarrow> walk stack cs = Some (rev cs @ stack)"
  by (induction cs arbitrary: stack) (auto simp: unsafe_component_def)

subsection \<open>Canonical scopes\<close>

definition base64_ok :: "js_string \<Rightarrow> bool" where
  "base64_ok s \<longleftrightarrow> base64_encode (base64_decode s) = s \<and>
     byteLength (base64_decode s) \<le> MAX_GITIGNORE_SOURCE_BYTES \<and> 0 \<notin> set (base64_decode s)"

definition base64_size :: "js_string \<Rightarrow> int" where
  "base64_size s = byteLength (base64_decode s)"

lemma base64_decoded: "decodeCanonicalBase64 v = Inr bs \<longleftrightarrow> (\<exists>s. v = JStr s \<and> base64_ok s \<and> bs = base64_decode s)"
  by (auto simp: decodeCanonicalBase64_Inr base64_ok_def base64_decode_encode)

lemma decodeBudgeted_Inr:
  "decodeBudgeted v t = Inr (s, t') \<longleftrightarrow>
     v = JStr s \<and> base64_ok s \<and> t' = t + base64_size s \<and> t' \<le> MAX_GITIGNORE_POLICY_BYTES"
proof (cases "decodeCanonicalBase64 v")
  case (Inl e)
  then have "\<not> (v = JStr s \<and> base64_ok s)" using base64_decoded [of v "base64_decode s"] by auto
  with Inl show ?thesis by (auto simp: decodeBudgeted_def)
next
  case (Inr bs)
  then obtain s' where "v = JStr s'" "base64_ok s'" "bs = base64_decode s'" by (auto simp: base64_decoded)
  with Inr show ?thesis by (auto simp: decodeBudgeted_def base64_size_def base64_ok_def)
qed

definition source_reads :: "unicode \<Rightarrow> workspace_path_limits \<Rightarrow> js_string \<Rightarrow> js_value \<Rightarrow> gitignore_source \<Rightarrow> bool" where
  "source_reads u limits prefix v s \<longleftrightarrow> (\<exists>members. v = JObj members \<and> exactKeys members [''path'', ''contentsBase64''] \<and>
     js_field members ''path'' = JStr (src_path s) \<and> js_field members ''contentsBase64'' = JStr (contentsBase64 s) \<and>
     limits_valid limits \<and> path_ok u False limits (src_path s) \<and> sourceIsRelevant (src_path s) prefix \<and>
     base64_ok (contentsBase64 s))"

definition source_ok :: "unicode \<Rightarrow> workspace_path_limits \<Rightarrow> js_string \<Rightarrow> gitignore_source \<Rightarrow> bool" where
  "source_ok u limits prefix s \<longleftrightarrow> limits_valid limits \<and> path_ok u False limits (src_path s) \<and>
     sourceIsRelevant (src_path s) prefix \<and> base64_ok (contentsBase64 s)"

lemma source_reads_value: "source_reads u limits prefix (source_value s) s \<longleftrightarrow> source_ok u limits prefix s"
  by (auto simp: source_reads_def source_value_def source_ok_def exactKeys_def js_field_def)

lemma source_reads_ok: "source_reads u limits prefix v s \<Longrightarrow> source_ok u limits prefix s"
  by (auto simp: source_reads_def source_ok_def)

lemma canonical_source_Inr:
  "canonical_source u limits prefix v t = Inr (s, t') \<longleftrightarrow>
     source_reads u limits prefix v s \<and> t' = t + base64_size (contentsBase64 s) \<and> t' \<le> MAX_GITIGNORE_POLICY_BYTES"
proof (cases v)
  case (JObj members)
  then show ?thesis
    by (cases s) (auto simp: canonical_source_def rbind_eq_Inr canonicalWorkspaceRelativePath_Inr decodeBudgeted_Inr
        source_reads_def)
qed (auto simp: canonical_source_def source_reads_def)

definition sources_size :: "gitignore_source list \<Rightarrow> int" where
  "sources_size ss = sum_list (map (base64_size \<circ> contentsBase64) ss)"

lemma base64_size_nonneg [simp]: "0 \<le> base64_size s"
  by (simp add: base64_size_def)

lemma sources_size_nonneg [simp]: "0 \<le> sources_size ss"
  by (induction ss) (simp_all add: sources_size_def)

lemma canonical_sources_Inr:
  "t \<le> MAX_GITIGNORE_POLICY_BYTES \<Longrightarrow> canonical_sources u limits prefix vs t = Inr (ss, t') \<longleftrightarrow>
     list_all2 (source_reads u limits prefix) vs ss \<and> t' = t + sources_size ss \<and> t' \<le> MAX_GITIGNORE_POLICY_BYTES"
proof (induction vs arbitrary: t ss t')
  case Nil
  then show ?case by (auto simp: sources_size_def)
next
  case (Cons v vs)
  show ?case
  proof (cases ss)
    case Nil
    then show ?thesis by (auto simp: rbind_eq_Inr)
  next
    case (Cons s rest)
    let ?t = "t + base64_size (contentsBase64 s)"
    have size: "t + sources_size (s # rest) = ?t + sources_size rest" by (simp add: sources_size_def)
    have step: "canonical_sources u limits prefix (v # vs) t = Inr (s # rest, t') \<longleftrightarrow>
        source_reads u limits prefix v s \<and> ?t \<le> MAX_GITIGNORE_POLICY_BYTES \<and>
        canonical_sources u limits prefix vs ?t = Inr (rest, t')"
      by (auto simp: rbind_eq_Inr canonical_source_Inr)
    show ?thesis
    proof (cases "?t \<le> MAX_GITIGNORE_POLICY_BYTES")
      case True
      show ?thesis unfolding \<open>ss = s # rest\<close> step Cons.IH [OF True] size using True by auto
    next
      case False
      then show ?thesis unfolding \<open>ss = s # rest\<close> step size
        using sources_size_nonneg [of rest] by (auto simp del: sources_size_nonneg)
    qed
  qed
qed

definition evaluator_ok :: "git_evaluator option \<Rightarrow> bool" where
  "evaluator_ok e = (case e of None \<Rightarrow> True | Some e \<Rightarrow> canonicalGitVersion (JStr (ev_version e)) = Inr (ev_version e))"

lemma canonicalGitVersion_Inr: "canonicalGitVersion v = Inr s \<Longrightarrow> v = JStr s \<and> canonicalGitVersion (JStr s) = Inr s"
  by (auto simp: canonicalGitVersion_def split: js_value.splits if_splits)

lemma canonicalGitEvaluator_ok: "canonicalGitEvaluator v = Inr e \<Longrightarrow> evaluator_ok e"
  by (auto simp: canonicalGitEvaluator_def evaluator_ok_def rbind_eq_Inr dest: canonicalGitVersion_Inr
      split: js_value.splits if_splits)

lemma canonicalGitEvaluator_value: "evaluator_ok e \<Longrightarrow> canonicalGitEvaluator (evaluator_value e) = Inr e"
  by (cases e) (auto simp: canonicalGitEvaluator_def evaluator_value_def evaluator_ok_def exactKeys_def js_field_def)

fun scope_ok :: "unicode \<Rightarrow> workspace_path_limits \<Rightarrow> workspace_scope \<Rightarrow> bool" where
  "scope_ok u limits All_managed \<longleftrightarrow> limits_valid limits"
| "scope_ok u limits (Git_scope s) \<longleftrightarrow> limits_valid limits \<and> path_ok u True limits (repositoryPrefix s) \<and>
     evaluator_ok (evaluator s) \<and> int (length (gitignoreSources s)) \<le> MAX_GITIGNORE_SOURCES \<and>
     list_all (source_ok u limits (repositoryPrefix s)) (gitignoreSources s) \<and>
     sorted_wrt (\<lambda>x y. compareUtf8 (src_path x) (src_path y) \<le> 0) (gitignoreSources s) \<and>
     \<not> adjacent_duplicate (map src_path (gitignoreSources s)) \<and>
     base64_ok (infoExcludeBase64 s) \<and> base64_ok (globalExcludeBase64 s) \<and>
     sources_size (gitignoreSources s) + base64_size (infoExcludeBase64 s) + base64_size (globalExcludeBase64 s)
       \<le> MAX_GITIGNORE_POLICY_BYTES"

lemma policy_budget_pos: "0 \<le> MAX_GITIGNORE_POLICY_BYTES"
  by (simp add: MAX_GITIGNORE_POLICY_BYTES_def)

lemma sources_size_sort:
  "sources_size (js_sort (\<lambda>x y. compareUtf8 (src_path x) (src_path y)) ss) = sources_size ss"
proof -
  have "mset (map (base64_size \<circ> contentsBase64) (js_sort (\<lambda>x y. compareUtf8 (src_path x) (src_path y)) ss))
      = mset (map (base64_size \<circ> contentsBase64) ss)" by simp
  then show ?thesis unfolding sources_size_def by (metis sum_mset_sum_list)
qed

lemma canonical_scope_ok: "canonicalizeWorkspaceScope u v limits = Inr sc \<Longrightarrow> scope_ok u limits sc"
proof -
  assume a: "canonicalizeWorkspaceScope u v limits = Inr sc"
  then have valid: "limits_valid limits"
    by (auto simp: canonicalizeWorkspaceScope_def rbind_eq_Inr limits_valid_def)
  show ?thesis
  proof (cases sc)
    case (Git_scope g)
    then obtain candidate caseless sources where
      g: "canonical_git_scope u candidate caseless sources limits = Inr (Git_scope g)"
      using a by (auto simp: canonicalizeWorkspaceScope_def rbind_eq_Inr split: js_value.splits if_splits)
    let ?sort = "js_sort (\<lambda>x y. compareUtf8 (src_path x) (src_path y))"
    obtain ss where
      parts: "path_ok u True limits (repositoryPrefix g)" "evaluator_ok (evaluator g)"
        "int (length sources) \<le> MAX_GITIGNORE_SOURCES" "list_all2 (source_reads u limits (repositoryPrefix g)) sources ss"
        "gitignoreSources g = ?sort ss" "\<not> adjacent_duplicate (map src_path (?sort ss))"
        "base64_ok (infoExcludeBase64 g)" "base64_ok (globalExcludeBase64 g)"
        "sources_size ss + base64_size (infoExcludeBase64 g) + base64_size (globalExcludeBase64 g)
          \<le> MAX_GITIGNORE_POLICY_BYTES"
      using g
      by (auto simp: canonical_git_scope_def rbind_eq_Inr canonicalWorkspaceRelativePath_Inr canonicalGitEvaluator_ok
          canonical_sources_Inr [OF policy_budget_pos] decodeBudgeted_Inr Let_def split: if_splits)
    have "source_ok u limits (repositoryPrefix g) s" if "s \<in> set ss" for s
      using parts(4) that by (auto simp: list_all2_conv_all_nth in_set_conv_nth intro: source_reads_ok)
    then have "list_all (source_ok u limits (repositoryPrefix g)) (?sort ss)"
      by (simp add: list_all_iff)
    then show ?thesis
      using parts valid list_all2_lengthD [OF parts(4)] utf8_order.ascending_sort [of src_path ss]
      by (simp add: Git_scope sources_size_sort)
  qed (use valid in simp)
qed

lemma canonical_scope_value: "scope_ok u limits sc \<Longrightarrow> canonicalizeWorkspaceScope u (scope_value sc) limits = Inr sc"
proof (cases sc)
  case All_managed
  assume "scope_ok u limits sc"
  with All_managed show ?thesis
    by (simp add: canonicalizeWorkspaceScope_def limits_valid_def exactKeys_def js_field_def)
next
  case (Git_scope g)
  assume ok: "scope_ok u limits sc"
  have reads: "list_all2 (source_reads u limits (repositoryPrefix g)) (map source_value (gitignoreSources g)) (gitignoreSources g)"
    using ok Git_scope by (auto simp: list_all2_conv_all_nth source_reads_value list_all_length)
  have sort: "js_sort (\<lambda>x y. compareUtf8 (src_path x) (src_path y)) (gitignoreSources g) = gitignoreSources g"
    using ok Git_scope by (intro utf8_order.sort_ascending) simp
  have bound: "sources_size (gitignoreSources g) \<le> MAX_GITIGNORE_POLICY_BYTES"
      "sources_size (gitignoreSources g) + base64_size (infoExcludeBase64 g) \<le> MAX_GITIGNORE_POLICY_BYTES"
    using ok Git_scope base64_size_nonneg [of "infoExcludeBase64 g"] base64_size_nonneg [of "globalExcludeBase64 g"]
    by (simp_all del: base64_size_nonneg)
  have srcs: "canonical_sources u limits (repositoryPrefix g) (map source_value (gitignoreSources g)) 0
      = Inr (gitignoreSources g, sources_size (gitignoreSources g))"
    using reads bound by (simp add: canonical_sources_Inr [OF policy_budget_pos])
  have pre: "canonicalWorkspaceRelativePath u (JStr (repositoryPrefix g)) True limits = Inr (repositoryPrefix g)"
    using ok Git_scope by (simp add: canonicalWorkspaceRelativePath_Inr)
  have info: "decodeBudgeted (JStr (infoExcludeBase64 g)) (sources_size (gitignoreSources g))
      = Inr (infoExcludeBase64 g, sources_size (gitignoreSources g) + base64_size (infoExcludeBase64 g))"
    using ok Git_scope bound by (simp add: decodeBudgeted_Inr)
  have global: "decodeBudgeted (JStr (globalExcludeBase64 g)) (sources_size (gitignoreSources g) + base64_size (infoExcludeBase64 g))
      = Inr (globalExcludeBase64 g, sources_size (gitignoreSources g) + base64_size (infoExcludeBase64 g)
          + base64_size (globalExcludeBase64 g))"
    using ok Git_scope by (simp add: decodeBudgeted_Inr)
  have limits: "assertWorkspacePathLimits limits = Inr ()" using ok Git_scope by (simp add: limits_valid_def)
  have ev: "canonicalGitEvaluator (evaluator_value (evaluator g)) = Inr (evaluator g)"
    using ok Git_scope by (simp add: canonicalGitEvaluator_value)
  have rest: "int (length (gitignoreSources g)) \<le> MAX_GITIGNORE_SOURCES"
      "\<not> adjacent_duplicate (map src_path (gitignoreSources g))"
    using ok Git_scope by simp_all
  show ?thesis
    using rest
    by (simp add: Git_scope canonicalizeWorkspaceScope_def limits exactKeys_def js_field_def GIT_SCOPE_KEYS_def
        canonical_git_scope_def srcs pre info global ev sort Let_def)
qed

lemma scope_rendered: "rendered (scope_value sc)"
  by (cases sc) (auto simp: list_all_iff source_value_def evaluator_value_def split: option.splits)

lemma source_value_inj: "source_value s = source_value t \<longleftrightarrow> s = t"
  by (cases s; cases t) (simp add: source_value_def)

lemma evaluator_value_inj: "evaluator_value e = evaluator_value f \<longleftrightarrow> e = f"
proof (cases e; cases f)
  fix a b assume "e = Some a" "f = Some b"
  then show ?thesis by (cases a; cases b) (simp add: evaluator_value_def)
qed (auto simp: evaluator_value_def)

lemma scope_value_inj: "scope_value l = scope_value r \<longleftrightarrow> l = r"
proof (cases l; cases r)
  fix a b assume ab: "l = Git_scope a" "r = Git_scope b"
  have "inj source_value" by (rule injI) (simp add: source_value_inj)
  with ab show ?thesis
    by (cases a; cases b) (auto simp: evaluator_value_inj inj_map_eq_map)
qed auto

lemma scope_text_inj: "json (scope_value l) = json (scope_value r) \<longleftrightarrow> l = r"
  by (simp add: json_inj scope_rendered scope_value_inj)

subsection \<open>Properties\<close>

definition plain_unicode :: unicode where
  "plain_unicode = \<lparr>nfc = (\<lambda>s. s), upper = (\<lambda>s. s), lower = (\<lambda>s. s)\<rparr>"

definition git_sample :: workspace_scope where
  "git_sample = Git_scope \<lparr>repositoryPrefix = js ''app'', evaluator = None, ignoreCase = False,
     gitignoreSources = [\<lparr>src_path = js ''.gitignore'', contentsBase64 = js ''dG1w''\<rparr>],
     infoExcludeBase64 = [], globalExcludeBase64 = []\<rparr>"



text \<open>Canonical base64: the decoder accepts exactly the encodings of NUL-free byte strings within the
  source limit, and returns those bytes.\<close>

theorem base64_is_canonical:
  "(decodeCanonicalBase64 v = Inr bs) =
     (v = JStr (base64_encode bs) \<and> byteLength bs \<le> MAX_GITIGNORE_SOURCE_BYTES \<and> 0 \<notin> set bs)"
  by (rule decodeCanonicalBase64_Inr)

text \<open>Scopes have one canonical form: whatever untrusted value a scope was read from, reading it again
  gives the same scope, and two scopes compare equal exactly when they are the same.\<close>

theorem scope_canonicalization_is_stable:
  assumes "canonicalizeWorkspaceScope u v limits = Inr l" and "canonicalizeWorkspaceScope u w limits = Inr r"
  shows "canonicalizeWorkspaceScope u (scope_value l) limits = Inr l \<and>
    workspaceScopesEqual u l r limits = Inr (l = r)"
  using canonical_scope_value [OF canonical_scope_ok [OF assms(1)]]
    canonical_scope_value [OF canonical_scope_ok [OF assms(2)]]
  by (simp add: workspaceScopesEqual_def scope_text_inj)

theorem scope_canonicalization_is_stable_witness:
  "workspaceScopesEqual plain_unicode git_sample All_managed ABSOLUTE_WORKSPACE_PATH_LIMITS = Inr False"
proof -
  have l: "canonicalizeWorkspaceScope plain_unicode (scope_value git_sample) ABSOLUTE_WORKSPACE_PATH_LIMITS
      = Inr git_sample"
    and r: "canonicalizeWorkspaceScope plain_unicode (scope_value All_managed) ABSOLUTE_WORKSPACE_PATH_LIMITS
      = Inr All_managed" by code_simp+
  have "git_sample \<noteq> All_managed" by (simp add: git_sample_def)
  with scope_canonicalization_is_stable [OF l r] show ?thesis by simp
qed

end
