(* ===== verification/Tree_Manifest.thy ===== *)
theory Tree_Manifest
  imports Workspace_Scope
begin

text \<open>
  Tree manifests, \<^verbatim>\<open>src/infrastructure/tree-formats/manifest-codec.ts\<close>: the validation of untrusted
  entries, the portable namespace they must fit into, the bindings between a tree and its archived
  ignore policy, and the document that is hashed into a tree id.
\<close>

subsection \<open>Types and limits\<close>

definition ABSOLUTE_MAX_TREE_ENTRIES :: int where "ABSOLUTE_MAX_TREE_ENTRIES = 1000000"
definition ABSOLUTE_MAX_TREE_MANIFEST_BYTES :: int where "ABSOLUTE_MAX_TREE_MANIFEST_BYTES = 256 * 1024 * 1024"

record tree_manifest_limits =
  maxEntries :: int
  maxManifestBytes :: int
  pathLimits :: workspace_path_limits

datatype symlink_kind = Link_file | Link_directory

datatype tree_entry =
    Regular_entry (entry_path: js_string) (entry_blob: js_string) (recreationMode: "int option")
  | Symlink_entry (entry_path: js_string) (link_target: js_string) (symlinkKind: "symlink_kind option")

record tree_manifest =
  tm_format :: js_string
  tm_entries :: "tree_entry list"
  tm_scope :: workspace_scope

abbreviation invalidManifest :: "'a result" where
  "invalidManifest \<equiv> Inl (TreeManifestError Invalid_tree_manifest)"

definition assertTreeManifestLimits :: "tree_manifest_limits \<Rightarrow> unit result" where
  "assertTreeManifestLimits limits =
     (let p = pathLimits limits in
      if \<not> isSafeInteger (maxEntries limits) \<or> maxEntries limits \<le> 0
        \<or> maxEntries limits > ABSOLUTE_MAX_TREE_ENTRIES
        \<or> \<not> isSafeInteger (maxManifestBytes limits) \<or> maxManifestBytes limits \<le> 0
        \<or> maxManifestBytes limits > ABSOLUTE_MAX_TREE_MANIFEST_BYTES
        \<or> \<not> isSafeInteger (maxPathBytes p) \<or> maxPathBytes p \<le> 0
        \<or> maxPathBytes p > ABSOLUTE_MAX_WORKSPACE_RELATIVE_PATH_BYTES
        \<or> \<not> isSafeInteger (maxPathComponents p) \<or> maxPathComponents p \<le> 0
        \<or> maxPathComponents p > ABSOLUTE_MAX_WORKSPACE_RELATIVE_PATH_COMPONENTS
      then invalidManifest else Inr ())"

subsection \<open>Entries\<close>

text \<open>The pattern of \<^verbatim>\<open>isTreeOid\<close>, on untrusted values.\<close>

definition oid_text :: "js_string \<Rightarrow> bool" where
  "oid_text s \<longleftrightarrow> length s = 64 \<and> list_all (\<lambda>c. c \<in> set (js hex_digits)) s"

definition validateEntryPath :: "unicode \<Rightarrow> js_string \<Rightarrow> workspace_path_limits \<Rightarrow> unit result" where
  "validateEntryPath u path limits =
     (case canonicalWorkspaceRelativePath u (JStr path) False limits of Inl _ \<Rightarrow> invalidManifest | Inr _ \<Rightarrow> Inr ())"

definition validateRecreationMode :: "js_value \<Rightarrow> int option result" where
  "validateRecreationMode v =
     (case v of
        JNull \<Rightarrow> Inr None
      | JInt n \<Rightarrow> if isSafeInteger n \<and> n \<ge> 0 \<and> n \<le> 4095 then Inr (Some n) else invalidManifest
      | _ \<Rightarrow> invalidManifest)"

definition validate_regular :: "js_string \<Rightarrow> (js_string \<times> js_value) list \<Rightarrow> tree_entry result" where
  "validate_regular path entry =
     (if \<not> exactKeys entry [''path'', ''type'', ''blobOid'', ''recreationMode''] then invalidManifest
      else (case js_field entry ''blobOid'' of
          JStr oid \<Rightarrow>
            if \<not> oid_text oid then invalidManifest
            else rbind (validateRecreationMode (js_field entry ''recreationMode'')) (\<lambda>mode.
              Inr (Regular_entry path oid mode))
        | _ \<Rightarrow> invalidManifest))"

definition link_kind_of :: "js_value \<Rightarrow> symlink_kind option result" where
  "link_kind_of v =
     (if v = JNull then Inr None
      else if v = JStr (js ''file'') then Inr (Some Link_file)
      else if v = JStr (js ''directory'') then Inr (Some Link_directory)
      else invalidManifest)"

definition validate_symlink :: "js_string \<Rightarrow> (js_string \<times> js_value) list \<Rightarrow> tree_entry result" where
  "validate_symlink path entry =
     (if \<not> exactKeys entry [''path'', ''type'', ''target'', ''symlinkKind''] then invalidManifest
      else (case js_field entry ''target'' of
          JStr target \<Rightarrow>
            if length target = 0 \<or> 0 \<in> set target \<or> \<not> isWellFormed target then invalidManifest
            else rbind (link_kind_of (js_field entry ''symlinkKind'')) (\<lambda>kind.
              Inr (Symlink_entry path target kind))
        | _ \<Rightarrow> invalidManifest))"

definition validateEntry :: "unicode \<Rightarrow> js_value \<Rightarrow> workspace_path_limits \<Rightarrow> tree_entry result" where
  "validateEntry u v limits =
     (case v of
        JObj entry \<Rightarrow>
          (case js_field entry ''path'' of
             JStr path \<Rightarrow>
               rbind (validateEntryPath u path limits) (\<lambda>_.
                 if js_field entry ''type'' = JStr (js ''regular'') then validate_regular path entry
                 else if js_field entry ''type'' = JStr (js ''symlink'') then validate_symlink path entry
                 else invalidManifest)
           | _ \<Rightarrow> invalidManifest)
      | _ \<Rightarrow> invalidManifest)"

subsection \<open>The namespace\<close>

datatype namespace_member =
    Entry_member (member_path: js_string) (member_entry: tree_entry)
  | Directory_member (member_path: js_string)

type_synonym namespace = "js_string \<rightharpoonup> namespace_member"

text \<open>The first loop: every path once, under its portable key.\<close>

fun claim_entries :: "unicode \<Rightarrow> tree_entry list \<Rightarrow> (js_string \<rightharpoonup> tree_entry) \<Rightarrow> namespace \<Rightarrow>
    ((js_string \<rightharpoonup> tree_entry) \<times> namespace) result" where
  "claim_entries u [] byPath ns = Inr (byPath, ns)"
| "claim_entries u (e # es) byPath ns =
     (if byPath (entry_path e) \<noteq> None then invalidManifest
      else let canonical = portableWorkspacePathKey u (entry_path e) in
        if ns canonical \<noteq> None then invalidManifest
        else claim_entries u es (byPath(entry_path e \<mapsto> e)) (ns(canonical \<mapsto> Entry_member (entry_path e) e)))"

lemma take_separator_shorter: "lastSlash path \<noteq> - 1 \<Longrightarrow> length (take (nat (lastSlash path)) path) < length path"
  by (cases path rule: lastSlash_cases) auto

text \<open>The inner loop of the second pass: the parents of one path, the longest first.\<close>

function claim_ancestors :: "unicode \<Rightarrow> (js_string \<rightharpoonup> tree_entry) \<Rightarrow> js_string \<Rightarrow> namespace \<Rightarrow> namespace result" where
  "claim_ancestors u byPath path ns =
     (let separator = lastSlash path in
      if separator \<noteq> - 1
      then let parentPath = take (nat separator) path in
        if byPath parentPath \<noteq> None then invalidManifest
        else let canonical = portableWorkspacePathKey u parentPath in
          (case ns canonical of
             Some owner \<Rightarrow> if member_path owner \<noteq> parentPath then invalidManifest
                            else claim_ancestors u byPath parentPath ns
           | None \<Rightarrow> claim_ancestors u byPath parentPath (ns(canonical \<mapsto> Directory_member parentPath)))
      else Inr ns)"
  by pat_completeness auto

termination
  by (relation "measure (\<lambda>(u, byPath, path, ns). length path)") (simp_all add: take_separator_shorter del: length_take)

declare claim_ancestors.simps [simp del]

fun claim_parents :: "unicode \<Rightarrow> (js_string \<rightharpoonup> tree_entry) \<Rightarrow> tree_entry list \<Rightarrow> namespace \<Rightarrow> namespace result" where
  "claim_parents u byPath [] ns = Inr ns"
| "claim_parents u byPath (e # es) ns =
     rbind (claim_ancestors u byPath (entry_path e) ns) (claim_parents u byPath es)"

definition canonicalizeTreeEntries ::
  "unicode \<Rightarrow> js_value \<Rightarrow> tree_manifest_limits \<Rightarrow> (tree_entry list \<times> namespace) result" where
  "canonicalizeTreeEntries u v limits =
     rbind (assertTreeManifestLimits limits) (\<lambda>_.
       case v of
         JArr values \<Rightarrow>
           if int (length values) > maxEntries limits then invalidManifest
           else rbind (rmap (\<lambda>e. validateEntry u e (pathLimits limits)) values) (\<lambda>listed.
             let entries = js_sort (\<lambda>x y. compareUtf8 (entry_path x) (entry_path y)) listed in
             rbind (claim_entries u entries Map.empty Map.empty) (\<lambda>(byPath, ns).
             rbind (claim_parents u byPath entries ns) (\<lambda>ns. Inr (entries, ns))))
       | _ \<Rightarrow> invalidManifest)"

subsection \<open>Bindings to the ignore policy\<close>

datatype policy_kind = Policy_directory | Policy_source

type_synonym policy_namespace = "js_string \<rightharpoonup> policy_kind \<times> js_string"

definition addPolicyDirectory :: "unicode \<Rightarrow> namespace \<Rightarrow> js_string \<Rightarrow> policy_namespace \<Rightarrow> policy_namespace result" where
  "addPolicyDirectory u ns path policy =
     (let key = portableWorkspacePathKey u path in
      if (case policy key of None \<Rightarrow> False | Some previous \<Rightarrow> previous \<noteq> (Policy_directory, path))
      then invalidManifest
      else if (case ns key of None \<Rightarrow> False | Some target \<Rightarrow> target \<noteq> Directory_member path)
      then invalidManifest
      else Inr (policy(key \<mapsto> (Policy_directory, path))))"

function add_policy_ancestors :: "unicode \<Rightarrow> namespace \<Rightarrow> js_string \<Rightarrow> policy_namespace \<Rightarrow> policy_namespace result" where
  "add_policy_ancestors u ns path policy =
     (let separator = lastSlash path in
      if separator \<noteq> - 1
      then let ancestor = take (nat separator) path in
        rbind (addPolicyDirectory u ns ancestor policy) (add_policy_ancestors u ns ancestor)
      else Inr policy)"
  by pat_completeness auto
termination
  by (relation "measure (\<lambda>(u, ns, path, policy). length path)") (simp_all add: take_separator_shorter del: length_take)

declare add_policy_ancestors.simps [simp del]

definition bind_source :: "unicode \<Rightarrow> (bytes \<Rightarrow> js_string) \<Rightarrow> namespace \<Rightarrow> git_scope \<Rightarrow> workspace_path_limits \<Rightarrow>
    gitignore_source \<Rightarrow> policy_namespace \<Rightarrow> policy_namespace result" where
  "bind_source u sha256 ns scope limits source policy =
     rbind (workspaceLocalGitignorePath u scope (src_path source) limits) (\<lambda>localPath.
       case localPath of
         None \<Rightarrow> Inr policy
       | Some path \<Rightarrow>
           rbind (add_policy_ancestors u ns path policy) (\<lambda>policy.
             let key = portableWorkspacePathKey u path;
                 expectedOid = sha256 (base64_decode (contentsBase64 source))
             in if (case policy key of None \<Rightarrow> False | Some previous \<Rightarrow> previous \<noteq> (Policy_source, path))
                then invalidManifest
                else if (case ns key of
                           None \<Rightarrow> False
                         | Some (Entry_member _ (Regular_entry _ oid _)) \<Rightarrow> oid \<noteq> expectedOid
                         | Some _ \<Rightarrow> True) then invalidManifest
                else Inr (policy(key \<mapsto> (Policy_source, path)))))"

fun bind_sources :: "unicode \<Rightarrow> (bytes \<Rightarrow> js_string) \<Rightarrow> namespace \<Rightarrow> git_scope \<Rightarrow> workspace_path_limits \<Rightarrow>
    gitignore_source list \<Rightarrow> policy_namespace \<Rightarrow> policy_namespace result" where
  "bind_sources u sha256 ns scope limits [] policy = Inr policy"
| "bind_sources u sha256 ns scope limits (s # ss) policy =
     rbind (bind_source u sha256 ns scope limits s policy) (bind_sources u sha256 ns scope limits ss)"

definition base_name :: "js_string \<Rightarrow> js_string" where
  "base_name path = drop (nat (lastSlash path + 1)) path"

text \<open>An archived \<^verbatim>\<open>.gitignore\<close> entry has its source in the scope.\<close>

definition ignore_entry_bound :: "unicode \<Rightarrow> policy_namespace \<Rightarrow> tree_entry \<Rightarrow> bool" where
  "ignore_entry_bound u policy e =
     (case e of
        Symlink_entry _ _ _ \<Rightarrow> True
      | Regular_entry path _ _ \<Rightarrow>
          portableWorkspacePathKey u (base_name path) \<noteq> js ''.gitignore'' \<or>
          (case policy (portableWorkspacePathKey u path) of Some (Policy_source, _) \<Rightarrow> True | _ \<Rightarrow> False))"

definition validateTreeScopeBindings :: "unicode \<Rightarrow> (bytes \<Rightarrow> js_string) \<Rightarrow> tree_entry list \<Rightarrow> namespace \<Rightarrow>
    workspace_scope \<Rightarrow> tree_manifest_limits \<Rightarrow> unit result" where
  "validateTreeScopeBindings u sha256 entries ns scope limits =
     (case scope of
        All_managed \<Rightarrow> Inr ()
      | Git_scope g \<Rightarrow>
          rbind (bind_sources u sha256 ns g (pathLimits limits) (gitignoreSources g) Map.empty) (\<lambda>policy.
            if list_all (ignore_entry_bound u policy) entries then Inr () else invalidManifest))"

subsection \<open>Manifests\<close>

text \<open>A failure that is not a manifest error already becomes one.\<close>

definition manifest_failure :: "'a result \<Rightarrow> 'a result" where
  "manifest_failure r =
     (case r of Inr x \<Rightarrow> Inr x | Inl (TreeManifestError k) \<Rightarrow> Inl (TreeManifestError k) | Inl _ \<Rightarrow> invalidManifest)"

definition canonicalizeTreeManifestUsingScopeCodec :: "unicode \<Rightarrow> (bytes \<Rightarrow> js_string) \<Rightarrow> js_value \<Rightarrow> js_value \<Rightarrow>
    tree_manifest_limits \<Rightarrow> (js_value \<Rightarrow> workspace_path_limits \<Rightarrow> workspace_scope result) \<Rightarrow>
    (tree_entry list \<times> workspace_scope) result" where
  "canonicalizeTreeManifestUsingScopeCodec u sha256 entries scope limits canonicalizeScope =
     rbind (canonicalizeTreeEntries u entries limits) (\<lambda>(canonicalEntries, ns).
     rbind (manifest_failure
              (rbind (canonicalizeScope scope (pathLimits limits)) (\<lambda>canonicalScope.
               rbind (validateTreeScopeBindings u sha256 canonicalEntries ns canonicalScope limits) (\<lambda>_.
                 Inr canonicalScope)))) (\<lambda>canonicalScope.
       Inr (canonicalEntries, canonicalScope)))"

definition canonicalizeTreeManifest :: "unicode \<Rightarrow> (bytes \<Rightarrow> js_string) \<Rightarrow> js_value \<Rightarrow> js_value \<Rightarrow>
    tree_manifest_limits \<Rightarrow> (tree_entry list \<times> workspace_scope) result" where
  "canonicalizeTreeManifest u sha256 entries scope limits =
     canonicalizeTreeManifestUsingScopeCodec u sha256 entries scope limits (canonicalizeWorkspaceScope u)"

definition mode_value :: "int option \<Rightarrow> js_value" where
  "mode_value m = (case m of None \<Rightarrow> JNull | Some n \<Rightarrow> JInt n)"

definition link_value :: "symlink_kind option \<Rightarrow> js_value" where
  "link_value k = (case k of None \<Rightarrow> JNull | Some Link_file \<Rightarrow> JStr (js ''file'')
     | Some Link_directory \<Rightarrow> JStr (js ''directory''))"

fun entry_value :: "tree_entry \<Rightarrow> js_value" where
  "entry_value (Regular_entry path oid mode) = JObj [(js ''path'', JStr path), (js ''type'', JStr (js ''regular'')),
     (js ''blobOid'', JStr oid), (js ''recreationMode'', mode_value mode)]"
| "entry_value (Symlink_entry path target kind) = JObj [(js ''path'', JStr path), (js ''type'', JStr (js ''symlink'')),
     (js ''target'', JStr target), (js ''symlinkKind'', link_value kind)]"

definition manifest_value :: "tree_manifest \<Rightarrow> js_value" where
  "manifest_value m = JObj [(js ''format'', JStr (tm_format m)), (js ''entries'', JArr (map entry_value (tm_entries m))),
     (js ''scope'', scope_value (tm_scope m))]"

definition encodeTreeManifestDocument :: "js_string \<Rightarrow> tree_entry list \<Rightarrow> workspace_scope \<Rightarrow> tree_manifest_limits \<Rightarrow>
    int list result" where
  "encodeTreeManifestDocument format entries scope limits =
     rbind (assertTreeManifestLimits limits) (\<lambda>_.
       if int (length entries) > maxEntries limits then invalidManifest
       else let encoded = utf8_bytes (json (manifest_value \<lparr>tm_format = format, tm_entries = entries, tm_scope = scope\<rparr>)
                                        @ [0x0A])
         in if int (length encoded) > maxManifestBytes limits then invalidManifest else Inr encoded)"

subsection \<open>The namespace of a tree\<close>

text \<open>A namespace holds the members of a set of paths, each under its portable key. Such a set has no two
  members that a case-insensitive file system would confuse.\<close>

definition represents :: "unicode \<Rightarrow> namespace \<Rightarrow> js_string set \<Rightarrow> bool" where
  "represents u ns S \<longleftrightarrow> (\<forall>k m. ns k = Some m \<longrightarrow> portableWorkspacePathKey u (member_path m) = k) \<and>
     (\<forall>p. p \<in> S \<longleftrightarrow> (\<exists>m. ns (portableWorkspacePathKey u p) = Some m \<and> member_path m = p))"

abbreviation portable_set :: "unicode \<Rightarrow> js_string set \<Rightarrow> bool" where
  "portable_set u S \<equiv> inj_on (portableWorkspacePathKey u) S"

lemma represents_empty: "represents u Map.empty {}"
  by (simp add: represents_def)

lemma represents_member: "represents u ns S \<Longrightarrow> ns k = Some m \<Longrightarrow> member_path m \<in> S \<and> portableWorkspacePathKey u (member_path m) = k"
  unfolding represents_def by metis

lemma represents_portable: "represents u ns S \<Longrightarrow> portable_set u S"
  unfolding represents_def by (intro inj_onI) (metis option.inject)

lemma represents_free:
  assumes "represents u ns S"
  shows "ns (portableWorkspacePathKey u p) = None \<longleftrightarrow> portableWorkspacePathKey u p \<notin> portableWorkspacePathKey u ` S"
proof
  assume none: "ns (portableWorkspacePathKey u p) = None"
  show "portableWorkspacePathKey u p \<notin> portableWorkspacePathKey u ` S"
  proof
    assume "portableWorkspacePathKey u p \<in> portableWorkspacePathKey u ` S"
    then obtain q where "q \<in> S" "portableWorkspacePathKey u p = portableWorkspacePathKey u q" by auto
    with assms none show False unfolding represents_def by (metis option.distinct(1))
  qed
next
  assume "portableWorkspacePathKey u p \<notin> portableWorkspacePathKey u ` S"
  then show "ns (portableWorkspacePathKey u p) = None"
    using represents_member [OF assms] by (metis imageI not_Some_eq)
qed

lemma represents_claim:
  assumes "represents u ns S" and "ns (portableWorkspacePathKey u (member_path m)) = None"
  shows "represents u (ns(portableWorkspacePathKey u (member_path m) \<mapsto> m)) (insert (member_path m) S)"
  using assms by (auto simp: represents_def)

lemma portable_insert: "portable_set u (insert p S) \<longleftrightarrow>
    portable_set u S \<and> (p \<in> S \<or> portableWorkspacePathKey u p \<notin> portableWorkspacePathKey u ` S)"
  by (cases "p \<in> S") (simp_all add: insert_absorb)

lemma claim_entries_Inr:
  assumes "represents u ns S" and "dom byPath = S"
  shows "(\<exists>r. claim_entries u es byPath ns = Inr r) \<longleftrightarrow>
      distinct (map entry_path es) \<and> entry_path ` set es \<inter> S = {} \<and> portable_set u (entry_path ` set es \<union> S)"
    and "claim_entries u es byPath ns = Inr (byPath', ns') \<Longrightarrow>
      represents u ns' (entry_path ` set es \<union> S) \<and> dom byPath' = entry_path ` set es \<union> S"
proof -
  have "((\<exists>r. claim_entries u es byPath ns = Inr r) \<longleftrightarrow>
      distinct (map entry_path es) \<and> entry_path ` set es \<inter> S = {} \<and> portable_set u (entry_path ` set es \<union> S)) \<and>
    (\<forall>byPath' ns'. claim_entries u es byPath ns = Inr (byPath', ns') \<longrightarrow>
      represents u ns' (entry_path ` set es \<union> S) \<and> dom byPath' = entry_path ` set es \<union> S)"
    using assms
  proof (induction es arbitrary: byPath ns S)
    case Nil
    then show ?case by (auto intro: represents_portable)
  next
    case (Cons e es)
    let ?p = "entry_path e" and ?k = "portableWorkspacePathKey u (entry_path e)"
    have union: "entry_path ` set (e # es) \<union> S = entry_path ` set es \<union> insert ?p S" by auto
    show ?case
    proof (cases "?p \<in> S \<or> ?k \<in> portableWorkspacePathKey u ` S")
      case True
      then have "claim_entries u (e # es) byPath ns = invalidManifest"
        using Cons.prems(2) represents_free [OF Cons.prems(1), of ?p] by (auto simp: Let_def)
      moreover have "\<not> (?p \<notin> S \<and> portable_set u (entry_path ` set es \<union> insert ?p S))"
        using True by (auto dest: inj_onD)
      ultimately show ?thesis unfolding union by auto
    next
      case False
      then have new: "ns ?k = None" "byPath ?p = None"
        using Cons.prems(2) represents_free [OF Cons.prems(1), of ?p] by auto
      have step: "claim_entries u (e # es) byPath ns =
          claim_entries u es (byPath(?p \<mapsto> e)) (ns(?k \<mapsto> Entry_member ?p e))"
        using new by (simp add: Let_def)
      have r: "represents u (ns(?k \<mapsto> Entry_member ?p e)) (insert ?p S)"
        using represents_claim [OF Cons.prems(1), of "Entry_member ?p e"] new by simp
      have d: "dom (byPath(?p \<mapsto> e)) = insert ?p S" using Cons.prems(2) by simp
      have sets: "distinct (map entry_path (e # es)) \<and> entry_path ` set (e # es) \<inter> S = {} \<and> D \<longleftrightarrow>
          distinct (map entry_path es) \<and> entry_path ` set es \<inter> insert ?p S = {} \<and> D" for D
        using False by auto
      show ?thesis unfolding step union sets by (rule Cons.IH [OF r d])
    qed
  qed
  then show "(\<exists>r. claim_entries u es byPath ns = Inr r) \<longleftrightarrow>
      distinct (map entry_path es) \<and> entry_path ` set es \<inter> S = {} \<and> portable_set u (entry_path ` set es \<union> S)"
    and "claim_entries u es byPath ns = Inr (byPath', ns') \<Longrightarrow>
      represents u ns' (entry_path ` set es \<union> S) \<and> dom byPath' = entry_path ` set es \<union> S"
    by blast+
qed

abbreviation ancestors :: "js_string \<Rightarrow> js_string set" where
  "ancestors p \<equiv> {a. strict_ancestor a p}"

lemma claim_ancestors_Inr:
  assumes "represents u ns S"
  shows "((\<exists>r. claim_ancestors u byPath path ns = Inr r) \<longleftrightarrow>
      ancestors path \<inter> dom byPath = {} \<and> portable_set u (ancestors path \<union> S)) \<and>
    (\<forall>ns'. claim_ancestors u byPath path ns = Inr ns' \<longrightarrow> represents u ns' (ancestors path \<union> S))"
  using assms
proof (induction path arbitrary: ns S rule: length_induct)
  case (1 path)
  show ?case
  proof (cases path rule: lastSlash_cases)
    case none
    then have "ancestors path = {}" by (simp add: strict_ancestor_none)
    moreover have "claim_ancestors u byPath path ns = Inr ns"
      using none by (subst claim_ancestors.simps) simp
    ultimately show ?thesis using 1(2) by (auto intro: represents_portable)
  next
    case (some q t)
    let ?k = "portableWorkspacePathKey u q"
    have anc: "ancestors path = insert q (ancestors q)"
      using strict_ancestor_last [OF some(3)] some(2) by auto
    then have union: "ancestors path \<union> S = ancestors q \<union> insert q S" by auto
    have shorter: "length q < length path" using some(2) by simp
    have step: "claim_ancestors u byPath path ns = (if byPath q \<noteq> None then invalidManifest
        else case ns ?k of
          Some owner \<Rightarrow> if member_path owner \<noteq> q then invalidManifest else claim_ancestors u byPath q ns
        | None \<Rightarrow> claim_ancestors u byPath q (ns(?k \<mapsto> Directory_member q)))"
      using some(1,4) by (subst claim_ancestors.simps) (simp add: Let_def)
    show ?thesis
    proof (cases "byPath q")
      case (Some e)
      then show ?thesis unfolding step union anc by auto
    next
      case byPath: None
      show ?thesis
      proof (cases "ns ?k")
        case None
        have r: "represents u (ns(?k \<mapsto> Directory_member q)) (insert q S)"
          using represents_claim [OF 1(2), of "Directory_member q"] None by simp
        have "claim_ancestors u byPath path ns = claim_ancestors u byPath q (ns(?k \<mapsto> Directory_member q))"
          using step None byPath by simp
        then show ?thesis unfolding union anc
          using 1(1) [rule_format, OF shorter r] byPath by auto
      next
        case (Some owner)
        note owner = represents_member [OF 1(2) Some]
        show ?thesis
        proof (cases "member_path owner = q")
          case True
          then have same: "ancestors q \<union> insert q S = ancestors q \<union> S" using owner by auto
          have "claim_ancestors u byPath path ns = claim_ancestors u byPath q ns"
            using step Some byPath True by simp
          moreover have "ancestors path \<inter> dom byPath = {} \<longleftrightarrow> ancestors q \<inter> dom byPath = {}"
            using byPath anc by auto
          ultimately show ?thesis unfolding union same
            using 1(1) [rule_format, OF shorter 1(2)] by simp
        next
          case False
          then have "claim_ancestors u byPath path ns = invalidManifest" using step Some byPath by simp
          moreover have "\<not> portable_set u (ancestors q \<union> insert q S)"
            using False owner by (meson Un_iff inj_onD insertI1 insertI2)
          ultimately show ?thesis unfolding union by auto
        qed
      qed
    qed
  qed
qed

lemma claim_parents_Inr:
  assumes "represents u ns S"
  shows "((\<exists>r. claim_parents u byPath es ns = Inr r) \<longleftrightarrow>
      (\<Union>e \<in> set es. ancestors (entry_path e)) \<inter> dom byPath = {} \<and>
      portable_set u ((\<Union>e \<in> set es. ancestors (entry_path e)) \<union> S)) \<and>
    (\<forall>ns'. claim_parents u byPath es ns = Inr ns' \<longrightarrow>
      represents u ns' ((\<Union>e \<in> set es. ancestors (entry_path e)) \<union> S))"
  using assms
proof (induction es arbitrary: ns S)
  case Nil
  then show ?case by (auto intro: represents_portable)
next
  case (Cons e es)
  let ?a = "ancestors (entry_path e)" and ?rest = "\<Union>e \<in> set es. ancestors (entry_path e)"
  have union: "(\<Union>e \<in> set (e # es). ancestors (entry_path e)) = ?a \<union> ?rest" by simp
  have assoc: "?a \<union> ?rest \<union> S = ?rest \<union> (?a \<union> S)" by auto
  note head = claim_ancestors_Inr [OF Cons.prems, of byPath "entry_path e"]
  show ?case
  proof (cases "claim_ancestors u byPath (entry_path e) ns")
    case (Inl x)
    then have "\<not> (?a \<inter> dom byPath = {} \<and> portable_set u (?a \<union> S))" using head by simp
    then have "\<not> ((?a \<union> ?rest) \<inter> dom byPath = {} \<and> portable_set u (?rest \<union> (?a \<union> S)))"
      using inj_on_subset [of _ "?rest \<union> (?a \<union> S)" "?a \<union> S"] by blast
    then show ?thesis unfolding union assoc using Inl by auto
  next
    case (Inr ns1)
    then have ok: "?a \<inter> dom byPath = {}" "represents u ns1 (?a \<union> S)" using head by blast+
    have "claim_parents u byPath (e # es) ns = claim_parents u byPath es ns1" using Inr by simp
    then show ?thesis unfolding union assoc using Cons.IH [OF ok(2)] ok(1) by auto
  qed
qed

text \<open>The paths of a tree and the directories they imply.\<close>

definition implied_paths :: "tree_entry list \<Rightarrow> js_string set" where
  "implied_paths es = entry_path ` set es \<union> (\<Union>e \<in> set es. ancestors (entry_path e))"

definition namespace_ok :: "unicode \<Rightarrow> tree_entry list \<Rightarrow> bool" where
  "namespace_ok u es \<longleftrightarrow> distinct (map entry_path es) \<and>
     (\<forall>e \<in> set es. \<forall>f \<in> set es. \<not> strict_ancestor (entry_path e) (entry_path f)) \<and>
     portable_set u (implied_paths es)"

lemma namespace_Inr:
  "(\<exists>byPath ns ns'. claim_entries u es Map.empty Map.empty = Inr (byPath, ns) \<and> claim_parents u byPath es ns = Inr ns')
    \<longleftrightarrow> namespace_ok u es"
proof -
  let ?P = "entry_path ` set es" and ?A = "\<Union>e \<in> set es. ancestors (entry_path e)"
  have apart: "?A \<inter> ?P = {} \<longleftrightarrow> (\<forall>e \<in> set es. \<forall>f \<in> set es. \<not> strict_ancestor (entry_path e) (entry_path f))"
    by blast
  have sum: "?A \<union> ?P = implied_paths es" by (auto simp: implied_paths_def)
  note claims = claim_entries_Inr [OF represents_empty, where byPath = Map.empty and es = es, simplified]
  show ?thesis
  proof (cases "claim_entries u es Map.empty Map.empty")
    case (Inl e)
    then have "\<not> (distinct (map entry_path es) \<and> portable_set u ?P)" using claims(1) [of u] by simp
    then have "\<not> namespace_ok u es"
      using inj_on_subset [of _ "implied_paths es" ?P] by (auto simp: namespace_ok_def implied_paths_def)
    with Inl show ?thesis by simp
  next
    case (Inr r)
    obtain byPath ns where r: "r = (byPath, ns)" by (cases r)
    have rep: "represents u ns ?P" "dom byPath = ?P" using claims(2) Inr r by blast+
    have "distinct (map entry_path es)" using claims(1) [of u] Inr by simp
    then show ?thesis
      using claim_parents_Inr [OF rep(1), of byPath es] Inr r by (simp add: rep(2) apart sum namespace_ok_def)
  qed
qed

subsection \<open>Canonical entries\<close>

definition tree_limits_valid :: "tree_manifest_limits \<Rightarrow> bool" where
  "tree_limits_valid limits \<longleftrightarrow> assertTreeManifestLimits limits = Inr ()"

fun entry_ok :: "unicode \<Rightarrow> workspace_path_limits \<Rightarrow> tree_entry \<Rightarrow> bool" where
  "entry_ok u limits (Regular_entry path oid mode) \<longleftrightarrow> limits_valid limits \<and> path_ok u False limits path \<and> oid_text oid \<and>
     (case mode of None \<Rightarrow> True | Some n \<Rightarrow> 0 \<le> n \<and> n \<le> 4095)"
| "entry_ok u limits (Symlink_entry path target kind) \<longleftrightarrow> limits_valid limits \<and> path_ok u False limits path \<and>
     target \<noteq> [] \<and> 0 \<notin> set target \<and> isWellFormed target"

lemma validateEntryPath_Inr: "validateEntryPath u p limits = Inr x \<longleftrightarrow> limits_valid limits \<and> path_ok u False limits p"
proof (cases "canonicalWorkspaceRelativePath u (JStr p) False limits")
  case (Inl e)
  then have "\<not> (limits_valid limits \<and> path_ok u False limits p)"
    using canonicalWorkspaceRelativePath_Inr [of u "JStr p" False limits p] by simp
  with Inl show ?thesis by (simp add: validateEntryPath_def)
next
  case (Inr q)
  then have "limits_valid limits \<and> path_ok u False limits p"
    using canonicalWorkspaceRelativePath_Inr [of u "JStr p" False limits q] by simp
  with Inr show ?thesis by (simp add: validateEntryPath_def)
qed

lemma validateRecreationMode_Inr: "validateRecreationMode v = Inr m \<longleftrightarrow> v = mode_value m \<and>
    (case m of None \<Rightarrow> True | Some n \<Rightarrow> 0 \<le> n \<and> n \<le> 4095)"
  by (cases v; cases m)
    (auto simp: validateRecreationMode_def mode_value_def isSafeInteger_def MAX_SAFE_INTEGER_def)

lemma link_kind_Inr: "link_kind_of v = Inr k \<longleftrightarrow> v = link_value k"
  by (auto simp: link_kind_of_def link_value_def split: option.splits symlink_kind.splits)

lemma validate_regular_Inr: "validate_regular p members = Inr e \<Longrightarrow>
    \<exists>oid mode. e = Regular_entry p oid mode \<and> oid_text oid \<and> (case mode of None \<Rightarrow> True | Some n \<Rightarrow> 0 \<le> n \<and> n \<le> 4095)"
proof -
  assume a: "validate_regular p members = Inr e"
  then obtain oid where oid: "js_field members ''blobOid'' = JStr oid"
    unfolding validate_regular_def by (cases "js_field members ''blobOid''") (auto split: if_splits)
  with a obtain mode where "oid_text oid" "validateRecreationMode (js_field members ''recreationMode'') = Inr mode"
      "e = Regular_entry p oid mode"
    unfolding validate_regular_def oid js_value.case by (auto split: if_splits)
  then show ?thesis unfolding validateRecreationMode_Inr by blast
qed

lemma validate_symlink_Inr: "validate_symlink p members = Inr e \<Longrightarrow>
    \<exists>target kind. e = Symlink_entry p target kind \<and> target \<noteq> [] \<and> 0 \<notin> set target \<and> isWellFormed target"
  unfolding validate_symlink_def
  by (cases "js_field members ''target''") (auto split: if_splits)

lemma validateEntry_ok:
  assumes "validateEntry u v limits = Inr e"
  shows "entry_ok u limits e"
proof -
  obtain members p where p: "v = JObj members" "js_field members ''path'' = JStr p"
    using assms unfolding validateEntry_def by (cases v; cases "js_field (case v of JObj m \<Rightarrow> m) ''path''") auto
  have "limits_valid limits \<and> path_ok u False limits p"
    and "validate_regular p members = Inr e \<or> validate_symlink p members = Inr e"
    using assms unfolding validateEntry_def p(1) js_value.case p(2)
    by (simp_all only: rbind_eq_Inr validateEntryPath_Inr) (metis Inl_Inr_False)+
  then show ?thesis using validate_regular_Inr validate_symlink_Inr by fastforce
qed

lemma entry_limits: "entry_ok u limits e \<Longrightarrow> validateEntryPath u (entry_path e) limits = Inr ()"
  by (cases e) (simp_all add: validateEntryPath_Inr)

lemma validateEntry_value: "entry_ok u limits e \<Longrightarrow> validateEntry u (entry_value e) limits = Inr e"
proof (cases e)
  case (Regular_entry p oid mode)
  assume ok: "entry_ok u limits e"
  have "validateRecreationMode (mode_value mode) = Inr mode" using ok Regular_entry by (simp add: validateRecreationMode_Inr)
  then show ?thesis using ok entry_limits [OF ok] Regular_entry
    by (simp add: validateEntry_def validate_regular_def exactKeys_def js_field_def)
next
  case (Symlink_entry p target kind)
  assume ok: "entry_ok u limits e"
  have "link_kind_of (link_value kind) = Inr kind" by (simp add: link_kind_Inr)
  then show ?thesis using ok entry_limits [OF ok] Symlink_entry
    by (simp add: validateEntry_def validate_symlink_def exactKeys_def js_field_def)
qed

abbreviation entries_ascending :: "tree_entry list \<Rightarrow> bool" where
  "entries_ascending \<equiv> sorted_wrt (\<lambda>x y. compareUtf8 (entry_path x) (entry_path y) \<le> 0)"

lemma canonicalizeTreeEntries_Inr:
  "(\<exists>ns. canonicalizeTreeEntries u v limits = Inr (es, ns)) \<longleftrightarrow>
     tree_limits_valid limits \<and> int (length es) \<le> maxEntries limits \<and>
     (\<exists>vs listed. v = JArr vs \<and> list_all2 (\<lambda>v e. validateEntry u v (pathLimits limits) = Inr e) vs listed \<and>
        es = js_sort (\<lambda>x y. compareUtf8 (entry_path x) (entry_path y)) listed) \<and> namespace_ok u es"
proof (cases v)
  case (JArr vs)
  show ?thesis
    unfolding namespace_Inr [symmetric] tree_limits_valid_def
    by (auto simp: canonicalizeTreeEntries_def JArr rbind_eq_Inr rmap_eq_Inr Let_def dest: list_all2_lengthD
        split: if_splits)
qed (auto simp: canonicalizeTreeEntries_def rbind_eq_Inr)

definition entries_ok :: "unicode \<Rightarrow> tree_manifest_limits \<Rightarrow> tree_entry list \<Rightarrow> bool" where
  "entries_ok u limits es \<longleftrightarrow> tree_limits_valid limits \<and> int (length es) \<le> maxEntries limits \<and>
     list_all (entry_ok u (pathLimits limits)) es \<and> entries_ascending es \<and> namespace_ok u es"

lemma canonical_entries_ok: "canonicalizeTreeEntries u v limits = Inr (es, ns) \<Longrightarrow> entries_ok u limits es"
proof -
  assume "canonicalizeTreeEntries u v limits = Inr (es, ns)"
  then obtain vs listed where l: "tree_limits_valid limits" "int (length es) \<le> maxEntries limits" "namespace_ok u es"
      "list_all2 (\<lambda>v e. validateEntry u v (pathLimits limits) = Inr e) vs listed"
      "es = js_sort (\<lambda>x y. compareUtf8 (entry_path x) (entry_path y)) listed"
    using canonicalizeTreeEntries_Inr [of u v limits es] by blast
  have "entry_ok u (pathLimits limits) e" if "e \<in> set listed" for e
  proof -
    obtain i where "i < length listed" "e = listed ! i" using \<open>e \<in> set listed\<close> by (auto simp: in_set_conv_nth)
    then show ?thesis using list_all2_nthD2 [OF l(4)] by (blast intro: validateEntry_ok)
  qed
  then show ?thesis
    using l(1,2,3) utf8_order.ascending_sort [of entry_path listed]
    unfolding entries_ok_def l(5) by (simp add: list_all_iff)
qed

lemma canonical_entries_value:
  "entries_ok u limits es \<Longrightarrow> \<exists>ns. canonicalizeTreeEntries u (JArr (map entry_value es)) limits = Inr (es, ns)"
proof -
  assume ok: "entries_ok u limits es"
  have "list_all2 (\<lambda>v e. validateEntry u v (pathLimits limits) = Inr e) (map entry_value es) es"
    using ok by (simp add: entries_ok_def list_all_iff list_all2_map1 list.rel_refl_strong validateEntry_value)
  moreover have "js_sort (\<lambda>x y. compareUtf8 (entry_path x) (entry_path y)) es = es"
    using ok by (intro utf8_order.sort_ascending) (simp add: entries_ok_def)
  ultimately show ?thesis
    using ok unfolding canonicalizeTreeEntries_Inr entries_ok_def by metis
qed

subsection \<open>Members of the namespace\<close>

lemma claim_entries_members:
  "claim_entries u es byPath ns = Inr (byPath', ns') \<Longrightarrow> ns \<subseteq>\<^sub>m ns' \<and>
     (\<forall>e \<in> set es. ns' (portableWorkspacePathKey u (entry_path e)) = Some (Entry_member (entry_path e) e))"
proof (induction es arbitrary: byPath ns)
  case (Cons e es)
  let ?k = "portableWorkspacePathKey u (entry_path e)"
  have step: "ns ?k = None"
      "claim_entries u es (byPath(entry_path e \<mapsto> e)) (ns(?k \<mapsto> Entry_member (entry_path e) e)) = Inr (byPath', ns')"
    using Cons.prems by (auto simp: Let_def split: if_splits)
  note ih = Cons.IH [OF step(2)]
  have "ns \<subseteq>\<^sub>m ns(?k \<mapsto> Entry_member (entry_path e) e)" using step(1) by (auto simp: map_le_def)
  then have "ns \<subseteq>\<^sub>m ns'" using ih map_le_trans by blast
  moreover have "ns' ?k = Some (Entry_member (entry_path e) e)"
    using ih unfolding map_le_def by (metis domI fun_upd_same)
  ultimately show ?case using ih by simp
qed simp

lemma claim_ancestors_members: "claim_ancestors u byPath path ns = Inr ns' \<Longrightarrow> ns \<subseteq>\<^sub>m ns'"
proof (induction path arbitrary: ns rule: length_induct)
  case (1 path)
  show ?case
  proof (cases path rule: lastSlash_cases)
    case none
    then show ?thesis using 1(2) by (subst (asm) claim_ancestors.simps) simp
  next
    case (some q t)
    let ?k = "portableWorkspacePathKey u q"
    have shorter: "length q < length path" using some(2) by simp
    have step: "claim_ancestors u byPath path ns = (if byPath q \<noteq> None then invalidManifest
        else case ns ?k of
          Some owner \<Rightarrow> if member_path owner \<noteq> q then invalidManifest else claim_ancestors u byPath q ns
        | None \<Rightarrow> claim_ancestors u byPath q (ns(?k \<mapsto> Directory_member q)))"
      using some(1,4) by (subst claim_ancestors.simps) (simp add: Let_def)
    show ?thesis
    proof (cases "ns ?k")
      case None
      then have "claim_ancestors u byPath q (ns(?k \<mapsto> Directory_member q)) = Inr ns'"
        using 1(2) step by (simp split: if_splits)
      then have "ns(?k \<mapsto> Directory_member q) \<subseteq>\<^sub>m ns'" using 1(1) shorter by blast
      moreover have "ns \<subseteq>\<^sub>m ns(?k \<mapsto> Directory_member q)" using None by (auto simp: map_le_def)
      ultimately show ?thesis using map_le_trans by blast
    next
      case (Some owner)
      then have "claim_ancestors u byPath q ns = Inr ns'" using 1(2) step by (simp split: if_splits)
      then show ?thesis using 1(1) shorter by blast
    qed
  qed
qed

lemma claim_parents_members: "claim_parents u byPath es ns = Inr ns' \<Longrightarrow> ns \<subseteq>\<^sub>m ns'"
proof (induction es arbitrary: ns)
  case (Cons e es)
  then obtain ns1 where "claim_ancestors u byPath (entry_path e) ns = Inr ns1" "claim_parents u byPath es ns1 = Inr ns'"
    by (auto simp: rbind_eq_Inr)
  then show ?case using Cons.IH claim_ancestors_members map_le_trans by blast
qed simp

lemma canonical_namespace:
  assumes "canonicalizeTreeEntries u v limits = Inr (es, ns)"
  shows "rbind (claim_entries u es Map.empty Map.empty) (\<lambda>(byPath, ns). claim_parents u byPath es ns) = Inr ns"
  using assms by (cases v) (auto simp: canonicalizeTreeEntries_def rbind_eq_Inr Let_def split: if_splits)

lemma canonical_entries_members:
  assumes "canonicalizeTreeEntries u v limits = Inr (es, ns)" and "e \<in> set es"
  shows "ns (portableWorkspacePathKey u (entry_path e)) = Some (Entry_member (entry_path e) e)"
proof -
  obtain byPath ns0 where "claim_entries u es Map.empty Map.empty = Inr (byPath, ns0)"
      "claim_parents u byPath es ns0 = Inr ns"
    using canonical_namespace [OF assms(1)] by (auto simp: rbind_eq_Inr)
  then show ?thesis
    using claim_entries_members claim_parents_members assms(2) unfolding map_le_def by (metis domI)
qed

subsection \<open>Bound ignore sources\<close>

text \<open>Every policy source stands for a source of the scope whose path has that portable key and whose
  content the tree holds there, when it holds anything.\<close>

definition policy_entry_bound :: "(bytes \<Rightarrow> js_string) \<Rightarrow> unicode \<Rightarrow> namespace \<Rightarrow> git_scope \<Rightarrow> workspace_path_limits \<Rightarrow>
    js_string \<Rightarrow> js_string \<Rightarrow> bool" where
  "policy_entry_bound sha256 u ns g limits k p \<longleftrightarrow> portableWorkspacePathKey u p = k \<and>
     (\<exists>s \<in> set (gitignoreSources g). workspaceLocalGitignorePath u g (src_path s) limits = Inr (Some p) \<and>
       (case ns k of None \<Rightarrow> True
        | Some (Entry_member _ (Regular_entry _ oid _)) \<Rightarrow> oid = sha256 (base64_decode (contentsBase64 s))
        | Some _ \<Rightarrow> False))"

definition policy_bound :: "unicode \<Rightarrow> (bytes \<Rightarrow> js_string) \<Rightarrow> namespace \<Rightarrow> git_scope \<Rightarrow> workspace_path_limits \<Rightarrow>
    policy_namespace \<Rightarrow> bool" where
  "policy_bound u sha256 ns g limits policy \<longleftrightarrow>
     (\<forall>k p. policy k = Some (Policy_source, p) \<longrightarrow> policy_entry_bound sha256 u ns g limits k p)"

lemma add_policy_directory_sources:
  "addPolicyDirectory u ns path policy = Inr policy' \<Longrightarrow> policy' k = Some (Policy_source, p) \<longleftrightarrow>
     policy k = Some (Policy_source, p)"
  by (auto simp: addPolicyDirectory_def Let_def split: if_splits option.splits)

lemma add_policy_ancestors_sources:
  "add_policy_ancestors u ns path policy = Inr policy' \<Longrightarrow> policy' k = Some (Policy_source, p) \<longleftrightarrow>
     policy k = Some (Policy_source, p)"
proof (induction path arbitrary: policy rule: length_induct)
  case (1 path)
  show ?case
  proof (cases path rule: lastSlash_cases)
    case none
    then show ?thesis using 1(2) by (subst (asm) add_policy_ancestors.simps) simp
  next
    case (some q t)
    then have "rbind (addPolicyDirectory u ns q policy) (add_policy_ancestors u ns q) = Inr policy'"
      using 1(2) by (subst (asm) add_policy_ancestors.simps) (simp add: Let_def)
    then obtain policy1 where "addPolicyDirectory u ns q policy = Inr policy1"
        "add_policy_ancestors u ns q policy1 = Inr policy'" by blast
    moreover have "length q < length path" using some(2) by simp
    ultimately show ?thesis using 1(1) add_policy_directory_sources by blast
  qed
qed

lemma bind_source_bound:
  assumes "policy_bound u sha256 ns g limits policy" and "s \<in> set (gitignoreSources g)"
    and "bind_source u sha256 ns g limits s policy = Inr policy'"
  shows "policy_bound u sha256 ns g limits policy'"
proof (cases "workspaceLocalGitignorePath u g (src_path s) limits")
  case (Inl e)
  with assms(3) show ?thesis by (simp add: bind_source_def)
next
  case (Inr localPath)
  show ?thesis
  proof (cases localPath)
    case None
    with Inr assms show ?thesis by (simp add: bind_source_def)
  next
    case (Some path)
    let ?k = "portableWorkspacePathKey u path"
    obtain policy1 where p1: "add_policy_ancestors u ns path policy = Inr policy1"
        "policy' = policy1(?k \<mapsto> (Policy_source, path))"
      and target: "\<not> (case ns ?k of None \<Rightarrow> False
          | Some (Entry_member _ (Regular_entry _ oid _)) \<Rightarrow> oid \<noteq> sha256 (base64_decode (contentsBase64 s))
          | Some _ \<Rightarrow> True)"
      using assms(3) Inr Some unfolding bind_source_def
      by (simp only: rbind_Inr option.case Let_def guard_eq_Inr rbind_eq_Inr sum.inject) blast
    have "policy_bound u sha256 ns g limits policy1"
      using assms(1) unfolding policy_bound_def add_policy_ancestors_sources [OF p1(1)] .
    moreover have "policy_entry_bound sha256 u ns g limits ?k path"
      unfolding policy_entry_bound_def using target Inr Some assms(2)
      by (intro conjI bexI [of _ s]) (auto split: option.splits namespace_member.splits tree_entry.splits)
    ultimately show ?thesis by (simp add: policy_bound_def p1(2))
  qed
qed

lemma bind_sources_bound:
  "policy_bound u sha256 ns g limits policy \<Longrightarrow> set ss \<subseteq> set (gitignoreSources g) \<Longrightarrow>
     bind_sources u sha256 ns g limits ss policy = Inr policy' \<Longrightarrow> policy_bound u sha256 ns g limits policy'"
proof (induction ss arbitrary: policy)
  case (Cons s ss)
  then obtain policy1 where "bind_source u sha256 ns g limits s policy = Inr policy1"
      "bind_sources u sha256 ns g limits ss policy1 = Inr policy'" by (auto simp: rbind_eq_Inr)
  moreover from this have "policy_bound u sha256 ns g limits policy1"
    using Cons.prems(2) by (intro bind_source_bound [OF Cons.prems(1)]) simp_all
  ultimately show ?case using Cons.IH Cons.prems by simp
qed simp

lemma manifest_failure_Inr: "manifest_failure r = Inr x \<longleftrightarrow> r = Inr x"
  by (auto simp: manifest_failure_def split: sum.splits js_error.splits)

lemma canonical_manifest_parts:
  assumes "canonicalizeTreeManifest u sha256 v w limits = Inr (es, scope)"
  obtains ns where "canonicalizeTreeEntries u v limits = Inr (es, ns)"
    and "canonicalizeWorkspaceScope u w (pathLimits limits) = Inr scope"
    and "validateTreeScopeBindings u sha256 es ns scope limits = Inr ()"
  using assms
  by (auto simp: canonicalizeTreeManifest_def canonicalizeTreeManifestUsingScopeCodec_def rbind_eq_Inr manifest_failure_Inr)

lemma manifest_rendered: "rendered (manifest_value m)"
proof -
  have "rendered (entry_value e)" for e
    by (cases e) (auto simp: mode_value_def link_value_def split: option.splits symlink_kind.splits)
  then show ?thesis by (simp add: manifest_value_def scope_rendered list_all_iff)
qed

lemma entry_value_inj: "inj entry_value"
proof (rule injI)
  fix e f assume "entry_value e = entry_value f"
  then show "e = f"
    by (cases e; cases f)
      (auto simp: mode_value_def link_value_def split: option.splits symlink_kind.splits)
qed

lemma well_formed_line: "isWellFormed [0x0A]"
  by (rule well_formed_plain) simp

subsection \<open>Properties\<close>

definition sample_sha256 :: "bytes \<Rightarrow> js_string" where
  "sample_sha256 bs = replicate 64 0x61"

definition sample_entries :: "tree_entry list" where
  "sample_entries = [Regular_entry (js ''.gitignore'') (replicate 64 0x61) (Some 420),
     Symlink_entry (js ''src/a'') (js ''../b'') None]"

definition sample_scope :: git_scope where
  "sample_scope = \<lparr>repositoryPrefix = [], evaluator = None, ignoreCase = False,
     gitignoreSources = [\<lparr>src_path = js ''.gitignore'', contentsBase64 = js ''dG1w''\<rparr>],
     infoExcludeBase64 = [], globalExcludeBase64 = []\<rparr>"

definition sample_limits :: tree_manifest_limits where
  "sample_limits = \<lparr>maxEntries = 10, maxManifestBytes = 10000, pathLimits = ABSOLUTE_WORKSPACE_PATH_LIMITS\<rparr>"

lemma sample_accepted:
  "canonicalizeTreeManifest plain_unicode sample_sha256 (JArr (map entry_value (rev sample_entries)))
     (scope_value (Git_scope sample_scope)) sample_limits = Inr (sample_entries, Git_scope sample_scope)"
  by code_simp

text \<open>C15. Accepted trees are sound: the entries of a canonical manifest are individually valid, in byte
  order without a repeated path, no entry lies below another entry, and no two of the paths and directories
  they imply are confused by a case-insensitive, normalizing file system.\<close>

theorem canonical_trees_are_sound:
  assumes "canonicalizeTreeManifest u sha256 v w limits = Inr (es, scope)"
  shows "int (length es) \<le> maxEntries limits \<and> list_all (entry_ok u (pathLimits limits)) es \<and>
    sorted_wrt (\<lambda>x y. compareUtf8 (entry_path x) (entry_path y) < 0) es \<and>
    (\<forall>e \<in> set es. \<forall>f \<in> set es. \<not> strict_ancestor (entry_path e) (entry_path f)) \<and>
    inj_on (portableWorkspacePathKey u) (implied_paths es)"
proof -
  obtain ns where "canonicalizeTreeEntries u v limits = Inr (es, ns)" using assms by (rule canonical_manifest_parts)
  then have ok: "entries_ok u limits es" by (rule canonical_entries_ok)
  have "sorted_wrt (\<lambda>x y. compareUtf8 (entry_path x) (entry_path y) < 0) es"
    if "entries_ascending es" "distinct (map entry_path es)" "list_all (entry_ok u (pathLimits limits)) es"
    using that
  proof (induction es)
    case (Cons e es)
    have "compareUtf8 (entry_path e) (entry_path f) < 0" if "f \<in> set es" for f
    proof -
      have "isWellFormed (entry_path e)" "isWellFormed (entry_path f)"
        using Cons.prems(3) that by (cases e; cases f; force simp: path_ok_def list_all_iff)+
      moreover have "entry_path e \<noteq> entry_path f" using Cons.prems(2) that by auto
      ultimately have "compareUtf8 (entry_path e) (entry_path f) \<noteq> 0" by (simp add: compareUtf8_zero)
      with Cons.prems(1) that show ?thesis by force
    qed
    with Cons show ?case by simp
  qed simp
  with ok show ?thesis by (simp add: entries_ok_def namespace_ok_def)
qed

theorem canonical_trees_are_sound_witness:
  "sorted_wrt (\<lambda>x y. compareUtf8 (entry_path x) (entry_path y) < 0) sample_entries"
  using canonical_trees_are_sound [OF sample_accepted] by simp

text \<open>Canonical trees are fixed: a manifest that was accepted is accepted again, as it is.\<close>

theorem canonical_trees_are_fixed:
  assumes "canonicalizeTreeManifest u sha256 v w limits = Inr (es, scope)"
  shows "canonicalizeTreeManifest u sha256 (JArr (map entry_value es)) (scope_value scope) limits = Inr (es, scope)"
proof -
  obtain ns where parts: "canonicalizeTreeEntries u v limits = Inr (es, ns)"
      "canonicalizeWorkspaceScope u w (pathLimits limits) = Inr scope"
      "validateTreeScopeBindings u sha256 es ns scope limits = Inr ()"
    using assms by (rule canonical_manifest_parts)
  obtain ns' where again: "canonicalizeTreeEntries u (JArr (map entry_value es)) limits = Inr (es, ns')"
    using canonical_entries_value [OF canonical_entries_ok [OF parts(1)]] by blast
  have "ns' = ns" using canonical_namespace [OF parts(1)] canonical_namespace [OF again] by simp
  with parts(3) again canonical_scope_value [OF canonical_scope_ok [OF parts(2)]] show ?thesis
    by (simp add: canonicalizeTreeManifest_def canonicalizeTreeManifestUsingScopeCodec_def manifest_failure_def)
qed

theorem canonical_trees_are_fixed_witness:
  "canonicalizeTreeManifest plain_unicode sample_sha256 (JArr (map entry_value sample_entries))
     (scope_value (Git_scope sample_scope)) sample_limits = Inr (sample_entries, Git_scope sample_scope)"
  by (rule canonical_trees_are_fixed [OF sample_accepted])

text \<open>Archived ignore files: in a tree of a Git scope, a regular entry named \<open>.gitignore\<close> up to
  portable case is one of the sources of the scope, and its blob is the digest of the archived bytes.\<close>

theorem archived_ignore_files_match:
  assumes "canonicalizeTreeManifest u sha256 v w limits = Inr (es, Git_scope g)"
    and "Regular_entry path oid mode \<in> set es"
    and "portableWorkspacePathKey u (base_name path) = js ''.gitignore''"
  shows "\<exists>s \<in> set (gitignoreSources g). \<exists>p.
    workspaceLocalGitignorePath u g (src_path s) (pathLimits limits) = Inr (Some p) \<and>
    portableWorkspacePathKey u p = portableWorkspacePathKey u path \<and>
    oid = sha256 (base64_decode (contentsBase64 s))"
proof -
  obtain ns where parts: "canonicalizeTreeEntries u v limits = Inr (es, ns)"
      "validateTreeScopeBindings u sha256 es ns (Git_scope g) limits = Inr ()"
    using assms(1) by (rule canonical_manifest_parts)
  obtain policy where policy:
      "bind_sources u sha256 ns g (pathLimits limits) (gitignoreSources g) Map.empty = Inr policy"
      "list_all (ignore_entry_bound u policy) es"
    using parts(2) by (auto simp: validateTreeScopeBindings_def rbind_eq_Inr split: if_splits)
  have bound: "policy_bound u sha256 ns g (pathLimits limits) policy"
    by (rule bind_sources_bound [OF _ _ policy(1)]) (simp_all add: policy_bound_def)
  have "ignore_entry_bound u policy (Regular_entry path oid mode)"
    using policy(2) assms(2) by (simp add: list_all_iff)
  then obtain p where p: "policy (portableWorkspacePathKey u path) = Some (Policy_source, p)"
    using assms(3) by (auto simp: ignore_entry_bound_def split: option.splits policy_kind.splits)
  have "ns (portableWorkspacePathKey u path) = Some (Entry_member path (Regular_entry path oid mode))"
    using canonical_entries_members [OF parts(1) assms(2)] by simp
  with bound p show ?thesis unfolding policy_bound_def policy_entry_bound_def by fastforce
qed

theorem archived_ignore_files_match_witness:
  "\<exists>s \<in> set (gitignoreSources sample_scope). sample_sha256 (base64_decode (contentsBase64 s)) = replicate 64 0x61"
proof -
  have "Regular_entry (js ''.gitignore'') (replicate 64 0x61) (Some 420) \<in> set sample_entries"
    by (simp add: sample_entries_def)
  moreover have "portableWorkspacePathKey plain_unicode (base_name (js ''.gitignore'')) = js ''.gitignore''" by code_simp
  ultimately show ?thesis using archived_ignore_files_match [OF sample_accepted] by metis
qed

text \<open>C16. A tree id names one tree: two manifests whose documents are the same bytes are the same, for
  entries and scopes of any origin and any two sets of limits.\<close>

theorem document_determines_the_tree:
  assumes "encodeTreeManifestDocument format es scope limits = Inr bytes"
    and "encodeTreeManifestDocument format' es' scope' limits' = Inr bytes"
  shows "format' = format \<and> es' = es \<and> scope' = scope"
proof -
  define v v' where "v = manifest_value \<lparr>tm_format = format, tm_entries = es, tm_scope = scope\<rparr>"
    and "v' = manifest_value \<lparr>tm_format = format', tm_entries = es', tm_scope = scope'\<rparr>"
  have "utf8_bytes (json v @ [0x0A]) = bytes" "utf8_bytes (json v' @ [0x0A]) = bytes"
    using assms by (auto simp: encodeTreeManifestDocument_def Let_def rbind_eq_Inr v_def v'_def split: if_splits)
  then have "json v @ [0x0A] = json v' @ [0x0A]"
    using utf8_bytes_inj by (metis json_well_formed(1) well_formed_append well_formed_line)
  then have "v = v'" using json_inj manifest_rendered unfolding v_def v'_def by blast
  then show ?thesis
    unfolding v_def v'_def manifest_value_def
    by (simp add: scope_value_inj inj_map_eq_map [OF entry_value_inj])
qed

theorem document_determines_the_tree_witness:
  "encodeTreeManifestDocument (js ''v3'') sample_entries (Git_scope sample_scope) sample_limits \<noteq>
   encodeTreeManifestDocument (js ''v3'') [] All_managed sample_limits"
proof -
  have "\<not> isl (encodeTreeManifestDocument (js ''v3'') [] All_managed sample_limits)" by code_simp
  then obtain b where b: "encodeTreeManifestDocument (js ''v3'') [] All_managed sample_limits = Inr b"
    by (cases "encodeTreeManifestDocument (js ''v3'') [] All_managed sample_limits") auto
  show ?thesis
  proof
    assume "encodeTreeManifestDocument (js ''v3'') sample_entries (Git_scope sample_scope) sample_limits =
        encodeTreeManifestDocument (js ''v3'') [] All_managed sample_limits"
    from document_determines_the_tree [OF b, of "js ''v3''" sample_entries "Git_scope sample_scope" sample_limits]
      this b show False by simp
  qed
qed

end
