(* ===== verification/Restore_Plan.thy ===== *)
theory Restore_Plan
  imports Tree_Manifest
begin

text \<open>
  Restore planning: the scanner's inventory types and their equality (\<^verbatim>\<open>workspace-scan.ts\<close>), the one
  logical plan shared by preview, staging and apply (\<^verbatim>\<open>restore-plan.ts\<close>) and the evaluator risk of a
  replayed policy (\<^verbatim>\<open>git-replay-risk.ts\<close>). Walking the file system is not modelled; what the walk
  returns is.
\<close>

subsection \<open>Inventories\<close>

text \<open>A regular entry of a physical scan carries its source path; of a logical state, none.\<close>

datatype workspace_entry =
    Regular_file (we_path: js_string) (we_mode: "int option") (we_byteLength: int) (we_sha256: js_string)
      (we_sourcePath: "js_string option")
  | Symbolic_link (we_path: js_string) (we_target: js_string) (we_symlinkKind: "symlink_kind option")

datatype occupancy_kind = Occupied_regular | Occupied_symlink | Occupied_directory | Occupied_other

record occupancy =
  oc_path :: js_string
  oc_kind :: occupancy_kind

record occupancy_observation = occupancy +
  oc_dev :: int
  oc_ino :: int

datatype scan_problem_kind =
    Too_large | Read_failed | Unsupported | Hardlink | Cross_device | Path_collision | Scope_mismatch | Scope_blocker

record scan_problem =
  sp_path :: js_string
  sp_kind :: scan_problem_kind

record directory_observation =
  do_path :: js_string
  do_dev :: int
  do_ino :: int

record workspace_state =
  ws_entries :: "workspace_entry list"
  ws_excluded :: "occupancy_observation list"
  ws_problems :: "scan_problem list"
  ws_scope :: workspace_scope

record workspace_snapshot = workspace_state +
  gitOracleVersion :: "js_string option"
  rootPath :: js_string
  directoryObservations :: "directory_observation list"

fun entry_equal :: "workspace_entry \<Rightarrow> workspace_entry \<Rightarrow> bool" where
  "entry_equal (Regular_file p m n h s) (Regular_file p' m' n' h' s') \<longleftrightarrow> p = p' \<and> n = n' \<and> h = h' \<and> m = m'"
| "entry_equal (Symbolic_link p t k) (Symbolic_link p' t' k') \<longleftrightarrow> p = p' \<and> t = t' \<and> k = k'"
| "entry_equal _ _ \<longleftrightarrow> False"

definition entriesEqual :: "workspace_entry list \<Rightarrow> workspace_entry list \<Rightarrow> bool" where
  "entriesEqual left right \<longleftrightarrow> list_all2 entry_equal left right"

definition excludedOccupanciesEqual :: "occupancy_observation list \<Rightarrow> occupancy_observation list \<Rightarrow> bool" where
  "excludedOccupanciesEqual left right \<longleftrightarrow> list_all2 (\<lambda>a b. oc_path a = oc_path b \<and> oc_kind a = oc_kind b) left right"

definition directoryObservationsEqual :: "directory_observation list \<Rightarrow> directory_observation list \<Rightarrow> bool" where
  "directoryObservationsEqual left right \<longleftrightarrow>
     list_all2 (\<lambda>a b. do_path a = do_path b \<and> do_dev a = do_dev b \<and> do_ino a = do_ino b) left right"

definition workspaceSnapshotsEqual :: "unicode \<Rightarrow> workspace_snapshot \<Rightarrow> workspace_snapshot \<Rightarrow> bool result" where
  "workspaceSnapshotsEqual u left right =
     (if rootPath left \<noteq> rootPath right \<or> gitOracleVersion left \<noteq> gitOracleVersion right then Inr False
      else rbind (workspaceScopesEqual u (ws_scope left) (ws_scope right) ABSOLUTE_WORKSPACE_PATH_LIMITS) (\<lambda>same.
        Inr (same \<and> entriesEqual (ws_entries left) (ws_entries right) \<and>
          excludedOccupanciesEqual (ws_excluded left) (ws_excluded right) \<and>
          directoryObservationsEqual (directoryObservations left) (directoryObservations right))))"

fun workspaceEntryAsTreeEntry :: "workspace_entry \<Rightarrow> tree_entry" where
  "workspaceEntryAsTreeEntry (Regular_file p m n h s) = Regular_entry p h m"
| "workspaceEntryAsTreeEntry (Symbolic_link p t k) = Symlink_entry p t k"

subsection \<open>Evaluator risk\<close>

datatype git_replay_risk =
    No_risk
  | Legacy_unattested "js_string option"
  | Version_mismatch js_string "js_string option"

definition gitReplayRisk :: "workspace_scope \<Rightarrow> js_string option \<Rightarrow> git_replay_risk" where
  "gitReplayRisk scope currentGitVersion =
     (case scope of
        All_managed \<Rightarrow> No_risk
      | Git_scope g \<Rightarrow>
          (case evaluator g of
             None \<Rightarrow> Legacy_unattested currentGitVersion
           | Some e \<Rightarrow> if Some (ev_version e) \<noteq> currentGitVersion then Version_mismatch (ev_version e) currentGitVersion
                      else No_risk))"

definition sameGitOracleVersion :: "js_string option \<Rightarrow> js_string option \<Rightarrow> bool" where
  "sameGitOracleVersion left right \<longleftrightarrow> left = right"

subsection \<open>Plans\<close>

record scope_blocker =
  sb_path :: js_string
  sb_targetPath :: js_string

record path_rename =
  rename_from :: js_string
  rename_to :: js_string

record workspace_restore_plan =
  created :: "js_string list"
  deleted :: "js_string list"
  modified :: "js_string list"
  renamed :: "path_rename list"
  requiredBlobOids :: "js_string list"
  scopeBlockers :: "scope_blocker list"
  occupancyChanged :: "js_string list"
  plan_problems :: "scan_problem list"

text \<open>A comparison target is a manifest that may also name the occupancies it expects.\<close>

record comparison_manifest = tree_manifest +
  excludedOccupancies :: "occupancy list option"

text \<open>\<^verbatim>\<open>new Map(entries)\<close>: the last entry of a key wins.\<close>

definition js_map :: "('k \<times> 'v) list \<Rightarrow> 'k \<rightharpoonup> 'v" where
  "js_map kvs = map_of (rev kvs)"

type_synonym target_map = "js_string \<rightharpoonup> tree_entry"

text \<open>The loop over the separators of a path, from the last one down. On a path that begins with a slash
  \<^verbatim>\<open>lastIndexOf("/", -1)\<close> finds that slash again and the loop does not end; this is the value \<open>None\<close>.\<close>

partial_function (option) target_ancestor_loop :: "js_string \<Rightarrow> target_map \<Rightarrow> int \<Rightarrow> js_string option option" where
  [code]: "target_ancestor_loop path targetByPath separator =
     (if separator \<noteq> - 1
      then let ancestorPath = take (nat separator) path in
        (if targetByPath ancestorPath \<noteq> None then Some (Some ancestorPath)
         else target_ancestor_loop path targetByPath (lastIndexOf path SLASH (separator - 1)))
      else Some None)"

definition nonDirectoryTargetAncestor :: "js_string \<Rightarrow> target_map \<Rightarrow> js_string option option" where
  "nonDirectoryTargetAncestor path targetByPath = target_ancestor_loop path targetByPath (lastSlash path)"

definition nonDirectoryTargetAtOrAbove :: "js_string \<Rightarrow> target_map \<Rightarrow> js_string option option" where
  "nonDirectoryTargetAtOrAbove path targetByPath =
     (if targetByPath path \<noteq> None then Some (Some path) else nonDirectoryTargetAncestor path targetByPath)"

type_synonym blocker_state = "js_string list \<times> scope_blocker list \<times> scan_problem list"

definition addScopeBlocker :: "js_string \<Rightarrow> js_string \<Rightarrow> blocker_state \<Rightarrow> blocker_state" where
  "addScopeBlocker path targetPath = (\<lambda>(blockerKeys, blockers, problems).
     let key = path @ 0 # targetPath in
     if key \<in> set blockerKeys then (blockerKeys, blockers, problems)
     else (blockerKeys @ [key], blockers @ [\<lparr>sb_path = path, sb_targetPath = targetPath\<rparr>],
       problems @ [\<lparr>sp_path = path, sp_kind = Scope_blocker\<rparr>]))"

fun collect_blockers :: "target_map \<Rightarrow> js_string list \<Rightarrow> occupancy_observation list \<Rightarrow> blocker_state \<Rightarrow>
    blocker_state option" where
  "collect_blockers targetByPath implicit [] st = Some st"
| "collect_blockers targetByPath implicit (seen # rest) st =
     (case nonDirectoryTargetAtOrAbove (oc_path seen) targetByPath of
        None \<Rightarrow> None
      | Some found \<Rightarrow>
          let targetPath = (case found of Some p \<Rightarrow> Some p
            | None \<Rightarrow> if oc_path seen \<in> set implicit then Some (oc_path seen) else None)
          in collect_blockers targetByPath implicit rest
               (case targetPath of Some p \<Rightarrow> addScopeBlocker (oc_path seen) p st | None \<Rightarrow> st))"

text \<open>Which of the current entries the target lacks, and which it holds with another content.\<close>

definition entry_modified :: "workspace_entry \<Rightarrow> tree_entry \<Rightarrow> bool" where
  "entry_modified entry wanted =
     (case entry of
        Regular_file _ _ _ h _ \<Rightarrow> (case wanted of Regular_entry _ oid _ \<Rightarrow> oid \<noteq> h | Symlink_entry _ _ _ \<Rightarrow> True)
      | Symbolic_link _ t _ \<Rightarrow> (case wanted of Symlink_entry _ t' _ \<Rightarrow> t' \<noteq> t | Regular_entry _ _ _ \<Rightarrow> True))"

fun classify_entries :: "target_map \<Rightarrow> bool \<Rightarrow> workspace_entry list \<Rightarrow> js_string list \<times> js_string list \<Rightarrow>
    js_string list \<times> js_string list" where
  "classify_entries targetByPath scopeMatches [] dm = dm"
| "classify_entries targetByPath scopeMatches (e # es) (d, m) =
     classify_entries targetByPath scopeMatches es
       (case targetByPath (we_path e) of
          None \<Rightarrow> (if scopeMatches then d @ [we_path e] else d, m)
        | Some wanted \<Rightarrow> (d, if entry_modified e wanted then m @ [we_path e] else m))"

definition occupancy_changes :: "occupancy_observation list \<Rightarrow> occupancy list option \<Rightarrow> js_string list" where
  "occupancy_changes current expected =
     (case expected of
        None \<Rightarrow> []
      | Some expected \<Rightarrow>
          let currentKinds = map (\<lambda>c. (oc_path c, oc_kind c)) current;
              expectedKinds = map (\<lambda>c. (oc_path c, oc_kind c)) expected;
              paths = rev (remdups (rev (map fst currentKinds @ map fst expectedKinds)))
          in filter (\<lambda>p. js_map currentKinds p \<noteq> js_map expectedKinds p) paths)"

fun required_blobs :: "(js_string \<rightharpoonup> workspace_entry) \<Rightarrow> tree_entry list \<Rightarrow> js_string list \<Rightarrow> js_string list" where
  "required_blobs currentByPath [] required = required"
| "required_blobs currentByPath (Symlink_entry p t k # es) required = required_blobs currentByPath es required"
| "required_blobs currentByPath (Regular_entry p oid m # es) required =
     required_blobs currentByPath es
       (case currentByPath p of
          Some (Regular_file _ _ _ h _) \<Rightarrow> if h \<noteq> oid \<and> oid \<notin> set required then required @ [oid] else required
        | _ \<Rightarrow> if oid \<notin> set required then required @ [oid] else required)"

fun implicit_directories :: "tree_entry list \<Rightarrow> js_string list \<Rightarrow> js_string list" where
  "implicit_directories [] into = into"
| "implicit_directories (e # es) into = implicit_directories es (addWorkspacePathAncestors (entry_path e) into)"

definition planWorkspaceRestore :: "unicode \<Rightarrow> 'a workspace_state_scheme \<Rightarrow> comparison_manifest \<Rightarrow>
    workspace_restore_plan result option" where
  "planWorkspaceRestore u current target =
     (let targetByPath = js_map (map (\<lambda>e. (entry_path e, e)) (tm_entries target));
          currentByPath = js_map (map (\<lambda>e. (we_path e, e)) (ws_entries current))
      in case workspaceScopesEqual u (ws_scope current) (tm_scope target) ABSOLUTE_WORKSPACE_PATH_LIMITS of
        Inl e \<Rightarrow> Some (Inl e)
      | Inr scopeMatches \<Rightarrow>
          let problems = ws_problems current @
                (if scopeMatches then [] else [\<lparr>sp_path = js ''.'', sp_kind = Scope_mismatch\<rparr>]);
              (d, m) = classify_entries targetByPath scopeMatches (ws_entries current) ([], []);
              implicit = implicit_directories (tm_entries target) []
          in (case collect_blockers targetByPath implicit (ws_excluded current) ([], [], problems) of
                None \<Rightarrow> None
              | Some (_, blockers, problems) \<Rightarrow>
                  Some (Inr \<lparr>
                    created = js_sort compareUnits (filter (\<lambda>p. currentByPath p = None) (map entry_path (tm_entries target))),
                    deleted = js_sort compareUnits d,
                    modified = js_sort compareUnits m,
                    renamed = [],
                    requiredBlobOids = js_sort compareUnits (required_blobs currentByPath (tm_entries target) []),
                    scopeBlockers = js_sort (\<lambda>x y. compareUnits (sb_path x) (sb_path y)) blockers,
                    occupancyChanged = js_sort compareUnits
                      (occupancy_changes (ws_excluded current) (excludedOccupancies target)),
                    plan_problems = problems\<rparr>)))"

definition restorePlanHasChanges :: "workspace_restore_plan \<Rightarrow> bool" where
  "restorePlanHasChanges plan \<longleftrightarrow> length (created plan) > 0 \<or> length (deleted plan) > 0 \<or> length (modified plan) > 0 \<or>
     length (renamed plan) > 0 \<or> length (occupancyChanged plan) > 0"

definition CURRENT_TREE_MANIFEST_FORMAT :: js_string where
  "CURRENT_TREE_MANIFEST_FORMAT = js ''cyclotomy-tree-v3''"

definition workspaceSnapshotAsManifest :: "'a workspace_state_scheme \<Rightarrow> comparison_manifest" where
  "workspaceSnapshotAsManifest snapshot =
     \<lparr>tm_format = CURRENT_TREE_MANIFEST_FORMAT,
      tm_entries = map workspaceEntryAsTreeEntry (ws_entries snapshot),
      tm_scope = ws_scope snapshot,
      excludedOccupancies = Some (map (\<lambda>c. \<lparr>oc_path = oc_path c, oc_kind = oc_kind c\<rparr>) (ws_excluded snapshot))\<rparr>"

subsection \<open>Maps and separators\<close>

lemma js_map_None: "js_map kvs k = None \<longleftrightarrow> k \<notin> fst ` set kvs"
  by (simp add: js_map_def map_of_eq_None_iff)

lemma js_map_in: "js_map kvs k = Some v \<Longrightarrow> (k, v) \<in> set kvs"
  unfolding js_map_def by (auto dest: map_of_SomeD)

lemma js_map_distinct: "distinct (map fst kvs) \<Longrightarrow> js_map kvs k = Some v \<longleftrightarrow> (k, v) \<in> set kvs"
  unfolding js_map_def by (simp flip: rev_map)

lemma strict_ancestor_at: "strict_ancestor a path \<longleftrightarrow> (\<exists>j < length path. path ! j = SLASH \<and> a = take j path)"
proof
  assume "strict_ancestor a path"
  then obtain t where "path = a @ SLASH # t" by (auto simp: strict_ancestor_def)
  then show "\<exists>j < length path. path ! j = SLASH \<and> a = take j path" by (intro exI [of _ "length a"]) simp
next
  assume "\<exists>j < length path. path ! j = SLASH \<and> a = take j path"
  then show "strict_ancestor a path" unfolding strict_ancestor_def by (metis id_take_nth_drop)
qed

text \<open>Below a separator of a path without a leading slash the loop returns a managed ancestor when there
  is one.\<close>

lemma target_ancestor_loop_returns:
  assumes "path \<noteq> []" and "path ! 0 \<noteq> SLASH" and "i < length path" and "path ! i = SLASH"
  shows "\<exists>r. target_ancestor_loop path T (int i) = Some r \<and>
    (case r of Some a \<Rightarrow> (\<exists>j \<le> i. path ! j = SLASH \<and> a = take j path \<and> T a \<noteq> None)
     | None \<Rightarrow> (\<forall>j \<le> i. path ! j = SLASH \<longrightarrow> T (take j path) = None))"
  using assms(3,4)
proof (induction i rule: less_induct)
  case (less i)
  show ?case
  proof (cases "T (take i path)")
    case (Some e)
    then have "target_ancestor_loop path T (int i) = Some (Some (take i path))"
      by (subst target_ancestor_loop.simps) (simp add: Let_def)
    then show ?thesis using less.prems Some by (intro exI [of _ "Some (take i path)"]) auto
  next
    case None
    have pos: "0 < i" using less.prems assms(2) by (cases i) auto
    let ?next = "lastIndexOf path SLASH (int i - 1)"
    have step: "target_ancestor_loop path T (int i) = target_ancestor_loop path T ?next"
      using None by (subst target_ancestor_loop.simps) (simp add: Let_def)
    have bound: "nat (int i - 1) = i - 1" by simp
    show ?thesis
    proof (cases "?next = - 1")
      case True
      then have "\<forall>j < i. path ! j \<noteq> SLASH"
        using less.prems pos by (auto simp: lastIndexOf_none bound)
      moreover have "target_ancestor_loop path T ?next = Some None"
        unfolding True by (subst target_ancestor_loop.simps) simp
      ultimately show ?thesis
        unfolding step using None by (intro exI [of _ None]) (auto simp: le_less)
    next
      case False
      then obtain k where k: "?next = int k" "k < length path" "k \<le> i - 1" "path ! k = SLASH"
          "\<forall>j < length path. k < j \<and> j \<le> i - 1 \<longrightarrow> path ! j \<noteq> SLASH"
        using lastIndexOf_some [of path SLASH "int i - 1"] unfolding bound by blast
      have below: "k < i" using k(3) pos by linarith
      obtain r where r: "target_ancestor_loop path T (int k) = Some r"
          "case r of Some a \<Rightarrow> (\<exists>j \<le> k. path ! j = SLASH \<and> a = take j path \<and> T a \<noteq> None)
           | None \<Rightarrow> (\<forall>j \<le> k. path ! j = SLASH \<longrightarrow> T (take j path) = None)"
        using less.IH [OF below k(2,4)] by blast
      have gap: "j \<le> k" if "j \<le> i" "path ! j = SLASH" "j \<noteq> i" for j
      proof (rule ccontr)
        assume "\<not> j \<le> k"
        moreover have "j \<le> i - 1" "j < length path" using that less.prems(1) by linarith+
        ultimately show False using k(5) that(2) by auto
      qed
      have "case r of Some a \<Rightarrow> (\<exists>j \<le> i. path ! j = SLASH \<and> a = take j path \<and> T a \<noteq> None)
           | None \<Rightarrow> (\<forall>j \<le> i. path ! j = SLASH \<longrightarrow> T (take j path) = None)"
      proof (cases r)
        case None
        with r(2) gap \<open>T (take i path) = None\<close> show ?thesis by auto
      next
        case (Some a)
        with r(2) below show ?thesis by (auto intro: le_less_trans less_imp_le)
      qed
      then show ?thesis unfolding step k(1) using r(1) by blast
    qed
  qed
qed

lemma ancestor_search:
  assumes "\<not> startsWith path [SLASH]"
  shows "\<exists>r. nonDirectoryTargetAncestor path T = Some r \<and>
    (case r of Some a \<Rightarrow> strict_ancestor a path \<and> T a \<noteq> None | None \<Rightarrow> \<forall>a. strict_ancestor a path \<longrightarrow> T a = None)"
proof (cases "lastSlash path = - 1")
  case True
  then have "\<forall>j < length path. path ! j \<noteq> SLASH" by (auto simp: lastSlash_def lastIndexOf_none)
  moreover have "target_ancestor_loop path T (lastSlash path) = Some None"
    unfolding True by (subst target_ancestor_loop.simps) simp
  ultimately show ?thesis
    by (intro exI [of _ None]) (auto simp: nonDirectoryTargetAncestor_def strict_ancestor_at)
next
  case False
  then obtain i where i: "lastSlash path = int i" "i < length path" "path ! i = SLASH"
      "\<forall>j < length path. i < j \<longrightarrow> path ! j \<noteq> SLASH"
    using lastIndexOf_some [of path SLASH "int (length path)"] by (auto simp: lastSlash_def)
  have "path \<noteq> []" "path ! 0 \<noteq> SLASH"
    using assms i(2) by (cases path; auto simp: startsWith_def)+
  from target_ancestor_loop_returns [OF this i(2,3), of T] obtain r where
    r: "target_ancestor_loop path T (int i) = Some r"
      "case r of Some a \<Rightarrow> (\<exists>j \<le> i. path ! j = SLASH \<and> a = take j path \<and> T a \<noteq> None)
       | None \<Rightarrow> (\<forall>j \<le> i. path ! j = SLASH \<longrightarrow> T (take j path) = None)" by blast
  have "case r of Some a \<Rightarrow> strict_ancestor a path \<and> T a \<noteq> None
      | None \<Rightarrow> \<forall>a. strict_ancestor a path \<longrightarrow> T a = None"
  proof (cases r)
    case None
    have "j \<le> i" if "j < length path" "path ! j = SLASH" for j using i(4) that by (meson not_le)
    with None r(2) show ?thesis by (auto simp: strict_ancestor_at)
  next
    case (Some a)
    with r(2) i(2) show ?thesis by (auto simp: strict_ancestor_at intro: le_less_trans)
  qed
  with r(1) i(1) show ?thesis by (auto simp: nonDirectoryTargetAncestor_def)
qed

lemma implicit_directories_set:
  "set (implicit_directories es into) = set into \<union> {a. \<exists>e \<in> set es. strict_ancestor a (entry_path e)}"
  by (induction es arbitrary: into) (auto simp: addWorkspacePathAncestors_set)

text \<open>An excluded path blocks a target when the two overlap.\<close>

definition blocks :: "target_map \<Rightarrow> js_string list \<Rightarrow> js_string \<Rightarrow> bool" where
  "blocks T implicit path \<longleftrightarrow> T path \<noteq> None \<or> (\<exists>a. strict_ancestor a path \<and> T a \<noteq> None) \<or> path \<in> set implicit"

definition blocker_consistent :: "blocker_state \<Rightarrow> bool" where
  "blocker_consistent st = (case st of (ks, blockers, problems) \<Rightarrow> ks \<noteq> [] \<longrightarrow> problems \<noteq> [])"

lemma collect_blockers_returns:
  "\<forall>c \<in> set os. \<not> startsWith (oc_path c) [SLASH] \<Longrightarrow> \<exists>st'. collect_blockers T implicit os st = Some st'"
proof (induction os arbitrary: st)
  case (Cons c os)
  then obtain r where "nonDirectoryTargetAtOrAbove (oc_path c) T = Some r"
    using ancestor_search [of "oc_path c" T] by (cases "T (oc_path c)") (auto simp: nonDirectoryTargetAtOrAbove_def)
  with Cons show ?case by (simp add: Let_def)
qed (metis collect_blockers.simps(1))

lemma at_or_above:
  assumes "\<not> startsWith path [SLASH]" and "nonDirectoryTargetAtOrAbove path T = Some r"
  shows "(r \<noteq> None \<or> path \<in> set implicit) \<longleftrightarrow> blocks T implicit path"
  using assms(2) ancestor_search [OF assms(1), of T]
  by (auto simp: nonDirectoryTargetAtOrAbove_def blocks_def split: if_splits option.splits)

lemma collect_blockers_problems:
  assumes "\<forall>c \<in> set os. \<not> startsWith (oc_path c) [SLASH]" and "blocker_consistent (ks, bs, ps)"
    and "collect_blockers T implicit os (ks, bs, ps) = Some (ks', bs', ps')"
  shows "ps' = [] \<longleftrightarrow> ps = [] \<and> (\<forall>c \<in> set os. \<not> blocks T implicit (oc_path c))"
  using assms
proof (induction os arbitrary: ks bs ps)
  case (Cons c os)
  obtain r where r: "nonDirectoryTargetAtOrAbove (oc_path c) T = Some r"
    using Cons.prems(3) by (auto split: option.splits)
  have c: "\<not> startsWith (oc_path c) [SLASH]" using Cons.prems(1) by simp
  define hit where "hit = (case r of Some p \<Rightarrow> Some p | None \<Rightarrow> if oc_path c \<in> set implicit then Some (oc_path c) else None)"
  have rest: "collect_blockers T implicit os
      (case hit of Some p \<Rightarrow> addScopeBlocker (oc_path c) p (ks, bs, ps) | None \<Rightarrow> (ks, bs, ps)) = Some (ks', bs', ps')"
    using Cons.prems(3) r by (simp add: hit_def Let_def)
  have hits: "hit \<noteq> None \<longleftrightarrow> blocks T implicit (oc_path c)"
    using at_or_above [OF c r, of implicit] by (auto simp: hit_def split: option.splits)
  show ?case
  proof (cases hit)
    case None
    then have "collect_blockers T implicit os (ks, bs, ps) = Some (ks', bs', ps')" using rest by simp
    then show ?thesis using Cons.IH [OF _ Cons.prems(2)] Cons.prems(1) hits None by simp
  next
    case (Some p)
    obtain ks1 bs1 ps1 where one: "addScopeBlocker (oc_path c) p (ks, bs, ps) = (ks1, bs1, ps1)" by (metis prod_cases3)
    have "ps1 \<noteq> []"
      using one Cons.prems(2)
      by (cases "ks = []") (auto simp: addScopeBlocker_def Let_def blocker_consistent_def split: if_splits)
    moreover from this have "blocker_consistent (ks1, bs1, ps1)" by (simp add: blocker_consistent_def)
    moreover have "collect_blockers T implicit os (ks1, bs1, ps1) = Some (ks', bs', ps')" using rest Some one by simp
    ultimately have "ps' \<noteq> []" using Cons.IH [of ks1 bs1 ps1] Cons.prems(1) by simp
    moreover have "blocks T implicit (oc_path c)" using hits Some by simp
    ultimately show ?thesis by auto
  qed
qed simp

subsection \<open>What a plan says\<close>

text \<open>The logical content of a path, and the workspace and the target as maps of contents.\<close>

datatype content = File_content js_string | Link_content js_string

fun observed_content :: "workspace_entry \<Rightarrow> content" where
  "observed_content (Regular_file p m n h s) = File_content h"
| "observed_content (Symbolic_link p t k) = Link_content t"

fun wanted_content :: "tree_entry \<Rightarrow> content" where
  "wanted_content (Regular_entry p oid m) = File_content oid"
| "wanted_content (Symlink_entry p t k) = Link_content t"

definition workspace_contents :: "'a workspace_state_scheme \<Rightarrow> js_string \<rightharpoonup> content" where
  "workspace_contents ws = js_map (map (\<lambda>e. (we_path e, observed_content e)) (ws_entries ws))"

definition target_contents :: "'b tree_manifest_scheme \<Rightarrow> js_string \<rightharpoonup> content" where
  "target_contents m = js_map (map (\<lambda>e. (entry_path e, wanted_content e)) (tm_entries m))"

text \<open>Carrying a plan out: delete what it deletes, then write what it creates or modifies.\<close>

definition apply_plan :: "workspace_restore_plan \<Rightarrow> (js_string \<rightharpoonup> content) \<Rightarrow> (js_string \<rightharpoonup> content) \<Rightarrow>
    js_string \<rightharpoonup> content" where
  "apply_plan plan wanted ws = (\<lambda>p. if p \<in> set (created plan) \<union> set (modified plan) then wanted p
     else if p \<in> set (deleted plan) then None else ws p)"

lemma entry_modified_iff: "entry_modified e w \<longleftrightarrow> observed_content e \<noteq> wanted_content w"
  by (cases e; cases w) (auto simp: entry_modified_def)

lemma js_map_map: "js_map (map (\<lambda>e. (k e, f e)) es) p = map_option f (js_map (map (\<lambda>e. (k e, e)) es) p)"
proof -
  have "rev (map (\<lambda>e. (k e, f e)) es) = map (\<lambda>(p, e). (p, f e)) (rev (map (\<lambda>e. (k e, e)) es))"
    by (simp add: rev_map)
  then show ?thesis unfolding js_map_def by (simp add: map_of_map)
qed

lemma classify_entries_sets:
  "classify_entries T matches es (d, m) = (d', m') \<Longrightarrow>
     set d' = set d \<union> (if matches then {we_path e | e. e \<in> set es \<and> T (we_path e) = None} else {}) \<and>
     set m' = set m \<union> {we_path e | e. e \<in> set es \<and> (\<exists>w. T (we_path e) = Some w \<and> entry_modified e w)}"
proof (induction es arbitrary: d m)
  case (Cons e es)
  show ?case
  proof (cases "T (we_path e)")
    case None
    then have "classify_entries T matches es (if matches then d @ [we_path e] else d, m) = (d', m')"
      using Cons.prems by simp
    from Cons.IH [OF this] show ?thesis using None by auto
  next
    case (Some w)
    then have "classify_entries T matches es (d, if entry_modified e w then m @ [we_path e] else m) = (d', m')"
      using Cons.prems by simp
    from Cons.IH [OF this] show ?thesis using Some by (auto split: if_splits)
  qed
qed auto

lemma classify_entries_distinct:
  "classify_entries T matches es (d, m) = (d', m') \<Longrightarrow> distinct (map we_path es) \<Longrightarrow> distinct d \<Longrightarrow> distinct m \<Longrightarrow>
     (set d \<union> set m) \<inter> we_path ` set es = {} \<Longrightarrow> distinct d' \<and> distinct m'"
proof (induction es arbitrary: d m)
  case (Cons e es)
  have new: "we_path e \<notin> set d" "we_path e \<notin> set m" "we_path e \<notin> we_path ` set es"
    using Cons.prems(2,5) by auto
  have rest: "distinct (map we_path es)" "(set d \<union> set m) \<inter> we_path ` set es = {}" using Cons.prems(2,5) by auto
  show ?case
  proof (cases "T (we_path e)")
    case None
    then have "classify_entries T matches es (if matches then d @ [we_path e] else d, m) = (d', m')"
      using Cons.prems by simp
    from Cons.IH [OF this rest(1)] show ?thesis using new rest(2) Cons.prems(3,4) by (auto split: if_splits)
  next
    case (Some w)
    then have "classify_entries T matches es (d, if entry_modified e w then m @ [we_path e] else m) = (d', m')"
      using Cons.prems by simp
    from Cons.IH [OF this rest(1)] show ?thesis using new rest(2) Cons.prems(3,4) by (auto split: if_splits)
  qed
qed simp

lemma required_blobs_set:
  "set (required_blobs C es r) = set r \<union> {oid. \<exists>p m. Regular_entry p oid m \<in> set es \<and>
     map_option observed_content (C p) \<noteq> Some (File_content oid)}"
proof (induction C es r rule: required_blobs.induct)
  case (3 C p oid m es r)
  have "set (case C p of Some (Regular_file _ _ _ h _) \<Rightarrow> if h \<noteq> oid \<and> oid \<notin> set r then r @ [oid] else r
        | _ \<Rightarrow> if oid \<notin> set r then r @ [oid] else r)
      = set r \<union> (if map_option observed_content (C p) \<noteq> Some (File_content oid) then {oid} else {})"
    by (auto split: option.splits workspace_entry.splits)
  with 3 show ?case by auto
qed auto

lemma required_blobs_distinct: "distinct r \<Longrightarrow> distinct (required_blobs C es r)"
  by (induction C es r rule: required_blobs.induct) (auto split: option.splits workspace_entry.splits)

lemma unit_sorted_set [simp]: "set (js_sort compareUnits xs) = set xs"
  by (rule unit_order.set_sort)

lemma unit_sorted_strict:
  "distinct xs \<Longrightarrow> sorted_wrt (\<lambda>x y. compareUnits x y < 0) (js_sort compareUnits xs)"
proof -
  assume "distinct xs"
  then have "distinct (js_sort compareUnits xs)" using unit_order.distinct_sort [of id xs] by simp
  moreover have "sorted_wrt (\<lambda>x y. compareUnits x y \<le> 0) (js_sort compareUnits xs)" by (rule unit_order.ascending_sort)
  moreover have "distinct ys \<Longrightarrow> sorted_wrt (\<lambda>x y. compareUnits x y \<le> 0) ys \<Longrightarrow> sorted_wrt (\<lambda>x y. compareUnits x y < 0) ys" for ys
    by (induction ys) (auto simp: compareUnits_zero less_le)
  ultimately show ?thesis by blast
qed

text \<open>A plan without problems, taken apart.\<close>

definition plan_blocked :: "comparison_manifest \<Rightarrow> js_string \<Rightarrow> bool" where
  "plan_blocked target path \<longleftrightarrow> blocks (js_map (map (\<lambda>e. (entry_path e, e)) (tm_entries target)))
     (implicit_directories (tm_entries target) []) path"

lemma plan_blocked_iff: "plan_blocked target path \<longleftrightarrow> (\<exists>e \<in> set (tm_entries target).
    path = entry_path e \<or> strict_ancestor (entry_path e) path \<or> strict_ancestor path (entry_path e))"
proof -
  let ?T = "js_map (map (\<lambda>e. (entry_path e, e)) (tm_entries target))"
  have dom: "?T p \<noteq> None \<longleftrightarrow> (\<exists>e \<in> set (tm_entries target). p = entry_path e)" for p
    unfolding js_map_None by force
  have implied: "path \<in> set (implicit_directories (tm_entries target) []) \<longleftrightarrow>
      (\<exists>e \<in> set (tm_entries target). strict_ancestor path (entry_path e))"
    by (simp add: implicit_directories_set)
  show ?thesis unfolding plan_blocked_def blocks_def dom implied by blast
qed

definition scopes_match :: "unicode \<Rightarrow> 'a workspace_state_scheme \<Rightarrow> comparison_manifest \<Rightarrow> bool" where
  "scopes_match u current target \<longleftrightarrow>
     workspaceScopesEqual u (ws_scope current) (tm_scope target) ABSOLUTE_WORKSPACE_PATH_LIMITS = Inr True"

abbreviation unrooted :: "'a workspace_state_scheme \<Rightarrow> bool" where
  "unrooted current \<equiv> \<forall>c \<in> set (ws_excluded current). \<not> startsWith (oc_path c) [SLASH]"

lemma plan_parts:
  assumes "planWorkspaceRestore u current target = Some (Inr plan)"
  shows created_set: "set (created plan) = {p. target_contents target p \<noteq> None \<and> workspace_contents current p = None}"
    and deleted_set: "set (deleted plan) = (if scopes_match u current target
      then {p. \<exists>e \<in> set (ws_entries current). p = we_path e \<and> target_contents target p = None} else {})"
    and modified_set: "set (modified plan) = {p. \<exists>e \<in> set (ws_entries current). p = we_path e \<and>
      (\<exists>w. target_contents target p = Some w \<and> observed_content e \<noteq> w)}"
    and required_set: "set (requiredBlobOids plan) = {oid. \<exists>p m. Regular_entry p oid m \<in> set (tm_entries target) \<and>
      workspace_contents current p \<noteq> Some (File_content oid)}"
    and renamed_none: "renamed plan = []"
    and occupancy_part: "occupancyChanged plan =
      js_sort compareUnits (occupancy_changes (ws_excluded current) (excludedOccupancies target))"
    and no_problems: "unrooted current \<Longrightarrow> plan_problems plan = [] \<longleftrightarrow> ws_problems current = [] \<and>
      scopes_match u current target \<and> (\<forall>c \<in> set (ws_excluded current). \<not> plan_blocked target (oc_path c))"
    and required_distinct: "distinct (requiredBlobOids plan)"
    and plan_sorted: "distinct (map we_path (ws_entries current)) \<Longrightarrow> distinct (map entry_path (tm_entries target)) \<Longrightarrow>
      sorted_wrt (\<lambda>x y. compareUnits x y < 0) (created plan) \<and> sorted_wrt (\<lambda>x y. compareUnits x y < 0) (deleted plan) \<and>
      sorted_wrt (\<lambda>x y. compareUnits x y < 0) (modified plan)"
proof -
  let ?T = "js_map (map (\<lambda>e. (entry_path e, e)) (tm_entries target))"
    and ?C = "js_map (map (\<lambda>e. (we_path e, e)) (ws_entries current))"
    and ?I = "implicit_directories (tm_entries target) []"
  obtain matches where matches:
    "workspaceScopesEqual u (ws_scope current) (tm_scope target) ABSOLUTE_WORKSPACE_PATH_LIMITS = Inr matches"
    using assms by (cases "workspaceScopesEqual u (ws_scope current) (tm_scope target) ABSOLUTE_WORKSPACE_PATH_LIMITS")
      (simp_all add: planWorkspaceRestore_def Let_def)
  obtain d m where dm: "classify_entries ?T matches (ws_entries current) ([], []) = (d, m)" by fastforce
  let ?P = "ws_problems current @ (if matches then [] else [\<lparr>sp_path = js ''.'', sp_kind = Scope_mismatch\<rparr>])"
  obtain ks bs ps where blockers: "collect_blockers ?T ?I (ws_excluded current) ([], [], ?P) = Some (ks, bs, ps)"
    and plan: "plan = \<lparr>created = js_sort compareUnits (filter (\<lambda>p. ?C p = None) (map entry_path (tm_entries target))),
      deleted = js_sort compareUnits d, modified = js_sort compareUnits m, renamed = [],
      requiredBlobOids = js_sort compareUnits (required_blobs ?C (tm_entries target) []),
      scopeBlockers = js_sort (\<lambda>x y. compareUnits (sb_path x) (sb_path y)) bs,
      occupancyChanged = js_sort compareUnits (occupancy_changes (ws_excluded current) (excludedOccupancies target)),
      plan_problems = ps\<rparr>"
    using assms matches dm by (auto simp: planWorkspaceRestore_def Let_def split: option.splits prod.splits)
  have T: "target_contents target p = map_option wanted_content (?T p)" for p
    unfolding target_contents_def by (rule js_map_map)
  have C: "workspace_contents current p = map_option observed_content (?C p)" for p
    unfolding workspace_contents_def by (rule js_map_map)
  have Tdom: "?T p \<noteq> None \<longleftrightarrow> p \<in> entry_path ` set (tm_entries target)" for p
    unfolding js_map_None by force
  have m: "matches \<longleftrightarrow> scopes_match u current target" by (simp add: scopes_match_def matches)
  show "set (created plan) = {p. target_contents target p \<noteq> None \<and> workspace_contents current p = None}"
    unfolding plan T C using Tdom by auto
  show "set (deleted plan) = (if scopes_match u current target
      then {p. \<exists>e \<in> set (ws_entries current). p = we_path e \<and> target_contents target p = None} else {})"
    unfolding plan T using classify_entries_sets [OF dm] m by auto
  show "set (modified plan) = {p. \<exists>e \<in> set (ws_entries current). p = we_path e \<and>
      (\<exists>w. target_contents target p = Some w \<and> observed_content e \<noteq> w)}"
    unfolding plan T using classify_entries_sets [OF dm] by (auto simp: entry_modified_iff)
  show "set (requiredBlobOids plan) = {oid. \<exists>p m. Regular_entry p oid m \<in> set (tm_entries target) \<and>
      workspace_contents current p \<noteq> Some (File_content oid)}"
    unfolding plan C using required_blobs_set [of ?C "tm_entries target" "[]"] by simp
  show "renamed plan = []" by (simp add: plan)
  show "occupancyChanged plan =
      js_sort compareUnits (occupancy_changes (ws_excluded current) (excludedOccupancies target))"
    by (simp add: plan)
  show "plan_problems plan = [] \<longleftrightarrow> ws_problems current = [] \<and>
      scopes_match u current target \<and> (\<forall>c \<in> set (ws_excluded current). \<not> plan_blocked target (oc_path c))"
    if "unrooted current"
    using collect_blockers_problems [OF that _ blockers] m by (simp add: plan plan_blocked_def blocker_consistent_def)
  show "distinct (requiredBlobOids plan)"
    using unit_order.distinct_sort [of id "required_blobs ?C (tm_entries target) []"]
      required_blobs_distinct [of "[]" ?C "tm_entries target"] by (simp add: plan)
  show "sorted_wrt (\<lambda>x y. compareUnits x y < 0) (created plan) \<and> sorted_wrt (\<lambda>x y. compareUnits x y < 0) (deleted plan) \<and>
      sorted_wrt (\<lambda>x y. compareUnits x y < 0) (modified plan)"
    if "distinct (map we_path (ws_entries current))" "distinct (map entry_path (tm_entries target))"
    using classify_entries_distinct [OF dm that(1)] that(2) by (simp add: plan unit_sorted_strict)
qed

lemma workspace_contents_entry:
  "distinct (map we_path (ws_entries ws)) \<Longrightarrow> workspace_contents ws p = Some c \<longleftrightarrow>
     (\<exists>e \<in> set (ws_entries ws). p = we_path e \<and> c = observed_content e)"
  unfolding workspace_contents_def by (subst js_map_distinct) (auto simp: comp_def)

lemma workspace_contents_absent: "workspace_contents ws p = None \<longleftrightarrow> p \<notin> we_path ` set (ws_entries ws)"
  unfolding workspace_contents_def js_map_None by force

lemma plan_difference:
  assumes "planWorkspaceRestore u current target = Some (Inr plan)"
    and "distinct (map we_path (ws_entries current))" and "scopes_match u current target"
  shows "set (deleted plan) = {p. workspace_contents current p \<noteq> None \<and> target_contents target p = None}"
    and "set (created plan) = {p. workspace_contents current p = None \<and> target_contents target p \<noteq> None}"
    and "set (modified plan) = {p. \<exists>a b. workspace_contents current p = Some a \<and> target_contents target p = Some b \<and> a \<noteq> b}"
proof -
  show "set (deleted plan) = {p. workspace_contents current p \<noteq> None \<and> target_contents target p = None}"
    unfolding deleted_set [OF assms(1)] using assms(3) by (auto simp: workspace_contents_absent)
  show "set (created plan) = {p. workspace_contents current p = None \<and> target_contents target p \<noteq> None}"
    unfolding created_set [OF assms(1)] by blast
  show "set (modified plan) = {p. \<exists>a b. workspace_contents current p = Some a \<and> target_contents target p = Some b \<and> a \<noteq> b}"
    unfolding modified_set [OF assms(1)] workspace_contents_entry [OF assms(2)] by auto
qed

lemma ABSOLUTE_limits_valid: "assertWorkspacePathLimits ABSOLUTE_WORKSPACE_PATH_LIMITS = Inr ()"
  by code_simp

lemma js_sort_Nil [simp]: "js_sort cmp [] = []"
  by (simp add: js_sort_def)

lemma occupancy_changes_None [simp]: "occupancy_changes os None = []"
  by (simp add: occupancy_changes_def)

lemma occupancy_changes_same:
  "occupancy_changes os (Some (map (\<lambda>c. \<lparr>oc_path = oc_path c, oc_kind = oc_kind c\<rparr>) os')) = []"
  if "excludedOccupanciesEqual os os'"
proof -
  have "map (\<lambda>c. (oc_path c, oc_kind c)) os = map (\<lambda>c. (oc_path c, oc_kind c)) os'"
    using that unfolding excludedOccupanciesEqual_def by (induction rule: list_all2_induct) simp_all
  then show ?thesis by (simp add: occupancy_changes_def Let_def comp_def)
qed

lemma equal_entries_contents:
  "entriesEqual xs ys \<Longrightarrow> map (\<lambda>e. (we_path e, observed_content e)) xs =
     map (\<lambda>e. (entry_path e, wanted_content e)) (map workspaceEntryAsTreeEntry ys)"
  unfolding entriesEqual_def
proof (induction rule: list_all2_induct)
  case (Cons x xs y ys)
  then show ?case by (cases x; cases y) auto
qed simp

subsection \<open>Properties\<close>

definition sample_current :: workspace_state where
  "sample_current = \<lparr>ws_entries = [Regular_file (js ''a'') (Some 420) 3 (js ''h1'') None,
       Regular_file (js ''b'') None 4 (js ''h2'') None, Symbolic_link (js ''c'') (js ''a'') None],
     ws_excluded = [\<lparr>oc_path = js ''.git'', oc_kind = Occupied_directory, oc_dev = 1, oc_ino = 2\<rparr>],
     ws_problems = [], ws_scope = All_managed\<rparr>"

definition sample_target :: comparison_manifest where
  "sample_target = \<lparr>tm_format = CURRENT_TREE_MANIFEST_FORMAT,
     tm_entries = [Regular_entry (js ''a'') (js ''h9'') None, Symlink_entry (js ''c'') (js ''a'') None,
       Regular_entry (js ''d/e'') (js ''h2'') None],
     tm_scope = All_managed, excludedOccupancies = None\<rparr>"

definition sample_plan :: workspace_restore_plan where
  "sample_plan = \<lparr>created = [js ''d/e''], deleted = [js ''b''], modified = [js ''a''], renamed = [],
     requiredBlobOids = [js ''h2'', js ''h9''], scopeBlockers = [], occupancyChanged = [], plan_problems = []\<rparr>"

lemma sample_planned: "planWorkspaceRestore plain_unicode sample_current sample_target = Some (Inr sample_plan)"
  by code_simp

text \<open>Planning returns: for an inventory whose excluded paths do not begin with a slash and whose scope
  can be compared with the target's, planning ends with a plan. (On a path beginning with a slash the
  ancestor loop does not end.)\<close>

theorem planning_returns:
  assumes "\<forall>c \<in> set (ws_excluded current). \<not> startsWith (oc_path c) [SLASH]"
    and "scope_ok u ABSOLUTE_WORKSPACE_PATH_LIMITS (ws_scope current)"
    and "scope_ok u ABSOLUTE_WORKSPACE_PATH_LIMITS (tm_scope target)"
  shows "\<exists>plan. planWorkspaceRestore u current target = Some (Inr plan)"
proof -
  have "workspaceScopesEqual u (ws_scope current) (tm_scope target) ABSOLUTE_WORKSPACE_PATH_LIMITS
      = Inr (ws_scope current = tm_scope target)"
    using canonical_scope_value [OF assms(2)] canonical_scope_value [OF assms(3)]
    by (simp add: workspaceScopesEqual_def scope_text_inj)
  moreover obtain st where "collect_blockers (js_map (map (\<lambda>e. (entry_path e, e)) (tm_entries target)))
      (implicit_directories (tm_entries target) []) (ws_excluded current) ([], [], ws_problems current @
        (if ws_scope current = tm_scope target then [] else [\<lparr>sp_path = js ''.'', sp_kind = Scope_mismatch\<rparr>]))
      = Some st"
    using collect_blockers_returns [OF assms(1)] by blast
  moreover obtain ks bs ps where "st = (ks, bs, ps)" by (cases st)
  moreover obtain d m where "classify_entries (js_map (map (\<lambda>e. (entry_path e, e)) (tm_entries target)))
      (ws_scope current = tm_scope target) (ws_entries current) ([], []) = (d, m)" by fastforce
  ultimately show ?thesis unfolding planWorkspaceRestore_def Let_def by simp
qed

theorem planning_returns_witness:
  "\<exists>plan. planWorkspaceRestore plain_unicode sample_current sample_target = Some (Inr plan)"
proof (rule planning_returns)
  show "\<forall>c \<in> set (ws_excluded sample_current). \<not> startsWith (oc_path c) [SLASH]" by code_simp
qed (simp_all add: sample_current_def sample_target_def limits_valid_def ABSOLUTE_limits_valid)


lemma sample_facts:
  "plan_problems sample_plan = []" "unrooted sample_current" "distinct (map we_path (ws_entries sample_current))"
  "distinct (map entry_path (tm_entries sample_target))" "excludedOccupancies sample_target = None"
  by code_simp+


text \<open>C18. Carrying the plan out reaches the target: deleting what a plan without problems deletes and then
  writing what it creates or modifies turns the workspace into the target, and changes no other path.\<close>

theorem applying_the_plan_reaches_the_target:
  assumes "planWorkspaceRestore u current target = Some (Inr plan)" and "plan_problems plan = []"
    and "\<forall>c \<in> set (ws_excluded current). \<not> startsWith (oc_path c) [SLASH]"
    and "distinct (map we_path (ws_entries current))"
  shows "apply_plan plan (target_contents target) (workspace_contents current) = target_contents target"
proof
  fix p
  have "scopes_match u current target" using no_problems [OF assms(1,3)] assms(2) by simp
  note d = plan_difference [OF assms(1,4) this]
  show "apply_plan plan (target_contents target) (workspace_contents current) p = target_contents target p"
    unfolding apply_plan_def d
    by (cases "workspace_contents current p"; cases "target_contents target p") auto
qed

theorem applying_the_plan_reaches_the_target_witness:
  "apply_plan sample_plan (target_contents sample_target) (workspace_contents sample_current) = target_contents sample_target"
  by (rule applying_the_plan_reaches_the_target [OF sample_planned sample_facts(1-3)])

lemma changes_iff:
  assumes "planWorkspaceRestore u current target = Some (Inr plan)" and "plan_problems plan = []"
    and "\<forall>c \<in> set (ws_excluded current). \<not> startsWith (oc_path c) [SLASH]"
    and "distinct (map we_path (ws_entries current))" and "excludedOccupancies target = None"
  shows "restorePlanHasChanges plan \<longleftrightarrow> workspace_contents current \<noteq> target_contents target"
proof -
  have none: "renamed plan = []" "occupancyChanged plan = []"
    by (simp_all add: renamed_none [OF assms(1)] occupancy_part [OF assms(1)] assms(5))
  have "scopes_match u current target" using no_problems [OF assms(1,3)] assms(2) by simp
  note d = plan_difference [OF assms(1,4) this]
  have "set (created plan) \<union> set (deleted plan) \<union> set (modified plan) =
      {p. workspace_contents current p \<noteq> target_contents target p}" (is "?changed = ?different")
  proof (rule set_eqI)
    show "p \<in> ?changed \<longleftrightarrow> p \<in> ?different" for p
      unfolding d by (cases "workspace_contents current p"; cases "target_contents target p") auto
  qed
  moreover have "restorePlanHasChanges plan \<longleftrightarrow> ?changed \<noteq> {}" by (auto simp: restorePlanHasChanges_def none)
  ultimately show ?thesis by (simp add: fun_eq_iff)
qed

text \<open>No changes means equal: a plan without problems for a target that expects no occupancies reports
  changes exactly when the workspace and the target differ.\<close>

theorem changes_mean_difference:
  assumes "planWorkspaceRestore u current target = Some (Inr plan)" and "plan_problems plan = []"
    and "\<forall>c \<in> set (ws_excluded current). \<not> startsWith (oc_path c) [SLASH]"
    and "distinct (map we_path (ws_entries current))" and "excludedOccupancies target = None"
  shows "restorePlanHasChanges plan \<longleftrightarrow> workspace_contents current \<noteq> target_contents target"
  using assms by (rule changes_iff)

theorem changes_mean_difference_witness: "workspace_contents sample_current \<noteq> target_contents sample_target"
  using changes_mean_difference [OF sample_planned sample_facts(1-3,5)]
  by (simp add: restorePlanHasChanges_def sample_plan_def)

text \<open>Staging covers the writes: every file a plan may write has its blob among the required ones, once,
  and no blob is required that the workspace already holds wherever the target wants it.\<close>

theorem staging_covers_the_writes:
  assumes "planWorkspaceRestore u current target = Some (Inr plan)"
    and "distinct (map we_path (ws_entries current))"
  shows "distinct (requiredBlobOids plan) \<and>
    (\<forall>p m oid. Regular_entry p oid m \<in> set (tm_entries target) \<longrightarrow>
       (p \<in> set (created plan) \<or> workspace_contents current p \<noteq> Some (File_content oid)) \<longrightarrow> oid \<in> set (requiredBlobOids plan)) \<and>
    (\<forall>oid \<in> set (requiredBlobOids plan). \<exists>p m. Regular_entry p oid m \<in> set (tm_entries target) \<and>
       workspace_contents current p \<noteq> Some (File_content oid))"
  unfolding required_set [OF assms(1)] created_set [OF assms(1)] using required_distinct [OF assms(1)] by auto

theorem staging_covers_the_writes_witness: "js ''h2'' \<in> set (requiredBlobOids sample_plan)"
proof -
  have "Regular_entry (js ''d/e'') (js ''h2'') None \<in> set (tm_entries sample_target)" by (simp add: sample_target_def)
  moreover have "js ''d/e'' \<in> set (created sample_plan)" by (simp add: sample_plan_def)
  ultimately show ?thesis using staging_covers_the_writes [OF sample_planned sample_facts(3)] by blast
qed

text \<open>Excluded content is not overwritten: a plan without problems has no target entry at, above or below
  a path that the scope excludes.\<close>

theorem excluded_content_is_safe:
  assumes "planWorkspaceRestore u current target = Some (Inr plan)" and "plan_problems plan = []"
    and "\<forall>c \<in> set (ws_excluded current). \<not> startsWith (oc_path c) [SLASH]"
  shows "\<forall>c \<in> set (ws_excluded current). \<forall>e \<in> set (tm_entries target).
    oc_path c \<noteq> entry_path e \<and> \<not> strict_ancestor (entry_path e) (oc_path c) \<and> \<not> strict_ancestor (oc_path c) (entry_path e)"
  using no_problems [OF assms(1,3)] assms(2) unfolding plan_blocked_iff by blast

theorem excluded_content_is_safe_witness:
  "js ''.git'' \<noteq> js ''d/e'' \<and> \<not> strict_ancestor (js ''d/e'') (js ''.git'') \<and> \<not> strict_ancestor (js ''.git'') (js ''d/e'')"
  using excluded_content_is_safe [OF sample_planned sample_facts(1,2)]
  by (simp add: sample_current_def sample_target_def)

text \<open>A validation scan that equals the observation plans nothing: when two complete snapshots are equal,
  restoring one to the manifest of the other changes nothing.\<close>

theorem equal_snapshots_plan_nothing:
  assumes "workspaceSnapshotsEqual u left right = Inr True"
    and "planWorkspaceRestore u left (workspaceSnapshotAsManifest right) = Some (Inr plan)"
    and "distinct (map we_path (ws_entries left))"
  shows "\<not> restorePlanHasChanges plan"
proof -
  have eq: "workspaceScopesEqual u (ws_scope left) (ws_scope right) ABSOLUTE_WORKSPACE_PATH_LIMITS = Inr True"
      "entriesEqual (ws_entries left) (ws_entries right)"
      "excludedOccupanciesEqual (ws_excluded left) (ws_excluded right)"
    using assms(1) by (auto simp: workspaceSnapshotsEqual_def rbind_eq_Inr split: if_splits)
  let ?m = "workspaceSnapshotAsManifest right"
  have same: "workspace_contents left = target_contents ?m"
    using equal_entries_contents [OF eq(2)]
    by (simp add: workspace_contents_def target_contents_def workspaceSnapshotAsManifest_def)
  have scopes: "scopes_match u left ?m"
    using eq(1) by (simp add: workspaceSnapshotAsManifest_def scopes_match_def)
  have occ: "occupancy_changes (ws_excluded left) (excludedOccupancies ?m) = []"
    using occupancy_changes_same [OF eq(3)] by (simp add: workspaceSnapshotAsManifest_def)
  have "renamed plan = []" "occupancyChanged plan = []"
    by (simp_all add: renamed_none [OF assms(2)] occupancy_part [OF assms(2)] occ)
  moreover have "set (created plan) = {}" "set (deleted plan) = {}" "set (modified plan) = {}"
    using plan_difference [OF assms(2,3) scopes] unfolding same by auto
  ultimately show ?thesis by (simp add: restorePlanHasChanges_def)
qed

definition sample_snapshot :: "int \<Rightarrow> workspace_snapshot" where
  "sample_snapshot ino = \<lparr>ws_entries = [Regular_file (js ''a'') (Some 420) 3 (js ''h1'') (Some (js ''/w/a''))],
     ws_excluded = [\<lparr>oc_path = js ''.git'', oc_kind = Occupied_directory, oc_dev = 1, oc_ino = ino\<rparr>],
     ws_problems = [], ws_scope = All_managed, gitOracleVersion = None, rootPath = js ''/w'',
     directoryObservations = [\<lparr>do_path = [], do_dev = 1, do_ino = 5\<rparr>]\<rparr>"

theorem equal_snapshots_plan_nothing_witness:
  "\<exists>plan. planWorkspaceRestore plain_unicode (sample_snapshot 2) (workspaceSnapshotAsManifest (sample_snapshot 3)) = Some (Inr plan)
     \<and> \<not> restorePlanHasChanges plan"
proof -
  let ?plan = "\<lparr>created = [], deleted = [], modified = [], renamed = [], requiredBlobOids = [], scopeBlockers = [],
     occupancyChanged = [], plan_problems = []\<rparr>"
  have "planWorkspaceRestore plain_unicode (sample_snapshot 2) (workspaceSnapshotAsManifest (sample_snapshot 3)) = Some (Inr ?plan)"
    by code_simp
  moreover have "workspaceSnapshotsEqual plain_unicode (sample_snapshot 2) (sample_snapshot 3) = Inr True"
    and "distinct (map we_path (ws_entries (sample_snapshot 2)))" by code_simp+
  ultimately show ?thesis using equal_snapshots_plan_nothing by blast
qed

end
