(* ===== verification/Failure_Settlement.thy ===== *)
theory Failure_Settlement
  imports Prelude
begin

text \<open>
  Failures that are kept together: \<^verbatim>\<open>failure-settlement.ts\<close>, the cancellation test of
  \<^verbatim>\<open>workspace-operation.ts\<close> and the search of \<^verbatim>\<open>metadata-error.ts\<close> for a retired history. These functions
  depend on the identity of error objects and one of them changes an object in place, so error objects
  live in an explicit store; a thrown value is an index of it. Objects may refer to each other in cycles.
  Error messages, and property reads that throw, are not modelled.
\<close>

subsection \<open>Error objects\<close>

type_synonym failure = nat

text \<open>The class of an \<^verbatim>\<open>Error\<close>: an exception of the source, a cleanup failure of blob staging with the two
  failures it keeps, or the wrapper of a failed blob source.\<close>

datatype error_class =
    Exception js_error
  | Staging_cleanup (primary_failure: failure) (cleanup_failure: failure)
  | Blob_stream_source

datatype thrown =
    Plain_value
  | Error_object (error_class: error_class) (error_cause: "failure option") (error_frozen: bool)
  | Aggregate_error (aggregate_errors: "failure list") (error_cause: "failure option")

type_synonym error_heap = "thrown list"

definition thrown_at :: "error_heap \<Rightarrow> failure \<Rightarrow> thrown" where
  "thrown_at h f = (if f < length h then h ! f else Plain_value)"

definition allocate :: "error_heap \<Rightarrow> thrown \<Rightarrow> error_heap \<times> failure" where
  "allocate h t = (h @ [t], length h)"

definition is_aggregate :: "error_heap \<Rightarrow> failure \<Rightarrow> bool" where
  "is_aggregate h f = (case thrown_at h f of Aggregate_error _ _ \<Rightarrow> True | _ \<Rightarrow> False)"

definition cause_of :: "error_heap \<Rightarrow> failure \<Rightarrow> failure option" where
  "cause_of h f = (case thrown_at h f of Plain_value \<Rightarrow> None | t \<Rightarrow> error_cause t)"

definition errors_of :: "error_heap \<Rightarrow> failure \<Rightarrow> failure list" where
  "errors_of h f = (case thrown_at h f of Aggregate_error es _ \<Rightarrow> es | _ \<Rightarrow> [])"

text \<open>A walk over the store ends because it meets each object at most once.\<close>

definition unmet :: "error_heap \<Rightarrow> failure list \<Rightarrow> nat" where
  "unmet h met = card ({..<length h} - set met)"

lemma unmet_decreases: "f < length h \<Longrightarrow> f \<notin> set met \<Longrightarrow> unmet h (f # met) < unmet h met"
  unfolding unmet_def by (rule psubset_card_mono) auto

lemma unmet_mono: "unmet h (f # met) \<le> unmet h met"
  unfolding unmet_def by (rule card_mono) auto

lemma aggregate_in_store: "thrown_at h f = Aggregate_error es c \<Longrightarrow> f < length h"
  by (simp add: thrown_at_def split: if_splits)

subsection \<open>Settling failures\<close>

function primary_loop :: "error_heap \<Rightarrow> failure list \<Rightarrow> failure \<Rightarrow> failure" where
  "primary_loop h visited primary =
     (case thrown_at h primary of
        Aggregate_error (e # es) _ \<Rightarrow>
          if e \<noteq> primary \<and> primary \<notin> set visited then primary_loop h (primary # visited) e else primary
      | _ \<Rightarrow> primary)"
  by pat_completeness auto
termination
  by (relation "measure (\<lambda>(h, visited, primary). unmet h visited)")
    (auto intro!: unmet_decreases dest: aggregate_in_store)

declare primary_loop.simps [simp del]

definition primaryFailure :: "error_heap \<Rightarrow> failure \<Rightarrow> failure" where
  "primaryFailure h error = primary_loop h [] error"

definition hasRetainedCleanupFailure :: "error_heap \<Rightarrow> failure \<Rightarrow> bool" where
  "hasRetainedCleanupFailure h error \<longleftrightarrow>
     is_aggregate h error \<or> (case cause_of h error of None \<Rightarrow> False | Some c \<Rightarrow> is_aggregate h c)"

text \<open>The recursion over nested errors; the first argument holds the failures that the enclosing loops have
  still to append. An aggregate among its own errors is visited by then and is pushed as it is.\<close>

function appendFailure :: "error_heap \<Rightarrow> failure list \<Rightarrow> failure list \<Rightarrow> failure list \<Rightarrow> failure list" where
  "appendFailure h [] failures visited = failures"
| "appendFailure h (failure # pending) failures visited =
     (case thrown_at h failure of
        Aggregate_error es _ \<Rightarrow>
          if failure \<in> set visited \<or> es = [] then appendFailure h pending (failures @ [failure]) (failure # visited)
          else appendFailure h (es @ pending) failures (failure # visited)
      | _ \<Rightarrow> appendFailure h pending (failures @ [failure]) visited)"
  by pat_completeness auto
termination
  by (relation "measures [\<lambda>(h, pending, failures, visited). unmet h visited, \<lambda>(h, pending, failures, visited). length pending]")
    (auto intro: unmet_decreases dest: aggregate_in_store simp: order_le_less [symmetric] unmet_mono)

definition aggregateFailures :: "error_heap \<Rightarrow> failure list \<Rightarrow> error_heap \<times> failure" where
  "aggregateFailures h failures =
     (let flattened = appendFailure h failures [] []
      in allocate h (Aggregate_error flattened (case flattened of [] \<Rightarrow> None | f # _ \<Rightarrow> Some f)))"

text \<open>Redefining the \<^verbatim>\<open>cause\<close> of a frozen object throws.\<close>

definition retainFailureCause :: "error_heap \<Rightarrow> failure \<Rightarrow> failure \<Rightarrow> error_heap \<times> failure" where
  "retainFailureCause h primary cleanup =
     (if primary = cleanup then (h, primary)
      else case thrown_at h primary of
        Error_object cls existingCause frozen \<Rightarrow>
          (let (h', retainedCause) =
                 (case existingCause of
                    None \<Rightarrow> (h, cleanup)
                  | Some c \<Rightarrow> if c = cleanup then (h, cleanup) else aggregateFailures h [c, cleanup])
           in if frozen then allocate h' (Aggregate_error [primary, cleanup] (Some primary))
              else (h'[primary := Error_object cls (Some retainedCause) False], primary))
      | _ \<Rightarrow> aggregateFailures h [primary, cleanup])"

subsection \<open>Effects that may throw\<close>

record world =
  error_objects :: error_heap

type_synonym ('w, 'a) effect = "'w world_scheme \<Rightarrow> (failure + 'a) \<times> 'w world_scheme"

definition throw_error :: "js_error \<Rightarrow> ('w, 'a) effect" where
  "throw_error e w =
     (let (h, f) = allocate (error_objects w) (Error_object (Exception e) None False)
      in (Inl f, w\<lparr>error_objects := h\<rparr>))"

definition retainCleanupFailure :: "failure \<Rightarrow> ('w, unit) effect \<Rightarrow> 'w world_scheme \<Rightarrow> failure \<times> 'w world_scheme" where
  "retainCleanupFailure primary cleanup w =
     (case cleanup w of
        (Inr _, w') \<Rightarrow> (primary, w')
      | (Inl cleanupError, w') \<Rightarrow>
          (let (h, f) = aggregateFailures (error_objects w') [primary, cleanupError]
           in (f, w'\<lparr>error_objects := h\<rparr>)))"

definition withRetainedCleanup :: "('w, 'a) effect \<Rightarrow> ('w, unit) effect \<Rightarrow> ('w, 'a) effect" where
  "withRetainedCleanup action cleanup w =
     (case action w of
        (Inl failure, w1) \<Rightarrow> (let (f, w2) = retainCleanupFailure failure cleanup w1 in (Inl f, w2))
      | (Inr result, w1) \<Rightarrow>
          (case cleanup w1 of
             (Inl cleanupError, w2) \<Rightarrow> (Inl cleanupError, w2)
           | (Inr _, w2) \<Rightarrow> (Inr result, w2)))"

subsection \<open>Reading a failure\<close>

text \<open>The loop follows causes and does not end on a cycle of them that avoids the reason; this is \<open>None\<close>.\<close>

partial_function (option) cancellation_loop :: "error_heap \<Rightarrow> failure \<Rightarrow> failure \<Rightarrow> bool option" where
  [code]: "cancellation_loop h reason cause =
     (if is_aggregate h cause then Some False
      else if cause = reason then Some (thrown_at h cause = Plain_value \<or> cause_of h cause = None)
      else case cause_of h cause of None \<Rightarrow> Some False | Some c \<Rightarrow> cancellation_loop h reason c)"

text \<open>The signal is the reason of its abort, when it is aborted.\<close>

definition isOperationCancelled :: "error_heap \<Rightarrow> failure \<Rightarrow> failure option \<Rightarrow> bool option" where
  "isOperationCancelled h error signal =
     (case signal of None \<Rightarrow> Some False | Some reason \<Rightarrow> cancellation_loop h reason error)"

function history_reset_search :: "error_heap \<Rightarrow> failure list \<Rightarrow> failure list \<Rightarrow> failure option" where
  "history_reset_search h [] seen = None"
| "history_reset_search h (cause # pending) seen =
     (if cause \<in> set seen then history_reset_search h pending seen
      else case thrown_at h cause of
        Plain_value \<Rightarrow> history_reset_search h pending (cause # seen)
      | Error_object (Exception (MetadataHistoryResetError _ _ _)) _ _ \<Rightarrow> Some cause
      | Error_object _ c _ \<Rightarrow>
          history_reset_search h ((case c of None \<Rightarrow> [] | Some c \<Rightarrow> [c]) @ pending) (cause # seen)
      | Aggregate_error es c \<Rightarrow>
          history_reset_search h (es @ (case c of None \<Rightarrow> [] | Some c \<Rightarrow> [c]) @ pending) (cause # seen))"
  by pat_completeness auto
termination
  by (relation "measures [\<lambda>(h, pending, seen). unmet h seen, \<lambda>(h, pending, seen). length pending]")
    (auto intro!: unmet_decreases simp: order_le_less [symmetric] unmet_mono thrown_at_def split: if_splits)

definition metadataHistoryResetIn :: "error_heap \<Rightarrow> failure \<Rightarrow> failure option" where
  "metadataHistoryResetIn h cause = history_reset_search h [cause] []"

subsection \<open>What a failure keeps\<close>

text \<open>\<open>part\<close>: from an aggregate to its errors. \<open>evidence\<close>: also from an error to its cause.\<close>

definition part :: "error_heap \<Rightarrow> failure \<Rightarrow> failure \<Rightarrow> bool" where
  "part h x y \<longleftrightarrow> y \<in> set (errors_of h x)"

definition evidence :: "error_heap \<Rightarrow> failure \<Rightarrow> failure \<Rightarrow> bool" where
  "evidence h x y \<longleftrightarrow> part h x y \<or> cause_of h x = Some y"

definition kept_in :: "error_heap \<Rightarrow> failure list \<Rightarrow> failure set" where
  "kept_in h failures = {f. \<not> is_aggregate h f \<and> (\<exists>x \<in> set failures. (part h)\<^sup>*\<^sup>* x f)}"

lemma no_part: "\<not> is_aggregate h x \<Longrightarrow> \<not> part h x y"
  by (cases "thrown_at h x") (simp_all add: part_def errors_of_def is_aggregate_def)

lemma part_iff: "thrown_at h x = Aggregate_error es c \<Longrightarrow> part h x y \<longleftrightarrow> y \<in> set es"
  by (simp add: part_def errors_of_def)

lemma kept_in_Nil [simp]: "kept_in h [] = {}"
  by (simp add: kept_in_def)

lemma kept_in_Cons: "kept_in h (f # fs) = kept_in h [f] \<union> kept_in h fs"
  by (auto simp: kept_in_def)

lemma kept_in_append [simp]: "kept_in h (fs @ gs) = kept_in h fs \<union> kept_in h gs"
  by (auto simp: kept_in_def)

lemma kept_in_plain: "\<not> is_aggregate h f \<Longrightarrow> kept_in h [f] = {f}"
proof -
  assume f: "\<not> is_aggregate h f"
  have "(part h)\<^sup>*\<^sup>* f y \<Longrightarrow> y = f" for y
    by (erule converse_rtranclpE) (use no_part [OF f] in auto)
  then show ?thesis using f by (auto simp: kept_in_def)
qed

lemma kept_in_aggregate:
  assumes "thrown_at h f = Aggregate_error es c"
  shows "kept_in h [f] = kept_in h es"
proof -
  have "is_aggregate h f" using assms by (simp add: is_aggregate_def)
  moreover have "(part h)\<^sup>*\<^sup>* f y \<longleftrightarrow> y = f \<or> (\<exists>x \<in> set es. (part h)\<^sup>*\<^sup>* x y)" for y
  proof
    show "y = f \<or> (\<exists>x \<in> set es. (part h)\<^sup>*\<^sup>* x y)" if "(part h)\<^sup>*\<^sup>* f y"
      using that by (rule converse_rtranclpE) (use part_iff [OF assms] in auto)
    show "(part h)\<^sup>*\<^sup>* f y" if "y = f \<or> (\<exists>x \<in> set es. (part h)\<^sup>*\<^sup>* x y)"
      using that part_iff [OF assms] by (auto intro: converse_rtranclp_into_rtranclp)
  qed
  ultimately show ?thesis by (auto simp: kept_in_def)
qed

text \<open>The walk loses nothing: what a visited aggregate contains is settled or still pending.\<close>

definition settled :: "error_heap \<Rightarrow> failure list \<Rightarrow> failure list \<Rightarrow> failure \<Rightarrow> bool" where
  "settled h failures visited y \<longleftrightarrow> (if is_aggregate h y then y \<in> set visited else y \<in> set failures)"

lemma settled_mono:
  "settled h failures visited y \<Longrightarrow> set failures \<subseteq> set failures' \<Longrightarrow> set visited \<subseteq> set visited' \<Longrightarrow>
     settled h failures' visited' y"
  by (auto simp: settled_def split: if_splits)

definition complete_walk :: "error_heap \<Rightarrow> failure list \<Rightarrow> failure list \<Rightarrow> failure list \<Rightarrow> bool" where
  "complete_walk h pending failures visited \<longleftrightarrow>
     (\<forall>v \<in> set visited. \<forall>y. part h v y \<longrightarrow> y \<in> set pending \<or> settled h failures visited y)"

lemma complete_walk_step:
  assumes "complete_walk h (f # pending) failures visited"
    and "set failures \<subseteq> set failures'" and "set visited \<subseteq> set visited'"
    and "f \<in> set pending' \<or> settled h failures' visited' f" and "set pending \<subseteq> set pending'"
    and "\<And>v y. v \<in> set visited' \<Longrightarrow> v \<notin> set visited \<Longrightarrow> part h v y \<Longrightarrow> y \<in> set pending'"
  shows "complete_walk h pending' failures' visited'"
  unfolding complete_walk_def
proof (intro ballI allI impI)
  fix v y
  assume v: "v \<in> set visited'" and y: "part h v y"
  show "y \<in> set pending' \<or> settled h failures' visited' y"
  proof (cases "v \<in> set visited")
    case True
    then have "y \<in> set (f # pending) \<or> settled h failures visited y"
      using assms(1) y unfolding complete_walk_def by blast
    then consider "y = f" | "y \<in> set pending" | "settled h failures visited y" by auto
    then show ?thesis
    proof cases
      case 1
      then show ?thesis using assms(4) by simp
    next
      case 2
      then show ?thesis using assms(5) by blast
    next
      case 3
      then show ?thesis using settled_mono [OF _ assms(2,3)] by blast
    qed
  qed (use assms(6) v y in blast)
qed

lemma appendFailure_plain:
  "\<not> is_aggregate h f \<Longrightarrow>
     appendFailure h (f # pending) failures visited = appendFailure h pending (failures @ [f]) visited"
  by (auto simp: is_aggregate_def split: thrown.splits)

lemma appendFailure_closed:
  assumes "complete_walk h pending failures visited"
  shows "\<exists>visited'. complete_walk h [] (appendFailure h pending failures visited) visited' \<and>
     set visited \<subseteq> set visited' \<and> set failures \<subseteq> set (appendFailure h pending failures visited) \<and>
     (\<forall>f \<in> set pending. settled h (appendFailure h pending failures visited) visited' f)"
  using assms
proof (induction h pending failures visited rule: appendFailure.induct)
  case (1 h failures visited)
  then show ?case by (intro exI [of _ visited]) simp
next
  case (2 h failure pending failures visited)
  show ?case
  proof (cases "is_aggregate h failure")
    case True
    then obtain es c where t: "thrown_at h failure = Aggregate_error es c"
      by (auto simp: is_aggregate_def split: thrown.splits)
    have self: "settled h fs visited' failure" if "failure \<in> set visited'" for fs visited'
      using True that by (simp add: settled_def)
    show ?thesis
    proof (cases "failure \<in> set visited \<or> es = []")
      case met: True
      have eq: "appendFailure h (failure # pending) failures visited =
          appendFailure h pending (failures @ [failure]) (failure # visited)" using t met by simp
      have "complete_walk h pending (failures @ [failure]) (failure # visited)"
        by (rule complete_walk_step [OF 2(5)]) (use met self part_iff [OF t] in auto)
      from 2(3) [OF t met this] show ?thesis unfolding eq using self by (elim ex_forward) auto
    next
      case fresh: False
      have eq: "appendFailure h (failure # pending) failures visited =
          appendFailure h (es @ pending) failures (failure # visited)" using t fresh by simp
      have "complete_walk h (es @ pending) failures (failure # visited)"
        by (rule complete_walk_step [OF 2(5)]) (use self part_iff [OF t] in auto)
      from 2(4) [OF t fresh this] show ?thesis unfolding eq using self by (elim ex_forward) auto
    qed
  next
    case False
    have self: "settled h fs visited' failure" if "failure \<in> set fs" for fs visited'
      using False that by (simp add: settled_def)
    have "complete_walk h pending (failures @ [failure]) visited"
      by (rule complete_walk_step [OF 2(5)]) (use self in auto)
    then have "\<exists>visited'. complete_walk h [] (appendFailure h pending (failures @ [failure]) visited) visited' \<and>
        set visited \<subseteq> set visited' \<and>
        set (failures @ [failure]) \<subseteq> set (appendFailure h pending (failures @ [failure]) visited) \<and>
        (\<forall>f \<in> set pending. settled h (appendFailure h pending (failures @ [failure]) visited) visited' f)"
      using 2(1,2) False by (cases "thrown_at h failure") (simp_all add: is_aggregate_def)
    then show ?thesis unfolding appendFailure_plain [OF False] using self by (elim ex_forward) auto
  qed
qed

lemma appendFailure_kept:
  "kept_in h pending \<subseteq> K \<Longrightarrow> {f \<in> set failures. \<not> is_aggregate h f} \<subseteq> K \<Longrightarrow>
     {f \<in> set (appendFailure h pending failures visited). \<not> is_aggregate h f} \<subseteq> K"
proof (induction h pending failures visited rule: appendFailure.induct)
  case (2 h failure pending failures visited)
  have k: "kept_in h [failure] \<subseteq> K" "kept_in h pending \<subseteq> K" using 2(5) kept_in_Cons [of h failure pending] by auto
  show ?case
  proof (cases "is_aggregate h failure")
    case True
    then obtain es c where t: "thrown_at h failure = Aggregate_error es c"
      by (auto simp: is_aggregate_def split: thrown.splits)
    show ?thesis
    proof (cases "failure \<in> set visited \<or> es = []")
      case met: True
      then show ?thesis using 2(3) [OF t met k(2)] 2(6) True t by auto
    next
      case fresh: False
      then show ?thesis using 2(4) [OF t fresh] 2(6) k t kept_in_aggregate [OF t] by auto
    qed
  next
    case False
    then have "failure \<in> K" using k kept_in_plain by blast
    then have f: "{f \<in> set (failures @ [failure]). \<not> is_aggregate h f} \<subseteq> K" using 2(6) by auto
    show ?thesis unfolding appendFailure_plain [OF False] using 2(1,2) [OF _ k(2) f] False
      by (cases "thrown_at h failure") (simp_all add: is_aggregate_def)
  qed
qed simp

lemma flattened_kept: "{f \<in> set (appendFailure h failures [] []). \<not> is_aggregate h f} = kept_in h failures"
proof
  show "{f \<in> set (appendFailure h failures [] []). \<not> is_aggregate h f} \<subseteq> kept_in h failures"
    by (rule appendFailure_kept) simp_all
  let ?flat = "appendFailure h failures [] []"
  obtain visited where v: "complete_walk h [] ?flat visited" "\<And>f. f \<in> set failures \<Longrightarrow> settled h ?flat visited f"
    using appendFailure_closed [of h failures "[]" "[]"] by (auto simp: complete_walk_def)
  have "settled h ?flat visited f" if "(part h)\<^sup>*\<^sup>* x f" "x \<in> set failures" for x f
    using that
  proof (induction rule: rtranclp_induct)
    case base
    then show ?case by (rule v(2))
  next
    case (step y z)
    then have "is_aggregate h y" using no_part by blast
    then have "y \<in> set visited" using step by (simp add: settled_def)
    then show ?case using v(1) step(2) unfolding complete_walk_def by auto
  qed
  then show "kept_in h failures \<subseteq> {f \<in> set ?flat. \<not> is_aggregate h f}"
    by (auto simp: kept_in_def settled_def)
qed

subsection \<open>Properties\<close>

text \<open>A store whose objects refer to objects of the store.\<close>

definition heap_ok :: "error_heap \<Rightarrow> bool" where
  "heap_ok h \<longleftrightarrow> (\<forall>x y. evidence h x y \<longrightarrow> y < length h)"

lemma evidence_part: "(part h)\<^sup>*\<^sup>* x y \<Longrightarrow> (evidence h)\<^sup>*\<^sup>* x y"
  by (erule rtranclp_mono [THEN predicate2D, rotated]) (auto simp: evidence_def)

lemma thrown_append: "f < length h \<Longrightarrow> thrown_at (h @ ts) f = thrown_at h f"
  by (simp add: thrown_at_def nth_append)

lemma thrown_new: "thrown_at (h @ [t]) (length h) = t"
  by (simp add: thrown_at_def)

lemma thrown_update:
  "f < length h \<Longrightarrow> thrown_at (h[f := t]) g = (if g = f then t else thrown_at h g)"
  by (simp add: thrown_at_def)

lemma evidence_cong: "thrown_at h' x = thrown_at h x \<Longrightarrow> evidence h' x y = evidence h x y"
proof -
  assume at: "thrown_at h' x = thrown_at h x"
  show ?thesis unfolding evidence_def part_def errors_of_def cause_of_def at ..
qed

lemma flattened_in_store:
  assumes "heap_ok h" and "\<forall>f \<in> set failures. f < length h"
  shows "\<forall>f \<in> kept_in h failures. f < length h"
proof -
  have "y < length h" if "(part h)\<^sup>*\<^sup>* x y" "x < length h" for x y
    using that by (induction rule: rtranclp_induct) (use assms(1) in \<open>auto simp: heap_ok_def evidence_def\<close>)
  then show ?thesis using assms(2) by (auto simp: kept_in_def)
qed

text \<open>Aggregating failures keeps every one of them: the new error lists exactly the failures that are not
  aggregates among the given ones and inside them, whatever cycles the aggregates form, and no object changes.\<close>

theorem aggregates_keep_every_failure:
  "\<exists>flat cause. aggregateFailures h failures = (h @ [Aggregate_error flat cause], length h) \<and>
     {f \<in> set flat. \<not> is_aggregate h f} = kept_in h failures"
  unfolding aggregateFailures_def allocate_def Let_def using flattened_kept by blast

lemma aggregate_evidence:
  assumes "aggregateFailures h failures = (h', r)" and "f \<in> kept_in h failures"
  shows "evidence h' r f"
proof -
  obtain flat c where a: "h' = h @ [Aggregate_error flat c]" "r = length h"
      "{f \<in> set flat. \<not> is_aggregate h f} = kept_in h failures"
    using aggregates_keep_every_failure [of h failures] assms(1) by auto
  then show ?thesis using assms(2) by (auto simp: evidence_def part_def errors_of_def thrown_new)
qed

lemma part_kept:
  assumes "\<And>x. is_aggregate h x \<Longrightarrow> thrown_at h' x = thrown_at h x" and "(part h)\<^sup>*\<^sup>* x y"
  shows "(evidence h')\<^sup>*\<^sup>* x y"
  using assms(2)
proof (induction rule: rtranclp_induct)
  case (step y z)
  then have "is_aggregate h y" using no_part by blast
  then have "part h' y z" using step(2) assms(1) by (simp add: part_def errors_of_def)
  then show ?case using step(3) by (auto simp: evidence_def intro: rtranclp.rtrancl_into_rtrancl)
qed simp


definition sample_errors :: error_heap where
  "sample_errors = [Error_object (Exception OperationAborted) None False, Plain_value,
     Aggregate_error [3, 2, 1] (Some 3), Error_object (Exception MetadataError) None True]"


subsection \<open>Cancellation and history resets\<close>

lemma cancellation_step:
  "is_aggregate h c \<Longrightarrow> cancellation_loop h reason c = Some False"
  "\<not> is_aggregate h c \<Longrightarrow> c = reason \<Longrightarrow>
     cancellation_loop h reason c = Some (thrown_at h c = Plain_value \<or> cause_of h c = None)"
  "\<not> is_aggregate h c \<Longrightarrow> c \<noteq> reason \<Longrightarrow> cause_of h c = None \<Longrightarrow> cancellation_loop h reason c = Some False"
  "\<not> is_aggregate h c \<Longrightarrow> c \<noteq> reason \<Longrightarrow> cause_of h c = Some d \<Longrightarrow>
     cancellation_loop h reason c = cancellation_loop h reason d"
  by (subst cancellation_loop.simps, simp)+

lemma aggregate_new: "aggregateFailures h fs = (h', r) \<Longrightarrow> is_aggregate h' r"
  by (auto simp: aggregateFailures_def allocate_def Let_def is_aggregate_def thrown_new)



definition reports_reset :: "error_heap \<Rightarrow> failure \<Rightarrow> bool" where
  "reports_reset h f \<longleftrightarrow> (case thrown_at h f of
     Error_object (Exception (MetadataHistoryResetError _ _ _)) _ _ \<Rightarrow> True | _ \<Rightarrow> False)"

definition nested :: "error_heap \<Rightarrow> failure \<Rightarrow> failure list" where
  "nested h f = errors_of h f @ (case cause_of h f of None \<Rightarrow> [] | Some c \<Rightarrow> [c])"

lemma nested_evidence: "set (nested h f) = {y. evidence h f y}"
  by (auto simp: nested_def evidence_def part_def split: option.splits)

lemma history_reset_step:
  "history_reset_search h (cause # pending) seen =
     (if cause \<in> set seen then history_reset_search h pending seen
      else if reports_reset h cause then Some cause
      else history_reset_search h (nested h cause @ pending) (cause # seen))"
  by (cases "thrown_at h cause")
    (auto simp: reports_reset_def nested_def errors_of_def cause_of_def split: error_class.splits js_error.splits option.splits)

declare history_reset_search.simps(2) [simp del]

lemma nested_outside: "\<not> c < length h \<Longrightarrow> nested h c = []"
  by (simp add: nested_def errors_of_def cause_of_def thrown_at_def)

lemma reset_walk_induct [case_names Nil Seen Fresh]:
  assumes "\<And>seen. P [] seen"
    and "\<And>c pending seen. c \<in> set seen \<Longrightarrow> P pending seen \<Longrightarrow> P (c # pending) seen"
    and "\<And>c pending seen. c \<notin> set seen \<Longrightarrow> P (nested h c @ pending) (c # seen) \<Longrightarrow> P (c # pending) seen"
  shows "P pending seen"
proof (induction "(pending, seen)" arbitrary: pending seen
    rule: wf_induct_rule [OF wf_measures [of "[\<lambda>(p, s). unmet h s, \<lambda>(p, s). length p]"]])
  case (1 pending seen)
  show ?case
  proof (cases pending)
    case (Cons c rest)
    show ?thesis
    proof (cases "c \<in> set seen")
      case True
      then show ?thesis unfolding Cons using 1 Cons by (intro assms(2)) simp_all
    next
      case False
      have "unmet h (c # seen) < unmet h seen \<or> unmet h (c # seen) = unmet h seen \<and> nested h c = []"
        using unmet_decreases [of c h seen] unmet_mono [of h c seen] nested_outside [of c h] False by fastforce
      then show ?thesis unfolding Cons using 1 Cons False by (intro assms(3)) auto
    qed
  qed (use assms(1) in simp)
qed

lemma history_reset_sound:
  "history_reset_search h pending seen = Some g \<Longrightarrow> reports_reset h g \<and> (\<exists>p \<in> set pending. (evidence h)\<^sup>*\<^sup>* p g)"
proof (induction pending seen rule: reset_walk_induct [where h = h])
  case (Fresh c pending seen)
  show ?case
  proof (cases "reports_reset h c")
    case True
    then show ?thesis using Fresh by (simp add: history_reset_step)
  next
    case False
    then have "reports_reset h g" "\<exists>p \<in> set (nested h c @ pending). (evidence h)\<^sup>*\<^sup>* p g"
      using Fresh by (simp_all add: history_reset_step)
    then show ?thesis using nested_evidence [of h c] by (auto intro: converse_rtranclp_into_rtranclp)
  qed
qed (auto simp: history_reset_step)

lemma history_reset_complete:
  "history_reset_search h pending seen = None \<Longrightarrow>
     (\<forall>v \<in> set seen. \<not> reports_reset h v \<and> (\<forall>y. evidence h v y \<longrightarrow> y \<in> set seen \<union> set pending)) \<Longrightarrow>
     \<exists>S. set seen \<union> set pending \<subseteq> S \<and> (\<forall>v \<in> S. \<not> reports_reset h v \<and> (\<forall>y. evidence h v y \<longrightarrow> y \<in> S))"
proof (induction pending seen rule: reset_walk_induct [where h = h])
  case (Nil seen)
  then show ?case by (intro exI [of _ "set seen"]) auto
next
  case (Seen c pending seen)
  have "\<exists>S. set seen \<union> set pending \<subseteq> S \<and> (\<forall>v \<in> S. \<not> reports_reset h v \<and> (\<forall>y. evidence h v y \<longrightarrow> y \<in> S))"
    by (rule Seen(2)) (use Seen(1,3,4) in \<open>auto simp: history_reset_step\<close>)
  then show ?case using Seen(1) by (elim ex_forward) auto
next
  case (Fresh c pending seen)
  have c: "\<not> reports_reset h c" "history_reset_search h (nested h c @ pending) (c # seen) = None"
    using Fresh(1,3) by (simp_all add: history_reset_step split: if_splits)
  have "\<exists>S. set (c # seen) \<union> set (nested h c @ pending) \<subseteq> S \<and>
      (\<forall>v \<in> S. \<not> reports_reset h v \<and> (\<forall>y. evidence h v y \<longrightarrow> y \<in> S))"
    by (rule Fresh(2) [OF c(2)]) (use c(1) Fresh(4) nested_evidence [of h c] in auto)
  then show ?case by (elim ex_forward) auto
qed

text \<open>A retired history is never missed: the search returns a history reset exactly when one is reachable
  through the errors and causes of the failure, and then one that is.\<close>

theorem history_resets_are_found:
  "case metadataHistoryResetIn h cause of
     None \<Rightarrow> (\<nexists>g. (evidence h)\<^sup>*\<^sup>* cause g \<and> reports_reset h g)
   | Some g \<Rightarrow> (evidence h)\<^sup>*\<^sup>* cause g \<and> reports_reset h g"
proof -
  have sound: "(evidence h)\<^sup>*\<^sup>* cause g \<and> reports_reset h g" if "metadataHistoryResetIn h cause = Some g" for g
    using history_reset_sound [of h "[cause]" "[]" g] that by (simp add: metadataHistoryResetIn_def)
  have "\<not> reports_reset h g" if none: "metadataHistoryResetIn h cause = None" and "(evidence h)\<^sup>*\<^sup>* cause g" for g
  proof -
    obtain S where S: "cause \<in> S" "\<forall>v \<in> S. \<not> reports_reset h v \<and> (\<forall>y. evidence h v y \<longrightarrow> y \<in> S)"
      using history_reset_complete [of h "[cause]" "[]"] none by (auto simp: metadataHistoryResetIn_def)
    have "g \<in> S" using that(2) by (induction rule: rtranclp_induct) (use S in auto)
    then show ?thesis using S(2) by blast
  qed
  then show ?thesis using sound by (cases "metadataHistoryResetIn h cause") auto
qed

end
