(* ===== verification/Snapshot_Publication.thy ===== *)
theory Snapshot_Publication
  imports Restore_Plan Failure_Settlement "HOL-Library.Multiset"
begin

text \<open>
  Publication of a scanned workspace (\<^verbatim>\<open>snapshot-publication.ts\<close>): the checks that bind the snapshot to its
  scan, the pool of eight asynchronous lanes that store the blobs, and the tree that is published when all
  of them are stored. The interleaving of the lanes is an explicit schedule: a list of lane numbers, each of
  which lets that lane run to its next suspension. When the list ends, the lanes are resumed in order until
  all have returned. Progress callbacks are not modelled. The object store, the workspace lock and the path
  module of the runtime are arguments.
\<close>

subsection \<open>The running operation\<close>

text \<open>\<^verbatim>\<open>options.signal\<close>: the reason of its abort once it is aborted.\<close>

record operation_world = world +
  abort_reason :: "failure option"

type_synonym ('w, 'a) operation =
  "'w operation_world_scheme \<Rightarrow> (failure + 'a) \<times> 'w operation_world_scheme"

definition throwIfAborted :: "('w, unit) operation" where
  "throwIfAborted w = (case abort_reason w of None \<Rightarrow> (Inr (), w) | Some reason \<Rightarrow> (Inl reason, w))"

definition lift_result :: "'a result \<Rightarrow> ('w, 'a) operation" where
  "lift_result r w = (case r of Inl e \<Rightarrow> throw_error e w | Inr x \<Rightarrow> (Inr x, w))"

definition settle_failure :: "(error_heap \<Rightarrow> error_heap \<times> failure) \<Rightarrow> ('w, 'a) operation" where
  "settle_failure f w = (let (h, r) = f (error_objects w) in (Inl r, w\<lparr>error_objects := h\<rparr>))"

definition ebind :: "('s \<Rightarrow> ('e + 'a) \<times> 's) \<Rightarrow> ('a \<Rightarrow> 's \<Rightarrow> ('e + 'b) \<times> 's) \<Rightarrow> 's \<Rightarrow> ('e + 'b) \<times> 's" where
  "ebind m f w = (case m w of (Inl e, w') \<Rightarrow> (Inl e, w') | (Inr x, w') \<Rightarrow> f x w')"

lemma ebind_Inr: "ebind m f w = (Inr y, w') \<longleftrightarrow> (\<exists>x w1. m w = (Inr x, w1) \<and> f x w1 = (Inr y, w'))"
  by (auto simp: ebind_def split: prod.splits sum.splits)

lemma ebind_InrE:
  assumes "ebind m f w = (Inr y, w')"
  obtains x w1 where "m w = (Inr x, w1)" and "f x w1 = (Inr y, w')"
  using assms by (auto simp: ebind_Inr)

lemma throw_error_Inr [simp]: "throw_error e w \<noteq> (Inr x, w')"
  by (simp add: throw_error_def allocate_def)

lemma lift_result_Inr: "lift_result r w = (Inr x, w') \<longleftrightarrow> r = Inr x \<and> w' = w"
  by (cases r) (auto simp: lift_result_def)

subsection \<open>The publication pool\<close>

datatype lane = Idle | Running nat | Returned

text \<open>\<open>completed\<close> records the items whose worker succeeded; the source does not keep it.\<close>

record pool =
  next_index :: nat
  pool_failures :: "(nat \<times> failure) list"
  lanes :: "lane list"
  completed :: "nat list"

definition PUBLICATION_CONCURRENCY :: nat where "PUBLICATION_CONCURRENCY = 8"

definition start_pool :: "nat \<Rightarrow> pool" where
  "start_pool n = \<lparr>next_index = 0, pool_failures = [], lanes = replicate (min PUBLICATION_CONCURRENCY n) Idle, completed = []\<rparr>"

text \<open>One lane runs to its next suspension: an idle lane takes the next item and starts its worker, a running
  one receives the outcome of its worker. A failure recorded by any lane stops every lane at its next turn.\<close>

definition lane_step :: "('b \<Rightarrow> ('w, unit) operation) \<Rightarrow> 'b list \<Rightarrow> nat \<Rightarrow> pool \<times> 'w operation_world_scheme \<Rightarrow>
    pool \<times> 'w operation_world_scheme" where
  "lane_step worker items l = (\<lambda>(p, w).
     if \<not> l < length (lanes p) then (p, w)
     else case lanes p ! l of
       Returned \<Rightarrow> (p, w)
     | Idle \<Rightarrow>
         if pool_failures p \<noteq> [] then (p\<lparr>lanes := (lanes p)[l := Returned]\<rparr>, w)
         else let index = next_index p; p' = p\<lparr>next_index := index + 1\<rparr> in
           if index \<ge> length items then (p'\<lparr>lanes := (lanes p)[l := Returned]\<rparr>, w)
           else (case abort_reason w of
               Some reason \<Rightarrow> (p'\<lparr>pool_failures := pool_failures p @ [(index, reason)]\<rparr>, w)
             | None \<Rightarrow> (p'\<lparr>lanes := (lanes p)[l := Running index]\<rparr>, w))
     | Running index \<Rightarrow>
         (case worker (items ! index) w of
            (Inr _, w') \<Rightarrow> (p\<lparr>lanes := (lanes p)[l := Idle], completed := completed p @ [index]\<rparr>, w')
          | (Inl error, w') \<Rightarrow>
              (p\<lparr>lanes := (lanes p)[l := Idle], pool_failures := pool_failures p @ [(index, error)]\<rparr>, w')))"

text \<open>Every turn of a lane that has not returned brings the pool closer to its end.\<close>

fun lane_weight :: "lane \<Rightarrow> nat" where
  "lane_weight Returned = 0"
| "lane_weight Idle = 1"
| "lane_weight (Running i) = 2"

definition pool_weight :: "nat \<Rightarrow> pool \<Rightarrow> nat" where
  "pool_weight n p = 2 * (n - next_index p) + sum_list (map lane_weight (lanes p))"

lemma sum_list_update_less:
  fixes xs :: "nat list"
  assumes "l < length xs" and "y < xs ! l"
  shows "sum_list (xs[l := y]) < sum_list xs"
  using assms by (induction xs arbitrary: l) (auto simp: nth_Cons split: nat.splits)

lemma sum_list_update_le:
  fixes xs :: "nat list"
  assumes "l < length xs" and "y \<le> xs ! l + k"
  shows "sum_list (xs[l := y]) \<le> sum_list xs + k"
  using assms
proof (induction xs arbitrary: l)
  case (Cons x xs)
  then show ?case by (cases l) (auto simp add: add.assoc)
qed simp

lemma weight_update_less:
  "l < length ls \<Longrightarrow> lane_weight x < lane_weight (ls ! l) \<Longrightarrow>
     sum_list (map lane_weight (ls[l := x])) < sum_list (map lane_weight ls)"
  unfolding map_update by (rule sum_list_update_less) simp_all

lemma weight_update_le:
  "l < length ls \<Longrightarrow> lane_weight x \<le> lane_weight (ls ! l) + k \<Longrightarrow>
     sum_list (map lane_weight (ls[l := x])) \<le> sum_list (map lane_weight ls) + k"
  unfolding map_update by (rule sum_list_update_le) simp_all

lemma lane_step_weight:
  assumes "l < length (lanes p)" and "lanes p ! l \<noteq> Returned"
  shows "pool_weight (length items) (fst (lane_step worker items l (p, w))) < pool_weight (length items) p"
proof (cases "lanes p ! l")
  case Idle
  have ret: "sum_list (map lane_weight ((lanes p)[l := Returned])) < sum_list (map lane_weight (lanes p))"
    by (rule weight_update_less) (use assms(1) Idle in simp_all)
  have run: "sum_list (map lane_weight ((lanes p)[l := Running i])) \<le> sum_list (map lane_weight (lanes p)) + 1" for i
    by (rule weight_update_le) (use assms(1) Idle in simp_all)
  show ?thesis
    using ret run [of "next_index p"] assms(1) Idle
    by (auto simp: lane_step_def pool_weight_def Let_def split: option.splits)
next
  case (Running i)
  have idle: "sum_list (map lane_weight ((lanes p)[l := Idle])) < sum_list (map lane_weight (lanes p))"
    by (rule weight_update_less) (use assms(1) Running in simp_all)
  then show ?thesis using assms(1) Running
    by (auto simp: lane_step_def pool_weight_def split: prod.splits sum.splits)
qed (use assms in simp)

definition active_lane :: "pool \<Rightarrow> nat option" where
  "active_lane p = find (\<lambda>l. lanes p ! l \<noteq> Returned) [0..<length (lanes p)]"

lemma active_lane_Some: "active_lane p = Some l \<Longrightarrow> l < length (lanes p) \<and> lanes p ! l \<noteq> Returned"
  by (auto simp: active_lane_def find_Some_iff)

lemma active_lane_None: "active_lane p = None \<longleftrightarrow> set (lanes p) \<subseteq> {Returned}"
proof -
  have "active_lane p = None \<longleftrightarrow> (\<forall>x \<in> set (lanes p). x = Returned)"
    unfolding all_set_conv_all_nth by (auto simp: active_lane_def find_None_iff)
  then show ?thesis by auto
qed

function drain_pool :: "('b \<Rightarrow> ('w, unit) operation) \<Rightarrow> 'b list \<Rightarrow> pool \<times> 'w operation_world_scheme \<Rightarrow>
    pool \<times> 'w operation_world_scheme" where
  "drain_pool worker items s =
     (case active_lane (fst s) of
        None \<Rightarrow> s
      | Some l \<Rightarrow> drain_pool worker items (lane_step worker items l s))"
  by pat_completeness auto
termination
  by (relation "measure (\<lambda>(worker, items, p, w). pool_weight (length items) p)")
    (auto simp: case_prod_beta intro!: lane_step_weight dest: active_lane_Some)

declare drain_pool.simps [simp del]

definition run_pool :: "nat list \<Rightarrow> ('b \<Rightarrow> ('w, unit) operation) \<Rightarrow> 'b list \<Rightarrow> 'w operation_world_scheme \<Rightarrow>
    pool \<times> 'w operation_world_scheme" where
  "run_pool schedule worker items w =
     drain_pool worker items (fold (lane_step worker items) schedule (start_pool (length items), w))"

text \<open>The failures by item; while cancelling, those that are not the cancellation itself come first. A cyclic
  chain of causes, on which the test does not return, counts as no cancellation.\<close>

definition pool_outcome :: "pool \<Rightarrow> ('w, unit) operation" where
  "pool_outcome p w =
     (case map snd (sort_key fst (pool_failures p)) of
        [] \<Rightarrow> (Inr (), w)
      | first # rest \<Rightarrow>
          (case abort_reason w of
             None \<Rightarrow> (Inl first, w)
           | Some reason \<Rightarrow>
               (case filter (\<lambda>e. isOperationCancelled (error_objects w) e (Some reason) \<noteq> Some True) (first # rest) of
                  [] \<Rightarrow> (Inl first, w)
                | [e] \<Rightarrow> (Inl e, w)
                | retained \<Rightarrow> settle_failure (\<lambda>h. aggregateFailures h retained) w)))"

definition runPublicationPool :: "nat list \<Rightarrow> 'b list \<Rightarrow> ('b \<Rightarrow> ('w, unit) operation) \<Rightarrow> ('w, unit) operation" where
  "runPublicationPool schedule items worker w = (let (p, w') = run_pool schedule worker items w in pool_outcome p w')"

subsection \<open>Publishing a snapshot\<close>

text \<open>\<^verbatim>\<open>node:path\<close> as the source uses it.\<close>

record path_module =
  isAbsolute :: "js_string \<Rightarrow> bool"
  join_path :: "js_string \<Rightarrow> js_string \<Rightarrow> js_string"

fun unbound_source :: "path_module \<Rightarrow> js_string \<Rightarrow> workspace_entry \<Rightarrow> bool" where
  "unbound_source pm root (Regular_file p m n h s) \<longleftrightarrow> s \<noteq> Some (join_path pm root p)"
| "unbound_source pm root (Symbolic_link p t k) \<longleftrightarrow> False"

definition unsafe_entry_path :: "unicode \<Rightarrow> js_string \<Rightarrow> bool" where
  "unsafe_entry_path u path \<longleftrightarrow> length path = 0 \<or> startsWith path [SLASH] \<or> 0x5C \<in> set path \<or> 0 \<in> set path
     \<or> path \<noteq> nfc u path
     \<or> list_ex (\<lambda>part. length part = 0 \<or> part = js ''.'' \<or> part = js ''..'') (split_slash path)"

definition assertEntrySourcesBound :: "unicode \<Rightarrow> path_module \<Rightarrow> workspace_snapshot \<Rightarrow> unit result" where
  "assertEntrySourcesBound u pm snapshot =
     (if \<not> isAbsolute pm (rootPath snapshot) then Inl InconsistentSnapshotScopeError
      else if list_ex (\<lambda>e. unsafe_entry_path u (we_path e) \<or> unbound_source pm (rootPath snapshot) e) (ws_entries snapshot)
      then Inl InconsistentSnapshotScopeError
      else Inr ())"

definition assertCaptureEvaluatorBound :: "workspace_snapshot \<Rightarrow> unit result" where
  "assertCaptureEvaluatorBound snapshot =
     (case ws_scope snapshot of
        All_managed \<Rightarrow> if gitOracleVersion snapshot \<noteq> None then Inl InconsistentSnapshotScopeError else Inr ()
      | Git_scope g \<Rightarrow>
          (case evaluator g of
             None \<Rightarrow> Inl InconsistentSnapshotScopeError
           | Some e \<Rightarrow> if Some (ev_version e) \<noteq> gitOracleVersion snapshot then Inl InconsistentSnapshotScopeError
                      else Inr ()))"

record blob_source =
  bs_sourcePath :: "js_string option"
  bs_oid :: js_string
  bs_byteLength :: int

text \<open>Each blob once, from the first entry that has it.\<close>

fun blob_sources :: "workspace_entry list \<Rightarrow> js_string list \<Rightarrow> blob_source list" where
  "blob_sources [] publishedBlobs = []"
| "blob_sources (Symbolic_link p t k # es) publishedBlobs = blob_sources es publishedBlobs"
| "blob_sources (Regular_file p m n h s # es) publishedBlobs =
     (if h \<in> set publishedBlobs then blob_sources es publishedBlobs
      else \<lparr>bs_sourcePath = s, bs_oid = h, bs_byteLength = n\<rparr> # blob_sources es (h # publishedBlobs))"

text \<open>The publication that \<^verbatim>\<open>store.beginSnapshotPublication\<close> opens.\<close>

record 's publication =
  beginSnapshotPublication :: "'s \<Rightarrow> (failure + unit) \<times> 's"
  publishBlobFromFile :: "js_string option \<Rightarrow> js_string \<Rightarrow> int \<Rightarrow> 's \<Rightarrow> (failure + js_string) \<times> 's"
  publishTree :: "tree_entry list \<Rightarrow> workspace_scope \<Rightarrow> 's \<Rightarrow> (failure + string) \<times> 's"
  close_publication :: "'s \<Rightarrow> (failure + unit) \<times> 's"

definition publish_blob :: "'w operation_world_scheme publication \<Rightarrow> blob_source \<Rightarrow> ('w, unit) operation" where
  "publish_blob store source =
     ebind (publishBlobFromFile store (bs_sourcePath source) (bs_oid source) (bs_byteLength source))
       (\<lambda>blobOid. if blobOid \<noteq> bs_oid source then throw_error PlainError else Pair (Inr ()))"

definition publication_checks :: "unicode \<Rightarrow> path_module \<Rightarrow> workspace_snapshot \<Rightarrow> ('w, unit) operation" where
  "publication_checks u pm snapshot =
     ebind throwIfAborted (\<lambda>_.
     if ws_problems snapshot \<noteq> [] then throw_error IncompleteSnapshotError
     else ebind (lift_result (assertEntrySourcesBound u pm snapshot)) (\<lambda>_.
       lift_result (assertCaptureEvaluatorBound snapshot)))"

text \<open>\<^verbatim>\<open>try { ... } finally { publication.close() }\<close>.\<close>

definition and_close :: "('w, unit) operation \<Rightarrow> ('w, 'a) operation \<Rightarrow> ('w, 'a) operation" where
  "and_close close body w =
     (case body w of
        (Inr x, w1) \<Rightarrow> (case close w1 of (Inr _, w2) \<Rightarrow> (Inr x, w2) | (Inl cleanupError, w2) \<Rightarrow> (Inl cleanupError, w2))
      | (Inl e, w1) \<Rightarrow>
          (case close w1 of
             (Inr _, w2) \<Rightarrow> (Inl e, w2)
           | (Inl cleanupError, w2) \<Rightarrow> settle_failure (\<lambda>h. retainFailureCause h e cleanupError) w2))"

definition publish_open :: "'w operation_world_scheme publication \<Rightarrow> nat list \<Rightarrow> workspace_snapshot \<Rightarrow> ('w, string) operation" where
  "publish_open store schedule snapshot =
     ebind (beginSnapshotPublication store) (\<lambda>_.
       and_close (close_publication store)
         (ebind (runPublicationPool schedule (blob_sources (ws_entries snapshot) []) (publish_blob store)) (\<lambda>_.
          ebind throwIfAborted (\<lambda>_.
            publishTree store (map workspaceEntryAsTreeEntry (ws_entries snapshot)) (ws_scope snapshot)))))"

text \<open>Without a write authority the function takes the workspace lock and calls itself with one.\<close>

definition publishSnapshot :: "unicode \<Rightarrow> path_module \<Rightarrow> 'w operation_world_scheme publication \<Rightarrow>
    (('w, string) operation \<Rightarrow> ('w, string) operation) \<Rightarrow> nat list \<Rightarrow> bool \<Rightarrow> workspace_snapshot \<Rightarrow>
    ('w, string) operation" where
  "publishSnapshot u pm store withWorkspaceLock schedule writeAuthority snapshot =
     ebind (publication_checks u pm snapshot) (\<lambda>_.
       if \<not> writeAuthority
       then withWorkspaceLock (ebind (publication_checks u pm snapshot) (\<lambda>_. publish_open store schedule snapshot))
       else publish_open store schedule snapshot)"

subsection \<open>What the pool guarantees\<close>

fun lane_item :: "lane \<Rightarrow> nat multiset" where
  "lane_item (Running i) = {#i#}"
| "lane_item _ = {#}"

definition started :: "nat \<Rightarrow> pool \<Rightarrow> nat multiset" where
  "started n p = mset [0..<min (next_index p) n]"

text \<open>Every started item is running, completed or failed, once; a lane returns only when all items are
  started or one failed.\<close>

definition pool_ok :: "nat \<Rightarrow> pool \<Rightarrow> bool" where
  "pool_ok n p \<longleftrightarrow> length (lanes p) = min PUBLICATION_CONCURRENCY n \<and>
     mset (completed p) + mset (map fst (pool_failures p)) + sum_list (map lane_item (lanes p)) = started n p \<and>
     (Returned \<in> set (lanes p) \<longrightarrow> pool_failures p \<noteq> [] \<or> n \<le> next_index p)"

lemma sum_list_update_eq:
  fixes xs :: "'c :: comm_monoid_add list"
  assumes "l < length xs"
  shows "sum_list (xs[l := y]) + xs ! l = sum_list xs + y"
  using assms
proof (induction xs arbitrary: l)
  case (Cons x xs)
  then show ?case by (cases l) (auto simp: add_ac)
qed simp

lemma items_update:
  "l < length ls \<Longrightarrow>
     sum_list (map lane_item (ls[l := x])) + lane_item (ls ! l) = sum_list (map lane_item ls) + lane_item x"
  unfolding map_update using sum_list_update_eq [of l "map lane_item ls" "lane_item x"] by simp

lemma started_next: "next_index p < n \<Longrightarrow> next_index q = next_index p + 1 \<Longrightarrow>
    started n q = started n p + {#next_index p#}"
  by (simp add: started_def min_def)

lemma started_all: "n \<le> next_index p \<Longrightarrow> n \<le> next_index q \<Longrightarrow> started n q = started n p"
  by (simp add: started_def min_def)

lemma Returned_update: "Returned \<in> set (ls[l := x]) \<Longrightarrow> x = Returned \<or> Returned \<in> set ls"
  using set_update_subset_insert [of ls l x] by auto

lemma lane_step_ok:
  assumes "pool_ok (length items) p"
  shows "pool_ok (length items) (fst (lane_step worker items l (p, w)))"
proof (cases "l < length (lanes p)")
  case l: True
  note upd = items_update [OF l] and ok = assms [unfolded pool_ok_def]
  show ?thesis
  proof (cases "lanes p ! l")
    case Idle
    have ret: "sum_list (map lane_item ((lanes p)[l := Returned])) = sum_list (map lane_item (lanes p))"
      using upd [of Returned] Idle by simp
    have run: "sum_list (map lane_item ((lanes p)[l := Running i])) = sum_list (map lane_item (lanes p)) + {#i#}" for i
      using upd [of "Running i"] Idle by simp
    consider "pool_failures p \<noteq> []" | "pool_failures p = []" "length items \<le> next_index p"
      | "pool_failures p = []" "next_index p < length items" by linarith
    then show ?thesis
    proof cases
      case 1
      then show ?thesis using ok l Idle ret by (simp add: lane_step_def pool_ok_def started_def)
    next
      case 2
      let ?p = "p\<lparr>next_index := next_index p + 1, lanes := (lanes p)[l := Returned]\<rparr>"
      have "fst (lane_step worker items l (p, w)) = ?p" using l Idle 2 by (simp add: lane_step_def Let_def)
      moreover have "started (length items) ?p = started (length items) p" by (rule started_all) (use 2 in simp_all)
      ultimately show ?thesis using ok ret 2 by (simp add: pool_ok_def)
    next
      case 3
      then have none: "Returned \<notin> set (lanes p)" using ok by auto
      let ?i = "next_index p"
      have st: "started (length items) q = started (length items) p + {#?i#}" if "next_index q = ?i + 1" for q
        by (rule started_next [OF 3(2) that])
      have key: "mset (completed p) + sum_list (map lane_item (lanes p)) = started (length items) p"
        using ok 3(1) by simp
      show ?thesis
      proof (cases "abort_reason w")
        case (Some reason)
        let ?p = "p\<lparr>next_index := ?i + 1, pool_failures := [(?i, reason)]\<rparr>"
        have "fst (lane_step worker items l (p, w)) = ?p"
          using l Idle 3 Some by (simp add: lane_step_def Let_def)
        moreover have "started (length items) ?p = started (length items) p + {#?i#}" by (rule st) simp
        ultimately show ?thesis using ok none key by (simp add: pool_ok_def)
      next
        case None
        let ?p = "p\<lparr>next_index := ?i + 1, lanes := (lanes p)[l := Running ?i]\<rparr>"
        have eq: "fst (lane_step worker items l (p, w)) = ?p"
          using l Idle 3 None by (simp add: lane_step_def Let_def)
        have "started (length items) ?p = started (length items) p + {#?i#}" by (rule st) simp
        moreover have "Returned \<notin> set ((lanes p)[l := Running ?i])" using none Returned_update by blast
        ultimately show ?thesis unfolding eq using ok key run [of ?i] 3(1) by (simp add: pool_ok_def)
      qed
    qed
  next
    case (Running i)
    let ?ls = "(lanes p)[l := Idle]"
    have "sum_list (map lane_item ?ls) + {#i#} = sum_list (map lane_item (lanes p))"
      using upd [of Idle] Running by simp
    then have key: "mset (completed p) + mset (map fst (pool_failures p)) + (sum_list (map lane_item ?ls) + {#i#}) =
        started (length items) p" using ok by simp
    have ret: "Returned \<in> set ?ls \<Longrightarrow> Returned \<in> set (lanes p)" using Returned_update by blast
    obtain r w' where r: "worker (items ! i) w = (r, w')" by (cases "worker (items ! i) w")
    show ?thesis
    proof (cases r)
      case (Inl e)
      have "mset (completed p) + mset (map fst (pool_failures p @ [(i, e)])) + sum_list (map lane_item ?ls) =
          started (length items) p" using key by (simp add: ac_simps)
      then show ?thesis using ok l Running r Inl ret by (auto simp: lane_step_def pool_ok_def started_def)
    next
      case (Inr u)
      have "mset (completed p @ [i]) + mset (map fst (pool_failures p)) + sum_list (map lane_item ?ls) =
          started (length items) p" using key by (simp add: ac_simps)
      then show ?thesis using ok l Running r Inr ret by (auto simp: lane_step_def pool_ok_def started_def)
    qed
  qed (use assms l in \<open>simp add: lane_step_def\<close>)
qed (use assms in \<open>simp add: lane_step_def\<close>)

lemma start_pool_ok: "pool_ok n (start_pool n)"
proof -
  have "sum_list (map lane_item (replicate k Idle)) = {#}" for k by (induction k) simp_all
  then show ?thesis by (simp add: pool_ok_def start_pool_def started_def)
qed

lemma fold_ok: "pool_ok (length items) (fst s) \<Longrightarrow> pool_ok (length items) (fst (fold (lane_step worker items) schedule s))"
proof (induction schedule arbitrary: s)
  case (Cons l schedule)
  have "pool_ok (length items) (fst (lane_step worker items l s))"
    using lane_step_ok [of items "fst s" worker l "snd s"] Cons(2) by simp
  then show ?case using Cons(1) by simp
qed simp

lemma drain_ok:
  "pool_ok (length items) (fst s) \<Longrightarrow>
     pool_ok (length items) (fst (drain_pool worker items s)) \<and> active_lane (fst (drain_pool worker items s)) = None"
proof (induction worker items s rule: drain_pool.induct)
  case (1 worker items s)
  show ?case
  proof (cases "active_lane (fst s)")
    case None
    then show ?thesis using 1 by (subst (1 2) drain_pool.simps) simp
  next
    case (Some l)
    then have "pool_ok (length items) (fst (lane_step worker items l s))"
      using lane_step_ok [of items "fst s" worker l "snd s"] 1(2) by simp
    then show ?thesis using Some 1(1) by (subst (1 2) drain_pool.simps) simp
  qed
qed

lemma run_pool_final:
  assumes "run_pool schedule worker items w = (p, w')"
  shows "mset (completed p) + mset (map fst (pool_failures p)) = started (length items) p"
    and "pool_failures p = [] \<Longrightarrow> mset (completed p) = mset [0..<length items]"
proof -
  have "pool_ok (length items) p \<and> active_lane p = None"
    using drain_ok [of items "fold (lane_step worker items) schedule (start_pool (length items), w)" worker]
      fold_ok [of items "(start_pool (length items), w)" worker schedule] start_pool_ok assms
    by (simp add: run_pool_def)
  then have ok: "pool_ok (length items) p" and ret: "set (lanes p) \<subseteq> {Returned}"
    by (simp_all add: active_lane_None)
  have "set ls \<subseteq> {Returned} \<Longrightarrow> sum_list (map lane_item ls) = {#}" for ls by (induction ls) auto
  then show all: "mset (completed p) + mset (map fst (pool_failures p)) = started (length items) p"
    using ok ret by (simp add: pool_ok_def)
  assume none: "pool_failures p = []"
  have "length items \<le> next_index p"
  proof (cases "lanes p")
    case Nil
    then have "min 8 (length items) = 0" using ok by (simp add: pool_ok_def PUBLICATION_CONCURRENCY_def)
    then have "length items = 0" by (simp add: min_def split: if_splits)
    then show ?thesis by simp
  next
    case (Cons l ls)
    then show ?thesis using ok ret none by (auto simp: pool_ok_def)
  qed
  then show "mset (completed p) = mset [0..<length items]" using all none by (simp add: started_def min_def)
qed

text \<open>C22. The publication pool settles under every schedule of its lanes: all lanes return, each item is
  completed or failed at most once, without a failure every item is completed, and when something failed,
  every item before the first failed one is completed.\<close>

theorem publication_pool_settles:
  "case run_pool schedule worker items w of (p, w') \<Rightarrow>
     distinct (completed p @ map fst (pool_failures p)) \<and>
     (if pool_failures p = [] then set (completed p) = {..<length items}
      else {..<fst (hd (sort_key fst (pool_failures p)))} \<subseteq> set (completed p))"
proof -
  obtain p w' where run: "run_pool schedule worker items w = (p, w')" by fastforce
  note fin = run_pool_final [OF run]
  let ?k = "min (next_index p) (length items)"
  have ms: "mset (completed p @ map fst (pool_failures p)) = mset [0..<?k]" using fin(1) by (simp add: started_def)
  then have dist: "distinct (completed p @ map fst (pool_failures p))" using mset_eq_imp_distinct_iff distinct_upt by blast
  have sets: "set (completed p) \<union> fst ` set (pool_failures p) = {..<?k}"
    using mset_eq_setD [OF ms] by (auto simp: lessThan_atLeast0)
  have "{..<fst (hd (sort_key fst (pool_failures p)))} \<subseteq> set (completed p)" if ne: "pool_failures p \<noteq> []"
  proof -
    let ?s = "sort_key fst (pool_failures p)"
    obtain f fs where s: "?s = f # fs" using ne by (cases ?s) (metis mset_sort mset_zero_iff, blast)
    have mem: "set (pool_failures p) = insert f (set fs)" using s by (metis list.simps(15) set_sort)
    have least: "\<forall>g \<in> set fs. fst f \<le> fst g" using sorted_sort_key [of fst "pool_failures p"] s by simp
    then have "j \<notin> fst ` set (pool_failures p)" if "j < fst f" for j using that mem by fastforce
    moreover have "fst f < ?k" using sets mem by auto
    ultimately show ?thesis using sets s by fastforce
  qed
  moreover have "set (completed p) = {..<length items}" if "pool_failures p = []"
    using mset_eq_setD [OF fin(2) [OF that]] by (auto simp: lessThan_atLeast0)
  ultimately show ?thesis using run dist by simp
qed

subsection \<open>What a publication guarantees\<close>

lemma and_close_Inr: "and_close close body w = (Inr x, w') \<Longrightarrow> \<exists>w1. body w = (Inr x, w1) \<and> close w1 = (Inr (), w')"
proof -
  assume run: "and_close close body w = (Inr x, w')"
  obtain r w1 where b: "body w = (r, w1)" by fastforce
  obtain c w2 where c: "close w1 = (c, w2)" by fastforce
  show ?thesis using run b c
    by (cases r; cases c) (auto simp: and_close_def settle_failure_def Let_def split: prod.splits)
qed

text \<open>What the store promises: a blob that was published stays stored.\<close>

definition blob_laws :: "'w operation_world_scheme publication \<Rightarrow> ('w operation_world_scheme \<Rightarrow> js_string \<Rightarrow> bool) \<Rightarrow> bool" where
  "blob_laws store stored \<longleftrightarrow>
     (\<forall>w h oid. stored w oid \<longrightarrow> stored (w\<lparr>error_objects := h\<rparr>) oid) \<and>
     (\<forall>s d n w r w' oid. publishBlobFromFile store s d n w = (r, w') \<longrightarrow>
        (stored w oid \<longrightarrow> stored w' oid) \<and> (r = Inr oid \<longrightarrow> stored w' oid))"

text \<open>What the lock promises: a result under the lock is a result of the locked operation.\<close>

definition lock_runs :: "(('w, 'a) operation \<Rightarrow> ('w, 'a) operation) \<Rightarrow> bool" where
  "lock_runs lock \<longleftrightarrow> (\<forall>m w x w'. lock m w = (Inr x, w') \<longrightarrow> (\<exists>w1 w2. m w1 = (Inr x, w2)))"

lemma stored_throw: "blob_laws store stored \<Longrightarrow> stored w oid \<Longrightarrow> throw_error e w = (r, w') \<Longrightarrow> stored w' oid"
  by (auto simp: blob_laws_def throw_error_def allocate_def)

lemma publish_blob_stored:
  assumes laws: "blob_laws store stored" and run: "publish_blob store source w = (r, w')"
  shows "stored w oid \<Longrightarrow> stored w' oid" and "r = Inr u \<Longrightarrow> stored w' (bs_oid source)"
proof -
  obtain r1 w1 where p: "publishBlobFromFile store (bs_sourcePath source) (bs_oid source) (bs_byteLength source) w = (r1, w1)"
    by fastforce
  have keep: "stored w oid \<Longrightarrow> stored w1 oid" and new: "r1 = Inr x \<Longrightarrow> stored w1 x" for x
    using laws p unfolding blob_laws_def by blast+
  show "stored w' oid" if "stored w oid"
  proof (cases "\<exists>x. r1 = Inr x \<and> x \<noteq> bs_oid source")
    case True
    then have "throw_error PlainError w1 = (r, w')" using run p by (auto simp: publish_blob_def ebind_def)
    then show ?thesis using stored_throw [OF laws keep [OF that]] by blast
  next
    case False
    then have "w' = w1" using run p by (cases r1) (auto simp: publish_blob_def ebind_def)
    then show ?thesis using keep that by blast
  qed
  assume "r = Inr u"
  then have "r1 = Inr (bs_oid source) \<and> w' = w1"
    using run p by (cases r1) (auto simp: publish_blob_def ebind_def throw_error_def allocate_def split: if_splits)
  then show "stored w' (bs_oid source)" using new by blast
qed

definition completed_stored :: "('w operation_world_scheme \<Rightarrow> js_string \<Rightarrow> bool) \<Rightarrow> blob_source list \<Rightarrow>
    pool \<times> 'w operation_world_scheme \<Rightarrow> bool" where
  "completed_stored stored sources s \<longleftrightarrow> (\<forall>j \<in> set (completed (fst s)). stored (snd s) (bs_oid (sources ! j)))"

lemma lane_step_stored:
  assumes laws: "blob_laws store stored" and inv: "completed_stored stored sources (p, w)"
  shows "completed_stored stored sources (lane_step (publish_blob store) sources l (p, w))"
proof (cases "l < length (lanes p) \<and> (\<exists>i. lanes p ! l = Running i)")
  case True
  then obtain i where l: "l < length (lanes p)" "lanes p ! l = Running i" by blast
  obtain r w' where r: "publish_blob store (sources ! i) w = (r, w')" by fastforce
  show ?thesis
    using publish_blob_stored [OF laws r] inv l r
    by (cases r) (auto simp: lane_step_def completed_stored_def)
next
  case False
  then show ?thesis using inv
    by (auto simp: lane_step_def completed_stored_def Let_def split: lane.splits option.splits)
qed

lemma fold_stored:
  assumes "blob_laws store stored" and "completed_stored stored sources s"
  shows "completed_stored stored sources (fold (lane_step (publish_blob store) sources) schedule s)"
  using assms(2)
proof (induction schedule arbitrary: s)
  case (Cons l schedule)
  then show ?case using lane_step_stored [OF assms(1), of sources "fst s" "snd s" l] by simp
qed simp

lemma drain_stored:
  assumes "blob_laws store stored"
  shows "completed_stored stored sources s \<Longrightarrow> completed_stored stored sources (drain_pool (publish_blob store) sources s)"
proof (induction "publish_blob store" sources s rule: drain_pool.induct)
  case (1 sources s)
  show ?case
  proof (cases "active_lane (fst s)")
    case None
    then show ?thesis using 1(2) by (subst drain_pool.simps) simp
  next
    case (Some l)
    have "completed_stored stored sources (lane_step (publish_blob store) sources l s)"
      using lane_step_stored [OF assms, of sources "fst s" "snd s" l] 1(2) by simp
    then show ?thesis using 1(1) [OF Some] Some by (subst drain_pool.simps) simp
  qed
qed

lemma pool_success_stored:
  assumes laws: "blob_laws store stored"
    and run: "runPublicationPool schedule sources (publish_blob store) w = (Inr u, w')"
  shows "\<forall>source \<in> set sources. stored w' (bs_oid source)"
proof -
  obtain p w1 where p: "run_pool schedule (publish_blob store) sources w = (p, w1)" by fastforce
  have out: "pool_outcome p w1 = (Inr u, w')" using run p by (simp add: runPublicationPool_def)
  have "sort_key fst (pool_failures p) = []" and w': "w' = w1"
    using out by (auto simp: pool_outcome_def settle_failure_def split: list.splits option.splits prod.splits)
  then have none: "pool_failures p = []" by (metis set_empty set_sort)
  have "completed_stored stored sources (p, w1)"
    unfolding p [symmetric] run_pool_def
    by (intro drain_stored [OF laws] fold_stored [OF laws]) (simp add: completed_stored_def start_pool_def)
  moreover have "set (completed p) = {..<length sources}"
    using publication_pool_settles [where schedule = schedule and worker = "publish_blob store" and items = sources and w = w] p none by simp
  ultimately show ?thesis unfolding w' completed_stored_def by (auto simp: in_set_conv_nth)
qed

lemma blob_sources_cover:
  "h \<in> set published \<or> (\<exists>source \<in> set (blob_sources es published). bs_oid source = h)"
  if "Regular_file p m n h s \<in> set es"
  using that by (induction es published rule: blob_sources.induct) auto

lemma publication_effect:
  assumes "publishSnapshot u pm store withWorkspaceLock schedule writeAuthority snapshot w = (Inr oid, w')"
    and "blob_laws store stored"
    and "lock_runs withWorkspaceLock"
  shows "ws_problems snapshot = [] \<and> assertEntrySourcesBound u pm snapshot = Inr () \<and>
     assertCaptureEvaluatorBound snapshot = Inr () \<and>
     (\<exists>w1 w2. publishTree store (map workspaceEntryAsTreeEntry (ws_entries snapshot)) (ws_scope snapshot) w1 = (Inr oid, w2) \<and>
        list_all (\<lambda>e. case e of Regular_file _ _ _ h _ \<Rightarrow> stored w1 h | _ \<Rightarrow> True) (ws_entries snapshot))"
proof -
  have checks: "ws_problems snapshot = [] \<and> assertEntrySourcesBound u pm snapshot = Inr () \<and>
      assertCaptureEvaluatorBound snapshot = Inr ()"
    if "publication_checks u pm snapshot w = (Inr (), w1)" for w1
    using that by (simp add: publication_checks_def ebind_Inr lift_result_Inr split: if_splits)
  have inner: "\<exists>w1 w2. publishTree store (map workspaceEntryAsTreeEntry (ws_entries snapshot)) (ws_scope snapshot) w1 = (Inr oid, w2) \<and>
      list_all (\<lambda>e. case e of Regular_file _ _ _ h _ \<Rightarrow> stored w1 h | _ \<Rightarrow> True) (ws_entries snapshot)"
    if pub: "publish_open store schedule snapshot w0 = (Inr oid, w3)" for w0 w3
  proof -
    obtain x w1 where open': "and_close (close_publication store)
         (ebind (runPublicationPool schedule (blob_sources (ws_entries snapshot) []) (publish_blob store)) (\<lambda>_.
          ebind throwIfAborted (\<lambda>_.
            publishTree store (map workspaceEntryAsTreeEntry (ws_entries snapshot)) (ws_scope snapshot)))) w1 = (Inr oid, w3)"
      using pub unfolding publish_open_def by (rule ebind_InrE)
    obtain w4 where "ebind (runPublicationPool schedule (blob_sources (ws_entries snapshot) []) (publish_blob store)) (\<lambda>_.
          ebind throwIfAborted (\<lambda>_.
            publishTree store (map workspaceEntryAsTreeEntry (ws_entries snapshot)) (ws_scope snapshot))) w1 = (Inr oid, w4)"
      using and_close_Inr [OF open'] by blast
    then obtain u2 w2 u5 w5 where pool: "runPublicationPool schedule (blob_sources (ws_entries snapshot) []) (publish_blob store) w1 = (Inr u2, w2)"
        and go: "throwIfAborted w2 = (Inr u5, w5)"
        and tree: "publishTree store (map workspaceEntryAsTreeEntry (ws_entries snapshot)) (ws_scope snapshot) w5 = (Inr oid, w4)"
      by (elim ebind_InrE) blast
    have w5: "w5 = w2" using go by (auto simp: throwIfAborted_def split: option.splits)
    have "case e of Regular_file _ _ _ h _ \<Rightarrow> stored w5 h | _ \<Rightarrow> True" if "e \<in> set (ws_entries snapshot)" for e
      using pool_success_stored [OF assms(2) pool] blob_sources_cover [of _ _ _ _ _ "ws_entries snapshot" "[]"] that w5
      by (cases e) fastforce+
    then show ?thesis using tree by (auto simp: list_all_iff)
  qed
  obtain w1 where c: "publication_checks u pm snapshot w = (Inr (), w1)"
      and go: "(if \<not> writeAuthority
         then withWorkspaceLock (ebind (publication_checks u pm snapshot) (\<lambda>_. publish_open store schedule snapshot))
         else publish_open store schedule snapshot) w1 = (Inr oid, w')"
    using assms(1) unfolding publishSnapshot_def by (elim ebind_InrE) simp
  have "\<exists>w0 w3. publish_open store schedule snapshot w0 = (Inr oid, w3)"
  proof (cases writeAuthority)
    case False
    then obtain w2 w3 where "ebind (publication_checks u pm snapshot) (\<lambda>_. publish_open store schedule snapshot) w2 = (Inr oid, w3)"
      using go assms(3) unfolding lock_runs_def by fastforce
    then show ?thesis by (auto simp: ebind_Inr)
  qed (use go in auto)
  then show ?thesis using inner checks [OF c] by blast
qed

text \<open>A concrete store: the stored blobs are a list.\<close>

record sample_store = operation_world +
  stored_blobs :: "js_string list"

definition sample_publication :: "sample_store publication" where
  "sample_publication = \<lparr>beginSnapshotPublication = Pair (Inr ()),
     publishBlobFromFile = (\<lambda>s d n w. (Inr d, w\<lparr>stored_blobs := d # stored_blobs w\<rparr>)),
     publishTree = (\<lambda>es sc w. (Inr ''tree'', w)), close_publication = Pair (Inr ())\<rparr>"

definition sample_paths :: path_module where
  "sample_paths = \<lparr>isAbsolute = (\<lambda>p. startsWith p [SLASH]), join_path = (\<lambda>a b. a @ [SLASH] @ b)\<rparr>"

definition sample_scan :: workspace_snapshot where
  "sample_scan = \<lparr>ws_entries = [Regular_file (js ''a'') None 3 (js ''h1'') (Some (js ''/w/a'')),
       Regular_file (js ''b'') None 3 (js ''h1'') (Some (js ''/w/b'')), Symbolic_link (js ''c'') (js ''a'') None],
     ws_excluded = [], ws_problems = [], ws_scope = All_managed,
     gitOracleVersion = None, rootPath = js ''/w'', directoryObservations = []\<rparr>"

definition sample_world :: sample_store where
  "sample_world = \<lparr>error_objects = [], abort_reason = None, stored_blobs = []\<rparr>"

text \<open>C23. No tree is published before its blobs: under every schedule, when publishing a snapshot succeeds, the
  snapshot is complete, its sources are the scanned paths, and the tree of its entries was handed to the store
  in a state in which every blob of its regular entries was stored.\<close>

theorem trees_are_published_after_their_blobs:
  assumes "publishSnapshot u pm store withWorkspaceLock schedule writeAuthority snapshot w = (Inr oid, w')"
    and "blob_laws store stored"
    and "lock_runs withWorkspaceLock"
  shows "ws_problems snapshot = [] \<and> assertEntrySourcesBound u pm snapshot = Inr () \<and>
     assertCaptureEvaluatorBound snapshot = Inr () \<and>
     (\<exists>w1 w2. publishTree store (map workspaceEntryAsTreeEntry (ws_entries snapshot)) (ws_scope snapshot) w1 = (Inr oid, w2) \<and>
        list_all (\<lambda>e. case e of Regular_file _ _ _ h _ \<Rightarrow> stored w1 h | _ \<Rightarrow> True) (ws_entries snapshot))"
  using assms by (rule publication_effect)

theorem trees_are_published_after_their_blobs_witness:
  "publishSnapshot plain_unicode sample_paths sample_publication id [1, 0, 0, 1] True sample_scan sample_world
     = (Inr ''tree'', sample_world\<lparr>stored_blobs := [js ''h1'']\<rparr>) \<and> ws_problems sample_scan = []"
proof -
  have run: "publishSnapshot plain_unicode sample_paths sample_publication id [1, 0, 0, 1] True sample_scan sample_world
     = (Inr ''tree'', sample_world\<lparr>stored_blobs := [js ''h1'']\<rparr>)" by code_simp
  have "blob_laws sample_publication (\<lambda>w oid. oid \<in> set (stored_blobs w))"
    by (auto simp: blob_laws_def sample_publication_def)
  from trees_are_published_after_their_blobs [OF run this] show ?thesis using run by (auto simp: lock_runs_def)
qed

end
