(* ===== verification/Checkpoint_Slot.thy ===== *)
theory Checkpoint_Slot
  imports Prelude
begin

text \<open>
  The domain layer: the durable state of one session coordinate and its transitions
  (\<^verbatim>\<open>src/domain/checkpoint-slot.ts\<close>) and the law by which a coordinate inherits a checkpoint
  from its ancestors (\<^verbatim>\<open>src/domain/checkpoint-lineage.ts\<close>), with the tree identifiers of
  \<^verbatim>\<open>src/domain/model.ts\<close>.
\<close>

subsection \<open>Tree identifiers\<close>

type_synonym tree_oid = string

definition isTreeOid :: "string \<Rightarrow> bool" where
  "isTreeOid value = is_sha256_hex value"

subsection \<open>Slots and their transitions\<close>

datatype checkpoint_slot =
    Open_missing
  | Open_checkpoint (slot_tree: tree_oid)
  | Blocked_missing
  | Blocked_checkpoint (slot_tree: tree_oid)

datatype slot_transition_failure =
    Capture_blocked
  | Not_blocked_missing
  | Checkpoint_mismatch

datatype slot_transition =
    Applied checkpoint_slot
  | Rejected slot_transition_failure

fun checkpointSlotIsBlocked :: "checkpoint_slot \<Rightarrow> bool" where
  "checkpointSlotIsBlocked Open_missing = False"
| "checkpointSlotIsBlocked (Open_checkpoint _) = False"
| "checkpointSlotIsBlocked Blocked_missing = True"
| "checkpointSlotIsBlocked (Blocked_checkpoint _) = True"

fun same_kind :: "checkpoint_slot \<Rightarrow> checkpoint_slot \<Rightarrow> bool" where
  "same_kind Open_missing Open_missing = True"
| "same_kind (Open_checkpoint _) (Open_checkpoint _) = True"
| "same_kind Blocked_missing Blocked_missing = True"
| "same_kind (Blocked_checkpoint _) (Blocked_checkpoint _) = True"
| "same_kind _ _ = False"

definition checkpointSlotsEqual :: "checkpoint_slot \<Rightarrow> checkpoint_slot \<Rightarrow> bool" where
  "checkpointSlotsEqual left right =
     (if \<not> same_kind left right then False
      else (case left of
          Open_missing \<Rightarrow> True
        | Blocked_missing \<Rightarrow> True
        | Open_checkpoint t \<Rightarrow> t = slot_tree right
        | Blocked_checkpoint t \<Rightarrow> t = slot_tree right))"

fun captureCheckpointSlot :: "checkpoint_slot \<Rightarrow> tree_oid \<Rightarrow> slot_transition" where
  "captureCheckpointSlot Open_missing treeOid = Applied (Open_checkpoint treeOid)"
| "captureCheckpointSlot (Open_checkpoint _) treeOid = Applied (Open_checkpoint treeOid)"
| "captureCheckpointSlot Blocked_missing treeOid = Rejected Capture_blocked"
| "captureCheckpointSlot (Blocked_checkpoint _) treeOid = Rejected Capture_blocked"

fun blockCheckpointSlot :: "checkpoint_slot \<Rightarrow> tree_oid option \<Rightarrow> checkpoint_slot" where
  "blockCheckpointSlot Open_missing None = Blocked_missing"
| "blockCheckpointSlot Open_missing (Some effective) = Blocked_checkpoint effective"
| "blockCheckpointSlot (Open_checkpoint treeOid) _ = Blocked_checkpoint treeOid"
| "blockCheckpointSlot Blocked_missing _ = Blocked_missing"
| "blockCheckpointSlot (Blocked_checkpoint treeOid) _ = Blocked_checkpoint treeOid"

fun releaseCheckpointSlot :: "checkpoint_slot \<Rightarrow> tree_oid \<Rightarrow> slot_transition" where
  "releaseCheckpointSlot (Blocked_checkpoint treeOid) expected =
     (if treeOid = expected then Applied (Open_checkpoint treeOid)
      else Rejected Checkpoint_mismatch)"
| "releaseCheckpointSlot _ expected = Rejected Checkpoint_mismatch"

fun adoptBlockedMissingSlot :: "checkpoint_slot \<Rightarrow> tree_oid \<Rightarrow> slot_transition" where
  "adoptBlockedMissingSlot Blocked_missing treeOid = Applied (Open_checkpoint treeOid)"
| "adoptBlockedMissingSlot _ treeOid = Rejected Not_blocked_missing"

fun checkpointSlotTreeOid :: "checkpoint_slot \<Rightarrow> tree_oid option" where
  "checkpointSlotTreeOid (Open_checkpoint t) = Some t"
| "checkpointSlotTreeOid (Blocked_checkpoint t) = Some t"
| "checkpointSlotTreeOid _ = None"

subsection \<open>Facts about the transitions\<close>

named_theorems slot_simps \<open>rewriting of slot transitions\<close>

lemma checkpointSlotsEqual_iff [simp, slot_simps]: "checkpointSlotsEqual a b \<longleftrightarrow> a = b"
  by (cases a; cases b) (auto simp: checkpointSlotsEqual_def)

lemma block_is_blocked [simp, slot_simps]: "checkpointSlotIsBlocked (blockCheckpointSlot s t)"
  by (cases s; cases t) auto

lemma block_idem [slot_simps]: "checkpointSlotIsBlocked s \<Longrightarrow> blockCheckpointSlot s t = s"
  by (cases s) auto

lemma capture_applied_iff [slot_simps]:
  "captureCheckpointSlot s t = Applied s' \<longleftrightarrow>
     \<not> checkpointSlotIsBlocked s \<and> s' = Open_checkpoint t"
  by (cases s) auto

lemma capture_rejected_iff [slot_simps]:
  "captureCheckpointSlot s t = Rejected r \<longleftrightarrow> checkpointSlotIsBlocked s \<and> r = Capture_blocked"
  by (cases s) auto

lemma release_applied_iff [slot_simps]:
  "releaseCheckpointSlot s t = Applied s' \<longleftrightarrow> s = Blocked_checkpoint t \<and> s' = Open_checkpoint t"
  by (cases s) auto

lemma adopt_applied_iff [slot_simps]:
  "adoptBlockedMissingSlot s t = Applied s' \<longleftrightarrow> s = Blocked_missing \<and> s' = Open_checkpoint t"
  by (cases s) auto

lemma block_tree [slot_simps]:
  "checkpointSlotTreeOid (blockCheckpointSlot s t) =
     (case checkpointSlotTreeOid s of
        Some u \<Rightarrow> Some u
      | None \<Rightarrow> (if s = Open_missing then t else None))"
  by (cases s; cases t) auto

subsection \<open>Checkpoint inheritance\<close>

datatype 'c resolution =
    Missing
  | Checkpoint 'c tree_oid

record 'c reduced_lineage =
  resolution_of :: "'c resolution"
  targetSlot :: checkpoint_slot

text \<open>The loop of \<^verbatim>\<open>reduceCheckpointLineage\<close>: \<open>slotOf\<close> may throw, as the reader of a row does.\<close>

fun lineage_loop ::
  "('c \<Rightarrow> checkpoint_slot result) \<Rightarrow> 'c list \<Rightarrow> 'c resolution \<Rightarrow> checkpoint_slot option \<Rightarrow>
     ('c resolution \<times> checkpoint_slot option) result" where
  "lineage_loop slotOf [] res target = Inr (res, target)"
| "lineage_loop slotOf (c # cs) res target =
     rbind (slotOf c) (\<lambda>slot.
       lineage_loop slotOf cs
         (case slot of
            Open_checkpoint t \<Rightarrow> Checkpoint c t
          | Blocked_checkpoint t \<Rightarrow> Checkpoint c t
          | _ \<Rightarrow> res)
         (Some slot))"

definition reduceCheckpointLineage ::
  "'c list \<Rightarrow> ('c \<Rightarrow> checkpoint_slot result) \<Rightarrow> 'c reduced_lineage result" where
  "reduceCheckpointLineage rootToTarget slotOf =
     (if rootToTarget = [] then Inl PlainError
      else rbind (lineage_loop slotOf rootToTarget Missing None) (\<lambda>(res, target).
        (case target of
           None \<Rightarrow> Inl PlainError
         | Some slot \<Rightarrow>
             Inr \<lparr>resolution_of = (if slot = Blocked_missing then Missing else res),
                  targetSlot = slot\<rparr>)))"

subsection \<open>The reference law of inheritance\<close>

text \<open>
  The specification: the nearest coordinate at or above the target that carries a tree, unless
  the target itself is closed without one.
\<close>

fun nearest_checkpoint :: "('c \<Rightarrow> checkpoint_slot) \<Rightarrow> 'c list \<Rightarrow> 'c resolution" where
  "nearest_checkpoint s [] = Missing"
| "nearest_checkpoint s (c # cs) =
     (case checkpointSlotTreeOid (s c) of Some t \<Rightarrow> Checkpoint c t | None \<Rightarrow> nearest_checkpoint s cs)"

definition effective_resolution :: "('c \<Rightarrow> checkpoint_slot) \<Rightarrow> 'c list \<Rightarrow> 'c resolution" where
  "effective_resolution s path =
     (if s (last path) = Blocked_missing then Missing else nearest_checkpoint s (rev path))"

fun resolution_or :: "'c resolution \<Rightarrow> 'c resolution \<Rightarrow> 'c resolution" where
  "resolution_or Missing r = r"
| "resolution_or (Checkpoint c t) r = Checkpoint c t"

lemma resolution_or_Missing [simp]: "resolution_or r Missing = r"
  by (cases r) auto

lemma resolution_or_assoc:
  "resolution_or (resolution_or a b) c = resolution_or a (resolution_or b c)"
  by (cases a) auto

lemma nearest_checkpoint_append:
  "nearest_checkpoint s (xs @ ys) = resolution_or (nearest_checkpoint s xs) (nearest_checkpoint s ys)"
  by (induction xs) (auto split: option.splits)

lemma lineage_loop_total:
  "lineage_loop (\<lambda>c. Inr (s c)) path res target =
     Inr (resolution_or (nearest_checkpoint s (rev path)) res,
          if path = [] then target else Some (s (last path)))"
proof (induction path arbitrary: res target)
  case Nil
  then show ?case by simp
next
  case (Cons c cs)
  then show ?case
    by (cases "s c") (auto simp: nearest_checkpoint_append resolution_or_assoc)
qed

lemma reduce_lineage_total:
  assumes "path \<noteq> []"
  shows "reduceCheckpointLineage path (\<lambda>c. Inr (s c)) =
    Inr \<lparr>resolution_of = effective_resolution s path, targetSlot = s (last path)\<rparr>"
  using assms
  by (simp add: reduceCheckpointLineage_def lineage_loop_total effective_resolution_def)

lemma nearest_checkpoint_cong:
  "(\<And>c. c \<in> set path \<Longrightarrow> s c = s' c) \<Longrightarrow> nearest_checkpoint s path = nearest_checkpoint s' path"
  by (induction path) (auto split: option.splits)

lemma effective_resolution_cong:
  assumes "\<And>c. c \<in> set path \<Longrightarrow> s c = s' c" and "path \<noteq> []"
  shows "effective_resolution s path = effective_resolution s' path"
proof -
  have "s (last path) = s' (last path)" using assms by simp
  moreover have "nearest_checkpoint s (rev path) = nearest_checkpoint s' (rev path)"
    by (rule nearest_checkpoint_cong) (simp add: assms)
  ultimately show ?thesis by (simp add: effective_resolution_def)
qed

lemma nearest_checkpoint_in:
  "nearest_checkpoint s path = Checkpoint c t \<Longrightarrow> c \<in> set path \<and> checkpointSlotTreeOid (s c) = Some t"
  by (induction path) (auto split: option.splits)

lemma effective_resolution_in:
  "effective_resolution s path = Checkpoint c t \<Longrightarrow>
     c \<in> set path \<and> checkpointSlotTreeOid (s c) = Some t"
  by (auto simp: effective_resolution_def dest: nearest_checkpoint_in split: if_splits)

lemma effective_resolution_own:
  "checkpointSlotTreeOid (s c) = Some t \<Longrightarrow> effective_resolution s (path @ [c]) = Checkpoint c t"
  by (cases "s c") (auto simp: effective_resolution_def)

end
