(* ===== verification/Metadata_Store.thy ===== *)
theory Metadata_Store
  imports Checkpoint_Slot "HOL-Library.List_Lexorder" "HOL-Library.Char_ord"
begin

text \<open>
  The metadata store of \<^verbatim>\<open>src/infrastructure/metadata.ts\<close> over the V5 relational layout of
  \<^verbatim>\<open>src/infrastructure/metadata/versions/\<close>. The four tables are association lists with their
  primary keys; an operation is a function from the database to either an exception, which rolls
  the transaction back, or its result with the database it commits. SQLite's own behaviour (a
  transaction is atomic, a primary key is unique) is what the model takes from the engine. Opening
  a database file, its sidecars and its migration are not modelled here.
\<close>

subsection \<open>The four tables and a connection\<close>

record slot_row =
  tree_oid_col :: "tree_oid option"
  capture_state_col :: string

record registry_row =
  session_file_col :: string
  registration_state_col :: string

record history_row =
  history_epoch_col :: int
  reset_pending_col :: int

record metadata_db =
  user_version :: int
  checkpoint_slot_table :: "((string \<times> string) \<times> slot_row) list"
  session_registry_table :: "(string \<times> registry_row) list"
  session_capture_barrier_table :: "(string \<times> unit) list"
  session_history_table :: "(string \<times> history_row) list"

datatype connection_phase = Historical | Current

record metadata_connection =
  phase :: connection_phase
  closed :: bool
  historyEpoch :: "string \<rightharpoonup> int"

definition CURRENT_METADATA_VERSION :: int where
  "CURRENT_METADATA_VERSION = 5"

subsection \<open>Argument checks\<close>

definition requireNonEmpty :: "string \<Rightarrow> string result" where
  "requireNonEmpty value =
     (if length value = 0 \<or> CHR 0x00 \<in> set value then Inl MetadataError else Inr value)"

definition requireTreeOid :: "string \<Rightarrow> tree_oid result" where
  "requireTreeOid value = (if \<not> isTreeOid value then Inl MetadataError else Inr value)"

fun unique_entry_loop :: "string list \<Rightarrow> string list \<Rightarrow> string list result" where
  "unique_entry_loop retained [] = Inr retained"
| "unique_entry_loop retained (rawEntryId # rest) =
     rbind (requireNonEmpty rawEntryId) (\<lambda>entryId.
       if entryId \<in> set retained then Inl MetadataError
       else unique_entry_loop (retained @ [entryId]) rest)"

definition uniqueEntrySet :: "string list \<Rightarrow> string list result" where
  "uniqueEntrySet entryIds = unique_entry_loop [] entryIds"

definition checkedLocationAncestry :: "string list \<Rightarrow> string \<Rightarrow> string list result" where
  "checkedLocationAncestry entryIds entryId =
     rbind (uniqueEntrySet entryIds) (\<lambda>ancestry.
       if ancestry = [] \<or> last ancestry \<noteq> entryId then Inl MetadataError else Inr ancestry)"

text \<open>An expected resolution is a checkpoint: its source entry and its tree.\<close>

definition checkedExpectedResolution ::
  "string \<times> tree_oid \<Rightarrow> string list \<Rightarrow> (string \<times> tree_oid) result" where
  "checkedExpectedResolution resolution ancestry =
     rbind (requireNonEmpty (fst resolution)) (\<lambda>entryId.
       if entryId \<notin> set ancestry then Inl MetadataError
       else rbind (requireTreeOid (snd resolution)) (\<lambda>treeOid. Inr (entryId, treeOid)))"

definition activeAncestry :: "string list \<Rightarrow> string list \<Rightarrow> string list result" where
  "activeAncestry entryIds retained =
     rbind (uniqueEntrySet entryIds) (\<lambda>active.
       if list_ex (\<lambda>entryId. entryId \<notin> set retained) active then Inl MetadataError
       else Inr active)"

subsection \<open>Reading and writing one slot\<close>

fun checkpointSlotFromRow :: "slot_row option \<Rightarrow> checkpoint_slot result" where
  "checkpointSlotFromRow None = Inr Open_missing"
| "checkpointSlotFromRow (Some row) =
     (if capture_state_col row \<noteq> ''open'' \<and> capture_state_col row \<noteq> ''blocked''
      then Inl MetadataError
      else case tree_oid_col row of
          None \<Rightarrow>
            (if capture_state_col row \<noteq> ''blocked'' then Inl MetadataError
             else Inr Blocked_missing)
        | Some raw \<Rightarrow>
            rbind (requireTreeOid raw) (\<lambda>treeOid.
              Inr (if capture_state_col row = ''open'' then Open_checkpoint treeOid
                   else Blocked_checkpoint treeOid)))"

definition checkpointSlotIn :: "metadata_db \<Rightarrow> string \<Rightarrow> string \<Rightarrow> checkpoint_slot result" where
  "checkpointSlotIn db sessionId entryId =
     checkpointSlotFromRow (map_of (checkpoint_slot_table db) (sessionId, entryId))"

definition slot_row_of :: "checkpoint_slot \<Rightarrow> slot_row" where
  "slot_row_of slot =
     \<lparr>tree_oid_col = checkpointSlotTreeOid slot,
      capture_state_col = (if checkpointSlotIsBlocked slot then ''blocked'' else ''open'')\<rparr>"

definition writeCheckpointSlotIn ::
  "metadata_db \<Rightarrow> string \<Rightarrow> string \<Rightarrow> checkpoint_slot \<Rightarrow> metadata_db" where
  "writeCheckpointSlotIn db sessionId entryId slot =
     (if slot = Open_missing
      then db\<lparr>checkpoint_slot_table :=
                AList.delete (sessionId, entryId) (checkpoint_slot_table db)\<rparr>
      else db\<lparr>checkpoint_slot_table :=
                AList.update (sessionId, entryId) (slot_row_of slot) (checkpoint_slot_table db)\<rparr>)"

definition resolveCheckpointIn ::
  "metadata_db \<Rightarrow> string \<Rightarrow> string list \<Rightarrow> string reduced_lineage result" where
  "resolveCheckpointIn db sessionId ancestry =
     (if length ancestry = 0 then Inl MetadataError
      else reduceCheckpointLineage ancestry (\<lambda>entryId. checkpointSlotIn db sessionId entryId))"

subsection \<open>Session rows\<close>

datatype session_registration_state = Pending | Verified

definition sessionRegistrationStateFrom :: "string \<Rightarrow> session_registration_state result" where
  "sessionRegistrationStateFrom value =
     (if value = ''pending'' then Inr Pending
      else if value = ''verified'' then Inr Verified
      else Inl MetadataError)"

definition sessionHasBarrierIn :: "metadata_db \<Rightarrow> string \<Rightarrow> bool" where
  "sessionHasBarrierIn db sessionId =
     (map_of (session_capture_barrier_table db) sessionId \<noteq> None)"

definition sessionHistoryIn :: "metadata_db \<Rightarrow> string \<Rightarrow> (int \<times> bool) result" where
  "sessionHistoryIn db sessionId =
     (case map_of (session_history_table db) sessionId of
        None \<Rightarrow> Inr (0, False)
      | Some row \<Rightarrow>
          (if \<not> safe_unsigned (history_epoch_col row) then Inl MetadataError
           else if reset_pending_col row \<noteq> 0 \<and> reset_pending_col row \<noteq> 1 then Inl MetadataError
           else Inr (history_epoch_col row, reset_pending_col row = 1)))"

text \<open>
  Whether the registry holds this very pair, verified. The source parses the file and the state of
  a row it finds before it compares either.
\<close>

definition registered_and_verified :: "metadata_db \<Rightarrow> string \<Rightarrow> string \<Rightarrow> bool result" where
  "registered_and_verified db sessionId expectedSessionFile =
     (case map_of (session_registry_table db) sessionId of
        None \<Rightarrow> Inr False
      | Some row \<Rightarrow>
          rbind (requireNonEmpty (session_file_col row)) (\<lambda>registeredFile.
          rbind (sessionRegistrationStateFrom (registration_state_col row)) (\<lambda>state.
            if state \<noteq> Verified then Inr False
            else rbind (requireNonEmpty expectedSessionFile) (\<lambda>expected.
              Inr (registeredFile = expected)))))"

definition requireVerifiedSessionIn :: "metadata_db \<Rightarrow> string \<Rightarrow> string \<Rightarrow> unit result" where
  "requireVerifiedSessionIn db sessionId expectedSessionFile =
     rbind (registered_and_verified db sessionId expectedSessionFile) (\<lambda>verified.
       if \<not> verified then Inl MetadataError else Inr ())"

datatype reconcile_result = Absent | Reconciled | Unregistered

text \<open>The loop over the ancestry, root first, that turns the session barrier into exact pins.\<close>

fun reconcile_loop ::
  "('db \<Rightarrow> string \<Rightarrow> checkpoint_slot result) \<Rightarrow> ('db \<Rightarrow> string \<Rightarrow> checkpoint_slot \<Rightarrow> 'db) \<Rightarrow>
     string list \<Rightarrow> tree_oid option \<Rightarrow> 'db \<Rightarrow> 'db result" where
  "reconcile_loop readSlot writeSlot [] effective db = Inr db"
| "reconcile_loop readSlot writeSlot (entryId # rest) effective db =
     rbind (readSlot db entryId) (\<lambda>slot.
       let effective' = (case slot of
                           Open_checkpoint t \<Rightarrow> Some t
                         | Blocked_checkpoint t \<Rightarrow> Some t
                         | _ \<Rightarrow> effective);
           db' = (case slot of
                    Open_checkpoint _ \<Rightarrow> writeSlot db entryId (blockCheckpointSlot slot effective')
                  | Open_missing \<Rightarrow> writeSlot db entryId (blockCheckpointSlot slot effective')
                  | _ \<Rightarrow> db)
       in reconcile_loop readSlot writeSlot rest effective' db')"

definition reconcileSessionBarrierIn ::
  "metadata_db \<Rightarrow> string \<Rightarrow> string list \<Rightarrow> string \<Rightarrow> (reconcile_result \<times> metadata_db) result" where
  "reconcileSessionBarrierIn db sessionId entryIds expectedSessionFile =
     rbind (registered_and_verified db sessionId expectedSessionFile) (\<lambda>verified.
       if \<not> verified then Inr (Unregistered, db)
       else if \<not> sessionHasBarrierIn db sessionId then Inr (Absent, db)
       else rbind (reconcile_loop
                     (\<lambda>d entryId. checkpointSlotIn d sessionId entryId)
                     (\<lambda>d entryId slot. writeCheckpointSlotIn d sessionId entryId slot)
                     entryIds None db) (\<lambda>db'.
         if \<not> sessionHasBarrierIn db' sessionId then Inl MetadataError
         else Inr (Reconciled,
                   db'\<lparr>session_capture_barrier_table :=
                         AList.delete sessionId (session_capture_barrier_table db')\<rparr>)))"

subsection \<open>Transactions\<close>

definition runTransaction ::
  "metadata_connection \<Rightarrow> metadata_db \<Rightarrow> (metadata_db \<Rightarrow> 'r result) \<Rightarrow> 'r result" where
  "runTransaction conn db operation =
     (if closed conn then Inl MetadataError
      else if phase conn \<noteq> Current then Inl MetadataError
      else if user_version db \<noteq> CURRENT_METADATA_VERSION then Inl MetadataError
      else operation db)"

text \<open>\<open>authority\<close> is the outcome of \<^verbatim>\<open>assertWorkspaceWriteAuthority\<close> inside the transaction.\<close>

definition writeTransaction ::
  "metadata_connection \<Rightarrow> bool \<Rightarrow> metadata_db \<Rightarrow> (metadata_db \<Rightarrow> 'r result) \<Rightarrow> 'r result" where
  "writeTransaction conn authority db operation =
     runTransaction conn db (\<lambda>locked.
       if \<not> authority then Inl WorkspaceAuthorityError else operation locked)"

definition requireSessionHistoryReady ::
  "metadata_connection \<Rightarrow> metadata_db \<Rightarrow> string \<Rightarrow> unit result" where
  "requireSessionHistoryReady conn db sessionId =
     rbind (sessionHistoryIn db sessionId) (\<lambda>(epoch, resetPending).
       case historyEpoch conn sessionId of
         Some attached \<Rightarrow>
           (if attached \<noteq> epoch then Inl (MetadataHistoryResetError Epoch_changed attached epoch)
            else if resetPending then Inl (MetadataHistoryResetError Reset_pending attached epoch)
            else Inr ())
       | None \<Rightarrow>
           (if resetPending then Inl (MetadataHistoryResetError Reset_pending epoch epoch)
            else Inl MetadataError))"

definition sessionWriteTransaction ::
  "metadata_connection \<Rightarrow> bool \<Rightarrow> string \<Rightarrow> metadata_db \<Rightarrow> (metadata_db \<Rightarrow> 'r result) \<Rightarrow> 'r result"
where
  "sessionWriteTransaction conn authority sessionId db operation =
     writeTransaction conn authority db (\<lambda>locked.
       rbind (requireSessionHistoryReady conn locked sessionId) (\<lambda>_. operation locked))"

text \<open>What the transaction leaves in the file: the committed database, or the old one.\<close>

fun committed_db :: "metadata_db \<Rightarrow> ('r \<times> metadata_db) result \<Rightarrow> metadata_db" where
  "committed_db db (Inl e) = db"
| "committed_db db (Inr (r, db')) = db'"

subsection \<open>Session-scoped operations\<close>

definition getCheckpointSlot ::
  "metadata_connection \<Rightarrow> metadata_db \<Rightarrow> string \<Rightarrow> string \<Rightarrow> checkpoint_slot result" where
  "getCheckpointSlot conn db sessionId entryId =
     rbind (requireNonEmpty sessionId) (\<lambda>sid.
     rbind (requireNonEmpty entryId) (\<lambda>eid.
       runTransaction conn db (\<lambda>snapshot. checkpointSlotIn snapshot sid eid)))"

definition resolveLineage ::
  "metadata_connection \<Rightarrow> metadata_db \<Rightarrow> string \<Rightarrow> string list \<Rightarrow> string reduced_lineage result" where
  "resolveLineage conn db sessionId rootToTarget =
     rbind (requireNonEmpty sessionId) (\<lambda>sid.
     rbind (uniqueEntrySet rootToTarget) (\<lambda>ancestry.
       runTransaction conn db (\<lambda>snapshot. resolveCheckpointIn snapshot sid ancestry)))"

record session_identity =
  sessionId :: string
  sessionFile :: string

datatype commit_capture_result = Blocked | Committed | Slot_changed

record commit_capture_input =
  cc_identity :: session_identity
  cc_entryId :: string
  cc_activeAncestryEntryIds :: "string list"
  cc_treeOid :: tree_oid
  cc_expectedSlot :: checkpoint_slot

definition commitCapture ::
  "metadata_connection \<Rightarrow> bool \<Rightarrow> commit_capture_input \<Rightarrow> metadata_db \<Rightarrow>
     (commit_capture_result \<times> metadata_db) result" where
  "commitCapture conn authority input db =
     rbind (requireNonEmpty (sessionId (cc_identity input))) (\<lambda>sid.
     rbind (requireNonEmpty (sessionFile (cc_identity input))) (\<lambda>sfile.
     rbind (requireNonEmpty (cc_entryId input)) (\<lambda>eid.
     rbind (uniqueEntrySet (cc_activeAncestryEntryIds input)) (\<lambda>ancestry.
       if ancestry = [] \<or> last ancestry \<noteq> eid then Inl MetadataError
       else rbind (requireTreeOid (cc_treeOid input)) (\<lambda>treeOid.
         sessionWriteTransaction conn authority sid db (\<lambda>locked.
           rbind (requireVerifiedSessionIn locked sid sfile) (\<lambda>_.
           rbind (reconcileSessionBarrierIn locked sid ancestry sfile) (\<lambda>(reconciled, locked').
             if reconciled = Reconciled then Inr (Blocked, locked')
             else rbind (resolveCheckpointIn locked' sid ancestry) (\<lambda>lineage.
               (case captureCheckpointSlot (targetSlot lineage) treeOid of
                  Rejected _ \<Rightarrow> Inr (Blocked, locked')
                | Applied slot \<Rightarrow>
                    (if \<not> checkpointSlotsEqual (targetSlot lineage) (cc_expectedSlot input)
                     then Inr (Slot_changed, locked')
                     else Inr (Committed, writeCheckpointSlotIn locked' sid eid slot)))))))))))) "

datatype protect_expectation =
    Any_current
  | Exact_resolution string tree_oid

record protect_location_input =
  pl_identity :: session_identity
  pl_entryId :: string
  pl_activeAncestryEntryIds :: "string list"
  pl_expectation :: protect_expectation

datatype protect_location_kind = Protected | Stale

record protect_location_result =
  pl_kind :: protect_location_kind
  protectedSlot :: checkpoint_slot

fun checked_protect_expectation ::
  "protect_expectation \<Rightarrow> string list \<Rightarrow> (string \<times> tree_oid) option result" where
  "checked_protect_expectation Any_current ancestry = Inr None"
| "checked_protect_expectation (Exact_resolution source treeOid) ancestry =
     rbind (checkedExpectedResolution (source, treeOid) ancestry) (\<lambda>expected. Inr (Some expected))"

fun resolution_tree :: "'c resolution \<Rightarrow> tree_oid option" where
  "resolution_tree Missing = None"
| "resolution_tree (Checkpoint _ t) = Some t"

fun resolutionsEqual :: "string resolution \<Rightarrow> string resolution \<Rightarrow> bool" where
  "resolutionsEqual Missing Missing = True"
| "resolutionsEqual (Checkpoint e t) (Checkpoint e' t') = (e = e' \<and> t = t')"
| "resolutionsEqual _ _ = False"

definition protectLocation ::
  "metadata_connection \<Rightarrow> bool \<Rightarrow> protect_location_input \<Rightarrow> metadata_db \<Rightarrow>
     (protect_location_result \<times> metadata_db) result" where
  "protectLocation conn authority input db =
     rbind (requireNonEmpty (sessionId (pl_identity input))) (\<lambda>sid.
     rbind (requireNonEmpty (sessionFile (pl_identity input))) (\<lambda>sfile.
     rbind (requireNonEmpty (pl_entryId input)) (\<lambda>eid.
     rbind (checkedLocationAncestry (pl_activeAncestryEntryIds input) eid) (\<lambda>ancestry.
     rbind (checked_protect_expectation (pl_expectation input) ancestry) (\<lambda>expected.
       sessionWriteTransaction conn authority sid db (\<lambda>locked.
         rbind (requireVerifiedSessionIn locked sid sfile) (\<lambda>_.
         rbind (resolveCheckpointIn locked sid ancestry) (\<lambda>lineage.
           let hasBarrier = sessionHasBarrierIn locked sid;
               actual = resolution_of lineage;
               current = targetSlot lineage;
               pinned = blockCheckpointSlot current (resolution_tree actual);
               locked' = (if \<not> checkpointSlotsEqual current pinned
                          then writeCheckpointSlotIn locked sid eid pinned else locked);
               stale = (case expected of
                          None \<Rightarrow> False
                        | Some (e, t) \<Rightarrow> hasBarrier \<or> \<not> resolutionsEqual actual (Checkpoint e t))
           in Inr (\<lparr>pl_kind = (if stale then Stale else Protected), protectedSlot = pinned\<rparr>,
                   locked')))))))))"

datatype admit_result = Admitted | Admit_slot_changed

record admit_input =
  al_identity :: session_identity
  al_entryId :: string
  al_activeAncestryEntryIds :: "string list"
  al_expectedResolution :: "string \<times> tree_oid"

definition admitResolvedLocation ::
  "metadata_connection \<Rightarrow> bool \<Rightarrow> admit_input \<Rightarrow> metadata_db \<Rightarrow>
     (admit_result \<times> metadata_db) result" where
  "admitResolvedLocation conn authority input db =
     rbind (requireNonEmpty (sessionId (al_identity input))) (\<lambda>sid.
     rbind (requireNonEmpty (sessionFile (al_identity input))) (\<lambda>sfile.
     rbind (requireNonEmpty (al_entryId input)) (\<lambda>eid.
     rbind (checkedLocationAncestry (al_activeAncestryEntryIds input) eid) (\<lambda>ancestry.
     rbind (checkedExpectedResolution (al_expectedResolution input) ancestry) (\<lambda>expected.
       sessionWriteTransaction conn authority sid db (\<lambda>locked.
         rbind (requireVerifiedSessionIn locked sid sfile) (\<lambda>_.
           if sessionHasBarrierIn locked sid then Inr (Admit_slot_changed, locked)
           else rbind (resolveCheckpointIn locked sid ancestry) (\<lambda>lineage.
             if \<not> resolutionsEqual (resolution_of lineage) (Checkpoint (fst expected) (snd expected))
             then Inr (Admit_slot_changed, locked)
             else (case targetSlot lineage of
                 Open_missing \<Rightarrow> Inr (Admitted, locked)
               | Open_checkpoint t \<Rightarrow>
                   Inr (if t = snd expected then Admitted else Admit_slot_changed, locked)
               | Blocked_checkpoint t \<Rightarrow>
                   (case releaseCheckpointSlot (Blocked_checkpoint t) (snd expected) of
                      Rejected _ \<Rightarrow> Inr (Admit_slot_changed, locked)
                    | Applied slot \<Rightarrow> Inr (Admitted, writeCheckpointSlotIn locked sid eid slot))
               | Blocked_missing \<Rightarrow> Inr (Admit_slot_changed, locked))))))))))"

datatype adopt_result = Adopted | Adopt_slot_changed

definition adoptBlockedMissing ::
  "metadata_connection \<Rightarrow> bool \<Rightarrow> session_identity \<Rightarrow> string \<Rightarrow> tree_oid \<Rightarrow> metadata_db \<Rightarrow>
     (adopt_result \<times> metadata_db) result" where
  "adoptBlockedMissing conn authority identity entryId adopted db =
     rbind (requireNonEmpty (sessionId identity)) (\<lambda>sid.
     rbind (requireNonEmpty (sessionFile identity)) (\<lambda>sfile.
     rbind (requireNonEmpty entryId) (\<lambda>eid.
     rbind (requireTreeOid adopted) (\<lambda>treeOid.
       sessionWriteTransaction conn authority sid db (\<lambda>locked.
         rbind (requireVerifiedSessionIn locked sid sfile) (\<lambda>_.
           if sessionHasBarrierIn locked sid then Inr (Adopt_slot_changed, locked)
           else rbind (checkpointSlotIn locked sid eid) (\<lambda>slot.
             (case adoptBlockedMissingSlot slot treeOid of
                Rejected _ \<Rightarrow> Inr (Adopt_slot_changed, locked)
              | Applied slot' \<Rightarrow> Inr (Adopted, writeCheckpointSlotIn locked sid eid slot')))))))))"

definition raiseSessionBarrier ::
  "metadata_connection \<Rightarrow> bool \<Rightarrow> session_identity \<Rightarrow> metadata_db \<Rightarrow> (bool \<times> metadata_db) result"
where
  "raiseSessionBarrier conn authority identity db =
     rbind (requireNonEmpty (sessionId identity)) (\<lambda>sid.
     rbind (requireNonEmpty (sessionFile identity)) (\<lambda>sfile.
       sessionWriteTransaction conn authority sid db (\<lambda>locked.
         rbind (requireVerifiedSessionIn locked sid sfile) (\<lambda>_.
           Inr (True, if sessionHasBarrierIn locked sid then locked
                      else locked\<lparr>session_capture_barrier_table :=
                             (sid, ()) # session_capture_barrier_table locked\<rparr>)))))"

definition reconcileSessionBarrier ::
  "metadata_connection \<Rightarrow> bool \<Rightarrow> session_identity \<Rightarrow> string list \<Rightarrow> metadata_db \<Rightarrow>
     (reconcile_result \<times> metadata_db) result" where
  "reconcileSessionBarrier conn authority identity activeAncestryEntryIds db =
     rbind (requireNonEmpty (sessionId identity)) (\<lambda>sid.
     rbind (requireNonEmpty (sessionFile identity)) (\<lambda>sfile.
     rbind (uniqueEntrySet activeAncestryEntryIds) (\<lambda>ancestry.
       if length ancestry = 0 then Inl MetadataError
       else sessionWriteTransaction conn authority sid db (\<lambda>locked.
         reconcileSessionBarrierIn locked sid ancestry sfile))))"

text \<open>\<^verbatim>\<open>hasSessionBarrier\<close>: \<open>None\<close> stands for \<^verbatim>\<open>undefined\<close>, the pair is not registered and verified.\<close>

definition hasSessionBarrier ::
  "metadata_connection \<Rightarrow> session_identity \<Rightarrow> metadata_db \<Rightarrow> bool option result" where
  "hasSessionBarrier conn identity db =
     rbind (requireNonEmpty (sessionId identity)) (\<lambda>sid.
     rbind (requireNonEmpty (sessionFile identity)) (\<lambda>sfile.
       runTransaction conn db (\<lambda>snapshot.
         (case map_of (session_registry_table snapshot) sid of
            None \<Rightarrow> Inr None
          | Some row \<Rightarrow>
              (if session_file_col row \<noteq> sfile then Inr None
               else rbind (sessionRegistrationStateFrom (registration_state_col row)) (\<lambda>state.
                 if state \<noteq> Verified then Inr None
                 else Inr (Some (sessionHasBarrierIn snapshot sid))))))))"

subsection \<open>Session identity and garbage-collection roots\<close>

datatype identity_match = Match_absent | Match_conflict | Match_exact

definition registry_matches :: "metadata_db \<Rightarrow> string \<Rightarrow> string \<Rightarrow> (string \<times> registry_row) list" where
  "registry_matches db sid sfile =
     filter (\<lambda>(k, row). k = sid \<or> session_file_col row = sfile) (session_registry_table db)"

definition matchRegisteredSession :: "metadata_db \<Rightarrow> string \<Rightarrow> string \<Rightarrow> identity_match" where
  "matchRegisteredSession db sid sfile =
     (case registry_matches db sid sfile of
        [] \<Rightarrow> Match_absent
      | [(k, row)] \<Rightarrow>
          (if k = sid \<and> session_file_col row = sfile then Match_exact else Match_conflict)
      | _ \<Rightarrow> Match_conflict)"

definition slot_tree_oids :: "metadata_db \<Rightarrow> tree_oid list" where
  "slot_tree_oids db =
     concat (map (\<lambda>(k, row). case tree_oid_col row of None \<Rightarrow> [] | Some t \<Rightarrow> [t])
                 (checkpoint_slot_table db))"

definition readTreeOids :: "metadata_db \<Rightarrow> int option \<Rightarrow> tree_oid list result" where
  "readTreeOids db limit =
     (if (case limit of None \<Rightarrow> False | Some l \<Rightarrow> \<not> isSafeInteger l \<or> l \<le> 0) then Inl RangeError
      else let rows = sort (remdups (slot_tree_oids db));
               selected = (case limit of None \<Rightarrow> rows | Some l \<Rightarrow> take (nat l) rows)
           in rmap (\<lambda>oid. if \<not> isTreeOid oid then Inl MetadataError else Inr oid) selected)"

definition listReferencedTreeOids ::
  "metadata_connection \<Rightarrow> int option \<Rightarrow> metadata_db \<Rightarrow> tree_oid list result" where
  "listReferencedTreeOids conn limit db =
     runTransaction conn db (\<lambda>snapshot. readTreeOids snapshot limit)"

end
