(* ===== verification/Session_Projection.thy ===== *)
theory Session_Projection
  imports Metadata_Store
begin

text \<open>
  Registration of a session with the metadata store: exporting the slots of a fork source and
  \<^verbatim>\<open>finalizeSessionProjection\<close> of \<^verbatim>\<open>src/infrastructure/metadata.ts\<close>, with the recovery of pending
  registrations, of forgotten histories and of coordinates orphaned by older schemas.
\<close>

subsection \<open>Fork projections\<close>

record fork_projection =
  sourceSessionId :: string
  projection_barrier :: bool
  coordinates :: "(string \<times> checkpoint_slot) list"

definition exportForkProjectionIn ::
  "metadata_db \<Rightarrow> string \<Rightarrow> string list \<Rightarrow> fork_projection option result" where
  "exportForkProjectionIn db parentSessionFile retained =
     (case filter (\<lambda>(k, row). session_file_col row = parentSessionFile) (session_registry_table db) of
        [] \<Rightarrow> Inr None
      | (sid, row) # _ \<Rightarrow>
          rbind (sessionRegistrationStateFrom (registration_state_col row)) (\<lambda>state.
            if state = Pending then Inr None
            else rbind (requireNonEmpty sid) (\<lambda>source.
              rbind (rmap (\<lambda>entryId. rbind (checkpointSlotIn db source entryId)
                                       (\<lambda>slot. Inr (entryId, slot))) retained) (\<lambda>coords.
                Inr (Some \<lparr>sourceSessionId = source,
                           projection_barrier = sessionHasBarrierIn db source,
                           coordinates = coords\<rparr>)))))"

definition exportForkProjection ::
  "metadata_connection \<Rightarrow> string \<Rightarrow> string list \<Rightarrow> metadata_db \<Rightarrow> fork_projection option result" where
  "exportForkProjection conn parentSessionFile retainedEntryIds db =
     rbind (requireNonEmpty parentSessionFile) (\<lambda>parent.
     rbind (uniqueEntrySet retainedEntryIds) (\<lambda>retained.
       runTransaction conn db (\<lambda>snapshot. exportForkProjectionIn snapshot parent retained)))"

fun checkedProjectedSlot :: "checkpoint_slot \<Rightarrow> checkpoint_slot result" where
  "checkedProjectedSlot Open_missing = Inr Open_missing"
| "checkedProjectedSlot Blocked_missing = Inr Blocked_missing"
| "checkedProjectedSlot (Open_checkpoint t) =
     rbind (requireTreeOid t) (\<lambda>treeOid. Inr (Open_checkpoint treeOid))"
| "checkedProjectedSlot (Blocked_checkpoint t) =
     rbind (requireTreeOid t) (\<lambda>treeOid. Inr (Blocked_checkpoint treeOid))"

fun checked_coordinates ::
  "string list \<Rightarrow> (string \<times> checkpoint_slot) list \<Rightarrow> (string \<times> checkpoint_slot) list \<Rightarrow>
     (string \<times> checkpoint_slot) list result" where
  "checked_coordinates retained slots [] = Inr slots"
| "checked_coordinates retained slots ((rawId, rawSlot) # rest) =
     rbind (requireNonEmpty rawId) (\<lambda>entryId.
       if entryId \<notin> set retained then Inl MetadataError
       else if map_of slots entryId \<noteq> None then Inl MetadataError
       else rbind (checkedProjectedSlot rawSlot) (\<lambda>slot.
         checked_coordinates retained (slots @ [(entryId, slot)]) rest))"

definition checkedForkProjection :: "fork_projection \<Rightarrow> string list \<Rightarrow> fork_projection result" where
  "checkedForkProjection projection retained =
     rbind (requireNonEmpty (sourceSessionId projection)) (\<lambda>source.
     rbind (checked_coordinates retained [] (coordinates projection)) (\<lambda>slots.
       Inr \<lparr>sourceSessionId = source, projection_barrier = projection_barrier projection,
            coordinates = slots\<rparr>))"

subsection \<open>Coordinates already stored for a session\<close>

text \<open>
  The scan over the slot rows of one session: the coordinates that carry a tree and the ones that
  are closed. A row outside the trusted graph is an error.
\<close>

fun retained_coordinates_loop ::
  "string \<Rightarrow> string list \<Rightarrow> ((string \<times> string) \<times> slot_row) list \<Rightarrow> string list \<Rightarrow> string list \<Rightarrow>
     (string list \<times> string list) result" where
  "retained_coordinates_loop sid retained [] stateIds guardedIds = Inr (stateIds, guardedIds)"
| "retained_coordinates_loop sid retained (((s, rawId), row) # rows) stateIds guardedIds =
     (if s \<noteq> sid then retained_coordinates_loop sid retained rows stateIds guardedIds
      else rbind (requireNonEmpty rawId) (\<lambda>entryId.
           rbind (checkpointSlotFromRow (Some row)) (\<lambda>slot.
             if entryId \<notin> set retained then Inl MetadataError
             else retained_coordinates_loop sid retained rows
                    (if checkpointSlotTreeOid slot \<noteq> None then entryId # stateIds else stateIds)
                    (if checkpointSlotIsBlocked slot then entryId # guardedIds else guardedIds))))"

definition validateSessionCoordinatesRetainedIn ::
  "metadata_db \<Rightarrow> string \<Rightarrow> string list \<Rightarrow> (string list \<times> string list) result" where
  "validateSessionCoordinatesRetainedIn db sid retained =
     retained_coordinates_loop sid retained (checkpoint_slot_table db) [] []"

subsection \<open>Completing an existing registration\<close>

text \<open>Write one slot per retained coordinate that the session does not classify yet.\<close>

fun write_unclassified ::
  "string \<Rightarrow> (string \<Rightarrow> bool) \<Rightarrow> (string \<Rightarrow> checkpoint_slot) \<Rightarrow> string list \<Rightarrow> metadata_db \<Rightarrow>
     metadata_db" where
  "write_unclassified sid classified slotFor [] db = db"
| "write_unclassified sid classified slotFor (entryId # rest) db =
     write_unclassified sid classified slotFor rest
       (if classified entryId then db else writeCheckpointSlotIn db sid entryId (slotFor entryId))"

definition openLeaf :: "string list \<Rightarrow> string option" where
  "openLeaf active = (if active = [] then None else Some (last active))"

definition leaf_slot :: "string option \<Rightarrow> string \<Rightarrow> checkpoint_slot" where
  "leaf_slot leaf entryId = (if Some entryId = leaf then Open_missing else Blocked_missing)"

definition protectForgottenSessionIn ::
  "metadata_db \<Rightarrow> string \<Rightarrow> string list \<Rightarrow> string list \<Rightarrow> metadata_db result" where
  "protectForgottenSessionIn db sid retained active =
     rbind (validateSessionCoordinatesRetainedIn db sid retained) (\<lambda>(stateIds, guardedIds).
       Inr (write_unclassified sid (\<lambda>e. e \<in> set stateIds \<or> e \<in> set guardedIds)
              (leaf_slot (openLeaf active)) retained db))"

definition completeHistoryResetIn :: "metadata_db \<Rightarrow> string \<Rightarrow> int \<Rightarrow> metadata_db result" where
  "completeHistoryResetIn db sid epoch =
     (case map_of (session_history_table db) sid of
        None \<Rightarrow> Inl MetadataError
      | Some row \<Rightarrow>
          (if history_epoch_col row = epoch \<and> reset_pending_col row = 1
           then Inr (db\<lparr>session_history_table :=
                  AList.update sid (row\<lparr>reset_pending_col := 0\<rparr>) (session_history_table db)\<rparr>)
           else Inl MetadataError))"

definition verifyPendingRegistrationIn ::
  "metadata_db \<Rightarrow> string \<Rightarrow> string \<Rightarrow> bool \<Rightarrow> string list \<Rightarrow> string list \<Rightarrow> metadata_db result" where
  "verifyPendingRegistrationIn db sid sfile captureBarrier retained active =
     rbind (validateSessionCoordinatesRetainedIn db sid retained) (\<lambda>(stateIds, guardedIds).
       let db1 = write_unclassified sid (\<lambda>e. e \<in> set stateIds \<or> e \<in> set guardedIds)
                   (\<lambda>_. Blocked_missing) retained db
       in (case map_of (session_registry_table db1) sid of
             None \<Rightarrow> Inl MetadataError
           | Some row \<Rightarrow>
               (if session_file_col row \<noteq> sfile \<or> registration_state_col row \<noteq> ''pending''
                then Inl MetadataError
                else let db2 = db1\<lparr>session_registry_table :=
                           AList.update sid (row\<lparr>registration_state_col := ''verified''\<rparr>)
                             (session_registry_table db1)\<rparr>
                     in if captureBarrier \<and> active \<noteq> []
                        then rbind (reconcileSessionBarrierIn db2 sid active sfile)
                               (\<lambda>(reconciled, db3).
                                  if reconciled \<noteq> Reconciled then Inl MetadataError else Inr db3)
                        else Inr db2)))"

subsection \<open>Finalizing a registration\<close>

datatype registration_seed =
    Fresh
  | Untrusted_parent
  | Fork fork_projection

record finalize_input =
  targetSessionId :: string
  targetSessionFile :: string
  retainedEntryIds :: "string list"
  activeAncestryEntryIds :: "string list"
  seed :: registration_seed

datatype registration_kind = Registered | Existing

record finalize_report =
  fr_kind :: registration_kind
  fr_historyReset :: bool

definition ensure_session_history :: "metadata_db \<Rightarrow> string \<Rightarrow> metadata_db" where
  "ensure_session_history db sid =
     (case map_of (session_history_table db) sid of
        Some _ \<Rightarrow> db
      | None \<Rightarrow> db\<lparr>session_history_table :=
            (sid, \<lparr>history_epoch_col = 0, reset_pending_col = 0\<rparr>) # session_history_table db\<rparr>)"

text \<open>The branch for a session that the registry already names, by its id or by its file.\<close>

definition finalize_existing ::
  "metadata_db \<Rightarrow> (string \<times> registry_row) list \<Rightarrow> string \<Rightarrow> string \<Rightarrow> string list \<Rightarrow> string list \<Rightarrow>
     int \<times> bool \<Rightarrow> (finalize_report \<times> metadata_db) result" where
  "finalize_existing db rows sid sfile retained active history =
     (case rows of
        [(k, row)] \<Rightarrow>
          rbind (requireNonEmpty k) (\<lambda>rowId.
          rbind (requireNonEmpty (session_file_col row)) (\<lambda>rowFile.
          rbind (sessionRegistrationStateFrom (registration_state_col row)) (\<lambda>state.
            if rowId \<noteq> sid \<or> rowFile \<noteq> sfile then Inl MetadataError
            else rbind
              (if state = Pending
               then verifyPendingRegistrationIn db sid sfile (sessionHasBarrierIn db sid) retained active
               else if snd history then protectForgottenSessionIn db sid retained active
               else rbind (validateSessionCoordinatesRetainedIn db sid retained) (\<lambda>_. Inr db))
              (\<lambda>db1. rbind
                (if snd history then completeHistoryResetIn db1 sid (fst history) else Inr db1)
                (\<lambda>db2. Inr (\<lparr>fr_kind = Existing, fr_historyReset = snd history\<rparr>, db2))))))
      | _ \<Rightarrow> Inl MetadataError)"

definition insert_registration :: "metadata_db \<Rightarrow> string \<Rightarrow> string \<Rightarrow> string \<Rightarrow> metadata_db" where
  "insert_registration db sid sfile state =
     db\<lparr>session_registry_table :=
       (sid, \<lparr>session_file_col = sfile, registration_state_col = state\<rparr>) # session_registry_table db\<rparr>"

definition has_orphaned_slot :: "metadata_db \<Rightarrow> string \<Rightarrow> bool" where
  "has_orphaned_slot db sid = list_ex (\<lambda>((s, e), row). s = sid) (checkpoint_slot_table db)"

text \<open>The branch for coordinates or a barrier stored without a registration.\<close>

definition finalize_orphaned ::
  "metadata_db \<Rightarrow> string \<Rightarrow> string \<Rightarrow> string list \<Rightarrow> string list \<Rightarrow>
     (finalize_report \<times> metadata_db) result" where
  "finalize_orphaned db sid sfile retained active =
     rbind (verifyPendingRegistrationIn (insert_registration db sid sfile ''pending'') sid sfile
              (sessionHasBarrierIn db sid) retained active)
       (\<lambda>db1. Inr (\<lparr>fr_kind = Existing, fr_historyReset = False\<rparr>, ensure_session_history db1 sid))"

text \<open>What the seed gives a new session: projected slots, the open leaf and the barrier.\<close>

definition seed_policy ::
  "registration_seed \<Rightarrow> string \<Rightarrow> string list \<Rightarrow> string list \<Rightarrow>
     ((string \<times> checkpoint_slot) list \<times> string option \<times> bool) result" where
  "seed_policy s sid retained active =
     (case s of
        Fresh \<Rightarrow> Inr ([], openLeaf active, False)
      | Untrusted_parent \<Rightarrow> Inr ([], None, True)
      | Fork rawProjection \<Rightarrow>
          rbind (checkedForkProjection rawProjection retained) (\<lambda>projection.
            if sourceSessionId projection = sid then Inl MetadataError
            else Inr (coordinates projection, None, projection_barrier projection)))"

fun write_new_slots ::
  "string \<Rightarrow> (string \<times> checkpoint_slot) list \<Rightarrow> string option \<Rightarrow> string list \<Rightarrow> metadata_db \<Rightarrow>
     metadata_db" where
  "write_new_slots sid projected leaf [] db = db"
| "write_new_slots sid projected leaf (entryId # rest) db =
     write_new_slots sid projected leaf rest
       (writeCheckpointSlotIn db sid entryId
          (case map_of projected entryId of Some slot \<Rightarrow> slot | None \<Rightarrow> leaf_slot leaf entryId))"

definition finalize_new ::
  "metadata_db \<Rightarrow> registration_seed \<Rightarrow> string \<Rightarrow> string \<Rightarrow> string list \<Rightarrow> string list \<Rightarrow>
     (finalize_report \<times> metadata_db) result" where
  "finalize_new db s sid sfile retained active =
     rbind (seed_policy s sid retained active) (\<lambda>(projected, leaf, raiseBarrier).
       let db1 = ensure_session_history (insert_registration db sid sfile ''verified'') sid;
           db2 = write_new_slots sid projected leaf retained db1;
           db3 = (if raiseBarrier
                  then db2\<lparr>session_capture_barrier_table :=
                         (sid, ()) # session_capture_barrier_table db2\<rparr>
                  else db2)
       in Inr (\<lparr>fr_kind = Registered, fr_historyReset = False\<rparr>, db3))"

definition is_fork_seed :: "registration_seed \<Rightarrow> bool" where
  "is_fork_seed s = (case s of Fork _ \<Rightarrow> True | _ \<Rightarrow> False)"

text \<open>
  \<open>sourceAuthority\<close> is the outcome of the write-authority assertion on the fork source's store,
  given exactly when the caller passed one. The committed registration makes the connection adopt
  the stored history generation.
\<close>

definition finalize_transaction ::
  "finalize_input \<Rightarrow> string \<Rightarrow> string \<Rightarrow> string list \<Rightarrow> string list \<Rightarrow> bool option \<Rightarrow> metadata_db \<Rightarrow>
     ((finalize_report \<times> int) \<times> metadata_db) result" where
  "finalize_transaction input sid sfile retained active sourceAuthority db =
     (if sourceAuthority = Some False then Inl WorkspaceAuthorityError
      else rbind (sessionHistoryIn db sid) (\<lambda>history.
        if snd history \<and> map_of (session_registry_table db) sid = None then Inl MetadataError
        else let rows = registry_matches db sid sfile
        in rbind
          (if rows \<noteq> [] then finalize_existing db rows sid sfile retained active history
           else if has_orphaned_slot db sid \<or> sessionHasBarrierIn db sid
             then finalize_orphaned db sid sfile retained active
           else finalize_new db (seed input) sid sfile retained active)
          (\<lambda>(report, db'). Inr ((report, fst history), db'))))"

definition finalizeSessionProjection ::
  "metadata_connection \<Rightarrow> bool \<Rightarrow> finalize_input \<Rightarrow> bool option \<Rightarrow> metadata_db \<Rightarrow>
     ((finalize_report \<times> metadata_connection) \<times> metadata_db) result" where
  "finalizeSessionProjection conn authority input sourceAuthority db =
     rbind (requireNonEmpty (targetSessionId input)) (\<lambda>sid.
     rbind (requireNonEmpty (targetSessionFile input)) (\<lambda>sfile.
     rbind (uniqueEntrySet (retainedEntryIds input)) (\<lambda>retained.
     rbind (activeAncestry (activeAncestryEntryIds input) retained) (\<lambda>active.
       if is_fork_seed (seed input) \<and> sourceAuthority = None then Inl MetadataError
       else if \<not> is_fork_seed (seed input) \<and> sourceAuthority \<noteq> None then Inl MetadataError
       else rbind (writeTransaction conn authority db
                     (finalize_transaction input sid sfile retained active sourceAuthority))
              (\<lambda>((report, epoch), db').
                 Inr ((report, conn\<lparr>historyEpoch := (historyEpoch conn)(sid \<mapsto> epoch)\<rparr>), db'))))))"

end
