(* ===== verification/Metadata_Laws.thy ===== *)
theory Metadata_Laws
  imports Session_Projection
begin

text \<open>
  Laws of the metadata store: the well-formedness invariant of its tables, the interface of a slot
  store with the lemmas its clients use, and its interpretation on the relational model.
\<close>

subsection \<open>The invariant\<close>

definition slot_valid :: "checkpoint_slot \<Rightarrow> bool" where
  "slot_valid slot = (case checkpointSlotTreeOid slot of None \<Rightarrow> True | Some t \<Rightarrow> isTreeOid t)"

definition slot_row_ok :: "slot_row \<Rightarrow> bool" where
  "slot_row_ok row =
     (case tree_oid_col row of
        None \<Rightarrow> capture_state_col row = ''blocked''
      | Some t \<Rightarrow> isTreeOid t \<and> capture_state_col row \<in> {''open'', ''blocked''})"

definition registry_row_ok :: "registry_row \<Rightarrow> bool" where
  "registry_row_ok row \<longleftrightarrow> registration_state_col row \<in> {''pending'', ''verified''}"

definition history_row_ok :: "history_row \<Rightarrow> bool" where
  "history_row_ok row \<longleftrightarrow>
     safe_unsigned (history_epoch_col row) \<and> reset_pending_col row \<in> {0, 1}"

definition registry_files :: "metadata_db \<Rightarrow> string list" where
  "registry_files db = map (\<lambda>(k, row). session_file_col row) (session_registry_table db)"

definition metadata_ok :: "metadata_db \<Rightarrow> bool" where
  "metadata_ok db \<longleftrightarrow>
     table_ok (checkpoint_slot_table db) \<and> table_ok (session_registry_table db) \<and>
     table_ok (session_capture_barrier_table db) \<and> table_ok (session_history_table db) \<and>
     distinct (registry_files db) \<and>
     (\<forall>row \<in> snd ` set (checkpoint_slot_table db). slot_row_ok row) \<and>
     (\<forall>row \<in> snd ` set (session_registry_table db). registry_row_ok row) \<and>
     (\<forall>row \<in> snd ` set (session_history_table db). history_row_ok row)"

text \<open>The slot of a coordinate as a total view of a well-formed store.\<close>

definition slot_at :: "metadata_db \<Rightarrow> string \<Rightarrow> string \<Rightarrow> checkpoint_slot" where
  "slot_at db sid eid =
     (case checkpointSlotIn db sid eid of Inr slot \<Rightarrow> slot | Inl _ \<Rightarrow> Open_missing)"

lemma slot_valid_simps [simp]:
  "slot_valid Open_missing" "slot_valid Blocked_missing"
  "slot_valid (Open_checkpoint t) = isTreeOid t" "slot_valid (Blocked_checkpoint t) = isTreeOid t"
  by (simp_all add: slot_valid_def)

lemma slot_row_of_ok: "slot_valid slot \<Longrightarrow> slot \<noteq> Open_missing \<Longrightarrow> slot_row_ok (slot_row_of slot)"
  by (cases slot) (auto simp: slot_row_ok_def slot_row_of_def)

lemma slot_from_row_of:
  "slot_valid slot \<Longrightarrow> slot \<noteq> Open_missing \<Longrightarrow> checkpointSlotFromRow (Some (slot_row_of slot)) = Inr slot"
  by (cases slot) (auto simp: slot_row_of_def requireTreeOid_def)

lemma slot_row_ok_read:
  "slot_row_ok row \<Longrightarrow> \<exists>slot. checkpointSlotFromRow (Some row) = Inr slot \<and> slot_valid slot \<and>
     checkpointSlotTreeOid slot = tree_oid_col row"
  by (auto simp: slot_row_ok_def requireTreeOid_def split: option.splits)

lemma metadata_ok_row:
  assumes "metadata_ok db" and "map_of (checkpoint_slot_table db) k = Some row"
  shows "slot_row_ok row"
proof -
  from assms(2) have "(k, row) \<in> set (checkpoint_slot_table db)" by (rule map_of_SomeD)
  with assms(1) show ?thesis by (force simp: metadata_ok_def)
qed

lemma slot_read:
  assumes "metadata_ok db"
  shows "checkpointSlotIn db sid eid = Inr (slot_at db sid eid) \<and> slot_valid (slot_at db sid eid)"
proof (cases "map_of (checkpoint_slot_table db) (sid, eid)")
  case None
  then show ?thesis by (simp add: checkpointSlotIn_def slot_at_def)
next
  case (Some row)
  with assms have "slot_row_ok row" by (rule metadata_ok_row)
  then obtain slot where "checkpointSlotFromRow (Some row) = Inr slot" "slot_valid slot"
    using slot_row_ok_read by blast
  with Some show ?thesis by (simp add: checkpointSlotIn_def slot_at_def)
qed

lemmas slot_readI = slot_read [THEN conjunct1]
lemmas slot_at_valid = slot_read [THEN conjunct2]

lemma slot_at_write:
  assumes "slot_valid slot"
  shows "slot_at (writeCheckpointSlotIn db sid eid slot) s e =
    (if s = sid \<and> e = eid then slot else slot_at db s e)"
  using slot_from_row_of [OF assms]
  by (auto simp: slot_at_def checkpointSlotIn_def writeCheckpointSlotIn_def)

lemma write_preserves_tables [simp]:
  "session_registry_table (writeCheckpointSlotIn db sid eid slot) = session_registry_table db"
  "session_capture_barrier_table (writeCheckpointSlotIn db sid eid slot) = session_capture_barrier_table db"
  "session_history_table (writeCheckpointSlotIn db sid eid slot) = session_history_table db"
  "user_version (writeCheckpointSlotIn db sid eid slot) = user_version db"
  by (simp_all add: writeCheckpointSlotIn_def)

lemma set_update_subset: "set (AList.update k v t) \<subseteq> insert (k, v) (set t)"
  by (induction t) auto

lemma set_AList_delete: "set (AList.delete k t) = {r \<in> set t. fst r \<noteq> k}"
  by (auto simp: AList.delete_eq)

lemma write_metadata_ok:
  assumes "metadata_ok db" and "slot_valid slot"
  shows "metadata_ok (writeCheckpointSlotIn db sid eid slot)"
proof (cases "slot = Open_missing")
  case True
  then show ?thesis
    using assms(1)
    by (auto simp: metadata_ok_def writeCheckpointSlotIn_def registry_files_def set_AList_delete)
next
  case False
  then have "slot_row_ok (slot_row_of slot)" by (rule slot_row_of_ok [OF assms(2)])
  then show ?thesis
    using assms(1) False
      set_update_subset [of "(sid, eid)" "slot_row_of slot" "checkpoint_slot_table db"]
    by (auto simp: metadata_ok_def writeCheckpointSlotIn_def registry_files_def)
qed

lemma block_valid: "slot_valid s \<Longrightarrow> (\<And>u. t = Some u \<Longrightarrow> isTreeOid u) \<Longrightarrow> slot_valid (blockCheckpointSlot s t)"
  by (cases s; cases t) auto

text \<open>Everything a slot write of one session leaves alone.\<close>

definition session_frame :: "string \<Rightarrow> metadata_db \<Rightarrow> metadata_db \<Rightarrow> bool" where
  "session_frame sid db db' \<longleftrightarrow>
     session_registry_table db' = session_registry_table db \<and>
     session_capture_barrier_table db' = session_capture_barrier_table db \<and>
     session_history_table db' = session_history_table db \<and>
     user_version db' = user_version db \<and>
     (\<forall>s e. s \<noteq> sid \<longrightarrow> slot_at db' s e = slot_at db s e)"

lemma session_frame_refl [simp]: "session_frame sid db db"
  by (simp add: session_frame_def)

lemma session_frame_write:
  "session_frame sid db d \<Longrightarrow> slot_valid slot \<Longrightarrow> session_frame sid db (writeCheckpointSlotIn d sid eid slot)"
  by (simp add: session_frame_def slot_at_write)

subsection \<open>The slots a reconciliation leaves\<close>

definition inherited :: "tree_oid option \<Rightarrow> checkpoint_slot \<Rightarrow> tree_oid option" where
  "inherited eff slot = (case checkpointSlotTreeOid slot of Some t \<Rightarrow> Some t | None \<Rightarrow> eff)"

fun reconciled_view ::
  "(string \<Rightarrow> checkpoint_slot) \<Rightarrow> tree_oid option \<Rightarrow> string list \<Rightarrow> (string \<Rightarrow> checkpoint_slot)" where
  "reconciled_view s eff [] = s"
| "reconciled_view s eff (e # es) =
     reconciled_view (s(e := blockCheckpointSlot (s e) (inherited eff (s e)))) (inherited eff (s e)) es"

lemma reconciled_other: "e \<notin> set es \<Longrightarrow> reconciled_view s eff es e = s e"
  by (induction es arbitrary: s eff) auto

lemma reconciled_keeps_blocked: "checkpointSlotIsBlocked (s e) \<Longrightarrow> reconciled_view s eff es e = s e"
proof (induction es arbitrary: s eff)
  case (Cons x es)
  then show ?case by (cases "x = e") (simp_all add: block_idem)
qed simp

lemma reconciled_blocks: "e \<in> set es \<Longrightarrow> checkpointSlotIsBlocked (reconciled_view s eff es e)"
proof (induction es arbitrary: s eff)
  case (Cons x es)
  then show ?case by (cases "x = e") (simp_all add: reconciled_keeps_blocked)
qed simp

lemma reconciled_tree:
  "checkpointSlotTreeOid (s e) = Some t \<Longrightarrow> checkpointSlotTreeOid (reconciled_view s eff es e) = Some t"
proof (induction es arbitrary: s eff)
  case (Cons x es)
  then show ?case by (cases "x = e") (simp_all add: block_tree)
qed simp

lemma reconciled_pin:
  assumes "distinct (xs @ x # ys)" and "s x = Open_missing"
  shows "checkpointSlotTreeOid (reconciled_view s eff (xs @ x # ys) x) =
    (case nearest_checkpoint s (rev xs) of Missing \<Rightarrow> eff | Checkpoint _ t \<Rightarrow> Some t)"
  using assms
proof (induction xs arbitrary: s eff)
  case Nil
  have "reconciled_view s eff ([] @ x # ys) x = blockCheckpointSlot (s x) (inherited eff (s x))"
    by (simp add: reconciled_keeps_blocked)
  with Nil show ?case by (simp add: block_tree inherited_def)
next
  case (Cons y xs)
  let ?s = "s(y := blockCheckpointSlot (s y) (inherited eff (s y)))"
  have near: "nearest_checkpoint ?s (rev xs) = nearest_checkpoint s (rev xs)"
    by (rule nearest_checkpoint_cong) (use Cons.prems(1) in auto)
  have "checkpointSlotTreeOid (reconciled_view ?s (inherited eff (s y)) (xs @ x # ys) x) =
    (case nearest_checkpoint ?s (rev xs) of Missing \<Rightarrow> inherited eff (s y) | Checkpoint _ t \<Rightarrow> Some t)"
    by (rule Cons.IH) (use Cons.prems in auto)
  with near show ?case
    by (auto simp: nearest_checkpoint_append inherited_def split: resolution.splits option.splits)
qed

lemma blocked_without_tree:
  "checkpointSlotIsBlocked s \<Longrightarrow> checkpointSlotTreeOid s = None \<Longrightarrow> s = Blocked_missing"
  by (cases s) auto

text \<open>Along the reconciled path every coordinate resolves to the tree it resolved to before.\<close>

lemma reconciled_resolution:
  assumes "distinct (path @ ys)" and "path \<noteq> []"
  shows "resolution_tree (effective_resolution (reconciled_view s None (path @ ys)) path)
    = resolution_tree (effective_resolution s path)"
proof -
  obtain xs x where path: "path = xs @ [x]" using assms(2) by (cases path rule: rev_cases) auto
  let ?s' = "reconciled_view s None (path @ ys)"
  show ?thesis
  proof (cases "checkpointSlotTreeOid (s x)")
    case (Some t)
    then have "checkpointSlotTreeOid (?s' x) = Some t" by (rule reconciled_tree)
    with Some show ?thesis by (simp add: path effective_resolution_own)
  next
    case None
    have blocked: "checkpointSlotIsBlocked (?s' x)" by (rule reconciled_blocks) (simp add: path)
    show ?thesis
    proof (cases "s x = Blocked_missing")
      case True
      then have "?s' x = Blocked_missing" by (simp add: reconciled_keeps_blocked)
      with True show ?thesis by (simp add: path effective_resolution_def)
    next
      case False
      with None have miss: "s x = Open_missing" by (cases "s x") auto
      have pin: "checkpointSlotTreeOid (?s' x) =
          (case nearest_checkpoint s (rev xs) of Missing \<Rightarrow> None | Checkpoint _ t \<Rightarrow> Some t)"
        using reconciled_pin [of xs x ys s None] assms(1) miss by (simp add: path)
      have old: "effective_resolution s path = nearest_checkpoint s (rev xs)"
        using miss by (simp add: path effective_resolution_def)
      show ?thesis
      proof (cases "nearest_checkpoint s (rev xs)")
        case Missing
        with pin blocked have "?s' x = Blocked_missing" by (simp add: blocked_without_tree)
        with Missing old show ?thesis by (simp add: path effective_resolution_def)
      next
        case (Checkpoint c t)
        with pin have "checkpointSlotTreeOid (?s' x) = Some t" by simp
        with Checkpoint old show ?thesis by (simp add: path effective_resolution_own)
      qed
    qed
  qed
qed

subsection \<open>The interface of a slot store\<close>

text \<open>
  What the reconciliation of a barrier needs of the store it writes through: a read returns the
  view, a write changes the view at one coordinate, both keep the provider's invariant.
\<close>

locale slot_store =
  fixes readSlot :: "'db \<Rightarrow> string \<Rightarrow> checkpoint_slot result"
    and writeSlot :: "'db \<Rightarrow> string \<Rightarrow> checkpoint_slot \<Rightarrow> 'db"
    and view :: "'db \<Rightarrow> string \<Rightarrow> checkpoint_slot"
    and inv :: "'db \<Rightarrow> bool"
  assumes read_view: "inv db \<Longrightarrow> readSlot db e = Inr (view db e)"
    and view_valid: "inv db \<Longrightarrow> slot_valid (view db e)"
    and view_write: "inv db \<Longrightarrow> slot_valid slot \<Longrightarrow> view (writeSlot db e slot) = (view db)(e := slot)"
    and inv_write: "inv db \<Longrightarrow> slot_valid slot \<Longrightarrow> inv (writeSlot db e slot)"
begin

lemma reconcile_step:
  fixes e :: string
  assumes "inv db" and eff: "\<And>u. eff = Some u \<Longrightarrow> isTreeOid u"
  shows "\<exists>d. reconcile_loop readSlot writeSlot (e # es) eff db
      = reconcile_loop readSlot writeSlot es (inherited eff (view db e)) d
    \<and> inv d \<and> view d = (view db)(e := blockCheckpointSlot (view db e) (inherited eff (view db e)))"
proof (cases "checkpointSlotIsBlocked (view db e)")
  case True
  then have "(view db)(e := blockCheckpointSlot (view db e) (inherited eff (view db e))) = view db"
    by (simp add: block_idem)
  moreover have "reconcile_loop readSlot writeSlot (e # es) eff db
      = reconcile_loop readSlot writeSlot es (inherited eff (view db e)) db"
    using True assms(1) by (cases "view db e") (auto simp: read_view inherited_def)
  ultimately show ?thesis using assms(1) by metis
next
  case False
  let ?slot = "blockCheckpointSlot (view db e) (inherited eff (view db e))"
  have valid: "slot_valid ?slot"
    using view_valid [OF assms(1), of e] eff
    by (intro block_valid) (auto simp: inherited_def slot_valid_def split: option.splits)
  have "reconcile_loop readSlot writeSlot (e # es) eff db
      = reconcile_loop readSlot writeSlot es (inherited eff (view db e)) (writeSlot db e ?slot)"
    using False assms(1) by (cases "view db e") (auto simp: read_view inherited_def)
  then show ?thesis using inv_write [OF assms(1) valid] view_write [OF assms(1) valid] by blast
qed

lemma reconcile_loop_spec:
  assumes "inv db" and "\<And>u. eff = Some u \<Longrightarrow> isTreeOid u"
  shows "\<exists>d. reconcile_loop readSlot writeSlot es eff db = Inr d \<and> inv d
    \<and> view d = reconciled_view (view db) eff es"
  using assms
proof (induction es arbitrary: eff db)
  case Nil
  then show ?case by simp
next
  case (Cons e es)
  let ?eff = "inherited eff (view db e)"
  obtain d1 where d1: "reconcile_loop readSlot writeSlot (e # es) eff db = reconcile_loop readSlot writeSlot es ?eff d1"
      "inv d1" "view d1 = (view db)(e := blockCheckpointSlot (view db e) ?eff)"
    using reconcile_step [OF Cons.prems] by blast
  have valid: "isTreeOid u" if "?eff = Some u" for u
    using that view_valid [OF Cons.prems(1), of e] Cons.prems(2)
    by (auto simp: inherited_def slot_valid_def split: option.splits)
  obtain d where "reconcile_loop readSlot writeSlot es ?eff d1 = Inr d" "inv d"
      "view d = reconciled_view (view d1) ?eff es"
    using Cons.IH [of d1 ?eff, OF d1(2) valid] by blast
  with d1(1,3) show ?case by (intro exI [of _ d]) simp
qed

end

subsection \<open>The relational store provides the interface, one session at a time\<close>

interpretation session_slots: slot_store
  "\<lambda>d e. checkpointSlotIn d sid e"
  "\<lambda>d e slot. writeCheckpointSlotIn d sid e slot"
  "\<lambda>d e. slot_at d sid e"
  "\<lambda>d. metadata_ok d \<and> session_frame sid base d"
  for sid base
proof unfold_locales
  fix d e slot
  assume inv: "metadata_ok d \<and> session_frame sid base d"
  then show "checkpointSlotIn d sid e = Inr (slot_at d sid e)" by (simp add: slot_readI)
  from inv show "slot_valid (slot_at d sid e)" by (simp add: slot_at_valid)
  assume valid: "slot_valid slot"
  then show "(\<lambda>x. slot_at (writeCheckpointSlotIn d sid e slot) sid x) = (\<lambda>x. slot_at d sid x)(e := slot)"
    by (auto simp: slot_at_write)
  show "metadata_ok (writeCheckpointSlotIn d sid e slot)
      \<and> session_frame sid base (writeCheckpointSlotIn d sid e slot)"
    using inv valid by (simp add: write_metadata_ok session_frame_write)
qed

end
