(* ===== verification/Metadata_Effects.thy ===== *)
theory Metadata_Effects
  imports Metadata_Laws
begin

text \<open>
  What each operation of the metadata store does to a well-formed store: one inversion lemma per
  operation, the preservation of the invariant, and the operations as steps of one machine.
\<close>

subsection \<open>Transactions\<close>

lemma runTransaction_Inr:
  "runTransaction conn db op = Inr r \<longleftrightarrow>
     \<not> closed conn \<and> phase conn = Current \<and> user_version db = CURRENT_METADATA_VERSION \<and> op db = Inr r"
  by (simp add: runTransaction_def)

lemma sessionWriteTransaction_Inr:
  "sessionWriteTransaction conn authority sid db op = Inr r \<longleftrightarrow>
     \<not> closed conn \<and> phase conn = Current \<and> user_version db = CURRENT_METADATA_VERSION \<and> authority \<and>
     requireSessionHistoryReady conn db sid = Inr () \<and> op db = Inr r"
  by (auto simp: sessionWriteTransaction_def writeTransaction_def runTransaction_Inr rbind_eq_Inr)

lemma requireNonEmpty_Inr: "requireNonEmpty v = Inr w \<Longrightarrow> w = v"
  by (auto simp: requireNonEmpty_def split: if_splits)

lemma requireTreeOid_Inr: "requireTreeOid v = Inr w \<longleftrightarrow> w = v \<and> isTreeOid v"
  by (auto simp: requireTreeOid_def split: if_splits)

lemma requireVerified_Inr:
  "requireVerifiedSessionIn db sid f = Inr u \<longleftrightarrow> registered_and_verified db sid f = Inr True"
  by (auto simp: requireVerifiedSessionIn_def rbind_eq_Inr split: if_splits)

lemma unique_entry_loop_Inr:
  "unique_entry_loop acc es = Inr r \<Longrightarrow> r = acc @ es \<and> (distinct acc \<longrightarrow> distinct r)"
proof (induction es arbitrary: acc)
  case Nil
  then show ?case by simp
next
  case (Cons e es)
  then have "unique_entry_loop (acc @ [e]) es = Inr r" and "e \<notin> set acc"
    by (auto simp: rbind_eq_Inr split: if_splits dest: requireNonEmpty_Inr)
  with Cons.IH show ?case by fastforce
qed

lemma uniqueEntrySet_Inr: "uniqueEntrySet es = Inr r \<Longrightarrow> r = es \<and> distinct es"
  using unique_entry_loop_Inr by (fastforce simp: uniqueEntrySet_def)

lemma checkedLocationAncestry_Inr:
  "checkedLocationAncestry es e = Inr r \<Longrightarrow> r = es \<and> distinct es \<and> es \<noteq> [] \<and> last es = e"
  by (auto simp: checkedLocationAncestry_def rbind_eq_Inr split: if_splits dest!: uniqueEntrySet_Inr)

lemma checkedExpectedResolution_Inr:
  "checkedExpectedResolution res es = Inr r \<Longrightarrow> r = res \<and> isTreeOid (snd res)"
  by (cases res) (auto simp: checkedExpectedResolution_def rbind_eq_Inr requireTreeOid_Inr
      split: if_splits dest!: requireNonEmpty_Inr)

subsection \<open>Views of the tables\<close>

lemma slot_at_other_tables [simp]:
  "slot_at (db\<lparr>session_capture_barrier_table := b\<rparr>) s e = slot_at db s e"
  "slot_at (db\<lparr>session_registry_table := r\<rparr>) s e = slot_at db s e"
  "slot_at (db\<lparr>session_history_table := h\<rparr>) s e = slot_at db s e"
  by (simp_all add: slot_at_def checkpointSlotIn_def)

lemma resolve_ok:
  assumes "metadata_ok db" and "es \<noteq> []"
  shows "resolveCheckpointIn db sid es =
    Inr \<lparr>resolution_of = effective_resolution (slot_at db sid) es, targetSlot = slot_at db sid (last es)\<rparr>"
proof -
  have "(\<lambda>e. checkpointSlotIn db sid e) = (\<lambda>e. Inr (slot_at db sid e))"
    using slot_readI [OF assms(1)] by blast
  then show ?thesis using assms(2) by (simp add: resolveCheckpointIn_def reduce_lineage_total)
qed

lemma resolutionsEqual_iff [simp]: "resolutionsEqual a b \<longleftrightarrow> a = b"
  by (cases a; cases b) auto

lemma resolution_tree_valid:
  assumes "metadata_ok db" and "resolution_tree (effective_resolution (slot_at db sid) es) = Some t"
  shows "isTreeOid t"
proof -
  from assms(2) obtain c where "effective_resolution (slot_at db sid) es = Checkpoint c t"
    by (cases "effective_resolution (slot_at db sid) es") auto
  then have "checkpointSlotTreeOid (slot_at db sid c) = Some t" by (simp add: effective_resolution_in)
  with slot_at_valid [OF assms(1), of sid c] show ?thesis by (simp add: slot_valid_def)
qed

subsection \<open>Reconciling a barrier\<close>

lemma metadata_ok_drop_barrier:
  "metadata_ok db \<Longrightarrow> metadata_ok (db\<lparr>session_capture_barrier_table :=
     AList.delete sid (session_capture_barrier_table db)\<rparr>)"
  by (simp add: metadata_ok_def registry_files_def)

lemma reconcileIn_cases:
  assumes ok: "metadata_ok db" and eq: "reconcileSessionBarrierIn db sid es f = Inr (r, db')"
  obtains (kept) "r \<noteq> Reconciled" "db' = db" "r = Absent \<Longrightarrow> \<not> sessionHasBarrierIn db sid"
  | (reconciled) "r = Reconciled" "metadata_ok db'" "sessionHasBarrierIn db sid"
      "\<not> sessionHasBarrierIn db' sid"
      "slot_at db' sid = reconciled_view (slot_at db sid) None es"
      "\<And>s e. s \<noteq> sid \<Longrightarrow> slot_at db' s e = slot_at db s e"
      "session_registry_table db' = session_registry_table db"
      "session_history_table db' = session_history_table db"
proof -
  obtain verified where v: "registered_and_verified db sid f = Inr verified"
    using eq by (auto simp: reconcileSessionBarrierIn_def rbind_eq_Inr)
  show thesis
  proof (cases "verified \<and> sessionHasBarrierIn db sid")
    case False
    with eq v show thesis by (intro kept) (auto simp: reconcileSessionBarrierIn_def split: if_splits)
  next
    case True
    obtain d where d: "reconcile_loop (\<lambda>d e. checkpointSlotIn d sid e)
          (\<lambda>d e slot. writeCheckpointSlotIn d sid e slot) es None db = Inr d"
        "metadata_ok d" "session_frame sid db d"
        "slot_at d sid = reconciled_view (slot_at db sid) None es"
      using session_slots.reconcile_loop_spec [of db sid db None es] ok by auto
    from d(3) True have "sessionHasBarrierIn d sid" by (simp add: session_frame_def sessionHasBarrierIn_def)
    with eq v True d(1) have "r = Reconciled"
        and db': "db' = d\<lparr>session_capture_barrier_table :=
                   AList.delete sid (session_capture_barrier_table d)\<rparr>"
      by (auto simp: reconcileSessionBarrierIn_def)
    have "metadata_ok db'" unfolding db' by (rule metadata_ok_drop_barrier [OF d(2)])
    with \<open>r = Reconciled\<close> show thesis using d True
      by (intro reconciled) (auto simp: db' sessionHasBarrierIn_def session_frame_def)
  qed
qed

subsection \<open>Capture\<close>

lemma commitCapture_cases:
  assumes ok: "metadata_ok db" and eq: "commitCapture conn authority input db = Inr (r, db')"
  defines "sid \<equiv> sessionId (cc_identity input)" and "eid \<equiv> cc_entryId input"
  obtains (committed) "r = Committed" "\<not> checkpointSlotIsBlocked (slot_at db sid eid)"
      "slot_at db sid eid = cc_expectedSlot input" "isTreeOid (cc_treeOid input)"
      "\<not> sessionHasBarrierIn db sid"
      "db' = writeCheckpointSlotIn db sid eid (Open_checkpoint (cc_treeOid input))"
  | (refused) "r = Blocked" "db' = db" "checkpointSlotIsBlocked (slot_at db sid eid)"
  | (changed) "r = Slot_changed" "db' = db" "slot_at db sid eid \<noteq> cc_expectedSlot input"
  | (reconciled) "r = Blocked" "sessionHasBarrierIn db sid"
      "reconcileSessionBarrierIn db sid (cc_activeAncestryEntryIds input)
         (sessionFile (cc_identity input)) = Inr (Reconciled, db')"
proof -
  let ?es = "cc_activeAncestryEntryIds input" and ?f = "sessionFile (cc_identity input)"
  from eq obtain rec locked where
      path: "?es \<noteq> []" "last ?es = eid" and oid: "isTreeOid (cc_treeOid input)"
    and ver: "registered_and_verified db sid ?f = Inr True"
    and rec: "reconcileSessionBarrierIn db sid ?es ?f = Inr (rec, locked)"
    and tail: "(if rec = Reconciled then Inr (Blocked, locked)
             else rbind (resolveCheckpointIn locked sid ?es) (\<lambda>lineage.
               (case captureCheckpointSlot (targetSlot lineage) (cc_treeOid input) of
                  Rejected _ \<Rightarrow> Inr (Blocked, locked)
                | Applied slot \<Rightarrow>
                    (if \<not> checkpointSlotsEqual (targetSlot lineage) (cc_expectedSlot input)
                     then Inr (Slot_changed, locked)
                     else Inr (Committed, writeCheckpointSlotIn locked sid eid slot))))) = Inr (r, db')"
    by (auto simp: commitCapture_def rbind_eq_Inr sessionWriteTransaction_Inr requireVerified_Inr
        requireTreeOid_Inr sid_def eid_def split: if_splits dest!: requireNonEmpty_Inr uniqueEntrySet_Inr
        cong: slot_transition.case_cong if_cong)
  show thesis
  proof (cases "rec = Reconciled")
    case True
    with tail rec ok show thesis by (intro reconciled) (auto elim: reconcileIn_cases)
  next
    case False
    from ok rec have locked: "locked = db" by (rule reconcileIn_cases) (use False in auto)
    have absent: "\<not> sessionHasBarrierIn db sid"
      using rec ver False by (auto simp: reconcileSessionBarrierIn_def rbind_eq_Inr split: if_splits)
    have res: "resolveCheckpointIn db sid ?es =
        Inr \<lparr>resolution_of = effective_resolution (slot_at db sid) ?es, targetSlot = slot_at db sid eid\<rparr>"
      using resolve_ok [OF ok path(1)] path(2) by simp
    show thesis
    proof (cases "checkpointSlotIsBlocked (slot_at db sid eid)")
      case True
      then have "captureCheckpointSlot (slot_at db sid eid) (cc_treeOid input) = Rejected Capture_blocked"
        by (simp add: capture_rejected_iff)
      with tail False locked res True show thesis by (intro refused) auto
    next
      case nb: False
      then have "captureCheckpointSlot (slot_at db sid eid) (cc_treeOid input)
          = Applied (Open_checkpoint (cc_treeOid input))"
        by (simp add: capture_applied_iff)
      with tail False locked res nb oid absent show thesis
        by (cases "slot_at db sid eid = cc_expectedSlot input") (auto intro: committed changed)
    qed
  qed
qed

subsection \<open>Protection, admission, adoption, barriers\<close>

lemma protectLocation_Inr:
  assumes ok: "metadata_ok db" and eq: "protectLocation conn authority input db = Inr (r, db')"
  defines "sid \<equiv> sessionId (pl_identity input)" and "eid \<equiv> pl_entryId input"
    and "es \<equiv> pl_activeAncestryEntryIds input"
  defines "pinned \<equiv> blockCheckpointSlot (slot_at db sid eid)
     (resolution_tree (effective_resolution (slot_at db sid) es))"
  shows "protectedSlot r = pinned \<and> distinct es \<and> es \<noteq> [] \<and> last es = eid \<and> slot_valid pinned \<and>
    db' = (if slot_at db sid eid \<noteq> pinned then writeCheckpointSlotIn db sid eid pinned else db) \<and>
    (pl_kind r = Stale \<longleftrightarrow>
       (case pl_expectation input of
          Any_current \<Rightarrow> False
        | Exact_resolution e t \<Rightarrow>
            sessionHasBarrierIn db sid \<or> effective_resolution (slot_at db sid) es \<noteq> Checkpoint e t))"
proof -
  from eq obtain expected lineage where
      path: "distinct es" "es \<noteq> []" "last es = eid"
    and exp: "checked_protect_expectation (pl_expectation input) es = Inr expected"
    and res: "resolveCheckpointIn db sid es = Inr lineage"
    and r: "r = \<lparr>pl_kind = (if (case expected of None \<Rightarrow> False | Some (e, t) \<Rightarrow>
                     sessionHasBarrierIn db sid \<or> resolution_of lineage \<noteq> Checkpoint e t)
                   then Stale else Protected),
                 protectedSlot = blockCheckpointSlot (targetSlot lineage)
                   (resolution_tree (resolution_of lineage))\<rparr>"
    and db': "db' = (if targetSlot lineage \<noteq> blockCheckpointSlot (targetSlot lineage)
                   (resolution_tree (resolution_of lineage))
        then writeCheckpointSlotIn db sid eid (blockCheckpointSlot (targetSlot lineage)
                   (resolution_tree (resolution_of lineage))) else db)"
    by (auto simp: protectLocation_def rbind_eq_Inr sessionWriteTransaction_Inr Let_def sid_def eid_def
        es_def dest!: requireNonEmpty_Inr checkedLocationAncestry_Inr
        cong: option.case_cong if_cong)
  have lin: "lineage = \<lparr>resolution_of = effective_resolution (slot_at db sid) es,
      targetSlot = slot_at db sid eid\<rparr>"
    using res resolve_ok [OF ok path(2)] path(3) by simp
  have valid: "slot_valid pinned"
    unfolding pinned_def
    by (rule block_valid) (auto intro: slot_at_valid [OF ok] resolution_tree_valid [OF ok])
  have "expected = (case pl_expectation input of Any_current \<Rightarrow> None | Exact_resolution e t \<Rightarrow> Some (e, t))"
    using exp by (cases "pl_expectation input")
      (auto simp: rbind_eq_Inr dest!: checkedExpectedResolution_Inr)
  with r db' lin valid path show ?thesis
    by (auto simp: pinned_def split: protect_expectation.splits)
qed

lemma admitResolvedLocation_Inr:
  assumes ok: "metadata_ok db" and eq: "admitResolvedLocation conn authority input db = Inr (r, db')"
  defines "sid \<equiv> sessionId (al_identity input)" and "eid \<equiv> al_entryId input"
    and "es \<equiv> al_activeAncestryEntryIds input"
  shows "(r = Admit_slot_changed \<and> db' = db)
    \<or> (r = Admitted \<and> \<not> sessionHasBarrierIn db sid \<and> distinct es \<and> es \<noteq> [] \<and> last es = eid \<and>
       effective_resolution (slot_at db sid) es =
         Checkpoint (fst (al_expectedResolution input)) (snd (al_expectedResolution input)) \<and>
       ((\<not> checkpointSlotIsBlocked (slot_at db sid eid) \<and> db' = db)
        \<or> (slot_at db sid eid = Blocked_checkpoint (snd (al_expectedResolution input)) \<and>
           isTreeOid (snd (al_expectedResolution input)) \<and>
           db' = writeCheckpointSlotIn db sid eid (Open_checkpoint (snd (al_expectedResolution input))))))"
proof -
  obtain source oid where ex: "al_expectedResolution input = (source, oid)" by fastforce
  define tail where "tail = (\<lambda>lineage :: string reduced_lineage.
             if \<not> resolutionsEqual (resolution_of lineage) (Checkpoint source oid)
             then Inr (Admit_slot_changed, db)
             else (case targetSlot lineage of
                 Open_missing \<Rightarrow> Inr (Admitted, db)
               | Open_checkpoint t \<Rightarrow> Inr (if t = oid then Admitted else Admit_slot_changed, db)
               | Blocked_checkpoint t \<Rightarrow>
                   (case releaseCheckpointSlot (Blocked_checkpoint t) oid of
                      Rejected _ \<Rightarrow> Inr (Admit_slot_changed, db)
                    | Applied slot \<Rightarrow> Inr (Admitted, writeCheckpointSlotIn db sid eid slot))
               | Blocked_missing \<Rightarrow> Inr (Admit_slot_changed, db)) :: (admit_result \<times> metadata_db) result)"
  from eq have path: "distinct es" "es \<noteq> []" "last es = eid" and oid: "isTreeOid oid"
    by (auto simp: admitResolvedLocation_def rbind_eq_Inr sessionWriteTransaction_Inr sid_def eid_def
        es_def ex dest!: requireNonEmpty_Inr checkedLocationAncestry_Inr checkedExpectedResolution_Inr)
  from eq have "(if sessionHasBarrierIn db sid then Inr (Admit_slot_changed, db)
      else rbind (resolveCheckpointIn db sid es) tail) = Inr (r, db')"
    unfolding tail_def sid_def eid_def es_def
    by (auto simp only: admitResolvedLocation_def rbind_eq_Inr sessionWriteTransaction_Inr ex fst_conv
        snd_conv dest!: requireNonEmpty_Inr checkedLocationAncestry_Inr checkedExpectedResolution_Inr)
  then show ?thesis
    using path oid resolve_ok [OF ok path(2), of sid]
    by (auto simp: tail_def ex split: if_splits checkpoint_slot.splits)
qed

lemma adoptBlockedMissing_Inr:
  assumes ok: "metadata_ok db" and eq: "adoptBlockedMissing conn authority identity e t db = Inr (r, db')"
  shows "(r = Adopt_slot_changed \<and> db' = db)
    \<or> (r = Adopted \<and> \<not> sessionHasBarrierIn db (sessionId identity) \<and> isTreeOid t \<and>
       slot_at db (sessionId identity) e = Blocked_missing \<and>
       db' = writeCheckpointSlotIn db (sessionId identity) e (Open_checkpoint t))"
  using eq
  by (cases "slot_at db (sessionId identity) e")
    (auto simp: adoptBlockedMissing_def rbind_eq_Inr sessionWriteTransaction_Inr requireTreeOid_Inr
      slot_readI [OF ok] split: if_splits dest!: requireNonEmpty_Inr)

lemma raiseSessionBarrier_Inr:
  assumes eq: "raiseSessionBarrier conn authority identity db = Inr (r, db')"
  shows "db' = (if sessionHasBarrierIn db (sessionId identity) then db
    else db\<lparr>session_capture_barrier_table :=
      (sessionId identity, ()) # session_capture_barrier_table db\<rparr>)"
  using eq
  by (auto simp: raiseSessionBarrier_def rbind_eq_Inr sessionWriteTransaction_Inr dest!: requireNonEmpty_Inr)

lemma reconcileSessionBarrier_Inr:
  assumes "reconcileSessionBarrier conn authority identity es db = Inr (r, db')"
  shows "reconcileSessionBarrierIn db (sessionId identity) es (sessionFile identity) = Inr (r, db')
    \<and> distinct es \<and> es \<noteq> []"
  using assms
  by (auto simp: reconcileSessionBarrier_def rbind_eq_Inr sessionWriteTransaction_Inr split: if_splits
      dest!: requireNonEmpty_Inr uniqueEntrySet_Inr)

end
