(* ===== verification/Metadata_Machine.thy ===== *)
theory Metadata_Machine
  imports Metadata_Effects
begin

text \<open>
  The effect of a registration on a well-formed store, and the operations of the store as the steps
  of one machine: any connection, any input, in any order.
\<close>

subsection \<open>Registration writes\<close>

lemma write_unclassified_spec:
  assumes "metadata_ok db" and "\<And>e. slot_valid (slotFor e)"
  shows "metadata_ok (write_unclassified sid classified slotFor es db)
    \<and> session_frame sid db (write_unclassified sid classified slotFor es db)
    \<and> (\<forall>e. slot_at (write_unclassified sid classified slotFor es db) sid e =
         (if e \<in> set es \<and> \<not> classified e then slotFor e else slot_at db sid e))"
  using assms(1)
proof (induction es arbitrary: db)
  case Nil
  then show ?case by simp
next
  case (Cons x es)
  let ?d = "if classified x then db else writeCheckpointSlotIn db sid x (slotFor x)"
  have "metadata_ok ?d" using Cons.prems assms(2) by (simp add: write_metadata_ok)
  moreover have "session_frame sid db ?d" using assms(2) by (simp add: session_frame_write)
  ultimately show ?case
    using Cons.IH [of ?d] assms(2) by (auto simp: session_frame_def slot_at_write)
qed

lemma write_new_slots_spec:
  assumes "metadata_ok db" and "\<And>e s. map_of projected e = Some s \<Longrightarrow> slot_valid s" and "distinct es"
  shows "metadata_ok (write_new_slots sid projected leaf es db)
    \<and> session_frame sid db (write_new_slots sid projected leaf es db)
    \<and> (\<forall>e. slot_at (write_new_slots sid projected leaf es db) sid e =
         (if e \<in> set es
          then (case map_of projected e of Some s \<Rightarrow> s | None \<Rightarrow> leaf_slot leaf e)
          else slot_at db sid e))"
  using assms(1,3)
proof (induction es arbitrary: db)
  case Nil
  then show ?case by simp
next
  case (Cons x es)
  let ?slot = "case map_of projected x of Some s \<Rightarrow> s | None \<Rightarrow> leaf_slot leaf x"
  let ?d = "writeCheckpointSlotIn db sid x ?slot"
  have valid: "slot_valid ?slot" using assms(2) by (auto simp: leaf_slot_def split: option.splits)
  have "metadata_ok ?d" by (rule write_metadata_ok [OF Cons.prems(1) valid])
  moreover have "session_frame sid db ?d" by (simp add: session_frame_write valid)
  ultimately show ?case
    using Cons.IH [of ?d] Cons.prems(2) valid by (auto simp: session_frame_def slot_at_write)
qed

lemma retained_coordinates_loop_Inr:
  assumes "retained_coordinates_loop sid retained rows st gd = Inr (st', gd')"
  shows "set st \<subseteq> set st' \<and> set gd \<subseteq> set gd' \<and>
    (\<forall>e row. ((sid, e), row) \<in> set rows \<longrightarrow> e \<in> set retained \<and>
       (\<exists>slot. checkpointSlotFromRow (Some row) = Inr slot \<and>
          (checkpointSlotTreeOid slot \<noteq> None \<longrightarrow> e \<in> set st') \<and>
          (checkpointSlotIsBlocked slot \<longrightarrow> e \<in> set gd')))"
  using assms
proof (induction sid retained rows st gd rule: retained_coordinates_loop.induct)
  case (1 sid retained st gd)
  then show ?case by simp
next
  case (2 sid retained s rawId row rows st gd)
  show ?case
  proof (cases "s = sid")
    case False
    with "2.IH"(1) "2.prems" show ?thesis by auto
  next
    case True
    with "2.prems" obtain slot where
        slot: "checkpointSlotFromRow (Some row) = Inr slot" and ret: "rawId \<in> set retained"
      and ne: "requireNonEmpty rawId = Inr rawId"
      and rest: "retained_coordinates_loop sid retained rows
            (if checkpointSlotTreeOid slot \<noteq> None then rawId # st else st)
            (if checkpointSlotIsBlocked slot then rawId # gd else gd) = Inr (st', gd')"
      by (auto simp: rbind_eq_Inr simp del: checkpointSlotFromRow.simps split: if_splits
          dest: requireNonEmpty_Inr)
    have "\<not> s \<noteq> sid" using True by simp
    from "2.IH"(2) [OF this ne slot _ rest] ret have ih:
      "set (if checkpointSlotTreeOid slot \<noteq> None then rawId # st else st) \<subseteq> set st'"
      "set (if checkpointSlotIsBlocked slot then rawId # gd else gd) \<subseteq> set gd'"
      "\<And>e row. ((sid, e), row) \<in> set rows \<Longrightarrow> e \<in> set retained \<and>
         (\<exists>slot. checkpointSlotFromRow (Some row) = Inr slot \<and>
            (checkpointSlotTreeOid slot \<noteq> None \<longrightarrow> e \<in> set st') \<and>
            (checkpointSlotIsBlocked slot \<longrightarrow> e \<in> set gd'))"
      by blast+
    then show ?thesis using ret slot by (auto split: if_splits simp del: checkpointSlotFromRow.simps)
  qed
qed

text \<open>After the scan, a coordinate that is not classified holds nothing.\<close>

lemma validateSession_unclassified:
  assumes "validateSessionCoordinatesRetainedIn db sid retained = Inr (st, gd)"
    and "e \<notin> set st" and "e \<notin> set gd"
  shows "slot_at db sid e = Open_missing"
proof (cases "map_of (checkpoint_slot_table db) (sid, e)")
  case None
  then show ?thesis by (simp add: slot_at_def checkpointSlotIn_def)
next
  case (Some row)
  then have "((sid, e), row) \<in> set (checkpoint_slot_table db)" by (rule map_of_SomeD)
  with retained_coordinates_loop_Inr [of sid retained "checkpoint_slot_table db" "[]" "[]" st gd] assms
  obtain slot where "checkpointSlotFromRow (Some row) = Inr slot" "checkpointSlotTreeOid slot = None"
      "\<not> checkpointSlotIsBlocked slot"
    unfolding validateSessionCoordinatesRetainedIn_def by blast
  with Some show ?thesis by (cases slot) (simp_all add: slot_at_def checkpointSlotIn_def)
qed

subsection \<open>One contract for everything a registration may do\<close>

text \<open>
  A registration keeps the store well formed, touches the slots of its own session only, and there
  leaves every closed coordinate as it is and every tree where it is.
\<close>

definition registration_effect :: "string \<Rightarrow> metadata_db \<Rightarrow> metadata_db \<Rightarrow> bool" where
  "registration_effect sid db db' \<longleftrightarrow> metadata_ok db' \<and>
     (\<forall>s e. s \<noteq> sid \<longrightarrow> slot_at db' s e = slot_at db s e) \<and>
     (\<forall>e. checkpointSlotIsBlocked (slot_at db sid e) \<longrightarrow> slot_at db' sid e = slot_at db sid e) \<and>
     (\<forall>e t. checkpointSlotTreeOid (slot_at db sid e) = Some t \<longrightarrow>
        checkpointSlotTreeOid (slot_at db' sid e) = Some t)"

lemma registration_effect_refl: "metadata_ok db \<Longrightarrow> registration_effect sid db db"
  by (simp add: registration_effect_def)

lemma registration_effect_trans:
  "registration_effect sid a b \<Longrightarrow> registration_effect sid b c \<Longrightarrow> registration_effect sid a c"
  by (auto simp: registration_effect_def)

lemma registration_effect_unclassified:
  assumes "metadata_ok db" and "\<And>e. slot_valid (slotFor e)"
    and "validateSessionCoordinatesRetainedIn db sid retained = Inr (st, gd)"
  shows "registration_effect sid db
    (write_unclassified sid (\<lambda>e. e \<in> set st \<or> e \<in> set gd) slotFor es db)"
proof -
  let ?d = "write_unclassified sid (\<lambda>e. e \<in> set st \<or> e \<in> set gd) slotFor es db"
  note spec = write_unclassified_spec [of db slotFor sid "\<lambda>e. e \<in> set st \<or> e \<in> set gd" es,
      OF assms(1,2)]
  have empty: "slot_at db sid e = Open_missing" if "\<not> (e \<in> set st \<or> e \<in> set gd)" for e
    using validateSession_unclassified [OF assms(3)] that by blast
  have keep: "slot_at ?d sid e = slot_at db sid e" if "slot_at db sid e \<noteq> Open_missing" for e
    using spec empty [of e] that by auto
  have other: "slot_at ?d s e = slot_at db s e" if "s \<noteq> sid" for s e
    using spec that by (simp add: session_frame_def)
  have "slot_at ?d sid e = slot_at db sid e" if "checkpointSlotIsBlocked (slot_at db sid e)" for e
    by (rule keep) (use that in auto)
  moreover have "slot_at ?d sid e = slot_at db sid e" if "checkpointSlotTreeOid (slot_at db sid e) = Some t" for e t
    by (rule keep) (use that in auto)
  moreover have "metadata_ok ?d" using spec by blast
  ultimately show ?thesis using other by (simp add: registration_effect_def)
qed

lemma registration_effect_reconcile:
  assumes "metadata_ok db" and "reconcileSessionBarrierIn db sid es f = Inr (r, db')"
  shows "registration_effect sid db db'"
  using assms
proof (cases rule: reconcileIn_cases)
  case kept
  with assms(1) show ?thesis by (simp add: registration_effect_refl)
next
  case reconciled
  then show ?thesis
    by (simp add: registration_effect_def reconciled_keeps_blocked reconciled_tree)
qed

lemma metadata_ok_registry_state:
  assumes "metadata_ok db" and "map_of (session_registry_table db) sid = Some row"
  shows "metadata_ok (db\<lparr>session_registry_table :=
    AList.update sid (row\<lparr>registration_state_col := ''verified''\<rparr>) (session_registry_table db)\<rparr>)"
proof -
  let ?row = "row\<lparr>registration_state_col := ''verified''\<rparr>"
  have files: "map (\<lambda>(k, r). session_file_col r) (AList.update sid ?row t) =
      map (\<lambda>(k, r). session_file_col r) t" if "map_of t sid = Some row" for t
    using that by (induction t) (auto split: if_splits)
  show ?thesis
    using assms files [OF assms(2)] set_update_subset [of sid ?row "session_registry_table db"]
    by (auto simp: metadata_ok_def registry_files_def registry_row_ok_def)
qed

lemma registration_effect_verifyPending:
  assumes ok: "metadata_ok db"
    and eq: "verifyPendingRegistrationIn db sid f barrier retained active = Inr db'"
  shows "registration_effect sid db db'"
proof -
  obtain st gd where v: "validateSessionCoordinatesRetainedIn db sid retained = Inr (st, gd)"
    using eq by (auto simp: verifyPendingRegistrationIn_def rbind_eq_Inr)
  let ?d1 = "write_unclassified sid (\<lambda>e. e \<in> set st \<or> e \<in> set gd) (\<lambda>_. Blocked_missing) retained db"
  have e1: "registration_effect sid db ?d1"
    by (rule registration_effect_unclassified [OF ok _ v]) simp
  then have ok1: "metadata_ok ?d1" by (simp add: registration_effect_def)
  obtain row where row: "map_of (session_registry_table ?d1) sid = Some row"
    using eq v by (auto simp: verifyPendingRegistrationIn_def Let_def split: option.splits)
  let ?d2 = "?d1\<lparr>session_registry_table :=
    AList.update sid (row\<lparr>registration_state_col := ''verified''\<rparr>) (session_registry_table ?d1)\<rparr>"
  have ok2: "metadata_ok ?d2" by (rule metadata_ok_registry_state [OF ok1 row])
  then have e2: "registration_effect sid ?d1 ?d2" by (simp add: registration_effect_def)
  have "db' = ?d2 \<or> (\<exists>r. reconcileSessionBarrierIn ?d2 sid active f = Inr (r, db'))"
    using eq v row
    by (auto simp: verifyPendingRegistrationIn_def Let_def rbind_eq_Inr split: if_splits)
  then have "registration_effect sid ?d2 db'"
    using registration_effect_reconcile [OF ok2] registration_effect_refl [OF ok2] by blast
  with e1 e2 show ?thesis by (blast intro: registration_effect_trans)
qed

lemma registration_effect_completeReset:
  assumes ok: "metadata_ok db" and eq: "completeHistoryResetIn db sid epoch = Inr db'"
  shows "registration_effect sid db db'"
proof -
  obtain row where row: "map_of (session_history_table db) sid = Some row"
    and db': "db' = db\<lparr>session_history_table :=
      AList.update sid (row\<lparr>reset_pending_col := 0\<rparr>) (session_history_table db)\<rparr>"
    using eq by (auto simp: completeHistoryResetIn_def split: option.splits if_splits)
  have "history_row_ok row"
    using ok map_of_SomeD [OF row] by (force simp: metadata_ok_def)
  then have "history_row_ok (row\<lparr>reset_pending_col := 0\<rparr>)" by (simp add: history_row_ok_def)
  then have "metadata_ok db'"
    using ok set_update_subset [of sid "row\<lparr>reset_pending_col := 0\<rparr>" "session_history_table db"]
    by (auto simp: metadata_ok_def registry_files_def db')
  then show ?thesis by (simp add: registration_effect_def db')
qed

lemma registration_effect_existing:
  assumes ok: "metadata_ok db"
    and eq: "finalize_existing db rows sid f retained active history = Inr (report, db')"
  shows "registration_effect sid db db'"
proof -
  define step1 where "step1 = (\<lambda>state. if state = Pending
               then verifyPendingRegistrationIn db sid f (sessionHasBarrierIn db sid) retained active
               else if snd history then protectForgottenSessionIn db sid retained active
               else rbind (validateSessionCoordinatesRetainedIn db sid retained) (\<lambda>_. Inr db))"
  define step2 where "step2 = (\<lambda>d. if snd history then completeHistoryResetIn d sid (fst history) else Inr d)"
  have "finalize_existing db rows sid f retained active history =
     (case rows of
        [(k, row)] \<Rightarrow>
          rbind (requireNonEmpty k) (\<lambda>rowId.
          rbind (requireNonEmpty (session_file_col row)) (\<lambda>rowFile.
          rbind (sessionRegistrationStateFrom (registration_state_col row)) (\<lambda>state.
            if rowId \<noteq> sid \<or> rowFile \<noteq> f then Inl MetadataError
            else rbind (step1 state) (\<lambda>db1. rbind (step2 db1)
                (\<lambda>db2. Inr (\<lparr>fr_kind = Existing, fr_historyReset = snd history\<rparr>, db2))))))
      | _ \<Rightarrow> Inl MetadataError)"
    by (simp only: finalize_existing_def step1_def step2_def)
  with eq have "(case rows of
        [(k, row)] \<Rightarrow>
          rbind (requireNonEmpty k) (\<lambda>rowId.
          rbind (requireNonEmpty (session_file_col row)) (\<lambda>rowFile.
          rbind (sessionRegistrationStateFrom (registration_state_col row)) (\<lambda>state.
            if rowId \<noteq> sid \<or> rowFile \<noteq> f then Inl MetadataError
            else rbind (step1 state) (\<lambda>db1. rbind (step2 db1)
                (\<lambda>db2. Inr (\<lparr>fr_kind = Existing, fr_historyReset = snd history\<rparr>, db2))))))
      | _ \<Rightarrow> Inl MetadataError) = Inr (report, db')" by (simp only:)
  then obtain state db1 where "step1 state = Inr db1" and "step2 db1 = Inr db'"
    by (auto simp: rbind_eq_Inr split: list.splits if_splits)
  then have
      first: "(if state = Pending
               then verifyPendingRegistrationIn db sid f (sessionHasBarrierIn db sid) retained active
               else if snd history then protectForgottenSessionIn db sid retained active
               else rbind (validateSessionCoordinatesRetainedIn db sid retained) (\<lambda>_. Inr db)) = Inr db1"
    and two: "(if snd history then completeHistoryResetIn db1 sid (fst history) else Inr db1) = Inr db'"
    by (simp_all add: step1_def step2_def)
  have one: "registration_effect sid db db1"
  proof (cases "state = Pending")
    case True
    with first show ?thesis by (auto intro: registration_effect_verifyPending [OF ok])
  next
    case False
    show ?thesis
    proof (cases "snd history")
      case True
      with first False obtain st gd where
          v: "validateSessionCoordinatesRetainedIn db sid retained = Inr (st, gd)"
        and d: "db1 = write_unclassified sid (\<lambda>e. e \<in> set st \<or> e \<in> set gd)
              (leaf_slot (openLeaf active)) retained db"
        by (auto simp: protectForgottenSessionIn_def rbind_eq_Inr)
      show ?thesis unfolding d
        by (rule registration_effect_unclassified [OF ok _ v]) (simp add: leaf_slot_def)
    next
      case nr: False
      with first False have "db1 = db" by (auto simp: rbind_eq_Inr)
      then show ?thesis by (simp add: registration_effect_refl [OF ok])
    qed
  qed
  from one have "metadata_ok db1" by (simp add: registration_effect_def)
  then have "registration_effect sid db1 db'"
    using two registration_effect_completeReset [of db1] registration_effect_refl
    by (auto split: if_splits)
  with one show ?thesis by (rule registration_effect_trans)
qed

lemma metadata_ok_insert_registration:
  assumes "metadata_ok db" and "registry_matches db sid f = []" and "st \<in> {''pending'', ''verified''}"
  shows "metadata_ok (insert_registration db sid f st)"
  using assms
  by (force simp: metadata_ok_def insert_registration_def registry_matches_def registry_files_def
      table_ok_def filter_empty_conv registry_row_ok_def)

lemma metadata_ok_ensure_history: "metadata_ok db \<Longrightarrow> metadata_ok (ensure_session_history db sid)"
  by (auto simp: metadata_ok_def ensure_session_history_def registry_files_def table_ok_def
      history_row_ok_def isSafeInteger_def MAX_SAFE_INTEGER_def map_of_eq_None_iff split: option.splits)

lemma slot_at_registration [simp]:
  "slot_at (insert_registration db sid f st) s e = slot_at db s e"
  "slot_at (ensure_session_history db sid) s e = slot_at db s e"
  by (simp_all add: insert_registration_def ensure_session_history_def split: option.splits)

lemma registration_effect_orphaned:
  assumes "metadata_ok db" and "registry_matches db sid f = []"
    and "finalize_orphaned db sid f retained active = Inr (report, db')"
  shows "registration_effect sid db db'"
proof -
  obtain d where d: "verifyPendingRegistrationIn (insert_registration db sid f ''pending'') sid f
        (sessionHasBarrierIn db sid) retained active = Inr d"
      and db': "db' = ensure_session_history d sid"
    using assms(3) by (auto simp: finalize_orphaned_def rbind_eq_Inr)
  have "metadata_ok (insert_registration db sid f ''pending'')"
    by (rule metadata_ok_insert_registration [OF assms(1,2)]) simp
  from registration_effect_verifyPending [OF this d] show ?thesis
    by (simp add: registration_effect_def db' metadata_ok_ensure_history)
qed

lemma checked_coordinates_Inr:
  assumes "checked_coordinates retained acc cs = Inr slots"
  shows "slots = acc @ cs \<and> (\<forall>(e, s) \<in> set cs. slot_valid s \<and> e \<in> set retained)
    \<and> (distinct (map fst acc) \<longrightarrow> distinct (map fst slots))"
  using assms
proof (induction retained acc cs rule: checked_coordinates.induct)
  case (1 retained slots)
  then show ?case by simp
next
  case (2 retained acc rawId rawSlot rest)
  from "2.prems" obtain slot where
      parts: "requireNonEmpty rawId = Inr rawId" "rawId \<in> set retained" "map_of acc rawId = None"
      "checkedProjectedSlot rawSlot = Inr slot"
      "checked_coordinates retained (acc @ [(rawId, slot)]) rest = Inr slots"
    by (auto simp: rbind_eq_Inr split: if_splits dest: requireNonEmpty_Inr)
  have slot: "slot = rawSlot \<and> slot_valid slot"
    using parts(4) by (cases rawSlot) (auto simp: rbind_eq_Inr requireTreeOid_Inr)
  have fresh: "rawId \<notin> set (map fst acc)" using parts(3) by (simp add: map_of_eq_None_iff)
  have ih: "slots = (acc @ [(rawId, slot)]) @ rest \<and> (\<forall>(e, s) \<in> set rest. slot_valid s \<and> e \<in> set retained)
      \<and> (distinct (map fst (acc @ [(rawId, slot)])) \<longrightarrow> distinct (map fst slots))"
    by (rule "2.IH" [OF parts(1) _ _ parts(4,5)]) (use parts in auto)
  have "distinct (map fst slots)" if "distinct (map fst acc)"
  proof -
    have "distinct (map fst (acc @ [(rawId, slot)]))" using that fresh by simp
    with ih show ?thesis by blast
  qed
  then show ?case using ih slot parts(2) by simp blast
qed

lemma seed_policy_Inr:
  assumes "seed_policy s sid retained active = Inr (projected, leaf, raise)"
  shows "(\<forall>e slot. map_of projected e = Some slot \<longrightarrow> slot_valid slot) \<and>
    (case s of
       Fresh \<Rightarrow> projected = [] \<and> leaf = openLeaf active \<and> \<not> raise
     | Untrusted_parent \<Rightarrow> projected = [] \<and> leaf = None \<and> raise
     | Fork p \<Rightarrow> projected = coordinates p \<and> leaf = None \<and> raise = projection_barrier p
         \<and> sourceSessionId p \<noteq> sid)"
  using assms
  by (cases s) (auto simp: seed_policy_def checkedForkProjection_def rbind_eq_Inr split: if_splits
      dest!: requireNonEmpty_Inr checked_coordinates_Inr dest: map_of_SomeD)

lemma no_orphaned_slot: "\<not> has_orphaned_slot db sid \<Longrightarrow> slot_at db sid e = Open_missing"
  by (cases "map_of (checkpoint_slot_table db) (sid, e)")
    (auto simp: slot_at_def checkpointSlotIn_def has_orphaned_slot_def list_ex_iff
      dest!: map_of_SomeD split: prod.splits)

lemma finalize_new_Inr:
  assumes ok: "metadata_ok db" and fresh: "registry_matches db sid f = []"
    and no: "\<not> has_orphaned_slot db sid" "\<not> sessionHasBarrierIn db sid" and dist: "distinct retained"
    and eq: "finalize_new db s sid f retained active = Inr (report, db')"
  obtains projected leaf raise where "seed_policy s sid retained active = Inr (projected, leaf, raise)"
    "registration_effect sid db db'"
    "\<And>e. slot_at db' sid e = (if e \<in> set retained
       then (case map_of projected e of Some slot \<Rightarrow> slot | None \<Rightarrow> leaf_slot leaf e) else Open_missing)"
    "sessionHasBarrierIn db' sid = raise"
    "map_of (session_registry_table db') sid
       = Some \<lparr>session_file_col = f, registration_state_col = ''verified''\<rparr>"
    "fr_kind report = Registered"
proof -
  obtain projected leaf raise where
      seed: "seed_policy s sid retained active = Inr (projected, leaf, raise)"
    using eq by (auto simp: finalize_new_def rbind_eq_Inr)
  let ?d1 = "ensure_session_history (insert_registration db sid f ''verified'') sid"
  let ?d2 = "write_new_slots sid projected leaf retained ?d1"
  let ?d3 = "if raise then ?d2\<lparr>session_capture_barrier_table :=
      (sid, ()) # session_capture_barrier_table ?d2\<rparr> else ?d2"
  have db': "db' = ?d3" and rep: "fr_kind report = Registered"
    using eq seed by (auto simp: finalize_new_def Let_def)
  have ok1: "metadata_ok ?d1"
    by (intro metadata_ok_ensure_history metadata_ok_insert_registration [OF ok fresh]) simp
  have valid: "slot_valid slot" if "map_of projected e = Some slot" for e slot
    using seed_policy_Inr [OF seed] that by blast
  note spec = write_new_slots_spec [of ?d1 projected retained sid leaf, OF ok1 valid dist]
  have barrier1: "session_capture_barrier_table ?d2 = session_capture_barrier_table db"
    using spec by (simp add: session_frame_def ensure_session_history_def insert_registration_def
        split: option.splits)
  have ok3: "metadata_ok ?d3"
    using spec no(2) barrier1
    by (auto simp: metadata_ok_def registry_files_def table_ok_def sessionHasBarrierIn_def map_of_eq_None_iff)
  have slots: "slot_at ?d3 sid e = (if e \<in> set retained
       then (case map_of projected e of Some slot \<Rightarrow> slot | None \<Rightarrow> leaf_slot leaf e) else Open_missing)" for e
    using spec no_orphaned_slot [OF no(1)] by simp
  show thesis
  proof (rule that [OF seed])
    show "registration_effect sid db db'"
      using ok3 spec no_orphaned_slot [OF no(1)]
      by (auto simp: registration_effect_def db' session_frame_def)
    show "sessionHasBarrierIn db' sid = raise"
      using no(2) barrier1 by (simp add: db' sessionHasBarrierIn_def)
    have "session_registry_table ?d3 = session_registry_table ?d1"
      using spec by (simp add: session_frame_def)
    then show "map_of (session_registry_table db') sid
        = Some \<lparr>session_file_col = f, registration_state_col = ''verified''\<rparr>"
      by (simp add: db' ensure_session_history_def insert_registration_def split: option.splits)
  qed (use slots db' rep in auto)
qed

lemma finalize_Inr:
  assumes "finalizeSessionProjection conn authority input src db = Inr ((report, conn'), db')"
  shows "\<exists>history. sessionHistoryIn db (targetSessionId input) = Inr history
    \<and> conn' = conn\<lparr>historyEpoch := (historyEpoch conn)(targetSessionId input \<mapsto> fst history)\<rparr>
    \<and> finalize_transaction input (targetSessionId input) (targetSessionFile input)
         (retainedEntryIds input) (activeAncestryEntryIds input) src db = Inr ((report, fst history), db')
    \<and> distinct (retainedEntryIds input) \<and> authority"
  using assms
  by (auto simp: finalizeSessionProjection_def activeAncestry_def rbind_eq_Inr writeTransaction_def
      runTransaction_Inr split: if_splits dest!: requireNonEmpty_Inr uniqueEntrySet_Inr)
    (auto simp: finalize_transaction_def Let_def rbind_eq_Inr split: if_splits)

lemma finalize_effect:
  assumes ok: "metadata_ok db"
    and eq: "finalizeSessionProjection conn authority input src db = Inr ((report, conn'), db')"
  shows "registration_effect (targetSessionId input) db db'"
proof -
  let ?sid = "targetSessionId input" and ?f = "targetSessionFile input"
  obtain history :: "int \<times> bool" where
      tr: "finalize_transaction input ?sid ?f (retainedEntryIds input) (activeAncestryEntryIds input) src db
         = Inr ((report, fst history), db')" and dist: "distinct (retainedEntryIds input)"
    using finalize_Inr [OF eq] by blast
  let ?rows = "registry_matches db ?sid ?f"
  consider (existing) history where "finalize_existing db ?rows ?sid ?f (retainedEntryIds input)
        (activeAncestryEntryIds input) history = Inr (report, db')"
    | (orphaned) "?rows = []" "finalize_orphaned db ?sid ?f (retainedEntryIds input)
        (activeAncestryEntryIds input) = Inr (report, db')"
    | (new) "?rows = []" "\<not> has_orphaned_slot db ?sid" "\<not> sessionHasBarrierIn db ?sid"
        "finalize_new db (seed input) ?sid ?f (retainedEntryIds input)
           (activeAncestryEntryIds input) = Inr (report, db')"
    using tr by (auto simp: finalize_transaction_def Let_def rbind_eq_Inr split: if_splits)
  then show ?thesis
  proof cases
    case existing
    then show ?thesis by (rule registration_effect_existing [OF ok])
  next
    case orphaned
    then show ?thesis by (rule registration_effect_orphaned [OF ok])
  next
    case new
    show ?thesis by (rule finalize_new_Inr [OF ok new(1,2,3) dist new(4)])
  qed
qed

end
