(* ===== verification/Metadata_Properties.thy ===== *)
theory Metadata_Properties
  imports Metadata_Machine
begin

text \<open>
  The metadata store as one machine whose steps are its public operations, called by any connection
  in any order, and the properties of checkpoint state that hold of every operation and every run.
\<close>

subsection \<open>The machine\<close>

datatype metadata_op =
    Op_capture commit_capture_input
  | Op_protect protect_location_input
  | Op_admit admit_input
  | Op_adopt session_identity string tree_oid
  | Op_raise session_identity
  | Op_reconcile session_identity "string list"
  | Op_finalize finalize_input

text \<open>A step is a call that commits; a call that throws rolls back and is no step.\<close>

inductive metadata_step :: "metadata_op \<Rightarrow> metadata_db \<Rightarrow> metadata_db \<Rightarrow> bool" where
  step_capture:
    "commitCapture conn authority input db = Inr (r, db') \<Longrightarrow> metadata_step (Op_capture input) db db'"
| step_protect:
    "protectLocation conn authority input db = Inr (pr, db') \<Longrightarrow> metadata_step (Op_protect input) db db'"
| step_admit:
    "admitResolvedLocation conn authority input db = Inr (ar, db') \<Longrightarrow> metadata_step (Op_admit input) db db'"
| step_adopt:
    "adoptBlockedMissing conn authority i e t db = Inr (dr, db') \<Longrightarrow> metadata_step (Op_adopt i e t) db db'"
| step_raise:
    "raiseSessionBarrier conn authority i db = Inr (b, db') \<Longrightarrow> metadata_step (Op_raise i) db db'"
| step_reconcile:
    "reconcileSessionBarrier conn authority i es db = Inr (rr, db') \<Longrightarrow>
       metadata_step (Op_reconcile i es) db db'"
| step_finalize:
    "finalizeSessionProjection conn authority input src db = Inr (fr, db') \<Longrightarrow>
       metadata_step (Op_finalize input) db db'"

inductive_cases metadata_captureE: "metadata_step (Op_capture input) db db'"
inductive_cases metadata_protectE: "metadata_step (Op_protect input) db db'"
inductive_cases metadata_admitE: "metadata_step (Op_admit input) db db'"
inductive_cases metadata_adoptE: "metadata_step (Op_adopt i e t) db db'"
inductive_cases metadata_raiseE: "metadata_step (Op_raise i) db db'"
inductive_cases metadata_reconcileE: "metadata_step (Op_reconcile i es) db db'"
inductive_cases metadata_finalizeE: "metadata_step (Op_finalize input) db db'"

inductive metadata_run :: "metadata_op list \<Rightarrow> metadata_db \<Rightarrow> metadata_db \<Rightarrow> bool" where
  run_Nil: "metadata_run [] db db"
| run_Cons: "metadata_step op db db1 \<Longrightarrow> metadata_run ops db1 db' \<Longrightarrow> metadata_run (op # ops) db db'"

inductive_simps metadata_run_Cons [simp]: "metadata_run (op # ops) db db'"
inductive_simps metadata_run_Nil [simp]: "metadata_run [] db db'"

text \<open>The database that the V5 schema creates.\<close>

definition fresh_metadata :: metadata_db where
  "fresh_metadata = \<lparr>user_version = CURRENT_METADATA_VERSION, checkpoint_slot_table = [],
     session_registry_table = [], session_capture_barrier_table = [], session_history_table = []\<rparr>"

lemma fresh_metadata_ok [simp]: "metadata_ok fresh_metadata"
  by (simp add: fresh_metadata_def metadata_ok_def registry_files_def)

subsection \<open>Every operation keeps the store well formed\<close>

lemma capture_ok:
  assumes "metadata_ok db" and "commitCapture conn authority input db = Inr (r, db')"
  shows "metadata_ok db'"
  using assms(1,2)
proof (cases rule: commitCapture_cases)
  case reconciled
  from reconcileIn_cases [OF assms(1) reconciled(3)] show ?thesis by (metis assms(1))
qed (use assms(1) in \<open>auto intro: write_metadata_ok\<close>)

lemma protect_ok:
  assumes "metadata_ok db" and "protectLocation conn authority input db = Inr (r, db')"
  shows "metadata_ok db'"
  using protectLocation_Inr [OF assms] assms(1) by (auto intro: write_metadata_ok)

lemma admit_ok:
  assumes "metadata_ok db" and "admitResolvedLocation conn authority input db = Inr (r, db')"
  shows "metadata_ok db'"
  using admitResolvedLocation_Inr [OF assms] assms(1) by (auto intro: write_metadata_ok)

lemma adopt_ok:
  assumes "metadata_ok db" and "adoptBlockedMissing conn authority i e t db = Inr (r, db')"
  shows "metadata_ok db'"
  using adoptBlockedMissing_Inr [OF assms] assms(1) by (auto intro: write_metadata_ok)

lemma raise_ok:
  assumes "metadata_ok db" and "raiseSessionBarrier conn authority i db = Inr (r, db')"
  shows "metadata_ok db'"
  using raiseSessionBarrier_Inr [OF assms(2)] assms(1)
  by (auto simp: metadata_ok_def registry_files_def table_ok_def sessionHasBarrierIn_def map_of_eq_None_iff)

lemma reconcile_ok:
  assumes "metadata_ok db" and "reconcileSessionBarrier conn authority i es db = Inr (r, db')"
  shows "metadata_ok db'"
proof -
  have "reconcileSessionBarrierIn db (sessionId i) es (sessionFile i) = Inr (r, db')"
    using reconcileSessionBarrier_Inr [OF assms(2)] by blast
  from reconcileIn_cases [OF assms(1) this] show ?thesis by (metis assms(1))
qed

lemma finalize_ok:
  assumes "metadata_ok db" and "finalizeSessionProjection conn authority input src db = Inr (r, db')"
  shows "metadata_ok db'"
  using finalize_effect [OF assms(1), of conn authority input src "fst r" "snd r" db'] assms(2)
  by (simp add: registration_effect_def)

lemma step_ok: "metadata_step op db db' \<Longrightarrow> metadata_ok db \<Longrightarrow> metadata_ok db'"
  by (induction rule: metadata_step.induct)
    (blast intro: capture_ok protect_ok admit_ok adopt_ok raise_ok reconcile_ok finalize_ok)+

lemma run_ok: "metadata_run ops db db' \<Longrightarrow> metadata_ok db \<Longrightarrow> metadata_ok db'"
  by (induction rule: metadata_run.induct) (auto intro: step_ok)

subsection \<open>What a step may do to one coordinate\<close>

text \<open>The two operations that may reopen a closed coordinate.\<close>

fun reopens :: "metadata_op \<Rightarrow> string \<Rightarrow> string \<Rightarrow> bool" where
  "reopens (Op_admit input) sid e = (sessionId (al_identity input) = sid \<and> al_entryId input = e)"
| "reopens (Op_adopt i e' t) sid e = (sessionId i = sid \<and> e' = e)"
| "reopens _ sid e = False"

lemma reconcileIn_keeps_blocked:
  assumes "metadata_ok db" and "reconcileSessionBarrierIn db sid' es f = Inr (r, db')"
    and "checkpointSlotIsBlocked (slot_at db sid e)"
  shows "slot_at db' sid e = slot_at db sid e"
  using assms(1,2)
proof (cases rule: reconcileIn_cases)
  case reconciled
  then show ?thesis using assms(3) by (cases "sid = sid'") (simp_all add: reconciled_keeps_blocked)
qed simp

lemma step_keeps_blocked:
  assumes "metadata_step op db db'" and ok: "metadata_ok db"
    and blocked: "checkpointSlotIsBlocked (slot_at db sid e)" and "\<not> reopens op sid e"
  shows "slot_at db' sid e = slot_at db sid e"
  using assms(1)
proof cases
  case (step_capture conn authority input r)
  from ok step_capture(2) show ?thesis
    by (cases rule: commitCapture_cases)
      (use blocked ok in \<open>auto simp: slot_at_write intro: reconcileIn_keeps_blocked\<close>)
next
  case (step_protect conn authority input pr)
  from protectLocation_Inr [OF ok step_protect(2)] show ?thesis
    using blocked by (auto simp: slot_at_write block_idem)
next
  case (step_admit conn authority input ar)
  from admitResolvedLocation_Inr [OF ok step_admit(2)] show ?thesis
    using assms(4) step_admit(1) by (auto simp: slot_at_write)
next
  case (step_adopt conn authority i e' t dr)
  from adoptBlockedMissing_Inr [OF ok step_adopt(2)] show ?thesis
    using assms(4) step_adopt(1) by (auto simp: slot_at_write)
next
  case (step_raise conn authority i b)
  from raiseSessionBarrier_Inr [OF step_raise(2)] show ?thesis by simp
next
  case (step_reconcile conn authority i es rr)
  with blocked ok show ?thesis
    using reconcileSessionBarrier_Inr [OF step_reconcile(2)] reconcileIn_keeps_blocked by blast
next
  case (step_finalize conn authority input src fr)
  then have "registration_effect (targetSessionId input) db db'"
    using finalize_effect [OF ok, of conn authority input src "fst fr" "snd fr" db'] by simp
  then show ?thesis
    using blocked by (cases "sid = targetSessionId input") (auto simp: registration_effect_def)
qed

subsection \<open>Sample store\<close>

text \<open>A store with one verified session of two entries, the second of them pinned.\<close>

definition tree_a :: tree_oid where "tree_a = replicate 64 CHR ''a''"
definition tree_b :: tree_oid where "tree_b = replicate 64 CHR ''b''"

definition sample_identity :: session_identity where
  "sample_identity = \<lparr>sessionId = ''s'', sessionFile = ''f''\<rparr>"

definition sample_connection :: metadata_connection where
  "sample_connection = \<lparr>phase = Current, closed = False, historyEpoch = [''s'' \<mapsto> 0]\<rparr>"

definition sample_db :: metadata_db where
  "sample_db = \<lparr>user_version = CURRENT_METADATA_VERSION,
     checkpoint_slot_table =
       [((''s'', ''root''), slot_row_of (Open_checkpoint tree_a)),
        ((''s'', ''pinned''), slot_row_of (Blocked_checkpoint tree_a))],
     session_registry_table = [(''s'', \<lparr>session_file_col = ''f'', registration_state_col = ''verified''\<rparr>)],
     session_capture_barrier_table = [],
     session_history_table = [(''s'', \<lparr>history_epoch_col = 0, reset_pending_col = 0\<rparr>)]\<rparr>"

definition sample_barrier_db :: metadata_db where
  "sample_barrier_db = sample_db\<lparr>session_capture_barrier_table := [(''s'', ())]\<rparr>"

definition sample_capture :: commit_capture_input where
  "sample_capture = \<lparr>cc_identity = sample_identity, cc_entryId = ''leaf'',
     cc_activeAncestryEntryIds = [''root'', ''leaf''], cc_treeOid = tree_b, cc_expectedSlot = Open_missing\<rparr>"

definition sample_protect :: protect_location_input where
  "sample_protect = \<lparr>pl_identity = sample_identity, pl_entryId = ''leaf'',
     pl_activeAncestryEntryIds = [''root'', ''leaf''], pl_expectation = Any_current\<rparr>"

definition sample_admit :: admit_input where
  "sample_admit = \<lparr>al_identity = sample_identity, al_entryId = ''pinned'',
     al_activeAncestryEntryIds = [''root'', ''pinned''], al_expectedResolution = (''pinned'', tree_a)\<rparr>"

lemmas sample_defs = sample_db_def sample_barrier_db_def sample_connection_def sample_identity_def
  sample_capture_def sample_protect_def sample_admit_def CURRENT_METADATA_VERSION_def

lemma sample_tree_oid [simp]: "isTreeOid tree_a" "isTreeOid tree_b"
  by (simp_all add: tree_a_def tree_b_def isTreeOid_def is_sha256_hex_def hex_digits_def list_all_iff)

lemma sample_db_ok [simp]: "metadata_ok sample_db" "metadata_ok sample_barrier_db"
  by (simp_all add: sample_defs metadata_ok_def table_ok_def registry_files_def slot_row_ok_def
      slot_row_of_def registry_row_ok_def history_row_ok_def isSafeInteger_def MAX_SAFE_INTEGER_def)

lemma run_keeps_blocked:
  assumes "metadata_run ops db db'" and "metadata_ok db"
    and "checkpointSlotIsBlocked (slot_at db sid e)" and "\<forall>op \<in> set ops. \<not> reopens op sid e"
  shows "slot_at db' sid e = slot_at db sid e"
  using assms
proof (induction rule: metadata_run.induct)
  case (run_Nil db)
  then show ?case by simp
next
  case (run_Cons op db db1 ops db')
  then have "slot_at db1 sid e = slot_at db sid e" by (auto intro: step_keeps_blocked)
  moreover have "metadata_ok db1" using run_Cons.hyps(1) run_Cons.prems(1) by (rule step_ok)
  ultimately show ?case using run_Cons.IH run_Cons.prems by auto
qed

lemma resolution_after_write:
  assumes "slot_valid slot" and "path \<noteq> []" and "eid \<notin> set path"
  shows "effective_resolution (slot_at (writeCheckpointSlotIn db sid eid slot) sid) path
    = effective_resolution (slot_at db sid) path"
  by (rule effective_resolution_cong) (use assms in \<open>auto simp: slot_at_write\<close>)

subsection \<open>Properties\<close>

text \<open>Checkpoint inheritance: reducing a root-to-target path returns exactly when the path is
  non-empty and every slot on it can be read; the result is then the nearest checkpoint at or above
  the target, unless the target is closed without a tree, and the target's own slot.\<close>

theorem reduce_checkpoint_lineage_law:
  "reduceCheckpointLineage path (slotOf :: 'c \<Rightarrow> checkpoint_slot result) = Inr r \<longleftrightarrow>
     path \<noteq> [] \<and> (\<exists>s. map slotOf path = map (\<lambda>c. Inr (s c)) path \<and>
       r = \<lparr>resolution_of = effective_resolution s path, targetSlot = s (last path)\<rparr>)"
proof -
  have readable: "\<exists>s. map slotOf cs = map (\<lambda>c. Inr (s c)) cs"
    if "lineage_loop slotOf cs res target = Inr out" for cs res target out
    using that
  proof (induction cs arbitrary: res target)
    case Nil
    then show ?case by simp
  next
    case (Cons c cs)
    then obtain slot s where "slotOf c = Inr slot" "map slotOf cs = map (\<lambda>c. Inr (s c)) cs"
      by (fastforce simp: rbind_eq_Inr)
    then show ?case by (intro exI [of _ "s(c := slot)"]) (auto simp: map_eq_conv)
  qed
  have total: "reduceCheckpointLineage path slotOf =
      Inr \<lparr>resolution_of = effective_resolution s path, targetSlot = s (last path)\<rparr>"
    if "map slotOf path = map (\<lambda>c. Inr (s c)) path" "path \<noteq> []" for s
  proof -
    have "lineage_loop slotOf cs res target = lineage_loop (\<lambda>c. Inr (s c)) cs res target"
      if "map slotOf cs = map (\<lambda>c. Inr (s c)) cs" for cs res target
      using that by (induction cs arbitrary: res target) auto
    then have "reduceCheckpointLineage path slotOf = reduceCheckpointLineage path (\<lambda>c. Inr (s c))"
      using that(1) by (simp add: reduceCheckpointLineage_def)
    then show ?thesis using that(2) by (simp add: reduce_lineage_total)
  qed
  show ?thesis
  proof (cases "path = []")
    case True
    then show ?thesis by (simp add: reduceCheckpointLineage_def)
  next
    case False
    show ?thesis
    proof
      assume ret: "reduceCheckpointLineage path slotOf = Inr r"
      then have "\<exists>out. lineage_loop slotOf path Missing None = Inr out"
        using False by (auto simp: reduceCheckpointLineage_def rbind_eq_Inr)
      with readable obtain s where "map slotOf path = map (\<lambda>c. Inr (s c)) path" by blast
      with ret False total show "path \<noteq> [] \<and> (\<exists>s. map slotOf path = map (\<lambda>c. Inr (s c)) path \<and>
          r = \<lparr>resolution_of = effective_resolution s path, targetSlot = s (last path)\<rparr>)"
        by (metis sum.inject(2))
    next
      assume "path \<noteq> [] \<and> (\<exists>s. map slotOf path = map (\<lambda>c. Inr (s c)) path \<and>
          r = \<lparr>resolution_of = effective_resolution s path, targetSlot = s (last path)\<rparr>)"
      with total show "reduceCheckpointLineage path slotOf = Inr r" by blast
    qed
  qed
qed

text \<open>Capture: a committed capture found the coordinate open, equal to the slot its caller
  expected and outside any session barrier; it changes this coordinate, to the captured tree, and
  nothing else of the store.\<close>

theorem capture_commits_one_open_slot:
  assumes "metadata_ok db" and "commitCapture conn authority input db = Inr (Committed, db')"
  shows "\<not> checkpointSlotIsBlocked (slot_at db (sessionId (cc_identity input)) (cc_entryId input))
    \<and> slot_at db (sessionId (cc_identity input)) (cc_entryId input) = cc_expectedSlot input
    \<and> \<not> sessionHasBarrierIn db (sessionId (cc_identity input))
    \<and> slot_at db' = (\<lambda>s e. if s = sessionId (cc_identity input) \<and> e = cc_entryId input
         then Open_checkpoint (cc_treeOid input) else slot_at db s e)
    \<and> session_registry_table db' = session_registry_table db
    \<and> session_capture_barrier_table db' = session_capture_barrier_table db
    \<and> session_history_table db' = session_history_table db"
  using assms
  by (cases rule: commitCapture_cases) (auto simp: slot_at_write fun_eq_iff)

theorem capture_commits_one_open_slot_witness:
  "slot_at (committed_db sample_db (commitCapture sample_connection True sample_capture sample_db))
     ''s'' ''leaf'' = Open_checkpoint tree_b"
proof -
  have eq: "commitCapture sample_connection True sample_capture sample_db =
      Inr (Committed, writeCheckpointSlotIn sample_db ''s'' ''leaf'' (Open_checkpoint tree_b))"
    by code_simp
  from capture_commits_one_open_slot [OF sample_db_ok(1) eq] show ?thesis
    by (simp add: eq) (simp add: sample_defs)
qed

text \<open>C1. Forward protection: protecting a location closes it with the tree it resolves to at that
  moment, keeps every other coordinate, and so keeps what the location and every other path resolve
  to; the barrier and the registry are untouched.\<close>

theorem protect_pins_the_resolution:
  assumes "metadata_ok db" and "protectLocation conn authority input db = Inr (r, db')"
  shows "checkpointSlotIsBlocked (slot_at db' (sessionId (pl_identity input)) (pl_entryId input))
    \<and> slot_at db' (sessionId (pl_identity input)) (pl_entryId input) = protectedSlot r
    \<and> resolution_tree (effective_resolution (slot_at db' (sessionId (pl_identity input)))
          (pl_activeAncestryEntryIds input))
        = resolution_tree (effective_resolution (slot_at db (sessionId (pl_identity input)))
          (pl_activeAncestryEntryIds input))
    \<and> (s \<noteq> sessionId (pl_identity input) \<or> e \<noteq> pl_entryId input \<longrightarrow> slot_at db' s e = slot_at db s e)
    \<and> session_capture_barrier_table db' = session_capture_barrier_table db
    \<and> session_registry_table db' = session_registry_table db"
proof -
  let ?sid = "sessionId (pl_identity input)" and ?eid = "pl_entryId input"
  let ?es = "pl_activeAncestryEntryIds input"
  let ?pin = "blockCheckpointSlot (slot_at db ?sid ?eid)
     (resolution_tree (effective_resolution (slot_at db ?sid) ?es))"
  note spec = protectLocation_Inr [OF assms]
  have slots: "slot_at db' = (\<lambda>s e. if s = ?sid \<and> e = ?eid then ?pin else slot_at db s e)"
    using spec by (auto simp: slot_at_write fun_eq_iff)
  obtain xs where es: "?es = xs @ [?eid]" and dist: "distinct (xs @ [?eid])"
    using spec by (metis append_butlast_last_id)
  have other: "nearest_checkpoint (slot_at db' ?sid) (rev xs) = nearest_checkpoint (slot_at db ?sid) (rev xs)"
    by (rule nearest_checkpoint_cong) (use dist in \<open>auto simp: slots\<close>)
  have "resolution_tree (effective_resolution (slot_at db' ?sid) ?es)
      = resolution_tree (effective_resolution (slot_at db ?sid) ?es)"
  proof (cases "slot_at db ?sid ?eid")
    case Open_missing
    then show ?thesis
      by (cases "nearest_checkpoint (slot_at db ?sid) (rev xs)")
        (use other in \<open>auto simp: es slots effective_resolution_def\<close>)
  qed (use other in \<open>auto simp: es slots effective_resolution_def\<close>)
  with spec slots show ?thesis by auto
qed

theorem protect_pins_the_resolution_witness:
  "slot_at (committed_db sample_db (protectLocation sample_connection True sample_protect sample_db))
     ''s'' ''leaf'' = Blocked_checkpoint tree_a"
proof -
  have eq: "protectLocation sample_connection True sample_protect sample_db =
      Inr (\<lparr>pl_kind = Protected, protectedSlot = Blocked_checkpoint tree_a\<rparr>,
           writeCheckpointSlotIn sample_db ''s'' ''leaf'' (Blocked_checkpoint tree_a))"
    by code_simp
  from protect_pins_the_resolution [OF sample_db_ok(1) eq] show ?thesis
    by (simp add: eq) (simp add: sample_defs)
qed

text \<open>C2. A closed coordinate is durable: over any run of the store, by any connections, that
  neither admits nor adopts at this very coordinate, the slot stays exactly what it was.\<close>

theorem closed_slot_survives_every_run:
  assumes "metadata_ok db" and "metadata_run ops db db'"
    and "checkpointSlotIsBlocked (slot_at db sid e)" and "\<forall>op \<in> set ops. \<not> reopens op sid e"
  shows "slot_at db' sid e = slot_at db sid e"
  using run_keeps_blocked [OF assms(2,1,3,4)] .

theorem closed_slot_survives_every_run_witness:
  "slot_at (writeCheckpointSlotIn sample_db ''s'' ''leaf'' (Open_checkpoint tree_b)) ''s'' ''pinned''
     = Blocked_checkpoint tree_a"
proof -
  have "commitCapture sample_connection True sample_capture sample_db =
      Inr (Committed, writeCheckpointSlotIn sample_db ''s'' ''leaf'' (Open_checkpoint tree_b))"
    by code_simp
  then have "metadata_run [Op_capture sample_capture] sample_db
      (writeCheckpointSlotIn sample_db ''s'' ''leaf'' (Open_checkpoint tree_b))"
    by (auto intro: step_capture)
  moreover have pinned: "slot_at sample_db ''s'' ''pinned'' = Blocked_checkpoint tree_a" by code_simp
  ultimately show ?thesis
    using closed_slot_survives_every_run [OF sample_db_ok(1), of "[Op_capture sample_capture]" _ "''s''" "''pinned''"]
    by simp
qed

text \<open>Admission: an admitted location resolved to exactly the expected checkpoint under no
  barrier, and still does; at most its own coordinate changes, and only from a pin of the expected
  tree to the same tree left open.\<close>

theorem admit_reopens_only_the_expected_pin:
  assumes "metadata_ok db" and "admitResolvedLocation conn authority input db = Inr (Admitted, db')"
  shows "\<not> sessionHasBarrierIn db (sessionId (al_identity input))
    \<and> effective_resolution (slot_at db' (sessionId (al_identity input))) (al_activeAncestryEntryIds input)
        = Checkpoint (fst (al_expectedResolution input)) (snd (al_expectedResolution input))
    \<and> effective_resolution (slot_at db (sessionId (al_identity input))) (al_activeAncestryEntryIds input)
        = Checkpoint (fst (al_expectedResolution input)) (snd (al_expectedResolution input))
    \<and> \<not> checkpointSlotIsBlocked (slot_at db' (sessionId (al_identity input)) (al_entryId input))
    \<and> (slot_at db' s e = slot_at db s e
       \<or> s = sessionId (al_identity input) \<and> e = al_entryId input
         \<and> slot_at db s e = Blocked_checkpoint (snd (al_expectedResolution input))
         \<and> slot_at db' s e = Open_checkpoint (snd (al_expectedResolution input)))"
proof -
  let ?sid = "sessionId (al_identity input)" and ?eid = "al_entryId input"
  let ?es = "al_activeAncestryEntryIds input" and ?t = "snd (al_expectedResolution input)"
  note spec = admitResolvedLocation_Inr [OF assms]
  show ?thesis
  proof (cases "checkpointSlotIsBlocked (slot_at db ?sid ?eid)")
    case False
    with spec show ?thesis by auto
  next
    case True
    with spec have pin: "slot_at db ?sid ?eid = Blocked_checkpoint ?t" and "isTreeOid ?t"
      and db': "db' = writeCheckpointSlotIn db ?sid ?eid (Open_checkpoint ?t)" by auto
    then have slots: "slot_at db' = (\<lambda>s e. if s = ?sid \<and> e = ?eid then Open_checkpoint ?t else slot_at db s e)"
      by (auto simp: slot_at_write fun_eq_iff)
    obtain xs where es: "?es = xs @ [?eid]" using spec by (metis append_butlast_last_id admit_result.distinct(1))
    have "effective_resolution (slot_at db ?sid) ?es = Checkpoint ?eid ?t"
      unfolding es by (rule effective_resolution_own) (simp add: pin)
    moreover have "effective_resolution (slot_at db' ?sid) ?es = Checkpoint ?eid ?t"
      unfolding es by (rule effective_resolution_own) (simp add: slots)
    moreover have "\<not> sessionHasBarrierIn db ?sid"
        "effective_resolution (slot_at db ?sid) ?es = Checkpoint (fst (al_expectedResolution input)) ?t"
      using spec by auto
    ultimately show ?thesis using pin unfolding slots by auto
  qed
qed

theorem admit_reopens_only_the_expected_pin_witness:
  "\<not> checkpointSlotIsBlocked
     (slot_at (committed_db sample_db (admitResolvedLocation sample_connection True sample_admit sample_db))
       ''s'' ''pinned'')"
proof -
  have eq: "admitResolvedLocation sample_connection True sample_admit sample_db =
      Inr (Admitted, writeCheckpointSlotIn sample_db ''s'' ''pinned'' (Open_checkpoint tree_a))"
    by code_simp
  from admit_reopens_only_the_expected_pin [OF sample_db_ok(1) eq] show ?thesis
    by (simp add: eq) (simp add: sample_defs)
qed



text \<open>C4. The history gate: a connection whose attached generation of a session is not the stored
  one, or that meets a pending reset, a lost authority or a closed or outdated store, gets an
  exception from every session-scoped write, whatever its input.\<close>

theorem history_gate_refuses_every_session_write:
  assumes "sessionHistoryIn db (sessionId i) = Inr (epoch, pending)"
    and "historyEpoch conn (sessionId i) \<noteq> Some epoch \<or> pending \<or> \<not> authority \<or> closed conn
      \<or> phase conn \<noteq> Current \<or> user_version db \<noteq> CURRENT_METADATA_VERSION"
  shows "isl (commitCapture conn authority (ci\<lparr>cc_identity := i\<rparr>) db)
    \<and> isl (protectLocation conn authority (pi\<lparr>pl_identity := i\<rparr>) db)
    \<and> isl (admitResolvedLocation conn authority (ai\<lparr>al_identity := i\<rparr>) db)
    \<and> isl (adoptBlockedMissing conn authority i e t db)
    \<and> isl (raiseSessionBarrier conn authority i db)
    \<and> isl (reconcileSessionBarrier conn authority i es db)"
proof -
  have gate: "isl (sessionWriteTransaction conn authority (sessionId i) db operation)"
    for operation :: "metadata_db \<Rightarrow> 'r result"
    using assms
    by (auto simp: sessionWriteTransaction_def writeTransaction_def runTransaction_def
        requireSessionHistoryReady_def split: option.splits)
  have bind: "isl (rbind m f)" if "\<And>x. m = Inr x \<Longrightarrow> isl (f x)"
    for m :: "'x result" and f :: "'x \<Rightarrow> 'y result"
    using that by (cases m) auto
  have "isl (commitCapture conn authority (ci\<lparr>cc_identity := i\<rparr>) db)"
    unfolding commitCapture_def
    by (auto intro!: bind simp: gate dest!: requireNonEmpty_Inr)
  moreover have "isl (protectLocation conn authority (pi\<lparr>pl_identity := i\<rparr>) db)"
    unfolding protectLocation_def
    by (auto intro!: bind simp: gate dest!: requireNonEmpty_Inr)
  moreover have "isl (admitResolvedLocation conn authority (ai\<lparr>al_identity := i\<rparr>) db)"
    unfolding admitResolvedLocation_def
    by (auto intro!: bind simp: gate dest!: requireNonEmpty_Inr)
  moreover have "isl (adoptBlockedMissing conn authority i e t db)"
    unfolding adoptBlockedMissing_def
    by (auto intro!: bind simp: gate dest!: requireNonEmpty_Inr)
  moreover have "isl (raiseSessionBarrier conn authority i db)"
    unfolding raiseSessionBarrier_def
    by (auto intro!: bind simp: gate dest!: requireNonEmpty_Inr)
  moreover have "isl (reconcileSessionBarrier conn authority i es db)"
    unfolding reconcileSessionBarrier_def
    by (auto intro!: bind simp: gate dest!: requireNonEmpty_Inr)
  ultimately show ?thesis by blast
qed

theorem history_gate_refuses_every_session_write_witness:
  "isl (raiseSessionBarrier (sample_connection\<lparr>historyEpoch := [''s'' \<mapsto> 3]\<rparr>) True sample_identity sample_db)"
proof -
  have "sessionHistoryIn sample_db (sessionId sample_identity) = Inr (0, False)" by code_simp
  then show ?thesis
    using history_gate_refuses_every_session_write [of sample_db sample_identity 0 False
        "sample_connection\<lparr>historyEpoch := [''s'' \<mapsto> 3]\<rparr>"]
    by (simp add: sample_identity_def)
qed

text \<open>C5. Well-formedness: from the database the schema creates, every database that any sequence of
  operations commits has unique keys, one session per file and only rows that the readers accept, so
  that every slot read succeeds with a valid tree.\<close>

theorem reachable_stores_are_well_formed:
  assumes "metadata_run ops fresh_metadata db"
  shows "metadata_ok db \<and> checkpointSlotIn db sid e = Inr (slot_at db sid e) \<and> slot_valid (slot_at db sid e)"
  using run_ok [OF assms fresh_metadata_ok] slot_read by blast

definition sample_registration :: finalize_input where
  "sample_registration = \<lparr>targetSessionId = ''s'', targetSessionFile = ''f'',
     retainedEntryIds = [''root'', ''leaf''], activeAncestryEntryIds = [''root'', ''leaf''], seed = Fresh\<rparr>"

theorem reachable_stores_are_well_formed_witness:
  "\<exists>db. slot_at db ''s'' ''root'' = Blocked_missing \<and> checkpointSlotIn db ''s'' ''root'' = Inr Blocked_missing"
proof -
  let ?out = "finalizeSessionProjection sample_connection True sample_registration None fresh_metadata"
  have "\<not> isl ?out" by code_simp
  then obtain fr db where out: "?out = Inr (fr, db)" by (cases ?out) auto
  then have db: "committed_db fresh_metadata ?out = db" by simp
  have "slot_at (committed_db fresh_metadata ?out) ''s'' ''root'' = Blocked_missing" by code_simp
  then have root: "slot_at db ''s'' ''root'' = Blocked_missing" unfolding db .
  have "metadata_run [Op_finalize sample_registration] fresh_metadata db"
    using out by (auto intro: step_finalize)
  from reachable_stores_are_well_formed [OF this, of "''s''" "''root''"] root show ?thesis by auto
qed

subsection \<open>Forks\<close>

lemma exportForkProjection_Some:
  assumes ok: "metadata_ok src" and eq: "exportForkProjection conn parent retained src = Inr (Some p)"
  shows "coordinates p = map (\<lambda>e. (e, slot_at src (sourceSessionId p) e)) retained
    \<and> projection_barrier p = sessionHasBarrierIn src (sourceSessionId p) \<and> distinct retained
    \<and> (\<exists>row. (sourceSessionId p, row) \<in> set (session_registry_table src) \<and> session_file_col row = parent)"
proof -
  have inner: "exportForkProjectionIn src parent retained = Inr (Some p)" and dist: "distinct retained"
    using eq by (auto simp: exportForkProjection_def rbind_eq_Inr runTransaction_Inr
        dest!: requireNonEmpty_Inr uniqueEntrySet_Inr)
  have rows: "rmap (\<lambda>e. rbind (checkpointSlotIn src sid e) (\<lambda>slot. Inr (e, slot))) retained
      = Inr (map (\<lambda>e. (e, slot_at src sid e)) retained)" for sid
    by (rule rmap_Inr) (simp add: slot_readI [OF ok])
  let ?found = "filter (\<lambda>(k, row). session_file_col row = parent) (session_registry_table src)"
  from inner obtain sid row rest where found: "?found = (sid, row) # rest"
    and p: "sourceSessionId p = sid" "coordinates p = map (\<lambda>e. (e, slot_at src sid e)) retained"
      "projection_barrier p = sessionHasBarrierIn src sid"
    by (auto simp: exportForkProjectionIn_def rbind_eq_Inr rows split: list.splits if_splits
        dest!: requireNonEmpty_Inr)
  have "(sid, row) \<in> set ?found" by (simp add: found)
  with p dist show ?thesis by auto
qed

lemma map_of_graph: "map_of (map (\<lambda>e. (e, g e)) es) x = (if x \<in> set es then Some (g x) else None)"
  by (induction es) auto

text \<open>A registration of a session the store does not know takes the branch for a new session.\<close>

lemma finalize_unknown_session:
  assumes "finalizeSessionProjection conn authority input src db = Inr ((report, conn'), db')"
    and "registry_matches db (targetSessionId input) (targetSessionFile input) = []"
    and "\<not> has_orphaned_slot db (targetSessionId input)"
    and "\<not> sessionHasBarrierIn db (targetSessionId input)"
  shows "finalize_new db (seed input) (targetSessionId input) (targetSessionFile input)
      (retainedEntryIds input) (activeAncestryEntryIds input) = Inr (report, db')
    \<and> distinct (retainedEntryIds input)"
proof -
  obtain history :: "int \<times> bool" where
      "finalize_transaction input (targetSessionId input) (targetSessionFile input)
         (retainedEntryIds input) (activeAncestryEntryIds input) src db = Inr ((report, fst history), db')"
      "distinct (retainedEntryIds input)"
    using finalize_Inr [OF assms(1)] by blast
  with assms(2-4) show ?thesis
    by (auto simp: finalize_transaction_def Let_def rbind_eq_Inr split: if_splits)
qed

definition sample_fork :: finalize_input where
  "sample_fork = \<lparr>targetSessionId = ''c'', targetSessionFile = ''g'',
     retainedEntryIds = [''root'', ''pinned''], activeAncestryEntryIds = [''root'', ''pinned''],
     seed = Fork \<lparr>sourceSessionId = ''s'', projection_barrier = False,
       coordinates = [(''root'', Open_checkpoint tree_a), (''pinned'', Blocked_checkpoint tree_a)]\<rparr>\<rparr>"



subsection \<open>Garbage-collection roots\<close>

lemma slot_tree_in_roots:
  assumes "metadata_ok db"
  shows "t \<in> set (slot_tree_oids db) \<longleftrightarrow> (\<exists>sid e. checkpointSlotTreeOid (slot_at db sid e) = Some t)"
proof
  assume "t \<in> set (slot_tree_oids db)"
  then obtain sid e row where row: "((sid, e), row) \<in> set (checkpoint_slot_table db)"
      and t: "tree_oid_col row = Some t"
    by (auto simp: slot_tree_oids_def split: option.splits)
  have key: "map_of (checkpoint_slot_table db) (sid, e) = Some row"
    using row table_row_iff [of "checkpoint_slot_table db"] assms by (simp add: metadata_ok_def)
  then have "slot_row_ok row" by (rule metadata_ok_row [OF assms])
  with key t have "checkpointSlotTreeOid (slot_at db sid e) = Some t"
    using slot_row_ok_read [of row]
    by (auto simp: slot_at_def checkpointSlotIn_def simp del: checkpointSlotFromRow.simps)
  then show "\<exists>sid e. checkpointSlotTreeOid (slot_at db sid e) = Some t" by blast
next
  assume "\<exists>sid e. checkpointSlotTreeOid (slot_at db sid e) = Some t"
  then obtain sid e where t: "checkpointSlotTreeOid (slot_at db sid e) = Some t" by blast
  show "t \<in> set (slot_tree_oids db)"
  proof (cases "map_of (checkpoint_slot_table db) (sid, e)")
    case None
    with t show ?thesis by (simp add: slot_at_def checkpointSlotIn_def)
  next
    case (Some row)
    have "slot_row_ok row" by (rule metadata_ok_row [OF assms Some])
    then have "tree_oid_col row = Some t"
      using slot_row_ok_read [of row] Some t by (auto simp: slot_at_def checkpointSlotIn_def)
    with Some show ?thesis by (force simp: slot_tree_oids_def dest: map_of_SomeD)
  qed
qed

text \<open>Collection roots: the list of referenced trees is sorted without repetition, contains the
  tree of every resolution of every path of every session, and no tree that no slot carries.\<close>

theorem referenced_trees_are_the_roots:
  assumes "metadata_ok db" and "listReferencedTreeOids conn None db = Inr roots"
  shows "sorted roots \<and> distinct roots
    \<and> (path \<noteq> [] \<and> effective_resolution (slot_at db sid) path = Checkpoint c t \<longrightarrow> t \<in> set roots)
    \<and> (t \<in> set roots \<longrightarrow> (\<exists>s e. checkpointSlotTreeOid (slot_at db s e) = Some t))"
proof -
  have "list_all2 (\<lambda>x y. (if \<not> isTreeOid x then Inl MetadataError else Inr x) = Inr y)
      (sort (remdups (slot_tree_oids db))) roots"
    using assms(2) by (simp add: listReferencedTreeOids_def runTransaction_Inr readTreeOids_def Let_def rmap_eq_Inr)
  then have "list_all2 (=) (sort (remdups (slot_tree_oids db))) roots"
    by (rule list_all2_mono) (auto split: if_splits)
  then have roots: "roots = sort (remdups (slot_tree_oids db))" by (simp add: list.rel_eq)
  then show ?thesis
    using slot_tree_in_roots [OF assms(1), of t] effective_resolution_in [of "slot_at db sid" path c t] by auto
qed

theorem referenced_trees_are_the_roots_witness:
  "(\<exists>s e. checkpointSlotTreeOid (slot_at sample_db s e) = Some tree_a)
     \<and> listReferencedTreeOids sample_connection None sample_db = Inr [tree_a]"
proof -
  have eq: "listReferencedTreeOids sample_connection None sample_db = Inr [tree_a]" by code_simp
  from referenced_trees_are_the_roots [OF sample_db_ok(1) eq] eq show ?thesis by simp
qed

subsection \<open>Registration reopens the gate\<close>

definition verified_in :: "metadata_db \<Rightarrow> string \<Rightarrow> string \<Rightarrow> bool" where
  "verified_in db sid f \<longleftrightarrow> (\<exists>row. map_of (session_registry_table db) sid = Some row
     \<and> session_file_col row = f \<and> registration_state_col row = ''verified'')"

lemma reconcileIn_tables:
  assumes "metadata_ok db" and "reconcileSessionBarrierIn db sid es f = Inr (r, db')"
  shows "session_history_table db' = session_history_table db
    \<and> session_registry_table db' = session_registry_table db"
  using assms by (cases rule: reconcileIn_cases) auto

lemma verifyPending_registers:
  assumes ok: "metadata_ok db"
    and eq: "verifyPendingRegistrationIn db sid f barrier retained active = Inr db'"
  shows "session_history_table db' = session_history_table db \<and> verified_in db' sid f"
proof -
  obtain st gd where v: "validateSessionCoordinatesRetainedIn db sid retained = Inr (st, gd)"
    using eq by (auto simp: verifyPendingRegistrationIn_def rbind_eq_Inr)
  let ?d1 = "write_unclassified sid (\<lambda>e. e \<in> set st \<or> e \<in> set gd) (\<lambda>_. Blocked_missing) retained db"
  note spec = write_unclassified_spec [of db "\<lambda>_. Blocked_missing" sid "\<lambda>e. e \<in> set st \<or> e \<in> set gd" retained,
      OF ok, simplified]
  obtain row where row: "map_of (session_registry_table ?d1) sid = Some row" and f: "session_file_col row = f"
    using eq v by (auto simp: verifyPendingRegistrationIn_def Let_def split: option.splits if_splits)
  let ?d2 = "?d1\<lparr>session_registry_table :=
    AList.update sid (row\<lparr>registration_state_col := ''verified''\<rparr>) (session_registry_table ?d1)\<rparr>"
  have ok2: "metadata_ok ?d2" using metadata_ok_registry_state [OF _ row] spec by blast
  have "db' = ?d2 \<or> (\<exists>r. reconcileSessionBarrierIn ?d2 sid active f = Inr (r, db'))"
    using eq v row
    by (auto simp: verifyPendingRegistrationIn_def Let_def rbind_eq_Inr split: if_splits)
  then have "session_history_table db' = session_history_table ?d2
      \<and> session_registry_table db' = session_registry_table ?d2"
    using reconcileIn_tables [OF ok2] by blast
  then show ?thesis using spec f by (simp add: session_frame_def verified_in_def)
qed

lemma completeReset_tables:
  "completeHistoryResetIn db sid epoch = Inr db' \<Longrightarrow>
     session_registry_table db' = session_registry_table db \<and>
     (\<exists>row. map_of (session_history_table db) sid = Some row \<and> history_epoch_col row = epoch \<and>
        map_of (session_history_table db') sid = Some (row\<lparr>reset_pending_col := 0\<rparr>))"
  by (auto simp: completeHistoryResetIn_def split: option.splits if_splits)

lemma verified_row:
  "verified_in db sid f \<Longrightarrow> requireNonEmpty f = Inr f \<Longrightarrow> registered_and_verified db sid f = Inr True"
  by (auto simp: verified_in_def registered_and_verified_def sessionRegistrationStateFrom_def)

lemma history_same_table:
  "session_history_table db' = session_history_table db \<Longrightarrow> sessionHistoryIn db' sid = sessionHistoryIn db sid"
  by (simp add: sessionHistoryIn_def)

lemma history_ensured:
  "sessionHistoryIn (ensure_session_history db sid) sid = sessionHistoryIn db sid"
  by (cases "map_of (session_history_table db) sid")
    (simp_all add: sessionHistoryIn_def ensure_session_history_def isSafeInteger_def MAX_SAFE_INTEGER_def)

lemma ensure_registry [simp]:
  "session_registry_table (ensure_session_history db sid) = session_registry_table db"
  by (simp add: ensure_session_history_def split: option.splits)

lemma existing_registers:
  assumes ok: "metadata_ok db" and hist: "sessionHistoryIn db sid = Inr history"
    and rows: "rows = registry_matches db sid f"
    and eq: "finalize_existing db rows sid f retained active history = Inr (report, db')"
  shows "sessionHistoryIn db' sid = Inr (fst history, False) \<and> verified_in db' sid f"
proof -
  define step2 where "step2 = (\<lambda>d. if snd history then completeHistoryResetIn d sid (fst history) else Inr d)"
  define old where "old = (if snd history then protectForgottenSessionIn db sid retained active
      else rbind (validateSessionCoordinatesRetainedIn db sid retained) (\<lambda>_. Inr db))"
  have eq2: "finalize_existing db rows sid f retained active history =
     (case rows of
        [(k, row)] \<Rightarrow>
          rbind (requireNonEmpty k) (\<lambda>rowId.
          rbind (requireNonEmpty (session_file_col row)) (\<lambda>rowFile.
          rbind (sessionRegistrationStateFrom (registration_state_col row)) (\<lambda>state.
            if rowId \<noteq> sid \<or> rowFile \<noteq> f then Inl MetadataError
            else rbind (if state = Pending
                then verifyPendingRegistrationIn db sid f (sessionHasBarrierIn db sid) retained active
                else old) (\<lambda>db1. rbind (step2 db1)
                (\<lambda>db2. Inr (\<lparr>fr_kind = Existing, fr_historyReset = snd history\<rparr>, db2))))))
      | _ \<Rightarrow> Inl MetadataError)"
    by (simp only: finalize_existing_def old_def step2_def)
  obtain k row state db1 where single: "rows = [(k, row)]" and k: "k = sid" "session_file_col row = f"
    and state: "sessionRegistrationStateFrom (registration_state_col row) = Inr state"
    and one: "(if state = Pending
                then verifyPendingRegistrationIn db sid f (sessionHasBarrierIn db sid) retained active
                else old) = Inr db1"
    and two: "step2 db1 = Inr db'"
    using eq unfolding eq2
    by (auto simp: rbind_eq_Inr split: list.splits if_splits dest!: requireNonEmpty_Inr)
  have "(k, row) \<in> set (registry_matches db sid f)" using single rows by simp
  then have key: "map_of (session_registry_table db) sid = Some row"
    using ok k(1) by (simp add: metadata_ok_def table_ok_def registry_matches_def)
  have first: "session_history_table db1 = session_history_table db \<and> verified_in db1 sid f"
  proof (cases "state = Pending")
    case True
    with one show ?thesis by (simp add: verifyPending_registers [OF ok])
  next
    case False
    then have "verified_in db sid f"
      using state key k by (auto simp: verified_in_def sessionRegistrationStateFrom_def split: if_splits)
    moreover have "session_frame sid db db1"
      using False one write_unclassified_spec [OF ok, of "leaf_slot (openLeaf active)"]
      by (auto simp: old_def protectForgottenSessionIn_def rbind_eq_Inr leaf_slot_def split: if_splits)
    ultimately show ?thesis by (simp add: session_frame_def verified_in_def)
  qed
  show ?thesis
  proof (cases "snd history")
    case False
    with two have "db' = db1" by (simp add: step2_def)
    with first False hist show ?thesis by (cases history) (simp add: sessionHistoryIn_def)
  next
    case True
    with two completeReset_tables obtain row where
        "map_of (session_history_table db1) sid = Some row" "history_epoch_col row = fst history"
        "map_of (session_history_table db') sid = Some (row\<lparr>reset_pending_col := 0\<rparr>)"
        "session_registry_table db' = session_registry_table db1"
      unfolding step2_def by (metis (full_types))
    with first hist show ?thesis
      by (auto simp: sessionHistoryIn_def verified_in_def split: if_splits)
  qed
qed

lemma new_registers:
  assumes ok: "metadata_ok db" and fresh: "registry_matches db sid f = []"
    and eq: "finalize_new db s sid f retained active = Inr (report, db')" and dist: "distinct retained"
    and hist: "sessionHistoryIn db sid = Inr history" and no: "\<not> snd history"
  shows "sessionHistoryIn db' sid = Inr (fst history, False) \<and> verified_in db' sid f"
proof -
  obtain projected leaf raise where seed: "seed_policy s sid retained active = Inr (projected, leaf, raise)"
    using eq by (auto simp: finalize_new_def rbind_eq_Inr)
  let ?d1 = "ensure_session_history (insert_registration db sid f ''verified'') sid"
  let ?d2 = "write_new_slots sid projected leaf retained ?d1"
  have tables: "session_registry_table db' = session_registry_table ?d2"
      "session_history_table db' = session_history_table ?d2"
    using eq seed by (auto simp: finalize_new_def Let_def)
  have ok1: "metadata_ok ?d1"
    by (intro metadata_ok_ensure_history metadata_ok_insert_registration [OF ok fresh]) simp
  have "session_frame sid ?d1 ?d2"
    using write_new_slots_spec [of ?d1 projected retained sid leaf, OF ok1 _ dist] seed_policy_Inr [OF seed]
    by blast
  with tables have same: "session_history_table db' = session_history_table ?d1"
      "session_registry_table db' = session_registry_table ?d1"
    by (simp_all add: session_frame_def)
  have "sessionHistoryIn db' sid = sessionHistoryIn db sid"
    using history_same_table [OF same(1)] history_same_table [of "insert_registration db sid f ''verified''" db]
    by (simp add: history_ensured insert_registration_def)
  then show ?thesis using hist no same(2)
    by (cases history) (simp add: verified_in_def insert_registration_def)
qed

text \<open>C7. Registration is the way back in: after any successful registration, of a new, known, pending,
  forgotten or orphaned session, the connection may write the session and the session is verified
  under exactly the given file; other sessions keep the generation the connection had attached.\<close>

theorem registration_opens_the_gate:
  assumes "metadata_ok db"
    and "finalizeSessionProjection conn authority input src db = Inr ((report, conn'), db')"
  shows "requireSessionHistoryReady conn' db' (targetSessionId input) = Inr ()
    \<and> registered_and_verified db' (targetSessionId input) (targetSessionFile input) = Inr True
    \<and> (s \<noteq> targetSessionId input \<longrightarrow> historyEpoch conn' s = historyEpoch conn s)"
proof -
  let ?sid = "targetSessionId input" and ?f = "targetSessionFile input"
  let ?es = "retainedEntryIds input" and ?active = "activeAncestryEntryIds input"
  obtain history where hist: "sessionHistoryIn db ?sid = Inr history"
    and conn': "conn' = conn\<lparr>historyEpoch := (historyEpoch conn)(?sid \<mapsto> fst history)\<rparr>"
    and tr: "finalize_transaction input ?sid ?f ?es ?active src db = Inr ((report, fst history), db')"
    and dist: "distinct ?es"
    using finalize_Inr [OF assms(2)] by blast
  have f: "requireNonEmpty ?f = Inr ?f"
    using assms(2) by (auto simp: finalizeSessionProjection_def rbind_eq_Inr dest: requireNonEmpty_Inr)
  have noreset: "\<not> snd history" if "registry_matches db ?sid ?f = []"
  proof
    assume "snd history"
    moreover have "map_of (session_registry_table db) ?sid = None"
      using that by (force simp: registry_matches_def filter_empty_conv map_of_eq_None_iff)
    ultimately show False using tr hist
      by (auto simp: finalize_transaction_def split: if_splits)
  qed
  consider (existing) "finalize_existing db (registry_matches db ?sid ?f) ?sid ?f ?es ?active history
        = Inr (report, db')"
    | (orphaned) "registry_matches db ?sid ?f = []"
        "finalize_orphaned db ?sid ?f ?es ?active = Inr (report, db')"
    | (new) "registry_matches db ?sid ?f = []"
        "finalize_new db (seed input) ?sid ?f ?es ?active = Inr (report, db')"
    using tr hist by (auto simp: finalize_transaction_def Let_def rbind_eq_Inr split: if_splits)
  then have "sessionHistoryIn db' ?sid = Inr (fst history, False) \<and> verified_in db' ?sid ?f"
  proof cases
    case existing
    then show ?thesis by (rule existing_registers [OF assms(1) hist refl])
  next
    case orphaned
    obtain d where d: "verifyPendingRegistrationIn (insert_registration db ?sid ?f ''pending'') ?sid ?f
        (sessionHasBarrierIn db ?sid) ?es ?active = Inr d" and db': "db' = ensure_session_history d ?sid"
      using orphaned(2) by (auto simp: finalize_orphaned_def rbind_eq_Inr)
    have ok1: "metadata_ok (insert_registration db ?sid ?f ''pending'')"
      by (rule metadata_ok_insert_registration [OF assms(1) orphaned(1)]) simp
    from verifyPending_registers [OF ok1 d]
    have reg: "session_history_table d = session_history_table db \<and> verified_in d ?sid ?f"
      by (simp add: insert_registration_def)
    then have "sessionHistoryIn db' ?sid = sessionHistoryIn db ?sid"
      using history_same_table [of d db] by (simp add: db' history_ensured)
    then show ?thesis using reg noreset [OF orphaned(1)] hist
      by (cases history) (simp add: db' verified_in_def)
  next
    case new
    show ?thesis using new_registers [OF assms(1) new dist hist noreset [OF new(1)]] .
  qed
  then show ?thesis
    using verified_row [OF _ f] by (simp add: conn' requireSessionHistoryReady_def)
qed

theorem registration_opens_the_gate_witness:
  "registered_and_verified (committed_db fresh_metadata
      (finalizeSessionProjection sample_connection True sample_registration None fresh_metadata))
    ''s'' ''f'' = Inr True"
proof -
  let ?out = "finalizeSessionProjection sample_connection True sample_registration None fresh_metadata"
  have "\<not> isl ?out" by code_simp
  then obtain report conn' db' where out: "?out = Inr ((report, conn'), db')" by (cases ?out) auto
  from registration_opens_the_gate [OF fresh_metadata_ok out] show ?thesis
    by (simp add: out) (simp add: sample_registration_def)
qed

end
