(* ===== verification/Session_Graph.thy ===== *)
theory Session_Graph
  imports Prelude "HOL-Library.Sublist"
begin

text \<open>
  The session graph, \<^verbatim>\<open>src/pi/extension-boundary.ts\<close>: the public entries of a session, the semantics of
  their types, the validation of the append-only parent graph, its collapse to stable checkpoint
  coordinates and the intersection two sessions provably share. The host objects behind the entries are not
  modelled; what is read from them is.
\<close>

subsection \<open>Entries\<close>

record public_entry =
  pe_id :: string
  pe_parentId :: "string option"
  pe_type :: string
  pe_messageRole :: "string option"

record stable_coordinate =
  sc_id :: string
  sc_stableParentId :: "string option"
  sc_type :: string
  sc_messageRole :: "string option"

datatype coordinate_kind = Stable | Transparent
datatype selection_kind = Select_self | Select_parent
datatype arrival_kind = Ordinary | Summary

record entry_semantics =
  es_coordinate :: coordinate_kind
  es_selection :: selection_kind
  es_treeArrival :: arrival_kind

definition STABLE_SELF_SEMANTICS :: entry_semantics where
  "STABLE_SELF_SEMANTICS = \<lparr>es_coordinate = Stable, es_selection = Select_self, es_treeArrival = Ordinary\<rparr>"

definition STABLE_PARENT_SEMANTICS :: entry_semantics where
  "STABLE_PARENT_SEMANTICS = \<lparr>es_coordinate = Stable, es_selection = Select_parent, es_treeArrival = Ordinary\<rparr>"

definition TRANSPARENT_SELF_SEMANTICS :: entry_semantics where
  "TRANSPARENT_SELF_SEMANTICS = \<lparr>es_coordinate = Transparent, es_selection = Select_self, es_treeArrival = Ordinary\<rparr>"

definition TREE_SUMMARY_SEMANTICS :: entry_semantics where
  "TREE_SUMMARY_SEMANTICS = \<lparr>es_coordinate = Stable, es_selection = Select_self, es_treeArrival = Summary\<rparr>"

definition KNOWN_ENTRY_SEMANTICS :: "(string \<times> entry_semantics) list" where
  "KNOWN_ENTRY_SEMANTICS =
     [(''message'', STABLE_SELF_SEMANTICS), (''thinking_level_change'', STABLE_SELF_SEMANTICS),
      (''model_change'', STABLE_SELF_SEMANTICS), (''compaction'', STABLE_SELF_SEMANTICS),
      (''branch_summary'', TREE_SUMMARY_SEMANTICS), (''custom'', STABLE_SELF_SEMANTICS),
      (''custom_message'', STABLE_PARENT_SEMANTICS), (''label'', TRANSPARENT_SELF_SEMANTICS),
      (''session_info'', STABLE_SELF_SEMANTICS)]"

definition semanticsFor :: "string \<Rightarrow> string option \<Rightarrow> entry_semantics" where
  "semanticsFor ty role =
     (case map_of KNOWN_ENTRY_SEMANTICS ty of
        None \<Rightarrow> STABLE_SELF_SEMANTICS
      | Some known \<Rightarrow> if ty = ''message'' \<and> role = Some ''user'' then STABLE_PARENT_SEMANTICS else known)"

definition publicEntryIsTransparent :: "public_entry \<Rightarrow> bool" where
  "publicEntryIsTransparent e \<longleftrightarrow> es_coordinate (semanticsFor (pe_type e) (pe_messageRole e)) = Transparent"

definition publicEntrySelectionLanding :: "public_entry \<Rightarrow> string option" where
  "publicEntrySelectionLanding e =
     (if es_selection (semanticsFor (pe_type e) (pe_messageRole e)) = Select_parent then pe_parentId e else Some (pe_id e))"

definition publicEntryIsTreeSummary :: "public_entry \<Rightarrow> bool" where
  "publicEntryIsTreeSummary e \<longleftrightarrow> es_treeArrival (semanticsFor (pe_type e) (pe_messageRole e)) = Summary"

subsection \<open>The stable projection\<close>

record stable_graph =
  nearestStable :: "string \<rightharpoonup> string option"
  stableParentById :: "string \<rightharpoonup> string option"
  coordinates :: "stable_coordinate list"

definition empty_graph :: stable_graph where
  "empty_graph = \<lparr>nearestStable = Map.empty, stableParentById = Map.empty, coordinates = []\<rparr>"

definition project_entry :: "public_entry \<Rightarrow> stable_graph \<Rightarrow> stable_graph result" where
  "project_entry e g =
     (if nearestStable g (pe_id e) \<noteq> None then Inl PlainError
      else case (case pe_parentId e of None \<Rightarrow> Some None | Some p \<Rightarrow> nearestStable g p) of
          None \<Rightarrow> Inl PlainError
        | Some stableParentId \<Rightarrow>
            (if publicEntryIsTransparent e
             then Inr (g\<lparr>nearestStable := (nearestStable g)(pe_id e \<mapsto> stableParentId)\<rparr>)
             else Inr \<lparr>nearestStable = (nearestStable g)(pe_id e \<mapsto> Some (pe_id e)),
                       stableParentById = (stableParentById g)(pe_id e \<mapsto> stableParentId),
                       coordinates = coordinates g @ [\<lparr>sc_id = pe_id e, sc_stableParentId = stableParentId,
                         sc_type = pe_type e, sc_messageRole = pe_messageRole e\<rparr>]\<rparr>))"

fun project_entries :: "public_entry list \<Rightarrow> stable_graph \<Rightarrow> stable_graph result" where
  "project_entries [] g = Inr g"
| "project_entries (e # es) g = rbind (project_entry e g) (project_entries es)"

definition projectStableGraph :: "public_entry list \<Rightarrow> stable_graph result" where
  "projectStableGraph entries = project_entries entries empty_graph"

text \<open>\<^verbatim>\<open>undefined\<close> is the outer \<open>None\<close>, the root location \<^verbatim>\<open>null\<close> the inner one.\<close>

definition stableCoordinateId :: "stable_graph \<Rightarrow> string option \<Rightarrow> string option option" where
  "stableCoordinateId g entryId = (case entryId of None \<Rightarrow> Some None | Some e \<Rightarrow> nearestStable g e)"

text \<open>The climb from a coordinate to the root. A graph with a cycle of stable parents would keep it going
  forever, the value \<open>None\<close> of the loop.\<close>

partial_function (option) stable_climb :: "stable_graph \<Rightarrow> string option \<Rightarrow> string list \<Rightarrow> string list option" where
  [code]: "stable_climb g current reversed =
     (case current of
        None \<Rightarrow> Some reversed
      | Some c \<Rightarrow> stable_climb g (case stableParentById g c of None \<Rightarrow> None | Some p \<Rightarrow> p) (reversed @ [c]))"

definition stableAncestryIds :: "stable_graph \<Rightarrow> string option \<Rightarrow> string list option option" where
  "stableAncestryIds g entryId =
     (case entryId of
        None \<Rightarrow> Some (Some [])
      | Some e \<Rightarrow>
          (case nearestStable g e of
             None \<Rightarrow> Some None
           | Some current \<Rightarrow> map_option (\<lambda>reversed. Some (rev reversed)) (stable_climb g current [])))"

subsection \<open>The shared coordinates of two sessions\<close>

fun indexStableCoordinates :: "stable_coordinate list \<Rightarrow> nat \<Rightarrow> (string \<rightharpoonup> stable_coordinate \<times> nat) \<Rightarrow>
    (string \<rightharpoonup> stable_coordinate \<times> nat) result" where
  "indexStableCoordinates [] index byId = Inr byId"
| "indexStableCoordinates (c # cs) index byId =
     (if byId (sc_id c) \<noteq> None then Inl PlainError
      else if (case sc_stableParentId c of None \<Rightarrow> False | Some p \<Rightarrow> byId p = None) then Inl PlainError
      else indexStableCoordinates cs (Suc index) (byId(sc_id c \<mapsto> (c, index))))"

fun proven_loop :: "(string \<rightharpoonup> stable_coordinate \<times> nat) \<Rightarrow> stable_coordinate list \<Rightarrow> string list \<Rightarrow> int \<Rightarrow> string list" where
  "proven_loop sourceById [] ids lastSourceIndex = ids"
| "proven_loop sourceById (c # cs) ids lastSourceIndex =
     (case sourceById (sc_id c) of
        None \<Rightarrow> proven_loop sourceById cs ids lastSourceIndex
      | Some (s, index) \<Rightarrow>
          if sc_type c \<noteq> sc_type s \<or> sc_messageRole c \<noteq> sc_messageRole s \<or> sc_stableParentId c \<noteq> sc_stableParentId s
            \<or> (case sc_stableParentId c of None \<Rightarrow> False | Some p \<Rightarrow> p \<notin> set ids)
            \<or> int index \<le> lastSourceIndex
          then proven_loop sourceById cs ids lastSourceIndex
          else proven_loop sourceById cs (ids @ [sc_id c]) (int index))"

definition provenStableCoordinateIds :: "stable_coordinate list \<Rightarrow> stable_coordinate list \<Rightarrow> string list result" where
  "provenStableCoordinateIds source child =
     rbind (indexStableCoordinates source 0 Map.empty) (\<lambda>sourceById.
     rbind (indexStableCoordinates child 0 Map.empty) (\<lambda>_.
       Inr (proven_loop sourceById child [] (- 1))))"

subsection \<open>Validation of the retained graph\<close>

fun index_entries :: "public_entry list \<Rightarrow> nat \<Rightarrow> (string \<rightharpoonup> nat) \<Rightarrow> (string \<rightharpoonup> nat) result" where
  "index_entries [] index indexById = Inr indexById"
| "index_entries (e # es) index indexById =
     (if indexById (pe_id e) \<noteq> None then Inl PlainError
      else index_entries es (Suc index) (indexById(pe_id e \<mapsto> index)))"

text \<open>Zero stands for a root; every other parent index is stored one-based.\<close>

definition parent_index :: "(string \<rightharpoonup> nat) \<Rightarrow> public_entry \<Rightarrow> nat result" where
  "parent_index indexById e =
     (case pe_parentId e of
        None \<Rightarrow> Inr 0
      | Some p \<Rightarrow> (case indexById p of None \<Rightarrow> Inl PlainError | Some i \<Rightarrow> Inr (i + 1)))"

lemma unseen_decreases: "i < length state \<Longrightarrow> state ! i = 0 \<Longrightarrow>
    length (filter (\<lambda>s. s = 0) (state[i := 1])) < length (filter (\<lambda>s. s = (0 :: nat)) state)"
proof -
  assume i: "i < length state" "state ! i = 0"
  then have s: "state = take i state @ 0 # drop (Suc i) state" by (metis id_take_nth_drop)
  have "state[i := 1] = take i state @ 1 # drop (Suc i) state" using i by (simp add: upd_conv_take_nth_drop)
  then have "length (filter (\<lambda>s. s = 0) (state[i := 1])) =
      length (filter (\<lambda>s. s = 0) (take i state)) + length (filter (\<lambda>s. s = 0) (drop (Suc i) state))" by simp
  moreover have "length (filter (\<lambda>s. s = 0) state) =
      Suc (length (filter (\<lambda>s. s = 0) (take i state)) + length (filter (\<lambda>s. s = 0) (drop (Suc i) state)))"
    by (subst s) simp
  ultimately show ?thesis by simp
qed

text \<open>One walk up from an unseen entry: 0 is unseen, 1 on the current path, 2 complete.\<close>

function walk_up :: "nat list \<Rightarrow> nat list \<Rightarrow> nat list \<Rightarrow> nat option \<Rightarrow> nat list \<times> nat list \<times> nat option" where
  "walk_up parents state path index =
     (case index of
        Some i \<Rightarrow>
          if i < length state \<and> state ! i = 0
          then walk_up parents (state[i := 1]) (path @ [i])
                 (if parents ! i = 0 then None else Some (parents ! i - 1))
          else (state, path, Some i)
      | None \<Rightarrow> (state, path, None))"
  by pat_completeness auto

termination
  by (relation "measure (\<lambda>(parents, state, path, index). length (filter (\<lambda>s. s = 0) state))")
    (auto simp: unseen_decreases [simplified])

declare walk_up.simps [simp del]

fun mark_complete :: "nat list \<Rightarrow> nat list \<Rightarrow> nat list" where
  "mark_complete [] state = state"
| "mark_complete (i # path) state = mark_complete path (state[i := 2])"

fun walk_all :: "nat list \<Rightarrow> nat list \<Rightarrow> nat list \<Rightarrow> unit result" where
  "walk_all parents [] state = Inr ()"
| "walk_all parents (start # starts) state =
     (if state ! start \<noteq> 0 then walk_all parents starts state
      else case walk_up parents state [] (Some start) of
          (state, path, index) \<Rightarrow>
            if (case index of None \<Rightarrow> False | Some i \<Rightarrow> state ! i = 1) then Inl PlainError
            else walk_all parents starts (mark_complete path state))"

definition validatePublicEntryGraph :: "public_entry list \<Rightarrow> unit result" where
  "validatePublicEntryGraph entries =
     rbind (index_entries entries 0 Map.empty) (\<lambda>indexById.
     rbind (rmap (parent_index indexById) entries) (\<lambda>parents.
     rbind (walk_all parents [0 ..< length entries] (replicate (length entries) 0)) (\<lambda>_.
       if \<exists>index \<in> {0 ..< length parents}. parents ! index \<noteq> 0 \<and> parents ! index - 1 \<ge> index then Inl PlainError
       else Inr ())))"

subsection \<open>Reference definitions\<close>

text \<open>A log, newest entry first, in which ids are unique and every parent is older than its child; and the
  chain of an entry in it, from the root down.\<close>

fun ordered_log :: "public_entry list \<Rightarrow> bool" where
  "ordered_log [] \<longleftrightarrow> True"
| "ordered_log (e # older) \<longleftrightarrow> pe_id e \<notin> pe_id ` set older \<and>
     (case pe_parentId e of None \<Rightarrow> True | Some p \<Rightarrow> p \<in> pe_id ` set older) \<and> ordered_log older"

fun chain :: "public_entry list \<Rightarrow> string option \<Rightarrow> public_entry list" where
  "chain log None = []"
| "chain [] (Some x) = []"
| "chain (e # older) (Some x) = (if pe_id e = x then chain older (pe_parentId e) @ [e] else chain older (Some x))"

definition stable_chain :: "public_entry list \<Rightarrow> string option \<Rightarrow> string list" where
  "stable_chain log x = map pe_id (filter (\<lambda>e. \<not> publicEntryIsTransparent e) (chain log x))"

definition nearest :: "public_entry list \<Rightarrow> string option \<Rightarrow> string option" where
  "nearest log x = (if stable_chain log x = [] then None else Some (last (stable_chain log x)))"

fun log_coordinates :: "public_entry list \<Rightarrow> stable_coordinate list" where
  "log_coordinates [] = []"
| "log_coordinates (e # older) = log_coordinates older @
     (if publicEntryIsTransparent e then []
      else [\<lparr>sc_id = pe_id e, sc_stableParentId = nearest older (pe_parentId e),
              sc_type = pe_type e, sc_messageRole = pe_messageRole e\<rparr>])"

lemma stable_chain_simps [simp]:
  "stable_chain log None = []"
  "stable_chain [] y = []"
  "stable_chain (e # older) (Some x) =
     (if pe_id e = x then stable_chain older (pe_parentId e) @ (if publicEntryIsTransparent e then [] else [x])
      else stable_chain older (Some x))"
  by (simp_all add: stable_chain_def) (cases y; simp)

lemma nearest_simps [simp]:
  "nearest log None = None"
  "nearest (e # older) (Some x) =
     (if pe_id e = x then if publicEntryIsTransparent e then nearest older (pe_parentId e) else Some x
      else nearest older (Some x))"
  by (auto simp: nearest_def)

subsection \<open>The projection computes the chains\<close>

lemma project_entries_append: "project_entries (xs @ ys) g = rbind (project_entries xs g) (project_entries ys)"
proof (induction xs arbitrary: g)
  case (Cons x xs)
  then show ?case by (cases "project_entry x g") simp_all
qed simp

fun climbs :: "stable_graph \<Rightarrow> public_entry list \<Rightarrow> bool" where
  "climbs g [] \<longleftrightarrow> True"
| "climbs g (e # older) \<longleftrightarrow>
     (\<not> publicEntryIsTransparent e \<longrightarrow> stableParentById g (pe_id e) = Some (nearest older (pe_parentId e))) \<and> climbs g older"

definition graph_of :: "public_entry list \<Rightarrow> stable_graph \<Rightarrow> bool" where
  "graph_of log g \<longleftrightarrow>
     (\<forall>x. nearestStable g x = (if x \<in> pe_id ` set log then Some (nearest log (Some x)) else None)) \<and>
     climbs g log \<and> coordinates g = log_coordinates log"

lemma climbs_cong: "climbs g log \<Longrightarrow> (\<And>e. e \<in> set log \<Longrightarrow> stableParentById g' (pe_id e) = stableParentById g (pe_id e)) \<Longrightarrow>
    climbs g' log"
  by (induction log) auto

lemma project_entry_step:
  assumes "graph_of log g"
  shows "((\<exists>g'. project_entry e g = Inr g') \<longleftrightarrow>
      pe_id e \<notin> pe_id ` set log \<and> (case pe_parentId e of None \<Rightarrow> True | Some p \<Rightarrow> p \<in> pe_id ` set log)) \<and>
    (\<forall>g'. project_entry e g = Inr g' \<longrightarrow> graph_of (e # log) g')"
proof -
  have near: "nearestStable g x = (if x \<in> pe_id ` set log then Some (nearest log (Some x)) else None)" for x
    using assms by (simp add: graph_of_def)
  define parent where "parent = (case pe_parentId e of None \<Rightarrow> Some None | Some p \<Rightarrow> nearestStable g p)"
  have parent: "parent = (if (case pe_parentId e of None \<Rightarrow> True | Some p \<Rightarrow> p \<in> pe_id ` set log)
      then Some (nearest log (pe_parentId e)) else None)"
    by (auto simp: parent_def near split: option.splits)
  have step: "project_entry e g = (if pe_id e \<in> pe_id ` set log then Inl PlainError
      else case parent of None \<Rightarrow> Inl PlainError
        | Some stableParentId \<Rightarrow>
            (if publicEntryIsTransparent e
             then Inr (g\<lparr>nearestStable := (nearestStable g)(pe_id e \<mapsto> stableParentId)\<rparr>)
             else Inr \<lparr>nearestStable = (nearestStable g)(pe_id e \<mapsto> Some (pe_id e)),
                       stableParentById = (stableParentById g)(pe_id e \<mapsto> stableParentId),
                       coordinates = coordinates g @ [\<lparr>sc_id = pe_id e, sc_stableParentId = stableParentId,
                         sc_type = pe_type e, sc_messageRole = pe_messageRole e\<rparr>]\<rparr>))"
    unfolding project_entry_def parent_def near by simp
  show ?thesis
  proof (cases "pe_id e \<in> pe_id ` set log \<or> parent = None")
    case True
    then show ?thesis using parent by (auto simp: step split: if_splits)
  next
    case False
    then have fresh: "pe_id e \<notin> pe_id ` set log" and p: "parent = Some (nearest log (pe_parentId e))"
      and ok: "case pe_parentId e of None \<Rightarrow> True | Some p \<Rightarrow> p \<in> pe_id ` set log"
      using parent by (auto split: if_splits)
    have old: "climbs g log" "coordinates g = log_coordinates log" using assms by (simp_all add: graph_of_def)
    have keeps: "climbs g' log" if "\<And>x. x \<noteq> pe_id e \<Longrightarrow> stableParentById g' x = stableParentById g x" for g'
      using fresh that by (intro climbs_cong [OF old(1)]) (metis image_eqI)
    have "graph_of (e # log) g'" if "project_entry e g = Inr g'" for g'
    proof (cases "publicEntryIsTransparent e")
      case True
      then have g': "g' = g\<lparr>nearestStable := (nearestStable g)(pe_id e \<mapsto> nearest log (pe_parentId e))\<rparr>"
        using that fresh p by (simp add: step)
      then show ?thesis using True keeps [of g'] near old by (auto simp: graph_of_def)
    next
      case False
      then have g': "g' = \<lparr>nearestStable = (nearestStable g)(pe_id e \<mapsto> Some (pe_id e)),
          stableParentById = (stableParentById g)(pe_id e \<mapsto> nearest log (pe_parentId e)),
          coordinates = coordinates g @ [\<lparr>sc_id = pe_id e, sc_stableParentId = nearest log (pe_parentId e),
            sc_type = pe_type e, sc_messageRole = pe_messageRole e\<rparr>]\<rparr>"
        using that fresh p by (simp add: step)
      then show ?thesis using False keeps [of g'] near old by (auto simp: graph_of_def)
    qed
    moreover have "\<exists>g'. project_entry e g = Inr g'" using fresh p by (simp add: step)
    ultimately show ?thesis using fresh ok by blast
  qed
qed

lemma project_graph:
  "((\<exists>g. projectStableGraph es = Inr g) \<longleftrightarrow> ordered_log (rev es)) \<and>
   (\<forall>g. projectStableGraph es = Inr g \<longrightarrow> graph_of (rev es) g)"
proof (induction es rule: rev_induct)
  case Nil
  then show ?case by (simp add: projectStableGraph_def empty_graph_def graph_of_def)
next
  case (snoc e es)
  have snoc_eq: "projectStableGraph (es @ [e]) = rbind (projectStableGraph es) (project_entry e)"
    by (cases "project_entries es empty_graph") (simp_all add: projectStableGraph_def project_entries_append rbind_def split: sum.splits)
  show ?case
  proof (cases "projectStableGraph es")
    case (Inl x)
    then show ?thesis using snoc by (simp add: snoc_eq)
  next
    case (Inr g)
    then have "graph_of (rev es) g" "ordered_log (rev es)" using snoc by blast+
    then show ?thesis using project_entry_step [of "rev es" g e] Inr by (simp add: snoc_eq)
  qed
qed

lemma stable_climb_chain:
  "climbs g log \<Longrightarrow> ordered_log log \<Longrightarrow> (case x of None \<Rightarrow> True | Some y \<Rightarrow> y \<in> pe_id ` set log) \<Longrightarrow>
     stable_climb g (nearest log x) reversed = Some (reversed @ rev (stable_chain log x))"
proof (induction log arbitrary: x reversed)
  case Nil
  then show ?case by (cases x) (simp_all add: nearest_def stable_climb.simps)
next
  case (Cons e older)
  show ?case
  proof (cases x)
    case None
    then show ?thesis by (simp add: stable_climb.simps)
  next
    case (Some y)
    have ih: "stable_climb g (nearest older (pe_parentId e)) acc = Some (acc @ rev (stable_chain older (pe_parentId e)))" for acc
      using Cons.prems by (intro Cons.IH) simp_all
    show ?thesis
    proof (cases "pe_id e = y")
      case True
      show ?thesis
      proof (cases "publicEntryIsTransparent e")
        case False
        then have "stable_climb g (Some y) reversed = stable_climb g (nearest older (pe_parentId e)) (reversed @ [y])"
          using Cons.prems(1) True by (subst stable_climb.simps) simp
        then show ?thesis using Some True False ih by simp
      qed (use Some True ih in simp)
    next
      case False
      then show ?thesis using Cons Some by simp
    qed
  qed
qed

subsection \<open>The validator accepts the ordered logs\<close>

definition parents_earlier :: "public_entry list \<Rightarrow> bool" where
  "parents_earlier es \<longleftrightarrow> distinct (map pe_id es) \<and>
     (\<forall>i < length es. case pe_parentId (es ! i) of None \<Rightarrow> True | Some p \<Rightarrow> \<exists>j < i. pe_id (es ! j) = p)"

lemma parents_earlier_log: "parents_earlier es \<longleftrightarrow> ordered_log (rev es)"
proof (induction es rule: rev_induct)
  case Nil
  then show ?case by (simp add: parents_earlier_def)
next
  case (snoc e es)
  define Q where "Q xs i \<longleftrightarrow> (case pe_parentId (xs ! i) of None \<Rightarrow> True | Some p \<Rightarrow> \<exists>j < i. pe_id (xs ! j) = p)" for xs :: "public_entry list" and i
  have same: "(\<exists>j < i. pe_id ((es @ [e]) ! j) = p) \<longleftrightarrow> (\<exists>j < i. pe_id (es ! j) = p)" if "i \<le> length es" for i p
  proof -
    have "(es @ [e]) ! j = es ! j" if "j < i" for j using \<open>i \<le> length es\<close> that by (simp add: nth_append)
    then show ?thesis by (simp cong: conj_cong)
  qed
  have ids: "(\<exists>j < length es. pe_id (es ! j) = p) \<longleftrightarrow> p \<in> pe_id ` set es" for p
  proof
    assume "\<exists>j < length es. pe_id (es ! j) = p"
    then show "p \<in> pe_id ` set es" using nth_mem by blast
  qed (auto simp: in_set_conv_nth)
  have old: "Q (es @ [e]) i \<longleftrightarrow> Q es i" if "i < length es" for i
    unfolding Q_def same [OF less_imp_le [OF that]] using that by (simp add: nth_append)
  have last: "Q (es @ [e]) (length es) \<longleftrightarrow> (case pe_parentId e of None \<Rightarrow> True | Some p \<Rightarrow> p \<in> pe_id ` set es)"
    unfolding Q_def same [OF order_refl] ids by simp
  have "parents_earlier (es @ [e]) \<longleftrightarrow> distinct (map pe_id (es @ [e])) \<and> (\<forall>i < length es. Q (es @ [e]) i) \<and> Q (es @ [e]) (length es)"
    unfolding parents_earlier_def Q_def [symmetric] by (simp add: All_less_Suc conj_commute)
  also have "\<dots> \<longleftrightarrow> parents_earlier es \<and> pe_id e \<notin> pe_id ` set es \<and>
      (case pe_parentId e of None \<Rightarrow> True | Some p \<Rightarrow> p \<in> pe_id ` set es)"
  proof -
    have "(\<forall>i < length es. Q (es @ [e]) i) \<longleftrightarrow> (\<forall>i < length es. Q es i)" using old by blast
    then show ?thesis unfolding last parents_earlier_def Q_def [symmetric] by (simp add: conj_ac)
  qed
  finally show ?case by (cases "pe_parentId e") (simp_all add: snoc conj_ac)
qed

lemma index_entries_map:
  "index_entries es k m = (if distinct (map pe_id es) \<and> (\<forall>x \<in> pe_id ` set es. m x = None)
     then Inr (m ++ map_of (zip (map pe_id es) [k ..< k + length es])) else Inl PlainError)"
proof (induction es arbitrary: k m)
  case (Cons e es)
  show ?case
  proof (cases "m (pe_id e) = None \<and> pe_id e \<notin> pe_id ` set es")
    case True
    have range: "[k ..< k + length (e # es)] = k # [Suc k ..< Suc k + length es]" by (simp add: upt_conv_Cons del: upt_Suc)
    have "pe_id e \<notin> dom (map_of (zip (map pe_id es) [Suc k ..< Suc k + length es]))"
      using True by (auto simp: dom_map_of_conv_image_fst dest: set_zip_leftD)
    then have sum: "m(pe_id e \<mapsto> k) ++ map_of (zip (map pe_id es) [Suc k ..< Suc k + length es]) =
        m ++ map_of (zip (map pe_id (e # es)) [k ..< k + length (e # es)])"
      unfolding range by (simp add: map_add_upd_left)
    have step: "index_entries (e # es) k m = index_entries es (Suc k) (m(pe_id e \<mapsto> k))" using True by simp
    have free: "(\<forall>x \<in> pe_id ` set es. (m(pe_id e \<mapsto> k)) x = None) \<longleftrightarrow> (\<forall>x \<in> pe_id ` set es. m x = None)"
    proof -
      have "x \<noteq> pe_id e" if "x \<in> pe_id ` set es" for x using True that by blast
      then show ?thesis by simp
    qed
    have conds: "distinct (map pe_id (e # es)) \<and> (\<forall>x \<in> pe_id ` set (e # es). m x = None) \<longleftrightarrow>
        distinct (map pe_id es) \<and> (\<forall>x \<in> pe_id ` set es. m x = None)"
      using True by auto
    show ?thesis unfolding step Cons.IH free sum conds by (rule refl)
  next
    case False
    have "index_entries (e # es) k m = Inl PlainError"
    proof (cases "m (pe_id e) = None")
      case True
      then have "pe_id e \<in> pe_id ` set es" using False by simp
      then have some: "\<not> (\<forall>x \<in> pe_id ` set es. (m(pe_id e \<mapsto> k)) x = None)" by (metis fun_upd_same option.distinct(1))
      have "index_entries (e # es) k m = index_entries es (Suc k) (m(pe_id e \<mapsto> k))" using True by simp
      then show ?thesis unfolding Cons.IH using some by (simp only: simp_thms if_False)
    qed simp
    then show ?thesis using False by auto
  qed
qed simp

lemma index_entries_spec:
  "(\<exists>m. index_entries es 0 Map.empty = Inr m) \<longleftrightarrow> distinct (map pe_id es)"
  "index_entries es 0 Map.empty = Inr m \<Longrightarrow> m p = Some j \<longleftrightarrow> j < length es \<and> pe_id (es ! j) = p"
proof -
  show "(\<exists>m. index_entries es 0 Map.empty = Inr m) \<longleftrightarrow> distinct (map pe_id es)" by (simp add: index_entries_map)
  assume "index_entries es 0 Map.empty = Inr m"
  then have "m = map_of (zip (map pe_id es) [0 ..< length es])" and "distinct (map pe_id es)"
    by (simp_all add: index_entries_map split: if_splits)
  then show "m p = Some j \<longleftrightarrow> j < length es \<and> pe_id (es ! j) = p"
    by (auto simp: map_of_eq_Some_iff in_set_zip intro: exI [of _ j])
qed

lemma walk_up_root [simp]: "walk_up parents state path None = (state, path, None)"
  by (subst walk_up.simps) simp

lemma walk_up_stop: "\<not> (i < length state \<and> state ! i = 0) \<Longrightarrow> walk_up parents state path (Some i) = (state, path, Some i)"
  by (subst walk_up.simps) (simp only: option.case if_False)

lemma walk_up_step: "i < length state \<and> state ! i = 0 \<Longrightarrow> walk_up parents state path (Some i) =
    walk_up parents (state[i := 1]) (path @ [i]) (if parents ! i = 0 then None else Some (parents ! i - 1))"
  by (subst walk_up.simps) simp

text \<open>While every parent precedes its child a walk only meets complete entries, and none of its own.\<close>

lemma walk_up_descends:
  assumes "\<forall>i < length parents. parents ! i \<noteq> 0 \<longrightarrow> parents ! i - 1 < i" and "length state = length parents"
    and "\<forall>i < length state. state ! i = 1 \<longrightarrow> i \<in> set path"
    and "\<forall>i \<in> set path. i < length state \<and> (case index of None \<Rightarrow> True | Some k \<Rightarrow> k < i)"
    and "\<forall>i < length state. state ! i \<in> {0, 1, 2}"
    and "walk_up parents state path index = (state', path', index')"
  shows "length state' = length parents \<and> (\<forall>i < length state'. state' ! i = 1 \<longrightarrow> i \<in> set path') \<and>
    (\<forall>i \<in> set path'. i < length state') \<and> (\<forall>i < length state'. state' ! i \<in> {0, 1, 2}) \<and>
    (case index' of None \<Rightarrow> True | Some k \<Rightarrow> k < length parents \<longrightarrow> state' ! k \<noteq> 1)"
  using assms
proof (induction parents state path index rule: walk_up.induct)
  case (1 parents state path index)
  show ?case
  proof (cases index)
    case None
    then show ?thesis using 1(2-) by auto
  next
    case (Some i)
    show ?thesis
    proof (cases "i < length state \<and> state ! i = 0")
      case False
      then have "state' = state" "path' = path" "index' = Some i"
        using 1(7) walk_up_stop [OF False] Some by simp_all
      moreover have "k < length parents \<longrightarrow> state ! k \<noteq> 1" if "k = i" for k using 1(3,4,5) Some that by auto
      ultimately show ?thesis using 1(3-6) by auto
    next
      case True
      let ?next = "if parents ! i = 0 then None else Some (parents ! i - 1)"
      have below: "case ?next of None \<Rightarrow> True | Some k \<Rightarrow> k < i" using 1(2,3) True by simp
      have "walk_up parents (state[i := 1]) (path @ [i]) ?next = (state', path', index')"
        using 1(7) unfolding Some walk_up_step [OF True] .
      moreover have "\<forall>j < length (state[i := 1]). state[i := 1] ! j = 1 \<longrightarrow> j \<in> set (path @ [i])"
        using 1(4) True by (auto simp: nth_list_update split: if_splits)
      moreover have "\<forall>j \<in> set (path @ [i]). j < length (state[i := 1]) \<and> (case ?next of None \<Rightarrow> True | Some k \<Rightarrow> k < j)"
        using 1(5) Some True below by (auto split: if_splits)
      moreover have "\<forall>j < length (state[i := 1]). state[i := 1] ! j \<in> {0, 1, 2}"
        using 1(6) True by (auto simp: nth_list_update)
      moreover have "length (state[i := 1]) = length parents" using 1(3) by simp
      ultimately show ?thesis by (intro 1(1) [OF Some True 1(2)])
    qed
  qed
qed

lemma walk_up_index:
  assumes "\<forall>i < length parents. parents ! i \<noteq> 0 \<longrightarrow> parents ! i - 1 < i" and "length state = length parents"
    and "walk_up parents state path index = (state', path', index')"
    and "case index of None \<Rightarrow> True | Some i \<Rightarrow> i < length parents"
  shows "case index' of None \<Rightarrow> True | Some i \<Rightarrow> i < length parents"
  using assms
proof (induction parents state path index rule: walk_up.induct)
  case (1 parents state path index)
  show ?case
  proof (cases index)
    case None
    then show ?thesis using 1(4) by simp
  next
    case (Some i)
    show ?thesis
    proof (cases "i < length state \<and> state ! i = 0")
      case False
      then have "index' = Some i" using 1(4) walk_up_stop [OF False] Some by simp
      then show ?thesis using 1(5) Some by simp
    next
      case True
      let ?next = "if parents ! i = 0 then None else Some (parents ! i - 1)"
      have "walk_up parents (state[i := 1]) (path @ [i]) ?next = (state', path', index')"
        using 1(4) unfolding Some walk_up_step [OF True] .
      moreover have "case ?next of None \<Rightarrow> True | Some k \<Rightarrow> k < length parents"
        using 1(2,3) True by (auto dest: spec [of _ i])
      ultimately show ?thesis using 1(1) [OF Some True 1(2)] 1(3) by simp
    qed
  qed
qed

lemma mark_complete_spec:
  "length (mark_complete path state) = length state \<and>
   (\<forall>i < length state. mark_complete path state ! i = (if i \<in> set path then 2 else state ! i))"
  by (induction path arbitrary: state) (auto simp: nth_list_update)

lemma walk_all_ordered:
  assumes "\<forall>i < length parents. parents ! i \<noteq> 0 \<longrightarrow> parents ! i - 1 < i" and "length state = length parents"
    and "\<forall>i < length state. state ! i \<in> {0, 2}" and "\<forall>i \<in> set starts. i < length parents"
  shows "walk_all parents starts state = Inr ()"
  using assms(2-)
proof (induction starts arbitrary: state)
  case (Cons start starts)
  show ?case
  proof (cases "state ! start = 0")
    case True
    obtain state' path index where w: "walk_up parents state [] (Some start) = (state', path, index)"
      by (metis prod_cases3)
    have start: "start < length state" using Cons.prems by simp
    have "\<forall>i < length state. state ! i = 1 \<longrightarrow> i \<in> set []" "\<forall>i < length state. state ! i \<in> {0, 1, 2}"
      using Cons.prems(2) by auto
    note up = walk_up_descends [OF assms(1) Cons.prems(1) this(1) _ this(2) w, simplified]
    have bounded: "i < length parents" if "index = Some i" for i
      using walk_up_index [OF assms(1) Cons.prems(1) w] that start Cons.prems(1) by auto
    have states: "\<forall>i < length (mark_complete path state'). mark_complete path state' ! i \<in> {0, 2}"
      using up mark_complete_spec [of path state'] by auto
    have "walk_all parents starts (mark_complete path state') = Inr ()"
      using Cons.IH [OF _ states] up mark_complete_spec [of path state'] Cons.prems(3) by simp
    moreover have "\<not> (case index of None \<Rightarrow> False | Some i \<Rightarrow> state' ! i = 1)"
      using up bounded by (auto split: option.splits)
    ultimately show ?thesis using True w by simp
  qed (use Cons in simp)
qed simp

lemma parent_indices:
  assumes "index_entries es 0 Map.empty = Inr m"
  shows "rmap (parent_index m) es = Inr parents \<longleftrightarrow> length parents = length es \<and>
    (\<forall>i < length es. case pe_parentId (es ! i) of None \<Rightarrow> parents ! i = 0
      | Some p \<Rightarrow> \<exists>j < length es. pe_id (es ! j) = p \<and> parents ! i = j + 1)"
proof -
  have "parent_index m e = Inr q \<longleftrightarrow> (case pe_parentId e of None \<Rightarrow> q = 0
      | Some p \<Rightarrow> \<exists>j < length es. pe_id (es ! j) = p \<and> q = j + 1)" for e q
  proof -
    have "(\<exists>j < length es. pe_id (es ! j) = p \<and> q = j + 1) \<longleftrightarrow> (\<exists>j. m p = Some j \<and> q = j + 1)" for p
      using index_entries_spec(2) [OF assms] by auto
    then show ?thesis by (cases "pe_parentId e") (auto simp: parent_index_def split: option.splits)
  qed
  then show ?thesis unfolding rmap_eq_Inr list_all2_conv_all_nth by auto
qed

lemma validate_iff: "validatePublicEntryGraph es = Inr () \<longleftrightarrow> ordered_log (rev es)"
  unfolding parents_earlier_log [symmetric]
proof
  assume "validatePublicEntryGraph es = Inr ()"
  then obtain m parents where m: "index_entries es 0 Map.empty = Inr m"
    and parents: "rmap (parent_index m) es = Inr parents"
    and "\<not> (\<exists>index \<in> {0 ..< length parents}. parents ! index \<noteq> 0 \<and> parents ! index - 1 \<ge> index)"
    by (auto simp: validatePublicEntryGraph_def rbind_eq_Inr simp del: bex_simps split: if_splits)
  then have order: "\<forall>i < length parents. parents ! i \<noteq> 0 \<longrightarrow> parents ! i - 1 < i"
    by (meson atLeastLessThan_iff le0 not_le)
  note p = parents [unfolded parent_indices [OF m]]
  have "distinct (map pe_id es)" using index_entries_spec(1) m by blast
  moreover have "case pe_parentId (es ! i) of None \<Rightarrow> True | Some p \<Rightarrow> \<exists>j < i. pe_id (es ! j) = p" if "i < length es" for i
  proof (cases "pe_parentId (es ! i)")
    case (Some q)
    with p that obtain j where "pe_id (es ! j) = q" "parents ! i = j + 1" by fastforce
    moreover from this have "parents ! i - 1 < i" using order [rule_format, of i] p that by simp
    ultimately show ?thesis unfolding Some option.case by (intro exI [of _ j]) simp
  qed simp
  ultimately show "parents_earlier es" by (simp add: parents_earlier_def)
next
  assume earlier: "parents_earlier es"
  then obtain m where m: "index_entries es 0 Map.empty = Inr m"
    using index_entries_spec(1) by (auto simp: parents_earlier_def)
  define parents where "parents = map (\<lambda>e. case pe_parentId e of None \<Rightarrow> 0 | Some p \<Rightarrow> Suc (the (m p))) es"
  have at: "case pe_parentId (es ! i) of None \<Rightarrow> parents ! i = 0
      | Some p \<Rightarrow> \<exists>j < i. pe_id (es ! j) = p \<and> parents ! i = j + 1" if i: "i < length es" for i
  proof (cases "pe_parentId (es ! i)")
    case None
    then show ?thesis using i by (simp add: parents_def)
  next
    case (Some q)
    then obtain j where j: "j < i" "pe_id (es ! j) = q" using earlier i by (force simp: parents_earlier_def)
    then have "m q = Some j" using index_entries_spec(2) [OF m] i by simp
    then show ?thesis using Some i j by (auto simp: parents_def)
  qed
  then have parents: "rmap (parent_index m) es = Inr parents"
    unfolding parent_indices [OF m] by (fastforce simp: parents_def split: option.splits)
  have order: "\<forall>i < length parents. parents ! i \<noteq> 0 \<longrightarrow> parents ! i - 1 < i"
  proof (intro allI impI)
    fix i assume i: "i < length parents" "parents ! i \<noteq> 0"
    then have "i < length es" by (simp add: parents_def)
    from at [OF this] i(2) show "parents ! i - 1 < i" by (auto split: option.splits)
  qed
  have "walk_all parents [0 ..< length es] (replicate (length es) 0) = Inr ()"
    by (rule walk_all_ordered [OF order]) (auto simp: parents_def)
  with m parents order show "validatePublicEntryGraph es = Inr ()"
    by (auto simp: validatePublicEntryGraph_def not_le)
qed

subsection \<open>The shared coordinates\<close>

lemma index_stable_spec:
  "indexStableCoordinates cs k m = Inr m' \<Longrightarrow> (\<And>x c i. m x = Some (c, i) \<Longrightarrow> i < k) \<Longrightarrow>
     (\<forall>x c i. m' x = Some (c, i) \<longrightarrow> m x = Some (c, i) \<or> k \<le> i \<and> i < k + length cs \<and> cs ! (i - k) = c \<and> sc_id c = x)"
proof (induction cs arbitrary: k m)
  case (Cons c cs)
  have step: "indexStableCoordinates cs (Suc k) (m(sc_id c \<mapsto> (c, k))) = Inr m'" using Cons.prems(1) by (simp split: if_splits)
  have bound: "i < Suc k" if "(m(sc_id c \<mapsto> (c, k))) x = Some (d, i)" for x d i
    using that Cons.prems(2) by (auto split: if_splits intro: less_SucI)
  have ih: "\<forall>x d i. m' x = Some (d, i) \<longrightarrow> (m(sc_id c \<mapsto> (c, k))) x = Some (d, i) \<or>
      Suc k \<le> i \<and> i < Suc k + length cs \<and> cs ! (i - Suc k) = d \<and> sc_id d = x"
    by (rule Cons.IH [OF step]) (rule bound)
  show ?case
  proof (intro allI impI)
    fix x d i assume "m' x = Some (d, i)"
    with ih consider "(m(sc_id c \<mapsto> (c, k))) x = Some (d, i)"
      | "Suc k \<le> i" "i < Suc k + length cs" "cs ! (i - Suc k) = d" "sc_id d = x" by blast
    then show "m x = Some (d, i) \<or> k \<le> i \<and> i < k + length (c # cs) \<and> (c # cs) ! (i - k) = d \<and> sc_id d = x"
    proof cases
      case 2
      then have "i - k = Suc (i - Suc k)" by simp
      then show ?thesis using 2 by simp
    qed (auto split: if_splits)
  qed
qed simp

text \<open>What the loop has proved of the ids it has collected.\<close>

definition shared_prefix :: "stable_coordinate list \<Rightarrow> string list \<Rightarrow> int \<Rightarrow> bool" where
  "shared_prefix source ids lastIndex \<longleftrightarrow> lastIndex < int (length source) \<and> - 1 \<le> lastIndex \<and>
     subseq ids (map sc_id (take (nat (lastIndex + 1)) source))"

lemma proven_loop_ordered:
  assumes index: "indexStableCoordinates source 0 Map.empty = Inr byId"
  shows "shared_prefix source ids lastIndex \<Longrightarrow> subseq (proven_loop byId cs ids lastIndex) (map sc_id source)"
proof (induction cs arbitrary: ids lastIndex)
  case Nil
  then show ?case
    using subseq_order.trans [of ids "map sc_id (take (nat (lastIndex + 1)) source)" "map sc_id source"]
    by (simp add: shared_prefix_def take_map [symmetric] prefix_imp_subseq take_is_prefix)
next
  case (Cons c cs)
  show ?case
  proof (cases "byId (sc_id c)")
    case (Some si)
    obtain s i where si: "si = (s, i)" by (cases si)
    have i: "i < length source" "sc_id (source ! i) = sc_id c"
      using index_stable_spec [OF index] Some si by auto
    have "shared_prefix source (ids @ [sc_id c]) (int i)" if "lastIndex < int i"
    proof -
      have "take (Suc i) source = take i source @ [source ! i]" using i(1) by (rule take_Suc_conv_app_nth)
      moreover have "subseq ids (map sc_id (take i source))"
      proof -
        have "nat (lastIndex + 1) \<le> i" using that Cons.prems by (simp add: shared_prefix_def)
        then have "take (nat (lastIndex + 1)) source = take (nat (lastIndex + 1)) (take i source)" by (simp add: min_absorb1)
        then have "subseq (map sc_id (take (nat (lastIndex + 1)) source)) (map sc_id (take i source))"
          by (metis prefix_imp_subseq subseq_map take_is_prefix)
        with Cons.prems show ?thesis using subseq_order.trans by (auto simp: shared_prefix_def)
      qed
      ultimately show ?thesis using i by (simp add: shared_prefix_def nat_add_distrib list_emb_append_mono)
    qed
    then show ?thesis using Cons Some si by (auto simp: not_le)
  qed (use Cons in simp)
qed

lemma proven_loop_child: "subseq ids (map sc_id done) \<Longrightarrow>
    subseq (proven_loop byId cs ids lastIndex) (map sc_id (done @ cs))"
proof (induction cs arbitrary: ids lastIndex "done")
  case (Cons c cs)
  have keep: "subseq ids (map sc_id (done @ [c]))"
    using Cons.prems by (simp add: list_emb_append_mono [of _ ids _ "[]", simplified])
  have add: "subseq (ids @ [sc_id c]) (map sc_id (done @ [c]))"
    using Cons.prems by (simp add: list_emb_append_mono)
  show ?case
    using Cons.IH [OF keep] Cons.IH [OF add] by (auto split: option.splits)
qed simp

lemma proven_loop_facts:
  assumes index: "indexStableCoordinates source 0 Map.empty = Inr byId"
  shows "x \<in> set (proven_loop byId cs ids lastIndex) \<Longrightarrow> x \<in> set ids \<or>
    (\<exists>c \<in> set cs. c \<in> set source \<and> sc_id c = x \<and>
      (case sc_stableParentId c of None \<Rightarrow> True | Some p \<Rightarrow> p \<in> set (proven_loop byId cs ids lastIndex)))"
proof (induction cs arbitrary: ids lastIndex)
  case (Cons c cs)
  have grows: "set ids \<subseteq> set (proven_loop byId ds ids k)" for ds ids k
  proof (induction ds arbitrary: ids k)
    case (Cons d ds)
    have "set ids \<subseteq> set (proven_loop byId ds (ids @ [sc_id d]) k')" for k' using Cons [of "ids @ [sc_id d]" k'] by auto
    with Cons show ?case by (auto split: option.splits prod.splits)
  qed simp
  show ?case
  proof (cases "byId (sc_id c)")
    case None
    then have same: "proven_loop byId (c # cs) ids lastIndex = proven_loop byId cs ids lastIndex" by simp
    show ?thesis using Cons.IH [of ids lastIndex] Cons.prems unfolding same by auto
  next
    case (Some si)
    obtain s i where si: "si = (s, i)" by (cases si)
    have i: "i < length source" "source ! i = s" "sc_id s = sc_id c"
      using index_stable_spec [OF index] Some si by auto
    show ?thesis
    proof (cases "sc_type c \<noteq> sc_type s \<or> sc_messageRole c \<noteq> sc_messageRole s \<or> sc_stableParentId c \<noteq> sc_stableParentId s
        \<or> (case sc_stableParentId c of None \<Rightarrow> False | Some p \<Rightarrow> p \<notin> set ids) \<or> int i \<le> lastIndex")
      case True
      then have same: "proven_loop byId (c # cs) ids lastIndex = proven_loop byId cs ids lastIndex" using Some si by simp
      show ?thesis using Cons.IH [of ids lastIndex] Cons.prems unfolding same by auto
    next
      case False
      then have step: "proven_loop byId (c # cs) ids lastIndex = proven_loop byId cs (ids @ [sc_id c]) (int i)"
        using Some si by simp
      have "c = s" using False i(3) by (cases c; cases s) simp
      then have "c \<in> set source" using i nth_mem by metis
      moreover have "case sc_stableParentId c of None \<Rightarrow> True | Some p \<Rightarrow> p \<in> set (proven_loop byId cs (ids @ [sc_id c]) (int i))"
        using False grows [of "ids @ [sc_id c]" cs "int i"] by (auto split: option.splits)
      ultimately show ?thesis using Cons.IH [of "ids @ [sc_id c]" "int i"] Cons.prems unfolding step by auto
    qed
  qed
qed simp

subsection \<open>Paths of coordinates\<close>

lemma stable_chain_in: "c \<in> set (stable_chain log x) \<Longrightarrow> c \<in> pe_id ` set log"
proof (induction log arbitrary: x)
  case (Cons e older)
  then show ?case by (cases x) (auto split: if_splits)
qed (cases x; simp)

lemma stable_chain_distinct: "ordered_log log \<Longrightarrow> distinct (stable_chain log x)"
proof (induction log arbitrary: x)
  case (Cons e older)
  then show ?case by (cases x) (auto dest: stable_chain_in)
qed simp

lemma stable_chain_prefix:
  "ordered_log log \<Longrightarrow> stable_chain log x = xs @ c # ys \<Longrightarrow> stable_chain log (Some c) = xs @ [c]"
proof (induction log arbitrary: x xs ys)
  case (Cons e older)
  then obtain y where x: "x = Some y" by (cases x) auto
  have older: "stable_chain (e # older) (Some c) = stable_chain older (Some c)" if "c \<in> pe_id ` set older"
    using Cons(2) that by auto
  show ?case
  proof (cases "pe_id e = y")
    case False
    then have chain: "stable_chain older (Some y) = xs @ c # ys" using Cons(3) x by simp
    then have "c \<in> pe_id ` set older" using stable_chain_in [of c older "Some y"] by simp
    then show ?thesis using older Cons(1) [OF _ chain] Cons(2) by simp
  next
    case True
    then have split: "stable_chain older (pe_parentId e) @ (if publicEntryIsTransparent e then [] else [y]) = xs @ c # ys"
      using Cons(3) x by simp
    show ?thesis
    proof (cases "publicEntryIsTransparent e \<or> ys \<noteq> []")
      case True
      then obtain zs where chain: "stable_chain older (pe_parentId e) = xs @ c # zs"
        using split by (cases ys rule: rev_cases) (auto split: if_splits)
      then have "c \<in> pe_id ` set older" using stable_chain_in [of c older "pe_parentId e"] by simp
      then show ?thesis using older Cons(1) [OF _ chain] Cons(2) by simp
    next
      case False
      then have "stable_chain older (pe_parentId e) = xs \<and> c = y" using split by auto
      then show ?thesis using True False by simp
    qed
  qed
qed simp

subsection \<open>Properties\<close>

definition sample_log :: "public_entry list" where
  "sample_log =
     [\<lparr>pe_id = ''u1'', pe_parentId = None, pe_type = ''message'', pe_messageRole = Some ''user''\<rparr>,
      \<lparr>pe_id = ''l1'', pe_parentId = Some ''u1'', pe_type = ''label'', pe_messageRole = None\<rparr>,
      \<lparr>pe_id = ''a1'', pe_parentId = Some ''l1'', pe_type = ''message'', pe_messageRole = Some ''assistant''\<rparr>]"

text \<open>One notion of a session log: the graph walk over indices and the stable projection accept the same
  entry lists, those with unique ids in which every parent precedes its child.\<close>

theorem session_logs_are_append_ordered:
  "(validatePublicEntryGraph es = Inr ()) = parents_earlier es \<and>
   ((\<exists>g. projectStableGraph es = Inr g) = parents_earlier es)"
  using validate_iff [of es] project_graph [of es] parents_earlier_log [of es] by blast

lemma stable_queries:
  assumes "projectStableGraph es = Inr g"
  shows "stableAncestryIds g x = Some (case x of None \<Rightarrow> Some []
      | Some y \<Rightarrow> if y \<in> pe_id ` set es then Some (stable_chain (rev es) x) else None) \<and>
    stableCoordinateId g x = (case x of None \<Rightarrow> Some None
      | Some y \<Rightarrow> if y \<in> pe_id ` set es then Some (if stable_chain (rev es) x = [] then None
          else Some (last (stable_chain (rev es) x))) else None)"
proof (cases x)
  case (Some y)
  have g: "graph_of (rev es) g" and o: "ordered_log (rev es)" using project_graph [of es] assms by blast+
  then have near: "nearestStable g y = (if y \<in> pe_id ` set es then Some (nearest (rev es) (Some y)) else None)"
    and climbs: "climbs g (rev es)" by (simp_all add: graph_of_def)
  show ?thesis
    using near stable_climb_chain [OF climbs o, of "Some y" "[]"] Some
    by (simp add: stableAncestryIds_def stableCoordinateId_def) (simp add: nearest_def)
qed (simp add: stableAncestryIds_def stableCoordinateId_def)

text \<open>Stable coordinates: in a projected session every ancestry query returns, with the ids of the
  non-transparent entries on the path from the root to the entry, and the coordinate of an entry is the
  last of them.\<close>

theorem stable_ancestry_is_the_path:
  assumes "projectStableGraph es = Inr g"
  shows "stableAncestryIds g x = Some (case x of None \<Rightarrow> Some []
      | Some y \<Rightarrow> if y \<in> pe_id ` set es then Some (stable_chain (rev es) x) else None) \<and>
    stableCoordinateId g x = (case x of None \<Rightarrow> Some None
      | Some y \<Rightarrow> if y \<in> pe_id ` set es then Some (if stable_chain (rev es) x = [] then None
          else Some (last (stable_chain (rev es) x))) else None)"
  using assms by (rule stable_queries)

theorem stable_ancestry_is_the_path_witness:
  "\<exists>g. projectStableGraph sample_log = Inr g \<and> stableAncestryIds g (Some ''a1'') = Some (Some [''u1'', ''a1''])"
proof -
  have "validatePublicEntryGraph sample_log = Inr ()" by code_simp
  then obtain g where g: "projectStableGraph sample_log = Inr g"
    using validate_iff [of sample_log] project_graph [of sample_log] by blast
  have "stable_chain (rev sample_log) (Some ''a1'') = [''u1'', ''a1'']" and "''a1'' \<in> pe_id ` set sample_log"
    by code_simp+
  with stable_ancestry_is_the_path [OF g, of "Some ''a1''"] g show ?thesis by auto
qed

text \<open>C19. What a fork provably shares: the proven ids occur in the order of both projections, each belongs to
  one coordinate that both hold identically, and the stable parent of every proven coordinate is proven.\<close>

theorem proven_coordinates_are_shared:
  assumes "provenStableCoordinateIds source child = Inr ids"
  shows "subseq ids (map sc_id source) \<and> subseq ids (map sc_id child) \<and>
    (\<forall>x \<in> set ids. \<exists>c \<in> set source \<inter> set child. sc_id c = x \<and>
       (case sc_stableParentId c of None \<Rightarrow> True | Some p \<Rightarrow> p \<in> set ids))"
proof -
  obtain byId where byId: "indexStableCoordinates source 0 Map.empty = Inr byId"
    and ids: "ids = proven_loop byId child [] (- 1)"
    using assms by (auto simp: provenStableCoordinateIds_def rbind_eq_Inr)
  have "subseq ids (map sc_id source)"
    unfolding ids by (rule proven_loop_ordered [OF byId]) (simp add: shared_prefix_def)
  moreover have "subseq ids (map sc_id child)"
    unfolding ids using proven_loop_child [of "[]" "[]" byId child "- 1"] by simp
  moreover have "\<exists>c \<in> set source \<inter> set child. sc_id c = x \<and>
      (case sc_stableParentId c of None \<Rightarrow> True | Some p \<Rightarrow> p \<in> set ids)" if "x \<in> set ids" for x
    using proven_loop_facts [OF byId, of x child "[]" "- 1"] that unfolding ids by auto
  ultimately show ?thesis by blast
qed

theorem proven_coordinates_are_shared_witness:
  "\<exists>ids. provenStableCoordinateIds (log_coordinates (rev sample_log)) (log_coordinates (rev sample_log)) = Inr ids \<and>
     subseq ids [''u1'', ''a1''] \<and> ids = [''u1'', ''a1'']"
proof -
  have eq: "provenStableCoordinateIds (log_coordinates (rev sample_log)) (log_coordinates (rev sample_log))
      = Inr [''u1'', ''a1'']" by code_simp
  have "map sc_id (log_coordinates (rev sample_log)) = [''u1'', ''a1'']" by code_simp
  with proven_coordinates_are_shared [OF eq] eq show ?thesis by auto
qed

end
