(* ===== verification/Checkpoint_Service.thy ===== *)
theory Checkpoint_Service
  imports Snapshot_Publication Metadata_Properties Session_Graph
begin

text \<open>
  Capture and the checkpoint service (\<^verbatim>\<open>application/capture.ts\<close>, \<^verbatim>\<open>application/checkpoint-service.ts\<close>): a
  workspace is scanned, published, scanned again, and the tree is committed at an authenticated coordinate
  of the session. The world of these operations holds the metadata tables beside the error objects; scanning,
  the object store and the final workspace check are arguments. Asynchronous steps of one operation run in
  the order in which they are awaited.
\<close>

subsection \<open>Failures of a capture\<close>

datatype capture_phase = Capture_phase | Validation_phase
datatype state_change = Checkpoint_changed | Eligibility_changed
datatype workspace_change = Root_changed | Contents_changed

datatype capture_failure =
    Cancelled
  | Scan_incomplete capture_phase "scan_problem list"
  | Scan_failed capture_phase failure
  | Publish_failed failure
  | History_reset metadata_history_reset_reason failure
  | Metadata_failed failure
  | State_changed state_change
  | Write_protected
  | Workspace_changed workspace_change

record capture_success =
  captured_tree :: tree_oid
  captured_snapshot :: workspace_snapshot

type_synonym capture_result = "capture_failure + capture_success"

record node_key =
  node_session :: string
  node_entry :: string

record service_world = operation_world +
  metadata :: metadata_db

type_synonym ('w, 'a) service = "'w service_world_scheme \<Rightarrow> (failure + 'a) \<times> 'w service_world_scheme"

subsection \<open>Preparing a tree\<close>

text \<open>What a capture is given: the workspace root selected before, the scanner with its effective options and
  everything that publishing needs.\<close>

record 's capture_deps =
  expectedRootPath :: js_string
  scanWorkspace :: "capture_phase \<Rightarrow> js_string \<Rightarrow> 's \<Rightarrow> (failure + workspace_snapshot) \<times> 's"
  tables :: unicode
  path_api :: path_module
  objects :: "'s publication"
  withWorkspaceLock :: "('s \<Rightarrow> (failure + string) \<times> 's) \<Rightarrow> 's \<Rightarrow> (failure + string) \<times> 's"
  lane_schedule :: "nat list"
  writeAuthority :: bool

text \<open>A cyclic chain of causes, on which the test does not return, counts as no cancellation.\<close>

definition operation_cancelled :: "'w operation_world_scheme \<Rightarrow> failure \<Rightarrow> bool" where
  "operation_cancelled w e \<longleftrightarrow> isOperationCancelled (error_objects w) e (abort_reason w) = Some True"

definition publish :: "'w operation_world_scheme capture_deps \<Rightarrow> workspace_snapshot \<Rightarrow> ('w, string) operation" where
  "publish deps snapshot =
     publishSnapshot (tables deps) (path_api deps) (objects deps) (withWorkspaceLock deps) (lane_schedule deps)
       (writeAuthority deps) snapshot"

definition prepareObservedNodeState ::
  "'w operation_world_scheme capture_deps \<Rightarrow> workspace_snapshot \<Rightarrow> ('w, capture_result) operation" where
  "prepareObservedNodeState deps snapshot w =
     (if abort_reason w \<noteq> None then (Inr (Inl Cancelled), w)
      else if rootPath snapshot \<noteq> expectedRootPath deps then (Inr (Inl (Workspace_changed Root_changed)), w)
      else if ws_problems snapshot \<noteq> []
      then (Inr (Inl (Scan_incomplete Capture_phase (ws_problems snapshot))), w)
      else case publish deps snapshot w of
        (Inl e, w1) \<Rightarrow>
          (Inr (Inl (if operation_cancelled w1 e then Cancelled else Publish_failed e)), w1)
      | (Inr treeOid, w1) \<Rightarrow>
          (case scanWorkspace deps Validation_phase (rootPath snapshot) w1 of
             (Inl e, w2) \<Rightarrow>
               (Inr (Inl (if operation_cancelled w2 e then Cancelled else Scan_failed Validation_phase e)), w2)
           | (Inr validated, w2) \<Rightarrow>
               if abort_reason w2 \<noteq> None then (Inr (Inl Cancelled), w2)
               else if ws_problems validated \<noteq> []
               then (Inr (Inl (Scan_incomplete Validation_phase (ws_problems validated))), w2)
               else case workspaceSnapshotsEqual (tables deps) snapshot validated of
                 Inl e \<Rightarrow> throw_error e w2
               | Inr same \<Rightarrow>
                   if \<not> same then (Inr (Inl (Workspace_changed Contents_changed)), w2)
                   else (Inr (Inr \<lparr>captured_tree = treeOid, captured_snapshot = validated\<rparr>), w2)))"

definition prepareNodeState :: "'w operation_world_scheme capture_deps \<Rightarrow> js_string \<Rightarrow> ('w, capture_result) operation" where
  "prepareNodeState deps root w =
     (case scanWorkspace deps Capture_phase root w of
        (Inl e, w1) \<Rightarrow>
          (Inr (Inl (if operation_cancelled w1 e then Cancelled else Scan_failed Capture_phase e)), w1)
      | (Inr snapshot, w1) \<Rightarrow> prepareObservedNodeState deps snapshot w1)"

subsection \<open>Committing a tree\<close>

definition metadataWriteFailure :: "error_heap \<Rightarrow> failure \<Rightarrow> capture_failure" where
  "metadataWriteFailure h cause =
     (case metadataHistoryResetIn h cause of
        None \<Rightarrow> Metadata_failed cause
      | Some reset \<Rightarrow>
          (case thrown_at h reset of
             Error_object (Exception (MetadataHistoryResetError reason _ _)) _ _ \<Rightarrow> History_reset reason reset
           | _ \<Rightarrow> Metadata_failed cause))"

record 's commit_deps =
  connection :: metadata_connection
  commit_authority :: bool
  expectedSessionFile :: string
  assertWorkspaceAuthority :: "'s \<Rightarrow> (failure + unit) \<times> 's"

text \<open>A synchronous metadata operation on the tables of the world; an exception leaves them as they were.\<close>

definition on_metadata :: "(metadata_db \<Rightarrow> ('a \<times> metadata_db) result) \<Rightarrow> ('w, 'a) service" where
  "on_metadata operation w =
     (case operation (metadata w) of Inl e \<Rightarrow> throw_error e w | Inr (x, db) \<Rightarrow> (Inr x, w\<lparr>metadata := db\<rparr>))"

text \<open>\<^verbatim>\<open>try { ... } catch (error) { return failure(metadataWriteFailure(error)); }\<close>.\<close>

definition or_metadata_failure :: "('w, capture_result) service \<Rightarrow> 'w service_world_scheme \<Rightarrow> capture_result \<times> 'w service_world_scheme" where
  "or_metadata_failure body w =
     (case body w of (Inl e, w') \<Rightarrow> (Inl (metadataWriteFailure (error_objects w') e), w') | (Inr r, w') \<Rightarrow> (r, w'))"

definition commitPreparedNodeState :: "'w service_world_scheme commit_deps \<Rightarrow> node_key \<Rightarrow> capture_success \<Rightarrow> string list \<Rightarrow>
    checkpoint_slot \<Rightarrow> 'w service_world_scheme \<Rightarrow> capture_result \<times> 'w service_world_scheme" where
  "commitPreparedNodeState deps node prepared ancestryIds expectedSlot =
     or_metadata_failure
       (ebind (assertWorkspaceAuthority deps) (\<lambda>_.
        ebind (on_metadata (commitCapture (connection deps) (commit_authority deps)
            \<lparr>cc_identity = \<lparr>sessionId = node_session node, sessionFile = expectedSessionFile deps\<rparr>,
             cc_entryId = node_entry node, cc_activeAncestryEntryIds = ancestryIds,
             cc_treeOid = captured_tree prepared, cc_expectedSlot = expectedSlot\<rparr>)) (\<lambda>committed.
        Pair (Inr (case committed of
            Slot_changed \<Rightarrow> Inl (State_changed Checkpoint_changed)
          | Blocked \<Rightarrow> Inl Write_protected
          | Committed \<Rightarrow> Inr prepared)))))"

datatype missing_intent = Initialize_fresh | Adopt_protected

definition commitPreparedMissingNodeState :: "'w service_world_scheme commit_deps \<Rightarrow> node_key \<Rightarrow> capture_success \<Rightarrow>
    missing_intent \<Rightarrow> string list \<Rightarrow> 'w service_world_scheme \<Rightarrow> capture_result \<times> 'w service_world_scheme" where
  "commitPreparedMissingNodeState deps node prepared intent ancestryIds =
     or_metadata_failure
       (ebind (assertWorkspaceAuthority deps) (\<lambda>_.
         let identity = \<lparr>sessionId = node_session node, sessionFile = expectedSessionFile deps\<rparr> in
         case intent of
           Adopt_protected \<Rightarrow>
             ebind (on_metadata (adoptBlockedMissing (connection deps) (commit_authority deps) identity
                 (node_entry node) (captured_tree prepared))) (\<lambda>committed.
             Pair (Inr (if committed = Adopt_slot_changed then Inl (State_changed Eligibility_changed) else Inr prepared)))
         | Initialize_fresh \<Rightarrow>
             ebind (on_metadata (commitCapture (connection deps) (commit_authority deps)
                 \<lparr>cc_identity = identity, cc_entryId = node_entry node, cc_activeAncestryEntryIds = ancestryIds,
                  cc_treeOid = captured_tree prepared, cc_expectedSlot = Open_missing\<rparr>)) (\<lambda>committed.
             Pair (Inr (if committed = Slot_changed \<or> committed = Blocked
               then Inl (State_changed Eligibility_changed) else Inr prepared)))))"

subsection \<open>The checkpoint service\<close>

text \<open>The authenticated facts about a session. \<open>None\<close> outside is \<^verbatim>\<open>undefined\<close>.\<close>

record checkpoint_session_view =
  view_sessionId :: string
  view_cwd :: js_string
  view_leafId :: "string option"
  view_coordinate :: "string option \<Rightarrow> string option option"
  view_ancestry :: "string option \<Rightarrow> string list option"

record 's checkpoint_service =
  capture_part :: "'s capture_deps"
  service_connection :: metadata_connection
  readTree :: "tree_oid \<Rightarrow> 's \<Rightarrow> (failure + tree_manifest) \<times> 's"
  validateManifestScope :: "tree_manifest \<Rightarrow> 's \<Rightarrow> (failure + js_string option) \<times> 's"

record 's checkpoint_commit_authority =
  ca_writeAuthority :: bool
  ca_expectedSessionFile :: string
  ca_assertWorkspaceAuthority :: "'s \<Rightarrow> (failure + unit) \<times> 's"

definition captureAnchor :: "checkpoint_session_view \<Rightarrow> string option \<Rightarrow> node_key option result" where
  "captureAnchor view leafId =
     (case view_coordinate view leafId of
        None \<Rightarrow> Inl PlainError
      | Some None \<Rightarrow> Inr None
      | Some (Some entryId) \<Rightarrow> Inr (Some \<lparr>node_session = view_sessionId view, node_entry = entryId\<rparr>))"

definition ancestryEntryIds :: "checkpoint_session_view \<Rightarrow> string option \<Rightarrow> string list result" where
  "ancestryEntryIds view leafId = (case view_ancestry view leafId of None \<Rightarrow> Inl PlainError | Some ancestry \<Rightarrow> Inr ancestry)"

definition checkpointSlot :: "'s checkpoint_service \<Rightarrow> node_key \<Rightarrow> metadata_db \<Rightarrow> checkpoint_slot result" where
  "checkpointSlot svc node db = getCheckpointSlot (service_connection svc) db (node_session node) (node_entry node)"

definition locationIsBlocked :: "'s checkpoint_service \<Rightarrow> node_key \<Rightarrow> metadata_db \<Rightarrow> bool result" where
  "locationIsBlocked svc node db = rbind (checkpointSlot svc node db) (\<lambda>slot. Inr (checkpointSlotIsBlocked slot))"

definition assertSession :: "checkpoint_session_view \<Rightarrow> node_key \<Rightarrow> unit result" where
  "assertSession view node = (if node_session node \<noteq> view_sessionId view then Inl PlainError else Inr ())"

definition assertActiveCoordinate :: "checkpoint_session_view \<Rightarrow> node_key \<Rightarrow> unit result" where
  "assertActiveCoordinate view node =
     rbind (assertSession view node) (\<lambda>_.
     rbind (captureAnchor view (view_leafId view)) (\<lambda>active.
       case active of
         None \<Rightarrow> Inl PlainError
       | Some a \<Rightarrow> if node_entry a \<noteq> node_entry node then Inl PlainError else Inr ()))"

definition assertActiveAncestryCoordinate :: "checkpoint_session_view \<Rightarrow> node_key \<Rightarrow> unit result" where
  "assertActiveAncestryCoordinate view node =
     rbind (assertSession view node) (\<lambda>_.
     rbind (ancestryEntryIds view (view_leafId view)) (\<lambda>ancestry.
       if node_entry node \<notin> set ancestry then Inl PlainError else Inr ()))"

record resolved_node_state =
  resolved_tree :: tree_oid
  foundAt :: node_key

definition resolve :: "'s checkpoint_service \<Rightarrow> checkpoint_session_view \<Rightarrow> node_key \<Rightarrow> metadata_db \<Rightarrow>
    resolved_node_state option result" where
  "resolve svc view node db =
     rbind (assertSession view node) (\<lambda>_.
     rbind (ancestryEntryIds view (Some (node_entry node))) (\<lambda>ancestry.
     rbind (resolveLineage (service_connection svc) db (node_session node) ancestry) (\<lambda>reduced.
       case resolution_of reduced of
         Missing \<Rightarrow> Inr None
       | Checkpoint entryId treeOid \<Rightarrow>
           Inr (Some \<lparr>resolved_tree = treeOid,
                 foundAt = \<lparr>node_session = node_session node, node_entry = entryId\<rparr>\<rparr>))))"

record resolved_readable_tree =
  readable_resolution :: resolved_node_state
  readable_manifest :: tree_manifest
  readable_gitVersion :: "js_string option"

definition resolveReadableTree :: "'w service_world_scheme checkpoint_service \<Rightarrow> checkpoint_session_view \<Rightarrow> node_key \<Rightarrow>
    ('w, resolved_readable_tree option) service" where
  "resolveReadableTree svc view node =
     ebind (\<lambda>w. lift_result (resolve svc view node (metadata w)) w) (\<lambda>resolution.
       case resolution of
         None \<Rightarrow> Pair (Inr None)
       | Some r \<Rightarrow>
           ebind (readTree svc (resolved_tree r)) (\<lambda>manifest.
           ebind (validateManifestScope svc manifest) (\<lambda>gitVersion.
             Pair (Inr (Some \<lparr>readable_resolution = r, readable_manifest = manifest, readable_gitVersion = gitVersion\<rparr>)))))"

definition prepareCurrent :: "'w service_world_scheme checkpoint_service \<Rightarrow> checkpoint_session_view \<Rightarrow> ('w, capture_result) service" where
  "prepareCurrent svc view = prepareNodeState (capture_part svc) (view_cwd view)"

definition prepareObserved :: "'w service_world_scheme checkpoint_service \<Rightarrow> workspace_snapshot \<Rightarrow> ('w, capture_result) service" where
  "prepareObserved svc snapshot = prepareObservedNodeState (capture_part svc) snapshot"

definition commitDeps :: "'s checkpoint_service \<Rightarrow> 's checkpoint_commit_authority \<Rightarrow> 's commit_deps" where
  "commitDeps svc authority =
     \<lparr>connection = service_connection svc, commit_authority = ca_writeAuthority authority,
      expectedSessionFile = ca_expectedSessionFile authority,
      assertWorkspaceAuthority = ca_assertWorkspaceAuthority authority\<rparr>"

definition as_result :: "('s \<Rightarrow> 'a \<times> 's) \<Rightarrow> 's \<Rightarrow> (failure + 'a) \<times> 's" where
  "as_result f w = (let (r, w') = f w in (Inr r, w'))"

lemma as_result_Inr: "as_result f w = (Inr r, w') \<longleftrightarrow> f w = (r, w')"
  by (cases "f w") (simp add: as_result_def)

text \<open>The private \<^verbatim>\<open>#commitPrepared\<close>; the exceptions of the checks around it are thrown, not returned.\<close>

definition commit_prepared :: "'w service_world_scheme checkpoint_service \<Rightarrow> checkpoint_session_view \<Rightarrow> node_key \<Rightarrow> capture_success \<Rightarrow>
    checkpoint_slot \<Rightarrow> 'w service_world_scheme checkpoint_commit_authority \<Rightarrow> ('w, capture_result) service" where
  "commit_prepared svc view node prepared expectedSlot authority =
     ebind (lift_result (ancestryEntryIds view (Some (node_entry node)))) (\<lambda>ancestry.
       as_result (commitPreparedNodeState (commitDeps svc authority) node prepared ancestry expectedSlot))"

definition commitPrepared :: "'w service_world_scheme checkpoint_service \<Rightarrow> checkpoint_session_view \<Rightarrow> node_key \<Rightarrow> capture_success \<Rightarrow>
    checkpoint_slot \<Rightarrow> 'w service_world_scheme checkpoint_commit_authority \<Rightarrow> ('w, capture_result) service" where
  "commitPrepared svc view node prepared expectedSlot authority =
     ebind (lift_result (assertActiveCoordinate view node)) (\<lambda>_.
       commit_prepared svc view node prepared expectedSlot authority)"

definition commitPreparedTreeArrival :: "'w service_world_scheme checkpoint_service \<Rightarrow> checkpoint_session_view \<Rightarrow> node_key \<Rightarrow>
    capture_success \<Rightarrow> checkpoint_slot \<Rightarrow> 'w service_world_scheme checkpoint_commit_authority \<Rightarrow> ('w, capture_result) service" where
  "commitPreparedTreeArrival svc view node prepared expectedSlot authority =
     ebind (lift_result (assertActiveAncestryCoordinate view node)) (\<lambda>_.
       commit_prepared svc view node prepared expectedSlot authority)"

definition commitMissing :: "'w service_world_scheme checkpoint_service \<Rightarrow> checkpoint_session_view \<Rightarrow> node_key \<Rightarrow> capture_success \<Rightarrow>
    missing_intent \<Rightarrow> 'w service_world_scheme checkpoint_commit_authority \<Rightarrow> ('w, capture_result) service" where
  "commitMissing svc view node prepared intent authority =
     ebind (lift_result (assertActiveCoordinate view node)) (\<lambda>_.
     ebind (lift_result (ancestryEntryIds view (Some (node_entry node)))) (\<lambda>ancestry.
       as_result (commitPreparedMissingNodeState (commitDeps svc authority) node prepared intent ancestry)))"

subsection \<open>The interface of an authenticated session view\<close>

text \<open>
  What the service relies on: a coordinate query and an ancestry query of the same location agree, ancestries
  have no repetition, and the ancestry of an ancestor is the path down to it.
\<close>

locale authenticated_view =
  fixes view :: checkpoint_session_view
  assumes coordinate_path: "view_coordinate view x = Some (Some c) \<Longrightarrow>
      \<exists>p. view_ancestry view x = Some (p @ [c]) \<and> view_ancestry view (Some c) = Some (p @ [c])"
    and path_distinct: "view_ancestry view x = Some p \<Longrightarrow> distinct p"
    and path_prefix: "view_ancestry view x = Some (p @ c # q) \<Longrightarrow> view_ancestry view (Some c) = Some (p @ [c])"
begin

lemma anchor_is_active:
  assumes "captureAnchor view (view_leafId view) = Inr (Some node)"
  shows "assertActiveCoordinate view node = Inr ()" and "assertActiveAncestryCoordinate view node = Inr ()"
    and "\<exists>p. ancestryEntryIds view (Some (node_entry node)) = Inr (p @ [node_entry node]) \<and> distinct (p @ [node_entry node])"
    and "node_session node = view_sessionId view"
proof -
  obtain c where c: "view_coordinate view (view_leafId view) = Some (Some c)"
      and node: "node = \<lparr>node_session = view_sessionId view, node_entry = c\<rparr>"
    using assms by (auto simp: captureAnchor_def split: option.splits)
  obtain p where p: "view_ancestry view (view_leafId view) = Some (p @ [c])" "view_ancestry view (Some c) = Some (p @ [c])"
    using coordinate_path [OF c] by blast
  show "assertActiveCoordinate view node = Inr ()"
    using assms by (simp add: assertActiveCoordinate_def assertSession_def node)
  show "assertActiveAncestryCoordinate view node = Inr ()"
    by (simp add: assertActiveAncestryCoordinate_def assertSession_def ancestryEntryIds_def node p(1))
  show "\<exists>p. ancestryEntryIds view (Some (node_entry node)) = Inr (p @ [node_entry node]) \<and> distinct (p @ [node_entry node])"
    using p(2) path_distinct [OF p(2)] by (auto simp: ancestryEntryIds_def node)
  show "node_session node = view_sessionId view" by (simp add: node)
qed

text \<open>An ancestor on the active path may be the target of a tree arrival; its own ancestry ends in it.\<close>

lemma arrival_path:
  assumes "assertActiveAncestryCoordinate view node = Inr ()"
  shows "\<exists>p. ancestryEntryIds view (Some (node_entry node)) = Inr (p @ [node_entry node]) \<and> distinct (p @ [node_entry node])"
proof -
  obtain a where a: "view_ancestry view (view_leafId view) = Some a" "node_entry node \<in> set a"
    using assms by (auto simp: assertActiveAncestryCoordinate_def ancestryEntryIds_def rbind_eq_Inr split: option.splits if_splits)
  then obtain p q where "a = p @ node_entry node # q" by (meson split_list)
  then have "view_ancestry view (Some (node_entry node)) = Some (p @ [node_entry node])" using a path_prefix by blast
  then show ?thesis using path_distinct [of _ "p @ [node_entry node]"] by (fastforce simp: ancestryEntryIds_def)
qed

end

subsection \<open>Projected sessions provide the interface\<close>

text \<open>The view that a session log gives.\<close>

definition log_view :: "string \<Rightarrow> js_string \<Rightarrow> string option \<Rightarrow> public_entry list \<Rightarrow> checkpoint_session_view" where
  "log_view sid cwd leaf es =
     (let g = (case projectStableGraph es of Inr g \<Rightarrow> g | Inl _ \<Rightarrow> empty_graph)
      in \<lparr>view_sessionId = sid, view_cwd = cwd, view_leafId = leaf, view_coordinate = stableCoordinateId g,
          view_ancestry = (\<lambda>x. case stableAncestryIds g x of None \<Rightarrow> None | Some r \<Rightarrow> r)\<rparr>)"

lemma log_view_path:
  fixes sid cwd leaf es
  defines "v \<equiv> log_view sid cwd leaf es"
  obtains log where "ordered_log log"
    and "\<And>x. view_ancestry v x = (case x of None \<Rightarrow> Some []
        | Some y \<Rightarrow> if y \<in> pe_id ` set log then Some (stable_chain log x) else None)"
    and "\<And>x. view_coordinate v x = (case x of None \<Rightarrow> Some None
        | Some y \<Rightarrow> if y \<in> pe_id ` set log then Some (if stable_chain log x = [] then None
            else Some (last (stable_chain log x))) else None)"
proof -
  obtain g es' where g: "projectStableGraph es' = Inr g"
      and v: "v = \<lparr>view_sessionId = sid, view_cwd = cwd, view_leafId = leaf, view_coordinate = stableCoordinateId g,
          view_ancestry = (\<lambda>x. case stableAncestryIds g x of None \<Rightarrow> None | Some r \<Rightarrow> r)\<rparr>"
  proof (cases "projectStableGraph es")
    case (Inl e)
    moreover have "projectStableGraph [] = Inr empty_graph" by (simp add: projectStableGraph_def)
    ultimately show ?thesis using that [of "[]" empty_graph] by (simp add: v_def log_view_def)
  next
    case (Inr g)
    then show ?thesis using that [of es g] by (simp add: v_def log_view_def)
  qed
  have ord: "ordered_log (rev es')" using project_graph [of es'] g by blast
  have anc: "view_ancestry v x = (case x of None \<Rightarrow> Some []
      | Some y \<Rightarrow> if y \<in> pe_id ` set (rev es') then Some (stable_chain (rev es') x) else None)" for x
    using stable_queries [OF g, of x] by (simp only: v checkpoint_session_view.simps set_rev option.case)
  have coord: "view_coordinate v x = (case x of None \<Rightarrow> Some None
      | Some y \<Rightarrow> if y \<in> pe_id ` set (rev es') then Some (if stable_chain (rev es') x = [] then None
            else Some (last (stable_chain (rev es') x))) else None)" for x
    using stable_queries [OF g, of x] by (simp only: v checkpoint_session_view.simps set_rev)
  show thesis using that [OF ord anc coord] .
qed

interpretation projected: authenticated_view "log_view sid cwd leaf es"
  for sid :: string and cwd :: js_string and leaf :: "string option" and es :: "public_entry list"
proof
  fix x c
  obtain log where log: "ordered_log log"
    and anc: "\<And>x. view_ancestry (log_view sid cwd leaf es) x = (case x of None \<Rightarrow> Some []
        | Some y \<Rightarrow> if y \<in> pe_id ` set log then Some (stable_chain log x) else None)"
    and coord: "\<And>x. view_coordinate (log_view sid cwd leaf es) x = (case x of None \<Rightarrow> Some None
        | Some y \<Rightarrow> if y \<in> pe_id ` set log then Some (if stable_chain log x = [] then None
            else Some (last (stable_chain log x))) else None)"
    using log_view_path by blast
  show "\<exists>p. view_ancestry (log_view sid cwd leaf es) x = Some (p @ [c]) \<and>
      view_ancestry (log_view sid cwd leaf es) (Some c) = Some (p @ [c])"
    if "view_coordinate (log_view sid cwd leaf es) x = Some (Some c)"
  proof -
    have chain: "stable_chain log x = butlast (stable_chain log x) @ [c]" and a: "view_ancestry (log_view sid cwd leaf es) x = Some (stable_chain log x)"
      using that by (auto simp: coord anc split: option.splits if_splits)
    have "c \<in> pe_id ` set log" using stable_chain_in [of c log x] chain by (metis in_set_conv_decomp)
    moreover have "stable_chain log (Some c) = butlast (stable_chain log x) @ [c]"
      by (rule stable_chain_prefix [OF log, of x _ c "[]"]) (use chain in simp)
    ultimately show ?thesis using a chain by (auto simp: anc)
  qed
  show "distinct p" if "view_ancestry (log_view sid cwd leaf es) x = Some p" for p
    using that stable_chain_distinct [OF log] by (auto simp: anc split: option.splits if_splits)
  show "view_ancestry (log_view sid cwd leaf es) (Some c) = Some (p @ [c])"
    if "view_ancestry (log_view sid cwd leaf es) x = Some (p @ c # q)" for p q
  proof -
    have chain: "stable_chain log x = p @ c # q" using that by (auto simp: anc split: option.splits if_splits)
    then have "c \<in> pe_id ` set log" using stable_chain_in [of c log x] by simp
    then show ?thesis using stable_chain_prefix [OF log chain] by (simp add: anc)
  qed
qed

subsection \<open>What a commit does\<close>

text \<open>The final workspace check reads the workspace and never the metadata.\<close>

definition reads_no_metadata :: "('w service_world_scheme \<Rightarrow> (failure + unit) \<times> 'w service_world_scheme) \<Rightarrow> bool" where
  "reads_no_metadata check \<longleftrightarrow> (\<forall>w. metadata (snd (check w)) = metadata w)"

lemma metadata_throw [simp]: "metadata (snd (throw_error e w)) = metadata w"
  by (simp add: throw_error_def allocate_def)

lemma on_metadata_Inr:
  "on_metadata f w = (Inr x, w') \<Longrightarrow> \<exists>db. f (metadata w) = Inr (x, db) \<and> w' = w\<lparr>metadata := db\<rparr>"
  by (auto simp: on_metadata_def split: sum.splits)

lemma on_metadata_Inl: "on_metadata f w = (Inl e, w') \<Longrightarrow> metadata w' = metadata w"
  by (auto simp: on_metadata_def throw_error_def allocate_def split: sum.splits prod.splits)

lemma or_metadata_failure_steps:
  "check w = (Inl e, w1) \<Longrightarrow>
     or_metadata_failure (ebind check k) w = (Inl (metadataWriteFailure (error_objects w1) e), w1)"
  "check w = (Inr u, w1) \<Longrightarrow> or_metadata_failure (ebind check k) w = or_metadata_failure (k u) w1"
  "or_metadata_failure (Pair (Inr r)) w = (r, w)"
  by (simp_all add: or_metadata_failure_def ebind_def)

lemma commitPrepared_state:
  fixes deps :: "'w service_world_scheme commit_deps"
  defines "input node prepared ancestry slot \<equiv>
      \<lparr>cc_identity = \<lparr>sessionId = node_session node, sessionFile = expectedSessionFile deps\<rparr>,
       cc_entryId = node_entry node, cc_activeAncestryEntryIds = ancestry,
       cc_treeOid = captured_tree prepared, cc_expectedSlot = slot\<rparr>"
  assumes check: "reads_no_metadata (assertWorkspaceAuthority deps)"
    and run: "commitPreparedNodeState deps node prepared ancestry slot w = (r, w')"
  obtains (unchanged) f where "r = Inl f" "metadata w' = metadata w"
  | (answered) committed where "commitCapture (connection deps) (commit_authority deps)
        (input node prepared ancestry slot) (metadata w) = Inr (committed, metadata w')"
      "r = (case committed of Slot_changed \<Rightarrow> Inl (State_changed Checkpoint_changed)
          | Blocked \<Rightarrow> Inl Write_protected | Committed \<Rightarrow> Inr prepared)"
proof -
  let ?f = "on_metadata (commitCapture (connection deps) (commit_authority deps) (input node prepared ancestry slot))"
  note def = commitPreparedNodeState_def [of deps node prepared ancestry slot, folded input_def [of node prepared ancestry slot]]
  obtain a w1 where a: "assertWorkspaceAuthority deps w = (a, w1)" by fastforce
  have m1: "metadata w1 = metadata w" using check a unfolding reads_no_metadata_def by (metis snd_conv)
  show thesis
  proof (cases a)
    case (Inl e)
    then have "(r, w') = (Inl (metadataWriteFailure (error_objects w1) e), w1)"
      using run or_metadata_failure_steps(1) [where check = "assertWorkspaceAuthority deps" and w = w, OF a [unfolded Inl]] unfolding def by metis
    then show thesis using unchanged m1 by simp
  next
    case au: (Inr u)
    obtain c w2 where c: "?f w1 = (c, w2)" by fastforce
    note first = or_metadata_failure_steps(2) [where check = "assertWorkspaceAuthority deps" and w = w, OF a [unfolded au]]
    show thesis
    proof (cases c)
      case (Inl e)
      have "(r, w') = (Inl (metadataWriteFailure (error_objects w2) e), w2)"
        using run unfolding def first or_metadata_failure_steps(1) [where check = ?f and w = w1, OF c [unfolded Inl]] by (rule sym)
      then have "r = Inl (metadataWriteFailure (error_objects w2) e) \<and> w' = w2" by (simp only: prod.inject)
      then show thesis using unchanged on_metadata_Inl [OF c [unfolded Inl]] m1 by simp
    next
      case ac: (Inr committed)
      obtain db where db: "commitCapture (connection deps) (commit_authority deps) (input node prepared ancestry slot)
          (metadata w1) = Inr (committed, db)" "w2 = w1\<lparr>metadata := db\<rparr>"
        using on_metadata_Inr [OF c [unfolded ac]] by blast
      have "(r, w') = (case committed of Slot_changed \<Rightarrow> Inl (State_changed Checkpoint_changed)
          | Blocked \<Rightarrow> Inl Write_protected | Committed \<Rightarrow> Inr prepared, w2)"
        using run unfolding def first or_metadata_failure_steps(2) [where check = ?f and w = w1, OF c [unfolded ac]] or_metadata_failure_steps(3)
        by (rule sym)
      then show thesis using answered [of committed] db m1 by simp
    qed
  qed
qed

lemma commitPrepared_parts:
  assumes "commitPrepared svc view node prepared slot authority w = (Inr r, w')"
  obtains ancestry where "assertActiveCoordinate view node = Inr ()"
    "ancestryEntryIds view (Some (node_entry node)) = Inr ancestry"
    "commitPreparedNodeState (commitDeps svc authority) node prepared ancestry slot w = (r, w')"
  using assms by (auto simp: commitPrepared_def commit_prepared_def ebind_Inr lift_result_Inr as_result_Inr)

text \<open>Reading a coordinate through the service.\<close>

lemma resolve_effective:
  assumes "metadata_ok db" and "resolveLineage conn db sid es = Inr r"
  shows "resolution_of r = effective_resolution (slot_at db sid) es"
proof -
  have r: "resolveCheckpointIn db sid es = Inr r"
    using assms(2) by (auto simp: resolveLineage_def rbind_eq_Inr runTransaction_Inr dest!: requireNonEmpty_Inr uniqueEntrySet_Inr)
  then have "es \<noteq> []" by (auto simp: resolveCheckpointIn_def)
  then have "r = \<lparr>resolution_of = effective_resolution (slot_at db sid) es, targetSlot = slot_at db sid (last es)\<rparr>"
    using resolve_ok [OF assms(1), of es sid] r by simp
  then show ?thesis by simp
qed

lemma lineage_after_capture:
  assumes "metadata_ok db" and "metadata_ok db'" and "commitCapture conn authority input db = Inr (r, db')"
    and "user_version db' = user_version db"
  shows "\<exists>q. resolveLineage conn db' (sessionId (cc_identity input)) (cc_activeAncestryEntryIds input) = Inr q"
proof -
  let ?es = "cc_activeAncestryEntryIds input" and ?sid = "sessionId (cc_identity input)"
  have "requireNonEmpty ?sid = Inr ?sid" "uniqueEntrySet ?es = Inr ?es" "?es \<noteq> []"
      "\<not> closed conn" "phase conn = Current" "user_version db = CURRENT_METADATA_VERSION"
    using assms(3)
    by (auto simp: commitCapture_def rbind_eq_Inr sessionWriteTransaction_Inr split: if_splits
        dest!: requireNonEmpty_Inr uniqueEntrySet_Inr)
  then show ?thesis using resolve_ok [OF assms(2)] assms(4)
    by (simp add: resolveLineage_def runTransaction_Inr rbind_eq_Inr)
qed

lemma unique_entry_loop_ok:
  "distinct (acc @ es) \<Longrightarrow> (\<forall>e \<in> set es. requireNonEmpty e = Inr e) \<Longrightarrow> unique_entry_loop acc es = Inr (acc @ es)"
  by (induction es arbitrary: acc) auto

lemma uniqueEntrySet_ok: "distinct es \<Longrightarrow> (\<forall>e \<in> set es. requireNonEmpty e = Inr e) \<Longrightarrow> uniqueEntrySet es = Inr es"
  using unique_entry_loop_ok [of "[]" es] by (simp add: uniqueEntrySet_def)

lemma commitCapture_path:
  assumes "commitCapture conn authority input db = Inr (r, db')"
  shows "distinct (cc_activeAncestryEntryIds input)" and "cc_activeAncestryEntryIds input \<noteq> []"
    and "last (cc_activeAncestryEntryIds input) = cc_entryId input"
  using assms
  by (auto simp: commitCapture_def rbind_eq_Inr split: if_splits dest!: requireNonEmpty_Inr uniqueEntrySet_Inr)

lemma assertActive_session: "assertActiveCoordinate view node = Inr () \<Longrightarrow> assertSession view node = Inr ()"
  by (auto simp: assertActiveCoordinate_def rbind_eq_Inr)

subsection \<open>Properties\<close>

text \<open>C24. A committed capture is what the session resolves to: after a successful commit the coordinate resolves,
  at itself, to the prepared tree; its slot was open and as expected, and no other slot of any session changed.\<close>

theorem committed_trees_are_resolved:
  assumes "metadata_ok (metadata w)" and "reads_no_metadata (ca_assertWorkspaceAuthority authority)"
    and "commitPrepared svc view node prepared slot authority w = (Inr (Inr s), w')"
  shows "s = prepared \<and>
    resolve svc view node (metadata w') = Inr (Some \<lparr>resolved_tree = captured_tree prepared, foundAt = node\<rparr>) \<and>
    slot_at (metadata w) (node_session node) (node_entry node) = slot \<and> \<not> checkpointSlotIsBlocked slot \<and>
    slot_at (metadata w') = (\<lambda>sid e. if sid = node_session node \<and> e = node_entry node
      then Open_checkpoint (captured_tree prepared) else slot_at (metadata w) sid e)"
proof -
  let ?sid = "node_session node" and ?e = "node_entry node" and ?t = "captured_tree prepared"
  from assms(3) obtain ancestry where active: "assertActiveCoordinate view node = Inr ()"
      and ancestry: "ancestryEntryIds view (Some ?e) = Inr ancestry"
      and run: "commitPreparedNodeState (commitDeps svc authority) node prepared ancestry slot w = (Inr s, w')"
    by (rule commitPrepared_parts)
  define input where "input = \<lparr>cc_identity = \<lparr>sessionId = ?sid, sessionFile = expectedSessionFile (commitDeps svc authority)\<rparr>,
      cc_entryId = ?e, cc_activeAncestryEntryIds = ancestry, cc_treeOid = ?t, cc_expectedSlot = slot\<rparr>"
  have check: "reads_no_metadata (assertWorkspaceAuthority (commitDeps svc authority))"
    using assms(2) by (simp add: commitDeps_def)
  have capture: "commitCapture (service_connection svc) (ca_writeAuthority authority) input (metadata w) = Inr (Committed, metadata w')"
      and s: "s = prepared"
  proof -
    from check run obtain committed where "commitCapture (connection (commitDeps svc authority))
          (commit_authority (commitDeps svc authority)) input (metadata w) = Inr (committed, metadata w')"
        and "Inr s = (case committed of Slot_changed \<Rightarrow> Inl (State_changed Checkpoint_changed)
          | Blocked \<Rightarrow> Inl Write_protected | Committed \<Rightarrow> Inr prepared)"
      unfolding input_def by (rule commitPrepared_state) auto
    then show "commitCapture (service_connection svc) (ca_writeAuthority authority) input (metadata w) = Inr (Committed, metadata w')"
      and "s = prepared"
      by (cases committed; simp add: commitDeps_def)+
  qed
  from assms(1) capture have facts: "\<not> checkpointSlotIsBlocked (slot_at (metadata w) ?sid ?e)"
      "slot_at (metadata w) ?sid ?e = slot" "isTreeOid ?t"
      and db': "metadata w' = writeCheckpointSlotIn (metadata w) ?sid ?e (Open_checkpoint ?t)"
    by (cases rule: commitCapture_cases; simp add: input_def)+
  have ok': "metadata_ok (metadata w')" unfolding db' by (rule write_metadata_ok [OF assms(1)]) (simp add: facts)
  have slots: "slot_at (metadata w') = (\<lambda>sid e. if sid = ?sid \<and> e = ?e then Open_checkpoint ?t else slot_at (metadata w) sid e)"
    using facts(3) by (simp add: db' slot_at_write fun_eq_iff)
  have path: "ancestry = butlast ancestry @ [?e]"
    using commitCapture_path [OF capture] by (simp add: input_def) (metis append_butlast_last_id)
  obtain q where q: "resolveLineage (service_connection svc) (metadata w') ?sid ancestry = Inr q"
    using lineage_after_capture [OF assms(1) ok' capture] by (auto simp: db' input_def)
  have "resolution_of q = Checkpoint ?e ?t"
    unfolding resolve_effective [OF ok' q]
    by (subst path, rule effective_resolution_own) (simp add: slots)
  then have "resolve svc view node (metadata w') = Inr (Some \<lparr>resolved_tree = ?t, foundAt = node\<rparr>)"
    using assertActive_session [OF active] ancestry q by (simp add: resolve_def)
  then show ?thesis using s facts slots by simp
qed

definition service_log :: "public_entry list" where
  "service_log =
     [\<lparr>pe_id = ''root'', pe_parentId = None, pe_type = ''message'', pe_messageRole = Some ''user''\<rparr>,
      \<lparr>pe_id = ''leaf'', pe_parentId = Some ''root'', pe_type = ''message'', pe_messageRole = Some ''assistant''\<rparr>]"

definition sample_deps :: "'s capture_deps" where
  "sample_deps = \<lparr>expectedRootPath = js ''/w'', scanWorkspace = (\<lambda>phase root. Pair (Inr sample_scan)), tables = plain_unicode,
     path_api = sample_paths,
     objects = \<lparr>beginSnapshotPublication = Pair (Inr ()), publishBlobFromFile = (\<lambda>s d n. Pair (Inr d)),
       publishTree = (\<lambda>es sc. Pair (Inr tree_b)), close_publication = Pair (Inr ())\<rparr>,
     withWorkspaceLock = id, lane_schedule = [], writeAuthority = True\<rparr>"

definition sample_service :: "'s checkpoint_service" where
  "sample_service = \<lparr>capture_part = sample_deps, service_connection = sample_connection,
     readTree = (\<lambda>t. Pair (Inr \<lparr>tm_format = CURRENT_TREE_MANIFEST_FORMAT, tm_entries = [], tm_scope = All_managed\<rparr>)),
     validateManifestScope = (\<lambda>m. Pair (Inr None))\<rparr>"

definition sample_commit :: "'s checkpoint_commit_authority" where
  "sample_commit = \<lparr>ca_writeAuthority = True, ca_expectedSessionFile = ''f'', ca_assertWorkspaceAuthority = Pair (Inr ())\<rparr>"

definition sample_state :: service_world where
  "sample_state = \<lparr>error_objects = [], abort_reason = None, metadata = sample_db\<rparr>"

definition sample_prepared :: capture_success where
  "sample_prepared = \<lparr>captured_tree = tree_b, captured_snapshot = sample_scan\<rparr>"

definition service_view :: checkpoint_session_view where
  "service_view = \<lparr>view_sessionId = ''s'', view_cwd = js ''/w'', view_leafId = Some ''leaf'',
     view_coordinate = (\<lambda>x. Some x), view_ancestry = (\<lambda>x. case x of None \<Rightarrow> Some []
       | Some y \<Rightarrow> if y = ''leaf'' then Some [''root'', ''leaf''] else Some [y])\<rparr>"

abbreviation leaf_node :: node_key where "leaf_node \<equiv> \<lparr>node_session = ''s'', node_entry = ''leaf''\<rparr>"

lemma sample_check: "reads_no_metadata (ca_assertWorkspaceAuthority sample_commit)"
  by (simp add: reads_no_metadata_def sample_commit_def)

lemma sample_commits:
  "commitPrepared sample_service service_view leaf_node sample_prepared Open_missing sample_commit sample_state =
     (Inr (Inr sample_prepared),
      sample_state\<lparr>metadata := writeCheckpointSlotIn sample_db ''s'' ''leaf'' (Open_checkpoint tree_b)\<rparr>)"
  by code_simp

theorem committed_trees_are_resolved_witness:
  "resolve (sample_service :: service_world checkpoint_service) service_view leaf_node (writeCheckpointSlotIn sample_db ''s'' ''leaf'' (Open_checkpoint tree_b))
     = Inr (Some \<lparr>resolved_tree = tree_b, foundAt = leaf_node\<rparr>)"
proof -
  have "metadata_ok (metadata sample_state)" by (simp add: sample_state_def)
  from committed_trees_are_resolved [OF this sample_check sample_commits] show ?thesis
    by (simp add: sample_prepared_def)
qed

text \<open>A refused commit changes nothing that the session sees: when a commit throws or is refused, every path
  of the ancestry resolves to the tree it resolved to before, and no other session changes.\<close>

theorem refused_commits_change_no_resolution:
  assumes "metadata_ok (metadata w)" and "reads_no_metadata (ca_assertWorkspaceAuthority authority)"
    and "commitPrepared svc view node prepared slot authority w = (r, w')" and "\<nexists>s. r = Inr (Inr s)"
    and "ancestryEntryIds view (Some (node_entry node)) = Inr (path @ rest)" and "path \<noteq> []"
  shows "resolution_tree (effective_resolution (slot_at (metadata w') (node_session node)) path) =
      resolution_tree (effective_resolution (slot_at (metadata w) (node_session node)) path) \<and>
    (sid = node_session node \<or> slot_at (metadata w') sid e = slot_at (metadata w) sid e)"
proof (cases r)
  case (Inl f)
  have "metadata w' = metadata w"
    using assms(3) Inl
    by (auto simp: commitPrepared_def commit_prepared_def ebind_def lift_result_def as_result_def throw_error_def
        allocate_def split: sum.splits prod.splits)
  then show ?thesis by simp
next
  case (Inr result)
  then obtain f where f: "result = Inl f" using assms(4) by (cases result) auto
  from assms(3) Inr obtain ancestry where ancestry: "ancestryEntryIds view (Some (node_entry node)) = Inr ancestry"
      and run: "commitPreparedNodeState (commitDeps svc authority) node prepared ancestry slot w = (result, w')"
    by (auto elim: commitPrepared_parts)
  have anc: "ancestry = path @ rest" using ancestry assms(5) by simp
  have check: "reads_no_metadata (assertWorkspaceAuthority (commitDeps svc authority))"
    using assms(2) by (simp add: commitDeps_def)
  from check run show ?thesis
  proof (cases rule: commitPrepared_state)
    case (unchanged f)
    then show ?thesis by simp
  next
    case (answered committed)
    have dist: "distinct (path @ rest)" using commitCapture_path(1) [OF answered(1)] anc by simp
    from assms(1) answered(1) show ?thesis
    proof (cases rule: commitCapture_cases)
      case committed
      then show ?thesis using answered(2) f by simp
    next
      case refused
      then show ?thesis by simp
    next
      case changed
      then show ?thesis by simp
    next
      case reconciled
      from assms(1) reconciled(3) show ?thesis
      proof (cases rule: reconcileIn_cases)
        case kept
        then show ?thesis by simp
      next
        case reconciled
        then show ?thesis using reconciled_resolution [OF dist assms(6)] anc
          by (cases "sid = node_session node") simp_all
      qed
    qed
  qed
qed

theorem refused_commits_change_no_resolution_witness:
  "resolution_tree (effective_resolution (slot_at sample_db ''s'') [''root'', ''leaf'']) =
   resolution_tree (effective_resolution (slot_at
     (metadata (snd (commitPrepared sample_service service_view leaf_node sample_prepared (Open_checkpoint tree_a)
       sample_commit sample_state))) ''s'') [''root'', ''leaf''])"
proof -
  let ?run = "commitPrepared sample_service service_view leaf_node sample_prepared (Open_checkpoint tree_a) sample_commit sample_state"
  have ok: "metadata_ok (metadata sample_state)" by (simp add: sample_state_def)
  have run: "?run = (Inr (Inl (State_changed Checkpoint_changed)), snd ?run)" by code_simp
  have path: "ancestryEntryIds service_view (Some (node_entry leaf_node)) = Inr ([''root'', ''leaf''] @ [])" by code_simp
  from refused_commits_change_no_resolution [OF ok sample_check run _ path] show ?thesis
    by (simp add: sample_state_def)
qed

text \<open>C25. An authenticated session can capture: at the anchor of a projected session, a commit with the expected
  open slot succeeds whenever the store is ready for the session, which is verified and has no barrier, the
  write authority holds and the identifiers are proper.\<close>

theorem ready_sessions_commit:
  fixes sid cwd leaf es
  defines "view \<equiv> log_view sid cwd leaf es"
  assumes "captureAnchor view leaf = Inr (Some node)"
    and "metadata_ok (metadata w)" and "user_version (metadata w) = CURRENT_METADATA_VERSION"
    and "\<not> closed (service_connection svc)" and "phase (service_connection svc) = Current"
    and "requireSessionHistoryReady (service_connection svc) (metadata w) sid = Inr ()"
    and "registered_and_verified (metadata w) sid (ca_expectedSessionFile authority) = Inr True"
    and "\<not> sessionHasBarrierIn (metadata w) sid"
    and "slot_at (metadata w) sid (node_entry node) = slot" and "\<not> checkpointSlotIsBlocked slot"
    and "isTreeOid (captured_tree prepared)" and "ca_writeAuthority authority"
    and "ca_assertWorkspaceAuthority authority w = (Inr (), w1)" and "metadata w1 = metadata w"
    and "requireNonEmpty sid = Inr sid" and "requireNonEmpty (ca_expectedSessionFile authority) = Inr file"
    and "ancestryEntryIds view (Some (node_entry node)) = Inr ancestry"
    and "list_all (\<lambda>e. requireNonEmpty e = Inr e) ancestry"
  shows "commitPrepared svc view node prepared slot authority w =
    (Inr (Inr prepared), w1\<lparr>metadata := writeCheckpointSlotIn (metadata w) sid (node_entry node)
       (Open_checkpoint (captured_tree prepared))\<rparr>)"
proof -
  have anchor: "captureAnchor (log_view sid cwd leaf es) (view_leafId (log_view sid cwd leaf es)) = Inr (Some node)"
    using assms(2) by (simp add: view_def log_view_def Let_def)
  obtain p where p: "ancestry = p @ [node_entry node]" "distinct ancestry"
    using projected.anchor_is_active(3) [OF anchor] assms(18) by (auto simp: view_def)
  have node: "node_session node = sid"
    using projected.anchor_is_active(4) [OF anchor] by (simp add: log_view_def Let_def)
  have active: "assertActiveCoordinate view node = Inr ()" using projected.anchor_is_active(1) [OF anchor] by (simp add: view_def)
  have sfile: "requireNonEmpty (ca_expectedSessionFile authority) = Inr (ca_expectedSessionFile authority)"
    using assms(17) requireNonEmpty_Inr by metis
  have ids: "uniqueEntrySet ancestry = Inr ancestry" "requireNonEmpty (node_entry node) = Inr (node_entry node)"
    using uniqueEntrySet_ok [OF p(2)] assms(19) p(1) by (simp_all add: list_all_iff)
  let ?input = "\<lparr>cc_identity = \<lparr>sessionId = sid, sessionFile = ca_expectedSessionFile authority\<rparr>,
      cc_entryId = node_entry node, cc_activeAncestryEntryIds = ancestry,
      cc_treeOid = captured_tree prepared, cc_expectedSlot = slot\<rparr>"
  have lineage: "resolveCheckpointIn (metadata w) sid ancestry = Inr \<lparr>resolution_of = effective_resolution (slot_at (metadata w) sid) ancestry,
      targetSlot = slot\<rparr>"
    using resolve_ok [OF assms(3), of ancestry sid] p(1) assms(10) by simp
  have "captureCheckpointSlot slot (captured_tree prepared) = Applied (Open_checkpoint (captured_tree prepared))"
    using assms(11) by (simp add: capture_applied_iff)
  then have capture: "commitCapture (service_connection svc) True ?input (metadata w) =
      Inr (Committed, writeCheckpointSlotIn (metadata w) sid (node_entry node) (Open_checkpoint (captured_tree prepared)))"
    using assms(4-9,12,16) sfile ids p(1) lineage
    by (simp add: commitCapture_def sessionWriteTransaction_def writeTransaction_def runTransaction_def
        requireTreeOid_def requireVerifiedSessionIn_def reconcileSessionBarrierIn_def)
  show ?thesis
    using active assms(13-15,18) capture node
    by (simp add: commitPrepared_def commit_prepared_def ebind_def lift_result_def as_result_def commitPreparedNodeState_def
        or_metadata_failure_def commitDeps_def on_metadata_def)
qed

theorem ready_sessions_commit_witness:
  "fst (commitPrepared sample_service (log_view ''s'' (js ''/w'') (Some ''leaf'') service_log) leaf_node sample_prepared
     Open_missing sample_commit sample_state) = Inr (Inr sample_prepared)"
proof -
  let ?view = "log_view ''s'' (js ''/w'') (Some ''leaf'') service_log"
  have anchor: "captureAnchor ?view (Some ''leaf'') = Inr (Some leaf_node)"
    and path: "ancestryEntryIds ?view (Some (node_entry leaf_node)) = Inr [''root'', ''leaf'']" by code_simp+
  have ready: "user_version (metadata sample_state) = CURRENT_METADATA_VERSION"
      "\<not> closed (service_connection (sample_service :: service_world checkpoint_service))"
      "phase (service_connection (sample_service :: service_world checkpoint_service)) = Current"
      "requireSessionHistoryReady (service_connection (sample_service :: service_world checkpoint_service)) (metadata sample_state) ''s'' = Inr ()"
      "registered_and_verified (metadata sample_state) ''s'' (ca_expectedSessionFile (sample_commit :: service_world checkpoint_commit_authority)) = Inr True"
      "\<not> sessionHasBarrierIn (metadata sample_state) ''s''"
      "slot_at (metadata sample_state) ''s'' (node_entry leaf_node) = Open_missing" "\<not> checkpointSlotIsBlocked Open_missing"
      "isTreeOid (captured_tree sample_prepared)" "ca_writeAuthority (sample_commit :: service_world checkpoint_commit_authority)"
      "ca_assertWorkspaceAuthority sample_commit sample_state = (Inr (), sample_state)"
      "requireNonEmpty ''s'' = Inr ''s''"
      "requireNonEmpty (ca_expectedSessionFile (sample_commit :: service_world checkpoint_commit_authority)) = Inr ''f''"
      "list_all (\<lambda>e. requireNonEmpty e = Inr e) [''root'', ''leaf'']"
    by code_simp+
  have ok: "metadata_ok (metadata sample_state)" by (simp add: sample_state_def)
  show ?thesis
    by (simp add: ready_sessions_commit [OF anchor ok ready(1-11) refl ready(12,13) path ready(14)])
qed

lemma entriesEqual_sym: "entriesEqual xs ys \<Longrightarrow> entriesEqual ys xs"
  unfolding entriesEqual_def
proof (induction rule: list_all2_induct)
  case (Cons x xs y ys)
  then show ?case by (cases x; cases y) auto
qed simp



end
