(* ===== verification/Restore_Service.thy ===== *)
theory Restore_Service
  imports Checkpoint_Service
begin

text \<open>
  Restoring a checkpoint (\<^verbatim>\<open>application/restore.ts\<close>) under a one-shot mutation lease
  (\<^verbatim>\<open>application/mutation-lease.ts\<close>): the manifest is read, the plan made, its blobs staged and the others
  verified, the reads are closed, the tree is applied and the workspace scanned again. Applying a tree is
  modelled by its mutation gate (the class \<^verbatim>\<open>WorkspaceMutationGate\<close> of \<^verbatim>\<open>apply.ts\<close>): the file operations between
  two calls of the gate are an argument, as are the object store, staging and the scanner.
\<close>

subsection \<open>The mutation lease\<close>

datatype 'a lease_state =
    Lease_pending
  | Lease_authorized (authorization: 'a)
  | Lease_rejected failure

text \<open>The record behind a minted lease; \<open>None\<close> is a lease that was never minted. \<open>outside\<close> is everything else,
  which the cutover, the store and the file operations act on; they do not reach back into the lease.\<close>

record ('a, 's) mutation_lease =
  lease_state :: "'a lease_state"
  lease_cutover :: "'s \<Rightarrow> (failure + 'a) \<times> 's"

record ('a, 's) leased =
  minted :: "('a, 's) mutation_lease option"
  outside :: 's

definition prepareWorkspaceMutationLease :: "('s \<Rightarrow> (failure + 'a) \<times> 's) \<Rightarrow> ('a, 's) mutation_lease" where
  "prepareWorkspaceMutationLease cutover = \<lparr>lease_state = Lease_pending, lease_cutover = cutover\<rparr>"

definition new_error :: "js_error \<Rightarrow> 'w world_scheme \<Rightarrow> failure \<times> 'w world_scheme" where
  "new_error e w =
     (let (h, f) = allocate (error_objects w) (Error_object (Exception e) None False)
      in (f, w\<lparr>error_objects := h\<rparr>))"

definition consumeWorkspaceMutationLease ::
  "('a, 'w world_scheme) leased \<Rightarrow> (failure + 'a) \<times> ('a, 'w world_scheme) leased" where
  "consumeWorkspaceMutationLease st =
     (case minted st of
        Some r \<Rightarrow>
          (if lease_state r \<noteq> Lease_pending
           then (let (f, w) = new_error PlainError (outside st) in (Inl f, st\<lparr>outside := w\<rparr>))
           else let (unavailable, w1) = new_error PlainError (outside st) in
             case lease_cutover r w1 of
               (Inr a, w2) \<Rightarrow> (Inr a, \<lparr>minted = Some (r\<lparr>lease_state := Lease_authorized a\<rparr>), outside = w2\<rparr>)
             | (Inl cause, w2) \<Rightarrow>
                 (Inl cause, \<lparr>minted = Some (r\<lparr>lease_state := Lease_rejected cause\<rparr>), outside = w2\<rparr>))
      | None \<Rightarrow> (let (f, w) = new_error PlainError (outside st) in (Inl f, st\<lparr>outside := w\<rparr>)))"

definition workspaceMutationLeaseState ::
  "('a, 'w world_scheme) leased \<Rightarrow> 'a lease_state \<times> ('a, 'w world_scheme) leased" where
  "workspaceMutationLeaseState st =
     (case minted st of
        Some r \<Rightarrow> (lease_state r, st)
      | None \<Rightarrow> (let (f, w) = new_error PlainError (outside st) in (Lease_rejected f, st\<lparr>outside := w\<rparr>)))"

subsection \<open>The mutation gate\<close>

datatype 'a gate = Gate_ready | Gate_authorized 'a | Gate_rejected failure

text \<open>The two checks of the workspace lock.\<close>

record ('a, 's) write_authority_checks =
  assertWorkspaceWriteAuthority :: "'a \<Rightarrow> 's \<Rightarrow> (failure + unit) \<times> 's"
  assertWorkspaceWriteAuthorityActive :: "'a \<Rightarrow> 's \<Rightarrow> (failure + unit) \<times> 's"

definition check_access :: "('a \<Rightarrow> 's \<Rightarrow> (failure + unit) \<times> 's) \<Rightarrow> 'a \<Rightarrow> ('a, 's) leased \<Rightarrow>
    (failure + unit) \<times> 'a gate \<times> ('a, 's) leased" where
  "check_access check a st =
     (case check a (outside st) of
        (Inl e, w) \<Rightarrow> (Inl e, Gate_rejected e, st\<lparr>outside := w\<rparr>)
      | (Inr _, w) \<Rightarrow> (Inr (), Gate_authorized a, st\<lparr>outside := w\<rparr>))"

definition authorizeMutation :: "('a, 'w world_scheme) write_authority_checks \<Rightarrow> 'a gate \<times> ('a, 'w world_scheme) leased \<Rightarrow>
    (failure + unit) \<times> 'a gate \<times> ('a, 'w world_scheme) leased" where
  "authorizeMutation checks = (\<lambda>(g, st).
     case g of
       Gate_rejected cause \<Rightarrow> (Inl cause, g, st)
     | Gate_authorized a \<Rightarrow> check_access (assertWorkspaceWriteAuthority checks) a st
     | Gate_ready \<Rightarrow>
         (case consumeWorkspaceMutationLease st of
            (Inl e, st1) \<Rightarrow> (Inl e, Gate_rejected e, st1)
          | (Inr a, st1) \<Rightarrow> check_access (assertWorkspaceWriteAuthority checks) a st1))"

definition continueMutation :: "('a, 'w world_scheme) write_authority_checks \<Rightarrow> 'a gate \<times> ('a, 'w world_scheme) leased \<Rightarrow>
    (failure + unit) \<times> 'a gate \<times> ('a, 'w world_scheme) leased" where
  "continueMutation checks = (\<lambda>(g, st).
     case g of
       Gate_ready \<Rightarrow> authorizeMutation checks (g, st)
     | Gate_rejected cause \<Rightarrow> (Inl cause, g, st)
     | Gate_authorized a \<Rightarrow> check_access (assertWorkspaceWriteAuthorityActive checks) a st)"

definition throwIfRejected :: "'a gate \<Rightarrow> failure + unit" where
  "throwIfRejected g = (case g of Gate_rejected cause \<Rightarrow> Inl cause | _ \<Rightarrow> Inr ())"

text \<open>The report of an apply; of a problem only its path is kept.\<close>

record apply_report =
  report_created :: "js_string list"
  report_updated :: "js_string list"
  report_deleted :: "js_string list"
  report_renamed :: "path_rename list"
  unchangedCount :: nat
  report_problems :: "js_string list"

text \<open>What \<^verbatim>\<open>applyTreeToWorkspace\<close> does, seen from its gate: it returns or throws, acts on the outside, or calls
  the gate and continues with the answer.\<close>

datatype 's apply_run =
    Apply_returns "failure + apply_report"
  | Apply_acts "'s \<Rightarrow> 's" "'s \<Rightarrow> 's apply_run"
  | Apply_authorizes "failure + unit \<Rightarrow> 's apply_run"
  | Apply_continues "failure + unit \<Rightarrow> 's apply_run"

primrec run_apply :: "'w world_scheme apply_run \<Rightarrow> ('a, 'w world_scheme) write_authority_checks \<Rightarrow> 'a gate \<times> ('a, 'w world_scheme) leased \<Rightarrow>
    (failure + apply_report) \<times> 'a gate \<times> ('a, 'w world_scheme) leased" where
  "run_apply (Apply_returns r) checks s =
     (case r of
        Inl e \<Rightarrow> (Inl e, s)
      | Inr report \<Rightarrow> ((case throwIfRejected (fst s) of Inl e \<Rightarrow> Inl e | Inr _ \<Rightarrow> Inr report), s))"
| "run_apply (Apply_acts act k) checks s =
     run_apply (k (outside (snd s))) checks (fst s, (snd s)\<lparr>outside := act (outside (snd s))\<rparr>)"
| "run_apply (Apply_authorizes k) checks s =
     run_apply (k (fst (authorizeMutation checks s))) checks (snd (authorizeMutation checks s))"
| "run_apply (Apply_continues k) checks s =
     run_apply (k (fst (continueMutation checks s))) checks (snd (continueMutation checks s))"

definition applyTreeToWorkspace :: "'w world_scheme apply_run \<Rightarrow> ('a, 'w world_scheme) write_authority_checks \<Rightarrow>
    ('a, 'w world_scheme) leased \<Rightarrow> (failure + apply_report) \<times> ('a, 'w world_scheme) leased" where
  "applyTreeToWorkspace run checks st = (case run_apply run checks (Gate_ready, st) of (r, _, st') \<Rightarrow> (r, st'))"

subsection \<open>Outcomes\<close>

datatype restore_stage = Current_scan_stage | Staging_stage | Apply_stage | Verification_stage

datatype verify_failure = Verify_mismatch | Verify_scan_incomplete "scan_problem list"

datatype restore_outcome =
    Restored tree_oid apply_report
  | Checkpoint_unreadable tree_oid failure
  | Apply_incomplete tree_oid apply_report
  | Verify_failed tree_oid apply_report verify_failure
  | Restore_scan_incomplete "scan_problem list"
  | Restore_failed restore_stage failure

datatype cleanup_settlement = Cleanup_settled | Cleanup_failed failure

record restore_attempt =
  outcome :: restore_outcome
  preparationCleanup :: cleanup_settlement

datatype 'a restore_cutover = Cutover_not_requested | Cutover_rejected failure | Cutover_authorized 'a

record 'a restore_execution =
  attempt :: restore_attempt
  cutover :: "'a restore_cutover"

text \<open>What a restore is given. A staged set of blobs is a value of \<open>'h\<close>.\<close>

record ('h, 'a, 's) restore_deps =
  readTreeManifest :: "tree_oid \<Rightarrow> 's \<Rightarrow> (failure + tree_manifest) \<times> 's"
  scopeValidation :: "tree_manifest \<Rightarrow> 's \<Rightarrow> (failure + js_string option) \<times> 's"
  unicode_tables :: unicode
  stageBlobs :: "js_string list \<Rightarrow> js_string \<Rightarrow> 's \<Rightarrow> (failure + 'h) \<times> 's"
  verifyBlobs :: "js_string list \<Rightarrow> 's \<Rightarrow> (failure + unit) \<times> 's"
  closeReads :: "'s \<Rightarrow> (failure + unit) \<times> 's"
  disposeStaged :: "'h \<Rightarrow> 's \<Rightarrow> (failure + unit) \<times> 's"
  apply_program :: "js_string \<Rightarrow> tree_manifest \<Rightarrow> 'h \<Rightarrow> workspace_snapshot \<Rightarrow> 's apply_run"
  write_checks :: "('a, 's) write_authority_checks"
  scanForComparison :: "js_string \<Rightarrow> workspace_scope \<Rightarrow> 's \<Rightarrow> (failure + workspace_snapshot) \<times> 's"

definition restoreAttempt :: "restore_outcome \<Rightarrow> cleanup_settlement \<Rightarrow> restore_attempt" where
  "restoreAttempt r cleanup = \<lparr>outcome = r, preparationCleanup = cleanup\<rparr>"

definition retainPreparationCleanup :: "restore_attempt \<Rightarrow> failure \<Rightarrow> 'w world_scheme \<Rightarrow> restore_attempt \<times> 'w world_scheme" where
  "retainPreparationCleanup att cleanup w =
     (case preparationCleanup att of
        Cleanup_settled \<Rightarrow> (att\<lparr>preparationCleanup := Cleanup_failed cleanup\<rparr>, w)
      | Cleanup_failed existing \<Rightarrow>
          (let (h, f) = aggregateFailures (error_objects w) [existing, cleanup]
           in (att\<lparr>preparationCleanup := Cleanup_failed f\<rparr>, w\<lparr>error_objects := h\<rparr>)))"

definition disposeStaging :: "('h, 'a, 's) restore_deps \<Rightarrow> 'h \<Rightarrow> 's \<Rightarrow> cleanup_settlement \<times> 's" where
  "disposeStaging deps staged w =
     (case disposeStaged deps staged w of (Inr _, w') \<Rightarrow> (Cleanup_settled, w') | (Inl e, w') \<Rightarrow> (Cleanup_failed e, w'))"

definition comparison_target :: "tree_manifest \<Rightarrow> comparison_manifest" where
  "comparison_target m = \<lparr>tm_format = tm_format m, tm_entries = tm_entries m, tm_scope = tm_scope m,
     excludedOccupancies = None\<rparr>"

text \<open>The blobs of a manifest that the plan does not require, in the order of the manifest.\<close>

fun non_required :: "js_string list \<Rightarrow> tree_entry list \<Rightarrow> js_string list \<Rightarrow> js_string list" where
  "non_required required [] seen = seen"
| "non_required required (Regular_entry p oid m # es) seen =
     non_required required es (if oid \<notin> set required \<and> oid \<notin> set seen then seen @ [oid] else seen)"
| "non_required required (Symlink_entry p t k # es) seen = non_required required es seen"

subsection \<open>Restoring\<close>

text \<open>The part of a restore after the tree was applied. The second plan is made outside every \<^verbatim>\<open>try\<close>.\<close>

definition verify_restore :: "('h, 'a, 'w world_scheme) restore_deps \<Rightarrow> tree_oid \<Rightarrow> tree_manifest \<Rightarrow> js_string \<Rightarrow> apply_report \<Rightarrow>
    cleanup_settlement \<Rightarrow> 'w world_scheme \<Rightarrow> ((failure + restore_attempt) \<times> 'w world_scheme) option" where
  "verify_restore deps treeOid manifest operationRoot report cleanup w =
     (case scanForComparison deps operationRoot (tm_scope manifest) w of
        (Inl e, w1) \<Rightarrow> Some (Inr (restoreAttempt (Restore_failed Verification_stage e) cleanup), w1)
      | (Inr actual, w1) \<Rightarrow>
          if ws_problems actual \<noteq> []
          then Some (Inr (restoreAttempt (Verify_failed treeOid report (Verify_scan_incomplete (ws_problems actual))) cleanup), w1)
          else case planWorkspaceRestore (unicode_tables deps) actual (comparison_target manifest) of
            None \<Rightarrow> None
          | Some (Inl e) \<Rightarrow> Some (throw_error e w1)
          | Some (Inr verification) \<Rightarrow>
              Some (Inr (restoreAttempt
                (if report_problems report \<noteq> [] then Apply_incomplete treeOid report
                 else if plan_problems verification \<noteq> [] \<or> restorePlanHasChanges verification
                 then Verify_failed treeOid report Verify_mismatch
                 else Restored treeOid report) cleanup), w1))"

text \<open>The part after staging: the boolean says whether the closing of the reads was attempted.\<close>

definition apply_staged :: "('h, 'a, 'w world_scheme) restore_deps \<Rightarrow> js_string \<Rightarrow> tree_oid \<Rightarrow> tree_manifest \<Rightarrow>
    workspace_snapshot \<Rightarrow> workspace_restore_plan \<Rightarrow> 'h \<Rightarrow> ('a, 'w world_scheme) leased \<Rightarrow>
    ((failure + restore_attempt) \<times> bool \<times> ('a, 'w world_scheme) leased) option" where
  "apply_staged deps root treeOid manifest current plan staged st =
     (case verifyBlobs deps (non_required (requiredBlobOids plan) (tm_entries manifest) []) (outside st) of
        (Inl e, w1) \<Rightarrow>
          (let (cleanup, w2) = disposeStaging deps staged w1
           in Some (Inr (restoreAttempt (Checkpoint_unreadable treeOid e) cleanup), False, st\<lparr>outside := w2\<rparr>))
      | (Inr _, w1) \<Rightarrow>
          case closeReads deps w1 of
            (Inl e, w2) \<Rightarrow>
              (let (cleanup, w3) = disposeStaging deps staged w2
               in Some (Inr (restoreAttempt (Restore_failed Staging_stage e) cleanup), True, st\<lparr>outside := w3\<rparr>))
          | (Inr _, w2) \<Rightarrow>
              case applyTreeToWorkspace (apply_program deps root manifest staged current) (write_checks deps) (st\<lparr>outside := w2\<rparr>) of
                (Inl e, st3) \<Rightarrow>
                  (let (cleanup, w4) = disposeStaging deps staged (outside st3)
                   in Some (Inr (restoreAttempt (Restore_failed Apply_stage e) cleanup), True, st3\<lparr>outside := w4\<rparr>))
              | (Inr report, st3) \<Rightarrow>
                  (let (cleanup, w4) = disposeStaging deps staged (outside st3)
                   in map_option (\<lambda>(r, w5). (r, True, st3\<lparr>outside := w5\<rparr>))
                        (verify_restore deps treeOid manifest (rootPath current) report cleanup w4)))"

definition staging_failure :: "error_heap \<Rightarrow> tree_oid \<Rightarrow> failure \<Rightarrow> restore_attempt" where
  "staging_failure h treeOid error =
     (let (primary, cleanup) =
        (case thrown_at h error of
           Error_object (Staging_cleanup p c) _ _ \<Rightarrow> (p, Cleanup_failed c)
         | _ \<Rightarrow> (error, Cleanup_settled))
      in case thrown_at h primary of
           Error_object (Exception BlobStagingError) _ _ \<Rightarrow> restoreAttempt (Restore_failed Staging_stage primary) cleanup
         | _ \<Rightarrow> restoreAttempt (Checkpoint_unreadable treeOid primary) cleanup)"

definition restoreWorkspaceOutcomeWithReads :: "('h, 'a, 'w world_scheme) restore_deps \<Rightarrow> js_string \<Rightarrow> resolved_node_state \<Rightarrow>
    workspace_snapshot \<Rightarrow> ('a, 'w world_scheme) leased \<Rightarrow>
    ((failure + restore_attempt) \<times> bool \<times> ('a, 'w world_scheme) leased) option" where
  "restoreWorkspaceOutcomeWithReads deps root resolution current st =
     (let treeOid = resolved_tree resolution;
          ended = (\<lambda>att w. Some (Inr att, False, st\<lparr>outside := w\<rparr>)) in
      case ebind (readTreeManifest deps treeOid) (\<lambda>manifest.
           ebind (scopeValidation deps manifest) (\<lambda>version. Pair (Inr (manifest, version)))) (outside st) of
        (Inl e, w1) \<Rightarrow> ended (restoreAttempt (Checkpoint_unreadable treeOid e) Cleanup_settled) w1
      | (Inr (manifest, version), w1) \<Rightarrow>
          if \<not> sameGitOracleVersion version (gitOracleVersion current)
          then (let (f, w2) = new_error PlainError w1
                in ended (restoreAttempt (Restore_failed Current_scan_stage f) Cleanup_settled) w2)
          else if ws_problems current \<noteq> []
          then ended (restoreAttempt (Restore_scan_incomplete (ws_problems current)) Cleanup_settled) w1
          else case planWorkspaceRestore (unicode_tables deps) current (comparison_target manifest) of
            None \<Rightarrow> None
          | Some (Inl e) \<Rightarrow>
              (let (f, w2) = new_error e w1
               in ended (restoreAttempt (Restore_failed Current_scan_stage f) Cleanup_settled) w2)
          | Some (Inr plan) \<Rightarrow>
              if plan_problems plan \<noteq> []
              then ended (restoreAttempt (Restore_scan_incomplete (plan_problems plan)) Cleanup_settled) w1
              else case stageBlobs deps (requiredBlobOids plan) (rootPath current) w1 of
                (Inl error, w2) \<Rightarrow> ended (staging_failure (error_objects w2) treeOid error) w2
              | (Inr staged, w2) \<Rightarrow> apply_staged deps root treeOid manifest current plan staged (st\<lparr>outside := w2\<rparr>))"

text \<open>The owner of the reads closes them when that was not attempted.\<close>

definition close_unattempted :: "('h, 'a, 's) restore_deps \<Rightarrow> bool \<Rightarrow> ('a, 's) leased \<Rightarrow> cleanup_settlement \<times> ('a, 's) leased" where
  "close_unattempted deps closeAttempted st =
     (if closeAttempted then (Cleanup_settled, st)
      else case closeReads deps (outside st) of
        (Inr _, w) \<Rightarrow> (Cleanup_settled, st\<lparr>outside := w\<rparr>)
      | (Inl e, w) \<Rightarrow> (Cleanup_failed e, st\<lparr>outside := w\<rparr>))"

definition settle_restore :: "failure + restore_attempt \<Rightarrow> cleanup_settlement \<Rightarrow> 'w world_scheme \<Rightarrow>
    (failure + restore_attempt) \<times> 'w world_scheme" where
  "settle_restore result readCleanup w =
     (case (result, readCleanup) of
        (_, Cleanup_settled) \<Rightarrow> (result, w)
      | (Inl cause, Cleanup_failed c) \<Rightarrow>
          (let (h, f) = retainFailureCause (error_objects w) cause c in (Inl f, w\<lparr>error_objects := h\<rparr>))
      | (Inr att, Cleanup_failed c) \<Rightarrow> (let (att', w') = retainPreparationCleanup att c w in (Inr att', w')))"

definition restoreWorkspaceOutcome :: "('h, 'a, 'w world_scheme) restore_deps \<Rightarrow> js_string \<Rightarrow> resolved_node_state \<Rightarrow>
    workspace_snapshot \<Rightarrow> ('a, 'w world_scheme) leased \<Rightarrow>
    ((failure + restore_attempt) \<times> ('a, 'w world_scheme) leased) option" where
  "restoreWorkspaceOutcome deps root resolution current st =
     map_option (\<lambda>(result, closeAttempted, st1).
       let (readCleanup, st2) = close_unattempted deps closeAttempted st1;
           (r, w) = settle_restore result readCleanup (outside st2)
       in (r, st2\<lparr>outside := w\<rparr>))
     (restoreWorkspaceOutcomeWithReads deps root resolution current st)"

definition restoreWorkspace :: "('h, 'a, 'w world_scheme) restore_deps \<Rightarrow> js_string \<Rightarrow> resolved_node_state \<Rightarrow>
    workspace_snapshot \<Rightarrow> ('a, 'w world_scheme) leased \<Rightarrow>
    ((failure + 'a restore_execution) \<times> ('a, 'w world_scheme) leased) option" where
  "restoreWorkspace deps root resolution current st =
     (case restoreWorkspaceOutcome deps root resolution current st of
        None \<Rightarrow> None
      | Some (Inl e, st1) \<Rightarrow> Some (Inl e, st1)
      | Some (Inr att, st1) \<Rightarrow>
          (let (lease, st2) = workspaceMutationLeaseState st1
           in Some (Inr \<lparr>attempt = att, cutover = (case lease of
                Lease_pending \<Rightarrow> Cutover_not_requested
              | Lease_rejected cause \<Rightarrow> Cutover_rejected cause
              | Lease_authorized a \<Rightarrow> Cutover_authorized a)\<rparr>, st2)))"

subsection \<open>The order of a restore\<close>

datatype restore_event = Blobs_staged | Blobs_verified | Reads_closed | Cutover_called | Staging_disposed

text \<open>What the arguments of a restore promise about a log of events.\<close>

definition records :: "('s \<Rightarrow> restore_event list) \<Rightarrow> ('s \<Rightarrow> ('e + 'b) \<times> 's) \<Rightarrow> restore_event list \<Rightarrow> restore_event list \<Rightarrow> bool" where
  "records log m failed succeeded \<longleftrightarrow>
     (\<forall>w. case m w of (Inl _, w') \<Rightarrow> log w' = log w @ failed | (Inr _, w') \<Rightarrow> log w' = log w @ succeeded)"

primrec quiet :: "('s \<Rightarrow> restore_event list) \<Rightarrow> 's apply_run \<Rightarrow> bool" where
  "quiet log (Apply_returns r) \<longleftrightarrow> True"
| "quiet log (Apply_acts act k) \<longleftrightarrow> (\<forall>w. log (act w) = log w) \<and> (\<forall>w. quiet log (k w))"
| "quiet log (Apply_authorizes k) \<longleftrightarrow> (\<forall>a. quiet log (k a))"
| "quiet log (Apply_continues k) \<longleftrightarrow> (\<forall>a. quiet log (k a))"

definition deps_record :: "('w world_scheme \<Rightarrow> restore_event list) \<Rightarrow> ('h, 'a, 'w world_scheme) restore_deps \<Rightarrow> bool" where
  "deps_record log deps \<longleftrightarrow>
     (\<forall>w h. log (w\<lparr>error_objects := h\<rparr>) = log w) \<and>
     (\<forall>t. records log (readTreeManifest deps t) [] []) \<and> (\<forall>m. records log (scopeValidation deps m) [] []) \<and>
     (\<forall>b r. records log (stageBlobs deps b r) [] [Blobs_staged]) \<and>
     (\<forall>b. records log (verifyBlobs deps b) [] [Blobs_verified]) \<and>
     records log (closeReads deps) [Reads_closed] [Reads_closed] \<and>
     (\<forall>x. records log (disposeStaged deps x) [Staging_disposed] [Staging_disposed]) \<and>
     (\<forall>r m x c. quiet log (apply_program deps r m x c)) \<and>
     (\<forall>a. records log (assertWorkspaceWriteAuthority (write_checks deps) a) [] []) \<and>
     (\<forall>a. records log (assertWorkspaceWriteAuthorityActive (write_checks deps) a) [] []) \<and>
     (\<forall>r s. records log (scanForComparison deps r s) [] [])"

definition lease_records :: "('w world_scheme \<Rightarrow> restore_event list) \<Rightarrow> ('a, 'w world_scheme) leased \<Rightarrow> bool" where
  "lease_records log st \<longleftrightarrow> (\<forall>r. minted st = Some r \<longrightarrow> records log (lease_cutover r) [Cutover_called] [Cutover_called])"

text \<open>The events of a part of the run, and what it does to the lease: it is consumed exactly when its cutover is
  called.\<close>

definition trace :: "('w world_scheme \<Rightarrow> restore_event list) \<Rightarrow> ('a, 'w world_scheme) leased \<Rightarrow> restore_event list \<Rightarrow>
    ('a, 'w world_scheme) leased \<Rightarrow> bool" where
  "trace log st es st' \<longleftrightarrow> log (outside st') = log (outside st) @ es \<and>
     (if Cutover_called \<in> set es
      then \<exists>r s. minted st = Some r \<and> lease_state r = Lease_pending \<and> s \<noteq> Lease_pending \<and>
        minted st' = Some (r\<lparr>lease_state := s\<rparr>)
      else minted st' = minted st)"

lemma trace_refl [intro]: "trace log st [] st"
  by (simp add: trace_def)

lemma trace_trans: "trace log st es st1 \<Longrightarrow> trace log st1 es' st2 \<Longrightarrow> trace log st (es @ es') st2"
  by (auto simp: trace_def split: if_splits)

lemma trace_lease: "trace log st es st' \<Longrightarrow> lease_records log st \<Longrightarrow> lease_records log st'"
  by (auto simp: trace_def lease_records_def split: if_splits)

lemma recorded:
  assumes "records log m failed succeeded" and "m w = (r, w')"
  shows "log w' = log w @ (case r of Inl _ \<Rightarrow> failed | Inr _ \<Rightarrow> succeeded)"
proof -
  have "case m w of (Inl _, w') \<Rightarrow> log w' = log w @ failed | (Inr _, w') \<Rightarrow> log w' = log w @ succeeded"
    using assms(1) by (simp add: records_def)
  then show ?thesis using assms(2) by (cases r) simp_all
qed

lemma recorded_trace:
  assumes "records log m failed succeeded" and "m (outside st) = (r, w')"
    and "Cutover_called \<notin> set failed" and "Cutover_called \<notin> set succeeded"
  shows "trace log st (case r of Inl _ \<Rightarrow> failed | Inr _ \<Rightarrow> succeeded) (st\<lparr>outside := w'\<rparr>)"
  using recorded [OF assms(1,2)] assms(3,4) by (cases r) (simp_all add: trace_def)

lemma new_error_trace:
  assumes "deps_record log deps" and "new_error e (outside st) = (f, w)"
  shows "trace log st [] (st\<lparr>outside := w\<rparr>)"
  using assms by (auto simp: new_error_def allocate_def trace_def deps_record_def)

lemma consume_trace:
  assumes deps: "deps_record log deps" and lease: "lease_records log st" and run: "consumeWorkspaceMutationLease st = (a, st')"
  shows "\<exists>es \<in> {[], [Cutover_called]}. trace log st es st'"
proof (cases "\<exists>r. minted st = Some r \<and> lease_state r = Lease_pending")
  case False
  then obtain f w where "new_error PlainError (outside st) = (f, w)" "st' = st\<lparr>outside := w\<rparr>"
    using run by (auto simp: consumeWorkspaceMutationLease_def split: option.splits if_splits prod.splits)
  then show ?thesis using new_error_trace [OF deps] by blast
next
  case True
  then obtain r where r: "minted st = Some r" "lease_state r = Lease_pending" by blast
  obtain f w1 where e: "new_error PlainError (outside st) = (f, w1)" by fastforce
  obtain c w2 where c: "lease_cutover r w1 = (c, w2)" by fastforce
  have "log w2 = log w1 @ [Cutover_called]"
    using recorded [where log = log and m = "lease_cutover r" and failed = "[Cutover_called]" and succeeded = "[Cutover_called]", OF _ c] lease r(1)
    by (cases c) (auto simp: lease_records_def)
  moreover have "log w1 = log (outside st)" using new_error_trace [OF deps e] by (simp add: trace_def)
  ultimately have "trace log st [Cutover_called] st'"
    using run r e c by (cases c) (auto simp: consumeWorkspaceMutationLease_def trace_def)
  then show ?thesis by blast
qed

definition may_cut :: "('w world_scheme \<Rightarrow> restore_event list) \<Rightarrow> ('a, 'w world_scheme) leased \<Rightarrow> ('a, 'w world_scheme) leased \<Rightarrow> bool" where
  "may_cut log st st' \<longleftrightarrow> trace log st [] st' \<or> trace log st [Cutover_called] st'"

lemma may_cut_refl [intro]: "may_cut log st st"
  by (auto simp: may_cut_def)

lemma may_cut_trans: "may_cut log st st1 \<Longrightarrow> may_cut log st1 st2 \<Longrightarrow> may_cut log st st2"
  unfolding may_cut_def
proof (elim disjE)
  assume "trace log st [Cutover_called] st1" and "trace log st1 [Cutover_called] st2"
  then show "trace log st [] st2 \<or> trace log st [Cutover_called] st2" by (auto simp: trace_def)
qed (use trace_trans [of log st _ st1 _ st2] in force)+

lemma may_cut_lease: "may_cut log st st' \<Longrightarrow> lease_records log st \<Longrightarrow> lease_records log st'"
  using trace_lease by (auto simp: may_cut_def)

lemma check_access_may_cut:
  assumes "\<And>a. records log (check a) [] []"
  shows "may_cut log st (snd (snd (check_access check a st)))"
proof -
  obtain r w where c: "check a (outside st) = (r, w)" by fastforce
  show ?thesis
    using recorded_trace [where m = "check a" and log = log and st = st, OF assms c] c
    by (cases r) (simp_all add: check_access_def may_cut_def)
qed

lemma gate_may_cut:
  assumes deps: "deps_record log deps" and lease: "lease_records log st"
  shows "may_cut log st (snd (snd (authorizeMutation (write_checks deps) (g, st))))" (is ?authorize)
    and "may_cut log st (snd (snd (continueMutation (write_checks deps) (g, st))))"
proof -
  have checks: "records log (assertWorkspaceWriteAuthority (write_checks deps) a) [] []"
      "records log (assertWorkspaceWriteAuthorityActive (write_checks deps) a) [] []" for a
    using deps by (simp_all add: deps_record_def)
  show a: ?authorize
  proof (cases g)
    case Gate_ready
    obtain c st1 where c: "consumeWorkspaceMutationLease st = (c, st1)" by fastforce
    have first: "may_cut log st st1" using consume_trace [OF deps lease c] by (auto simp: may_cut_def)
    show ?thesis
    proof (cases c)
      case (Inr x)
      have "may_cut log st (snd (snd (check_access (assertWorkspaceWriteAuthority (write_checks deps)) x st1)))"
        using first check_access_may_cut [OF checks(1)] by (rule may_cut_trans)
      then show ?thesis using Gate_ready c Inr by (simp add: authorizeMutation_def)
    qed (use first c Gate_ready in \<open>auto simp: authorizeMutation_def\<close>)
  qed (use check_access_may_cut [OF checks(1)] in \<open>auto simp: authorizeMutation_def\<close>)
  show "may_cut log st (snd (snd (continueMutation (write_checks deps) (g, st))))"
    using a check_access_may_cut [OF checks(2)] by (cases g) (auto simp: continueMutation_def)
qed

lemma run_apply_may_cut:
  assumes "deps_record log deps"
  shows "quiet log run \<Longrightarrow> lease_records log st \<Longrightarrow> may_cut log st (snd (snd (run_apply run (write_checks deps) (g, st))))"
proof (induction run arbitrary: g st)
  case (Apply_returns r)
  then show ?case by (cases r) auto
next
  case (Apply_acts act k)
  have step: "may_cut log st (st\<lparr>outside := act (outside st)\<rparr>)" using Apply_acts.prems(1) by (simp add: may_cut_def trace_def)
  then show ?case
    using Apply_acts.IH [OF rangeI, of "outside st" "st\<lparr>outside := act (outside st)\<rparr>" g] Apply_acts.prems
      may_cut_lease [OF step] may_cut_trans [OF step] by simp
next
  case (Apply_authorizes k)
  obtain a g' st' where s: "authorizeMutation (write_checks deps) (g, st) = (a, g', st')" by (metis prod.exhaust)
  have step: "may_cut log st st'" using gate_may_cut(1) [OF assms Apply_authorizes.prems(2), of g] s by simp
  then show ?case
    using Apply_authorizes.IH [OF rangeI, of a st' g'] Apply_authorizes.prems may_cut_lease [OF step] may_cut_trans [OF step] s by simp
next
  case (Apply_continues k)
  obtain a g' st' where s: "continueMutation (write_checks deps) (g, st) = (a, g', st')" by (metis prod.exhaust)
  have step: "may_cut log st st'" using gate_may_cut(2) [OF assms Apply_continues.prems(2), of g] s by simp
  then show ?case
    using Apply_continues.IH [OF rangeI, of a st' g'] Apply_continues.prems may_cut_lease [OF step] may_cut_trans [OF step] s by simp
qed

lemma dispose_trace:
  assumes "deps_record log deps" and "disposeStaging deps staged (outside st) = (c, w)"
  shows "trace log st [Staging_disposed] (st\<lparr>outside := w\<rparr>)"
proof -
  obtain r w' where d: "disposeStaged deps staged (outside st) = (r, w')" by fastforce
  have "records log (disposeStaged deps staged) [Staging_disposed] [Staging_disposed]"
    using assms(1) by (simp add: deps_record_def)
  from recorded_trace [where m = "disposeStaged deps staged" and st = st, OF this d] show ?thesis using assms(2) d by (cases r) (auto simp: disposeStaging_def)
qed

lemma throw_error_trace:
  assumes "deps_record log deps" and "throw_error e (outside st) = (r, w)"
  shows "trace log st [] (st\<lparr>outside := w\<rparr>)"
  using assms by (auto simp: throw_error_def allocate_def trace_def deps_record_def)

lemma verify_trace:
  assumes deps: "deps_record log deps"
    and run: "verify_restore deps t m root report cleanup (outside st) = Some (r, w)"
  shows "trace log st [] (st\<lparr>outside := w\<rparr>)"
proof -
  obtain v w1 where v: "scanForComparison deps root (tm_scope m) (outside st) = (v, w1)" by fastforce
  have "records log (scanForComparison deps root (tm_scope m)) [] []" using deps by (simp add: deps_record_def)
  from recorded_trace [where m = "scanForComparison deps root (tm_scope m)" and st = st, OF this v]
  have t: "trace log st [] (st\<lparr>outside := w1\<rparr>)" by (cases v) simp_all
  show ?thesis
  proof (cases v)
    case (Inr actual)
    let ?plan = "planWorkspaceRestore (unicode_tables deps) actual (comparison_target m)"
    consider "w = w1" | e where "throw_error e w1 = (r, w)"
      using run v Inr by (auto simp: verify_restore_def split: if_splits option.splits sum.splits)
    then show ?thesis
    proof cases
      case (2 e)
      show ?thesis
        using trace_trans [OF t throw_error_trace [OF deps, where st = "st\<lparr>outside := w1\<rparr>" and e = e]] 2 by simp
    qed (use t in simp)
  qed (use run v t in \<open>auto simp: verify_restore_def\<close>)
qed

lemma apply_staged_trace:
  assumes deps: "deps_record log deps" and lease: "lease_records log st"
    and run: "apply_staged deps root t m current plan staged st = Some (r, attempted, st')"
  shows "if attempted
    then \<exists>es \<in> {[Blobs_verified, Reads_closed, Staging_disposed], [Blobs_verified, Reads_closed, Cutover_called, Staging_disposed]}. trace log st es st'
    else trace log st [Staging_disposed] st'"
proof -
  let ?verify = "verifyBlobs deps (non_required (requiredBlobOids plan) (tm_entries m) [])"
  have laws: "records log ?verify [] [Blobs_verified]" "records log (closeReads deps) [Reads_closed] [Reads_closed]"
      "quiet log (apply_program deps root m staged current)"
    using deps by (simp_all add: deps_record_def)
  obtain v w1 where v: "?verify (outside st) = (v, w1)" by fastforce
  note t1 = recorded_trace [where m = ?verify and st = st, OF laws(1) v]
  show ?thesis
  proof (cases v)
    case (Inl e)
    obtain c w2 where d: "disposeStaging deps staged w1 = (c, w2)" by fastforce
    have "trace log st [] (st\<lparr>outside := w1\<rparr>)" using t1 Inl by simp
    from trace_trans [OF this dispose_trace [OF deps, where staged = staged and c = c and w = w2]] d
    have "trace log st [Staging_disposed] (st\<lparr>outside := w2\<rparr>)" by simp
    then show ?thesis using run v Inl d by (auto simp: apply_staged_def)
  next
    case (Inr u)
    have v1: "trace log st [Blobs_verified] (st\<lparr>outside := w1\<rparr>)" using t1 Inr by simp
    obtain c w2 where c: "closeReads deps w1 = (c, w2)" by fastforce
    have "trace log (st\<lparr>outside := w1\<rparr>) [Reads_closed] (st\<lparr>outside := w2\<rparr>)"
      using recorded_trace [where m = "closeReads deps" and st = "st\<lparr>outside := w1\<rparr>", OF laws(2)] c by (cases c) simp_all
    from trace_trans [OF v1 this] have v2: "trace log st [Blobs_verified, Reads_closed] (st\<lparr>outside := w2\<rparr>)" by simp
    show ?thesis
    proof (cases c)
      case close: (Inl e)
      obtain d w3 where d: "disposeStaging deps staged w2 = (d, w3)" by fastforce
      from trace_trans [OF v2 dispose_trace [OF deps, where staged = staged and c = d and w = w3]] d
      have "trace log st [Blobs_verified, Reads_closed, Staging_disposed] (st\<lparr>outside := w3\<rparr>)" by simp
      then show ?thesis using run v Inr c close d by (auto simp: apply_staged_def)
    next
      case close: (Inr u')
      let ?run = "apply_program deps root m staged current"
      obtain ar g st3 where a: "run_apply ?run (write_checks deps) (Gate_ready, st\<lparr>outside := w2\<rparr>) = (ar, g, st3)" by (metis prod.exhaust)
      have ap: "applyTreeToWorkspace ?run (write_checks deps) (st\<lparr>outside := w2\<rparr>) = (ar, st3)" using a by (simp add: applyTreeToWorkspace_def)
      have "may_cut log (st\<lparr>outside := w2\<rparr>) st3"
        using run_apply_may_cut [OF deps laws(3) trace_lease [OF v2 lease], of Gate_ready] a by simp
      then obtain es where es: "es = [] \<or> es = [Cutover_called]" "trace log (st\<lparr>outside := w2\<rparr>) es st3"
        by (auto simp: may_cut_def)
      obtain d w4 where d: "disposeStaging deps staged (outside st3) = (d, w4)" by fastforce
      note t4 = trace_trans [OF trace_trans [OF v2 es(2)] dispose_trace [OF deps d]]
      have "\<exists>w5. st' = st3\<lparr>outside := w5\<rparr> \<and> attempted \<and> trace log (st3\<lparr>outside := w4\<rparr>) [] (st3\<lparr>outside := w5\<rparr>)"
      proof (cases ar)
        case (Inl e)
        then show ?thesis using run v Inr c close ap d by (auto simp: apply_staged_def)
      next
        case rep: (Inr report)
        then obtain w5 where ver: "verify_restore deps t m (rootPath current) report d w4 = Some (r, w5)"
            and st': "st' = st3\<lparr>outside := w5\<rparr>" "attempted"
          using run v Inr c close ap d by (auto simp: apply_staged_def)
        show ?thesis using verify_trace [OF deps, where st = "st3\<lparr>outside := w4\<rparr>" and w = w5] ver st' by auto
      qed
      then have "attempted" "trace log st ([Blobs_verified, Reads_closed] @ es @ [Staging_disposed]) st'"
        using trace_trans [OF t4] by auto
      then show ?thesis using es(1) by auto
    qed
  qed
qed

lemma with_reads_trace:
  assumes deps: "deps_record log deps" and lease: "lease_records log st"
    and run: "restoreWorkspaceOutcomeWithReads deps root resolution current st = Some (r, attempted, st')"
  shows "if attempted
    then \<exists>es \<in> {[Blobs_staged, Blobs_verified, Reads_closed, Staging_disposed],
      [Blobs_staged, Blobs_verified, Reads_closed, Cutover_called, Staging_disposed]}. trace log st es st'
    else \<exists>es \<in> {[], [Blobs_staged, Staging_disposed]}. trace log st es st'"
proof -
  let ?t = "resolved_tree resolution"
  let ?read = "ebind (readTreeManifest deps ?t) (\<lambda>manifest.
           ebind (scopeValidation deps manifest) (\<lambda>version. Pair (Inr (manifest, version))))"
  have laws: "\<And>t. records log (readTreeManifest deps t) [] []" "\<And>m. records log (scopeValidation deps m) [] []"
      "\<And>b r. records log (stageBlobs deps b r) [] [Blobs_staged]"
    using deps by (simp_all add: deps_record_def)
  obtain a w1 where a: "?read (outside st) = (a, w1)" by fastforce
  have same: "log w1 = log (outside st)"
  proof -
    obtain x w where x: "readTreeManifest deps ?t (outside st) = (x, w)" by fastforce
    have e: "log w = log (outside st)" using recorded [where m = "readTreeManifest deps ?t", OF laws(1) x] by (cases x) simp_all
    show ?thesis
    proof (cases x)
      case (Inr m)
      obtain y w' where y: "scopeValidation deps m w = (y, w')" by fastforce
      have "log w' = log w" using recorded [where m = "scopeValidation deps m", OF laws(2) y] by (cases y) simp_all
      then show ?thesis using a x Inr y e by (cases y) (auto simp: ebind_def)
    qed (use a x e in \<open>auto simp: ebind_def\<close>)
  qed
  have t1: "trace log st [] (st\<lparr>outside := w1\<rparr>)" using same by (simp add: trace_def)
  consider (ended) w where "\<not> attempted" "st' = st\<lparr>outside := w\<rparr>" "w = w1"
    | (thrown) e f w where "\<not> attempted" "st' = st\<lparr>outside := w\<rparr>" "new_error e w1 = (f, w)"
    | (unstaged) plan :: workspace_restore_plan and e w where "\<not> attempted" "st' = st\<lparr>outside := w\<rparr>" "stageBlobs deps (requiredBlobOids plan) (rootPath current) w1 = (Inl e, w)"
    | (staged) m plan h w where "stageBlobs deps (requiredBlobOids plan) (rootPath current) w1 = (Inr h, w)"
        "apply_staged deps root ?t m current plan h (st\<lparr>outside := w\<rparr>) = Some (r, attempted, st')"
    using run a unfolding restoreWorkspaceOutcomeWithReads_def
    by (auto simp: Let_def split: sum.splits if_splits option.splits prod.splits)
  then show ?thesis
  proof cases
    case ended
    then show ?thesis using t1 by auto
  next
    case (thrown e f w)
    have "trace log st ([] @ []) (st\<lparr>outside := w\<rparr>)"
      by (rule trace_trans [OF t1]) (use new_error_trace [OF deps, where st = "st\<lparr>outside := w1\<rparr>"] thrown(3) in simp)
    then show ?thesis using thrown(1,2) by auto
  next
    case (unstaged plan e w)
    have "trace log st ([] @ []) (st\<lparr>outside := w\<rparr>)"
      by (rule trace_trans [OF t1])
        (use recorded_trace [where m = "stageBlobs deps (requiredBlobOids plan) (rootPath current)" and st = "st\<lparr>outside := w1\<rparr>", OF laws(3)] unstaged(3) in simp)
    then show ?thesis using unstaged(1,2) by auto
  next
    case (staged m plan h w)
    have s: "trace log st ([] @ [Blobs_staged]) (st\<lparr>outside := w\<rparr>)"
      by (rule trace_trans [OF t1])
        (use recorded_trace [where m = "stageBlobs deps (requiredBlobOids plan) (rootPath current)" and st = "st\<lparr>outside := w1\<rparr>", OF laws(3)] staged(1) in simp)
    from apply_staged_trace [OF deps trace_lease [OF s lease] staged(2)] show ?thesis
      using trace_trans [OF s] by (auto split: if_splits)
  qed
qed

subsection \<open>What a restored workspace holds\<close>

text \<open>The scanner's inventories have one entry per path and relative excluded paths.\<close>

definition proper_inventory :: "'a workspace_state_scheme \<Rightarrow> bool" where
  "proper_inventory ws \<longleftrightarrow> distinct (map we_path (ws_entries ws)) \<and>
     list_all (\<lambda>c. \<not> startsWith (oc_path c) [SLASH]) (ws_excluded ws)"

lemma no_changes_contents:
  assumes "planWorkspaceRestore u actual (comparison_target m) = Some (Inr plan)" and "plan_problems plan = []"
    and "\<not> restorePlanHasChanges plan" and "proper_inventory actual"
  shows "workspace_contents actual = target_contents m"
proof -
  have "\<forall>c \<in> set (ws_excluded actual). \<not> startsWith (oc_path c) [SLASH]" "distinct (map we_path (ws_entries actual))"
    using assms(4) by (simp_all add: proper_inventory_def list_all_iff)
  from changes_iff [OF assms(1,2) this] show ?thesis using assms(3) by (simp add: comparison_target_def target_contents_def)
qed

lemma verify_restored:
  assumes "verify_restore deps t m root report cleanup w = Some (Inr att, w')" and "outcome att = Restored t' report'"
  obtains actual plan where "t' = t" "report' = report" "report_problems report = []"
    "scanForComparison deps root (tm_scope m) w = (Inr actual, w')" "ws_problems actual = []"
    "planWorkspaceRestore (unicode_tables deps) actual (comparison_target m) = Some (Inr plan)" "plan_problems plan = []"
    "\<not> restorePlanHasChanges plan"
  using assms
  by (auto simp: verify_restore_def restoreAttempt_def throw_error_def allocate_def split: prod.splits sum.splits if_splits option.splits)

lemma apply_staged_restored:
  assumes "apply_staged deps root t m current plan staged st = Some (Inr att, attempted, st')" and "outcome att = Restored t' report"
  obtains w actual w' plan' where "t' = t" "report_problems report = []"
    "scanForComparison deps (rootPath current) (tm_scope m) w = (Inr actual, w')" "outside st' = w'" "ws_problems actual = []"
    "planWorkspaceRestore (unicode_tables deps) actual (comparison_target m) = Some (Inr plan')" "plan_problems plan' = []"
    "\<not> restorePlanHasChanges plan'" "attempted"
proof -
  have "\<exists>rep cleanup w w'. verify_restore deps t m (rootPath current) rep cleanup w = Some (Inr att, w') \<and> outside st' = w' \<and> attempted"
    using assms by (auto simp: apply_staged_def restoreAttempt_def Let_def split: prod.splits sum.splits) blast
  then show thesis using assms(2) that by (elim exE conjE verify_restored) auto
qed

lemma with_reads_restored:
  assumes "restoreWorkspaceOutcomeWithReads deps root resolution current st = Some (Inr att, attempted, st')"
    and "outcome att = Restored t report"
  obtains m version w1 w2 w actual w' plan where "readTreeManifest deps (resolved_tree resolution) (outside st) = (Inr m, w1)"
    "scopeValidation deps m w1 = (Inr version, w2)" "version = gitOracleVersion current" "ws_problems current = []"
    "t = resolved_tree resolution" "report_problems report = []"
    "scanForComparison deps (rootPath current) (tm_scope m) w = (Inr actual, w')" "ws_problems actual = []"
    "planWorkspaceRestore (unicode_tables deps) actual (comparison_target m) = Some (Inr plan)" "plan_problems plan = []"
    "\<not> restorePlanHasChanges plan" "attempted"
proof -
  have "\<exists>m version w1 w2 plan0 :: workspace_restore_plan. \<exists>staged st1. readTreeManifest deps (resolved_tree resolution) (outside st) = (Inr m, w1) \<and>
      scopeValidation deps m w1 = (Inr version, w2) \<and> version = gitOracleVersion current \<and> ws_problems current = [] \<and>
      apply_staged deps root (resolved_tree resolution) m current plan0 staged st1 = Some (Inr att, attempted, st')"
    using assms
    by (auto simp: restoreWorkspaceOutcomeWithReads_def restoreAttempt_def staging_failure_def Let_def ebind_Inr sameGitOracleVersion_def
        split: prod.splits sum.splits if_splits option.splits thrown.splits error_class.splits js_error.splits)
  then show thesis using that assms(2) by (elim exE conjE apply_staged_restored) blast
qed

lemma settle_restore_Inr:
  assumes "settle_restore result cleanup w = (Inr att, w')"
  obtains att0 where "result = Inr att0" "outcome att = outcome att0"
  using assms that by (cases result; cases cleanup)
    (auto simp: settle_restore_def retainPreparationCleanup_def Let_def split: cleanup_settlement.splits prod.splits)

lemma restoreWorkspaceOutcome_parts:
  assumes "restoreWorkspaceOutcome deps root resolution current st = Some (q, st')"
  obtains result attempted st1 cl st2 w where
    "restoreWorkspaceOutcomeWithReads deps root resolution current st = Some (result, attempted, st1)"
    "close_unattempted deps attempted st1 = (cl, st2)" "settle_restore result cl (outside st2) = (q, w)"
    "st' = st2\<lparr>outside := w\<rparr>"
proof -
  obtain result attempted st1 where run: "restoreWorkspaceOutcomeWithReads deps root resolution current st = Some (result, attempted, st1)"
    using assms by (auto simp: restoreWorkspaceOutcome_def)
  obtain cl st2 where c: "close_unattempted deps attempted st1 = (cl, st2)" by fastforce
  obtain q' w where "settle_restore result cl (outside st2) = (q', w)" by fastforce
  then show thesis using assms run c that by (simp add: restoreWorkspaceOutcome_def)
qed

lemma restoreWorkspace_parts:
  fixes st :: "('a, 'w world_scheme) leased"
  assumes "restoreWorkspace deps root resolution current st = Some (Inr x, st')"
  obtains att attempted st1 where
    "restoreWorkspaceOutcomeWithReads deps root resolution current st = Some (Inr att, attempted, st1)"
    "outcome (attempt x) = outcome att"
proof -
  obtain st2 where "restoreWorkspaceOutcome deps root resolution current st = Some (Inr (attempt x), st2)"
    using assms by (auto simp: restoreWorkspace_def Let_def split: option.splits sum.splits prod.splits)
  then obtain result attempted st1 cl and w w' :: "'w world_scheme" where
      run: "restoreWorkspaceOutcomeWithReads deps root resolution current st = Some (result, attempted, st1)"
      and s: "settle_restore result cl w = (Inr (attempt x), w')"
    by (elim restoreWorkspaceOutcome_parts)
  from s show thesis by (rule settle_restore_Inr) (use run that in auto)
qed

definition proper_scanner :: "('h, 'a, 's) restore_deps \<Rightarrow> bool" where
  "proper_scanner deps \<longleftrightarrow> (\<forall>r s w actual w'. scanForComparison deps r s w = (Inr actual, w') \<longrightarrow> proper_inventory actual)"

text \<open>A concrete restore: a disk, and a log of the events.\<close>

record restore_sample = world +
  events :: "restore_event list"
  disk :: "workspace_entry list"

definition restored_file :: workspace_entry where
  "restored_file = Regular_file (js ''a'') None 3 (js ''h2'') (Some (js ''/w/a''))"

definition disk_snapshot :: "workspace_entry list \<Rightarrow> workspace_snapshot" where
  "disk_snapshot es = \<lparr>ws_entries = es, ws_excluded = [], ws_problems = [], ws_scope = All_managed,
     gitOracleVersion = None, rootPath = js ''/w'', directoryObservations = []\<rparr>"

definition event :: "restore_event \<Rightarrow> 'b \<Rightarrow> restore_sample \<Rightarrow> (failure + 'b) \<times> restore_sample" where
  "event e x w = (Inr x, w\<lparr>events := events w @ [e]\<rparr>)"

definition restore_sample_deps :: "(unit, unit, restore_sample) restore_deps" where
  "restore_sample_deps = \<lparr>
     readTreeManifest = (\<lambda>_. Pair (Inr \<lparr>tm_format = CURRENT_TREE_MANIFEST_FORMAT,
       tm_entries = [Regular_entry (js ''a'') (js ''h2'') None], tm_scope = All_managed\<rparr>)),
     scopeValidation = (\<lambda>_. Pair (Inr None)), unicode_tables = plain_unicode,
     stageBlobs = (\<lambda>_ _. event Blobs_staged ()), verifyBlobs = (\<lambda>_. event Blobs_verified ()),
     closeReads = event Reads_closed (), disposeStaged = (\<lambda>_. event Staging_disposed ()),
     apply_program = (\<lambda>_ _ _ _. Apply_authorizes (\<lambda>answer. case answer of
         Inl e \<Rightarrow> Apply_returns (Inl e)
       | Inr _ \<Rightarrow> Apply_acts (\<lambda>w. w\<lparr>disk := [restored_file]\<rparr>)
           (\<lambda>_. Apply_returns (Inr \<lparr>report_created = [], report_updated = [js ''a''], report_deleted = [],
              report_renamed = [], unchangedCount = 0, report_problems = []\<rparr>)))),
     write_checks = \<lparr>assertWorkspaceWriteAuthority = (\<lambda>_. Pair (Inr ())),
       assertWorkspaceWriteAuthorityActive = (\<lambda>_. Pair (Inr ()))\<rparr>,
     scanForComparison = (\<lambda>_ _ w. (if distinct (map we_path (disk w)) then Inr (disk_snapshot (disk w)) else Inl 0, w))\<rparr>"

definition restore_sample_state :: "(unit, restore_sample) leased" where
  "restore_sample_state = \<lparr>minted = Some (prepareWorkspaceMutationLease (event Cutover_called ())),
     outside = \<lparr>error_objects = [], events = [],
       disk = [Regular_file (js ''a'') None 3 (js ''h1'') (Some (js ''/w/a''))]\<rparr>\<rparr>"

abbreviation sample_restore where
  "sample_restore \<equiv> restoreWorkspace restore_sample_deps (js ''/w'')
     \<lparr>resolved_tree = ''t'', foundAt = \<lparr>node_session = ''s'', node_entry = ''e''\<rparr>\<rparr>
     (disk_snapshot (disk (outside restore_sample_state))) restore_sample_state"

lemma sample_restores:
  "\<exists>x st'. sample_restore = Some (Inr x, st') \<and> disk (outside st') = [restored_file] \<and> (\<exists>report. outcome (attempt x) = Restored ''t'' report)"
proof -
  have "(case sample_restore of Some (Inr x, st') \<Rightarrow> disk (outside st') = [restored_file] \<and>
      (case outcome (attempt x) of Restored t _ \<Rightarrow> t = ''t'' | _ \<Rightarrow> False) | _ \<Rightarrow> False)" by code_simp
  then obtain r st' where run: "sample_restore = Some (r, st')" and r: "case r of Inl _ \<Rightarrow> False | Inr x \<Rightarrow>
      disk (outside st') = [restored_file] \<and> (case outcome (attempt x) of Restored t _ \<Rightarrow> t = ''t'' | _ \<Rightarrow> False)"
    by (auto split: option.splits)
  then obtain x where "r = Inr x" by (cases r) auto
  then show ?thesis using run r by (cases "outcome (attempt x)") auto
qed

lemma sample_records: "deps_record events restore_sample_deps" "lease_records events restore_sample_state"
  by (auto simp: deps_record_def lease_records_def restore_sample_deps_def restore_sample_state_def records_def event_def
      prepareWorkspaceMutationLease_def split: sum.splits)

lemma sample_scanner: "proper_scanner restore_sample_deps"
  by (auto simp: proper_scanner_def restore_sample_deps_def disk_snapshot_def proper_inventory_def split: if_splits)

subsection \<open>Properties\<close>

text \<open>C27. A restored workspace holds the checkpoint: when a restore reports success, the manifest of the resolved tree
  was read from the store, the apply reported no problem, and a complete scan of the workspace made afterwards
  found exactly the contents of that manifest.\<close>

theorem restored_workspaces_match:
  assumes "restoreWorkspace deps root resolution current st = Some (Inr x, st')"
    and "outcome (attempt x) = Restored t report" and "proper_scanner deps"
  shows "\<exists>m w1 w2 w3 actual. readTreeManifest deps (resolved_tree resolution) (outside st) = (Inr m, w1) \<and>
    t = resolved_tree resolution \<and> report_problems report = [] \<and>
    scanForComparison deps (rootPath current) (tm_scope m) w2 = (Inr actual, w3) \<and> ws_problems actual = [] \<and>
    workspace_contents actual = target_contents m"
proof -
  obtain att attempted st1 where "restoreWorkspaceOutcomeWithReads deps root resolution current st = Some (Inr att, attempted, st1)"
      and "outcome att = Restored t report"
    using assms(1,2) by (auto elim: restoreWorkspace_parts)
  then show ?thesis
  proof (rule with_reads_restored)
    fix m version w1 w2 w actual w' plan
    assume "readTreeManifest deps (resolved_tree resolution) (outside st) = (Inr m, w1)"
      and "t = resolved_tree resolution" "report_problems report = []" and scan: "scanForComparison deps (rootPath current) (tm_scope m) w = (Inr actual, w')"
      and "ws_problems actual = []"
      and p: "planWorkspaceRestore (unicode_tables deps) actual (comparison_target m) = Some (Inr plan)" "plan_problems plan = []"
        "\<not> restorePlanHasChanges plan"
    moreover have "proper_inventory actual" using assms(3) scan unfolding proper_scanner_def by blast
    ultimately show ?thesis using no_changes_contents [OF p] by blast
  qed
qed

theorem restored_workspaces_match_witness:
  "\<exists>x st'. sample_restore = Some (Inr x, st') \<and> report_problems (case outcome (attempt x) of Restored _ report \<Rightarrow> report) = []"
proof -
  obtain x st' report where run: "sample_restore = Some (Inr x, st')" and out: "outcome (attempt x) = Restored ''t'' report"
    using sample_restores by blast
  from restored_workspaces_match [OF run out sample_scanner] show ?thesis using run out by auto
qed



end
