(* ===== verification/Fanout_Index.thy ===== *)
theory Fanout_Index
  imports Pack_Delta Tree_Manifest Chunk_Recipe "HOL-Library.List_Lexorder" "HOL-Library.Char_ord"
begin

text \<open>
  The fanout index that pack footers (\<^verbatim>\<open>content-store/pack.ts\<close>) and the multi-pack index
  (\<^verbatim>\<open>content-store/multi-pack-index.ts\<close>) share: entries sorted by identifier, a table of 256 cumulative
  counts by first byte, and a binary search between two of its counts. The two files repeat the code; here it
  is one set of definitions over the projections of an entry, used by both. Identifiers in an index are parsed
  ones: 64 lowercase hexadecimal digits.
\<close>

subsection \<open>The fanout table\<close>

definition FANOUT_ENTRIES :: nat where "FANOUT_ENTRIES = 256"

text \<open>\<^verbatim>\<open>Number.parseInt(id.slice(0, 2), 16)\<close> of an identifier; the counts have no element at any other string.\<close>

definition first_byte :: "string \<Rightarrow> nat option" where
  "first_byte i = (if is_sha256_hex i then Some (nat (16 * nibble (i ! 0) + nibble (i ! 1))) else None)"

fun count_first_bytes :: "js_error \<Rightarrow> string list \<Rightarrow> int list \<Rightarrow> int list result" where
  "count_first_bytes err [] counts = Inr counts"
| "count_first_bytes err (i # ids) counts =
     (case first_byte i of
        None \<Rightarrow> Inl err
      | Some b \<Rightarrow> count_first_bytes err ids (counts[b := counts ! b + 1]))"

fun cumulate :: "int \<Rightarrow> int list \<Rightarrow> int list" where
  "cumulate before [] = []"
| "cumulate before (c # cs) = (before + c) # cumulate (before + c) cs"

definition fanoutFor :: "js_error \<Rightarrow> string list \<Rightarrow> int list result" where
  "fanoutFor err ids =
     rbind (count_first_bytes err ids (replicate FANOUT_ENTRIES 0)) (\<lambda>counts. Inr (cumulate 0 counts))"

subsection \<open>The search\<close>

definition at_or :: "'a \<Rightarrow> 'a list \<Rightarrow> nat \<Rightarrow> 'a" where
  "at_or d xs i = (if i < length xs then xs ! i else d)"

function lower_bound :: "string list \<Rightarrow> string \<Rightarrow> nat \<Rightarrow> nat \<Rightarrow> nat" where
  "lower_bound ids key lo hi =
     (if lo < hi
      then let middle = lo + (hi - lo) div 2 in
        (if middle < length ids \<and> ids ! middle < key then lower_bound ids key (middle + 1) hi
         else lower_bound ids key lo middle)
      else lo)"
  by pat_completeness auto
termination
  by (relation "measure (\<lambda>(ids, key, lo, hi). hi - lo)") (auto simp: Let_def)

declare lower_bound.simps [simp del]

fun collect_matches :: "('e \<Rightarrow> string) \<Rightarrow> ('e \<Rightarrow> record_kind) \<Rightarrow> string \<Rightarrow> record_kind \<Rightarrow> 'e list \<Rightarrow> 'e list" where
  "collect_matches id_of kind_of i k [] = []"
| "collect_matches id_of kind_of i k (e # es) =
     (if id_of e \<noteq> i then []
      else if kind_of e = k then e # collect_matches id_of kind_of i k es
      else collect_matches id_of kind_of i k es)"

text \<open>The body of \<^verbatim>\<open>lookup\<close> behind its check of the key; \<open>drop\<close> and \<open>take\<close> are the range of the last loop.\<close>

definition fanout_lookup :: "('e \<Rightarrow> string) \<Rightarrow> ('e \<Rightarrow> record_kind) \<Rightarrow> 'e list \<Rightarrow> int list \<Rightarrow> string \<Rightarrow> record_kind \<Rightarrow> 'e list" where
  "fanout_lookup id_of kind_of entries fanout i k =
     (case first_byte i of
        None \<Rightarrow> []
      | Some firstByte \<Rightarrow>
          let start = (if firstByte = 0 then 0 else at_or 0 fanout (firstByte - 1));
              hi = at_or start fanout firstByte;
              lo = lower_bound (map id_of entries) i (nat start) (nat hi)
          in collect_matches id_of kind_of i k (drop lo (take (nat hi) entries)))"

subsection \<open>Identifiers and first bytes\<close>

lemma nibble_mono: "c \<in> set hex_digits \<Longrightarrow> d \<in> set hex_digits \<Longrightarrow> c < d \<Longrightarrow> nibble c < nibble d"
proof -
  have "\<forall>c \<in> set hex_digits. \<forall>d \<in> set hex_digits. c < d \<longrightarrow> nibble c < nibble d" by code_simp
  then show "c \<in> set hex_digits \<Longrightarrow> d \<in> set hex_digits \<Longrightarrow> c < d \<Longrightarrow> nibble c < nibble d" by blast
qed

lemma nibble_range: "c \<in> set hex_digits \<Longrightarrow> 0 \<le> nibble c \<and> nibble c < 16"
  using nibble_hex by blast

lemma sha256_hex_parts:
  assumes "is_sha256_hex i"
  obtains c d s where "i = c # d # s" "c \<in> set hex_digits" "d \<in> set hex_digits"
proof -
  obtain c s' where s': "i = c # s'" using assms by (cases i) (auto simp: is_sha256_hex_def)
  then obtain d s where "s' = d # s" using assms by (cases s') (auto simp: is_sha256_hex_def)
  then show thesis using that s' assms by (auto simp: is_sha256_hex_def)
qed

lemma first_byte_hex: "is_sha256_hex i \<Longrightarrow> \<exists>b < 256. first_byte i = Some b"
proof -
  assume i: "is_sha256_hex i"
  then obtain c d s where "i = c # d # s" "c \<in> set hex_digits" "d \<in> set hex_digits" by (rule sha256_hex_parts)
  then show ?thesis using i nibble_range [of c] nibble_range [of d] by (auto simp: first_byte_def)
qed

definition byte_of :: "string \<Rightarrow> nat" where
  "byte_of i = (case first_byte i of Some b \<Rightarrow> b | None \<Rightarrow> 0)"

lemma first_byte_of: "is_sha256_hex i \<Longrightarrow> first_byte i = Some (byte_of i) \<and> byte_of i < 256"
  using first_byte_hex [of i] by (auto simp: byte_of_def)

lemma byte_of_mono:
  assumes "is_sha256_hex i" and "is_sha256_hex j" and "i \<le> j"
  shows "byte_of i \<le> byte_of j"
proof -
  obtain a b s where i: "i = a # b # s" and h: "a \<in> set hex_digits" "b \<in> set hex_digits" using assms(1) by (rule sha256_hex_parts)
  obtain c d t where j: "j = c # d # t" and h': "c \<in> set hex_digits" "d \<in> set hex_digits" using assms(2) by (rule sha256_hex_parts)
  have "a < c \<or> a = c \<and> (b < d \<or> b = d)" using assms(3) by (auto simp: i j)
  then show ?thesis
    using nibble_mono [OF h(1) h'(1)] nibble_mono [OF h(2) h'(2)] nibble_range h h' assms(1,2)
    by (auto simp: byte_of_def first_byte_def i j) (smt (verit) nat_mono nibble_range)+
qed

subsection \<open>What the fanout table holds\<close>

definition fanout_of :: "string list \<Rightarrow> int list" where
  "fanout_of ids = map (\<lambda>b. int (length (filter (\<lambda>i. byte_of i \<le> b) ids))) [0..<256]"

lemma length_fanout_of [simp]: "length (fanout_of ids) = 256"
  by (simp add: fanout_of_def)

lemma fanout_of_nth: "b < 256 \<Longrightarrow> fanout_of ids ! b = int (length (filter (\<lambda>i. byte_of i \<le> b) ids))"
  by (simp add: fanout_of_def)

lemma cumulate_nth: "k < length cs \<Longrightarrow> cumulate t cs ! k = t + sum_list (take (Suc k) cs)"
proof (induction cs arbitrary: t k)
  case (Cons c cs)
  then show ?case by (cases k) auto
qed simp

lemma length_cumulate [simp]: "length (cumulate t cs) = length cs"
  by (induction t cs rule: cumulate.induct) auto

lemma counted:
  assumes "list_all is_sha256_hex ids" and "length counts = 256"
  shows "\<exists>c. count_first_bytes err ids counts = Inr c \<and> length c = 256 \<and>
    (\<forall>b < 256. c ! b = counts ! b + int (length (filter (\<lambda>i. byte_of i = b) ids)))"
  using assms
proof (induction ids arbitrary: counts)
  case (Cons i ids)
  have b: "first_byte i = Some (byte_of i)" "byte_of i < 256" using first_byte_of Cons.prems(1) by auto
  have "length (counts[byte_of i := counts ! byte_of i + 1]) = 256" using Cons.prems(2) by simp
  from Cons.IH [OF _ this] obtain c where c: "count_first_bytes err ids (counts[byte_of i := counts ! byte_of i + 1]) = Inr c"
      "length c = 256" "\<forall>b < 256. c ! b = counts[byte_of i := counts ! byte_of i + 1] ! b + int (length (filter (\<lambda>i. byte_of i = b) ids))"
    using Cons.prems(1) by auto
  show ?case using c b Cons.prems(2) by (intro exI [of _ c]) (auto simp: nth_list_update)
qed auto

lemma fanoutFor_ok:
  assumes "list_all is_sha256_hex ids"
  shows "fanoutFor err ids = Inr (fanout_of ids)"
proof -
  obtain c where c: "count_first_bytes err ids (replicate FANOUT_ENTRIES 0) = Inr c" "length c = 256"
      "\<forall>b < 256. c ! b = int (length (filter (\<lambda>i. byte_of i = b) ids))"
    using counted [OF assms, of "replicate FANOUT_ENTRIES 0" err] by (auto simp: FANOUT_ENTRIES_def)
  have "sum_list (take (Suc k) c) = int (length (filter (\<lambda>i. byte_of i \<le> k) ids))" if "k < 256" for k
    using that
  proof (induction k)
    case 0
    have "c ! 0 = int (length (filter (\<lambda>i. byte_of i = 0) ids))" using c(3) by simp
    then show ?case using c(2) by (cases c) simp_all
  next
    case (Suc k)
    have "length (filter (\<lambda>i. byte_of i \<le> Suc k) ids) =
        length (filter (\<lambda>i. byte_of i \<le> k) ids) + length (filter (\<lambda>i. byte_of i = Suc k) ids)"
      by (induction ids) auto
    then show ?case using Suc c(2,3) by (simp add: take_Suc_conv_app_nth)
  qed
  then have "cumulate 0 c = fanout_of ids"
    by (intro nth_equalityI) (simp_all add: c(2) cumulate_nth fanout_of_nth)
  then show ?thesis using c(1) by (simp add: fanoutFor_def)
qed

lemma fanoutFor_Inr: "fanoutFor err ids = Inr f \<longleftrightarrow> list_all is_sha256_hex ids \<and> f = fanout_of ids"
proof (cases "list_all is_sha256_hex ids")
  case False
  have "\<exists>e. count_first_bytes err ids counts = Inl e" for counts
    using False by (induction ids arbitrary: counts) (auto simp: first_byte_def split: if_splits)
  then obtain e where "count_first_bytes err ids (replicate FANOUT_ENTRIES 0) = Inl e" by blast
  then show ?thesis using False by (simp add: fanoutFor_def)
qed (auto simp: fanoutFor_ok)

lemma upto_mono: "a \<le> b \<Longrightarrow> length (filter (\<lambda>i. byte_of i \<le> a) ids) \<le> length (filter (\<lambda>i. byte_of i \<le> b) ids)"
  by (induction ids) auto

text \<open>The table as its readers check it: ascending, and up to the number of entries.\<close>

lemma fanout_of_shape:
  shows "sorted (fanout_of ids)" and "\<forall>c \<in> set (fanout_of ids). 0 \<le> c \<and> c \<le> int (length ids)"
    and "list_all is_sha256_hex ids \<Longrightarrow> last (fanout_of ids) = int (length ids)"
proof -
  show "sorted (fanout_of ids)" using upto_mono by (auto simp: fanout_of_def sorted_iff_nth_mono)
  show "\<forall>c \<in> set (fanout_of ids). 0 \<le> c \<and> c \<le> int (length ids)" by (auto simp: fanout_of_def)
  assume "list_all is_sha256_hex ids"
  then have "byte_of i \<le> 255" if "i \<in> set ids" for i
    using first_byte_of [of i] that by (auto simp: list_all_iff)
  then have "filter (\<lambda>i. byte_of i \<le> 255) ids = ids" by (simp add: filter_id_conv)
  moreover have "last (fanout_of ids) = fanout_of ids ! 255"
    using last_conv_nth [of "fanout_of ids"] length_fanout_of [of ids] by (cases "fanout_of ids = []") auto
  ultimately show "last (fanout_of ids) = int (length ids)" by (simp add: fanout_of_nth)
qed

subsection \<open>Searching finds what a scan finds\<close>

lemma filter_downward: "sorted_wrt (\<lambda>x y. P y \<longrightarrow> P x) xs \<Longrightarrow> filter P xs = takeWhile P xs"
proof (induction xs)
  case (Cons x xs)
  show ?case
  proof (cases "P x")
    case False
    then have "\<forall>y \<in> set xs. \<not> P y" using Cons.prems by auto
    then show ?thesis using False by simp
  qed (use Cons in simp)
qed simp

lemma downward_prefix:
  assumes "sorted_wrt (\<lambda>x y. P y \<longrightarrow> P x) xs" and "i < length xs"
  shows "i < length (filter P xs) \<longleftrightarrow> P (xs ! i)"
proof -
  note f = filter_downward [OF assms(1)]
  show ?thesis
  proof
    assume "i < length (filter P xs)"
    then show "P (xs ! i)" unfolding f by (metis nth_mem set_takeWhileD takeWhile_nth)
  next
    assume "P (xs ! i)"
    show "i < length (filter P xs)"
    proof (rule ccontr)
      assume "\<not> i < length (filter P xs)"
      then have "length (takeWhile P xs) \<le> i" unfolding f by simp
      moreover have "\<not> P (xs ! length (takeWhile P xs))"
        using nth_length_takeWhile [of P xs] calculation assms(2) by simp
      ultimately show False
        using assms \<open>P (xs ! i)\<close> sorted_wrt_nth_less [OF assms(1), of "length (takeWhile P xs)" i]
        by (cases "length (takeWhile P xs) = i") auto
    qed
  qed
qed

lemma lower_bound_between:
  fixes key :: string
  assumes "sorted ids" and "lo \<le> hi" and "hi \<le> length ids"
  defines "l \<equiv> lower_bound ids key lo hi"
  shows "lo \<le> l \<and> l \<le> hi \<and> (\<forall>i. lo \<le> i \<and> i < l \<longrightarrow> ids ! i < key) \<and> (\<forall>i. l \<le> i \<and> i < hi \<longrightarrow> key \<le> ids ! i)"
  using assms(1-3) unfolding l_def
proof (induction ids key lo hi rule: lower_bound.induct)
  case (1 ids key lo hi)
  show ?case
  proof (cases "lo < hi")
    case True
    let ?m = "lo + (hi - lo) div 2"
    have m: "?m < hi" "lo \<le> ?m" "?m < length ids" using True "1.prems" by auto
    show ?thesis
    proof (cases "ids ! ?m < key")
      case below: True
      have run: "lower_bound ids key lo hi = lower_bound ids key (?m + 1) hi"
        using True below m by (subst lower_bound.simps) (simp add: Let_def)
      have before: "ids ! i < key" if "i \<le> ?m" for i
        using sorted_nth_mono [OF "1.prems"(1) that m(3)] below by simp
      let ?l = "lower_bound ids key (?m + 1) hi"
      have l: "?m + 1 \<le> ?l" "?l \<le> hi" "\<forall>i. ?m + 1 \<le> i \<and> i < ?l \<longrightarrow> ids ! i < key" "\<forall>i. ?l \<le> i \<and> i < hi \<longrightarrow> key \<le> ids ! i"
        using "1.IH"(1) [OF True refl] below m "1.prems" by auto
      have "ids ! i < key" if "i < ?l" for i
        using before [of i] l(3) that by (cases "i \<le> ?m") auto
      then show ?thesis unfolding run using l m by auto
    next
      case False
      have run: "lower_bound ids key lo hi = lower_bound ids key lo ?m"
        using True False by (subst lower_bound.simps) (simp add: Let_def)
      have beyond: "key \<le> ids ! i" if "?m \<le> i" "i < hi" for i
        using sorted_nth_mono [OF "1.prems"(1) that(1)] that(2) "1.prems"(3) False by fastforce
      have "lo \<le> lower_bound ids key lo ?m \<and> lower_bound ids key lo ?m \<le> ?m \<and>
          (\<forall>i. lo \<le> i \<and> i < lower_bound ids key lo ?m \<longrightarrow> ids ! i < key) \<and>
          (\<forall>i. lower_bound ids key lo ?m \<le> i \<and> i < ?m \<longrightarrow> key \<le> ids ! i)"
        using "1.IH"(2) [OF True refl] False m "1.prems"(1,3) by simp
      then have l: "lo \<le> lower_bound ids key lo ?m" "lower_bound ids key lo ?m \<le> hi"
          "\<forall>i. lo \<le> i \<and> i < lower_bound ids key lo ?m \<longrightarrow> ids ! i < key"
          "\<forall>i. lower_bound ids key lo ?m \<le> i \<and> i < ?m \<longrightarrow> key \<le> ids ! i" using m by auto
      have "key \<le> ids ! i" if "lower_bound ids key lo ?m \<le> i" "i < hi" for i
        using beyond [of i] l(4) that by (cases "i < ?m") auto
      then show ?thesis unfolding run using l by auto
    qed
  next
    case False
    then have "lower_bound ids key lo hi = lo" by (subst lower_bound.simps) simp
    then show ?thesis using False "1.prems" by auto
  qed
qed

lemma in_set_dropE:
  assumes "e \<in> set (drop m es)"
  obtains j where "m \<le> j" "j < length es" "es ! j = e"
proof -
  obtain j where j: "j < length (drop m es)" "drop m es ! j = e" using assms by (metis in_set_conv_nth)
  then have "m + j < length es" "es ! (m + j) = e" by auto
  then show thesis using that [of "m + j"] by simp
qed

lemma collect_is_filter:
  "sorted (map id_of es) \<Longrightarrow> (\<forall>e \<in> set es. i \<le> id_of e) \<Longrightarrow>
     collect_matches id_of kind_of i k es = filter (\<lambda>e. id_of e = i \<and> kind_of e = k) es"
proof (induction es)
  case (Cons e es)
  show ?case
  proof (cases "id_of e = i")
    case False
    then have "i < id_of e" using Cons.prems(2) by (simp add: order.not_eq_order_implies_strict)
    then have "\<forall>x \<in> set es. id_of x \<noteq> i" using Cons.prems(1) by auto
    then show ?thesis using False by (auto simp: filter_empty_conv)
  qed (use Cons in auto)
qed simp

definition compareHex :: "string \<Rightarrow> string \<Rightarrow> int" where
  "compareHex left right = (if left < right then - 1 else if left > right then 1 else 0)"

text \<open>A loop over consecutive entries that throws when two of them are not in strict order.\<close>

fun strictly_sorted :: "('e \<Rightarrow> 'e \<Rightarrow> int) \<Rightarrow> 'e list \<Rightarrow> bool" where
  "strictly_sorted cmp (x # y # rest) \<longleftrightarrow> cmp x y < 0 \<and> strictly_sorted cmp (y # rest)"
| "strictly_sorted cmp es \<longleftrightarrow> True"

subsection \<open>Comparators with ties broken\<close>

text \<open>A comparator whose sign is antisymmetric, as the two files build them: compare one key and, on a tie, the next.\<close>

locale sign_comparator = comparator +
  assumes cmp_sign: "sgn (cmp x y) = - sgn (cmp y x)"
begin

lemma cmp_flip: "cmp x y < 0 \<longleftrightarrow> 0 < cmp y x" "cmp x y = 0 \<longleftrightarrow> cmp y x = 0"
  using cmp_sign [of x y] by (auto simp: sgn_if split: if_splits)

lemma strict_trans: "cmp x y < 0 \<Longrightarrow> cmp y z \<le> 0 \<Longrightarrow> cmp x z < 0"
  using cmp_trans [of x y z] cmp_trans [of y z x] cmp_flip [of x z] cmp_flip [of x y] by linarith

lemma strict_trans2: "cmp x y \<le> 0 \<Longrightarrow> cmp y z < 0 \<Longrightarrow> cmp x z < 0"
  using cmp_trans [of x y z] cmp_trans [of z x y] cmp_flip [of x z] cmp_flip [of y z] by linarith

lemma zero_trans: "cmp x y = 0 \<Longrightarrow> cmp y z = 0 \<Longrightarrow> cmp x z = 0"
  using cmp_trans [of x y z] cmp_trans [of z y x] cmp_flip [of x z] cmp_flip [of x y] cmp_flip [of y z] by linarith

lemma strictly_sorted_iff: "strictly_sorted cmp es \<longleftrightarrow> sorted_wrt (\<lambda>x y. cmp x y < 0) es"
proof (induction es)
  case (Cons x es)
  have "cmp x y < 0" if "cmp x a < 0" "cmp a y < 0" for a y
    using strict_trans [OF that(1)] that(2) by simp
  then show ?case using Cons by (cases es) auto
qed simp

text \<open>Sorting distinct keys sorts them strictly.\<close>

lemma ascending_strict:
  "ascending es \<Longrightarrow> distinct (map key es) \<Longrightarrow> (\<And>x y. x \<in> set es \<Longrightarrow> y \<in> set es \<Longrightarrow> cmp x y = 0 \<Longrightarrow> key x = key y) \<Longrightarrow>
     sorted_wrt (\<lambda>x y. cmp x y < 0) es"
proof (induction es)
  case (Cons a es)
  have "cmp a b < 0" if "b \<in> set es" for b
  proof -
    have "key a \<noteq> key b" using Cons.prems(2) that by auto
    then have "cmp a b \<noteq> 0" using Cons.prems(3) [of a b] that by auto
    then show ?thesis using Cons.prems(1) that by fastforce
  qed
  moreover have "sorted_wrt (\<lambda>x y. cmp x y < 0) es" using Cons by simp
  ultimately show ?case by simp
qed simp

lemma sort_strict:
  assumes "\<And>x y. x \<in> set es \<Longrightarrow> y \<in> set es \<Longrightarrow> cmp x y = 0 \<Longrightarrow> key x = key y" and "distinct (map key es)"
  shows "sorted_wrt (\<lambda>x y. cmp x y < 0) (js_sort cmp es)"
  by (rule ascending_strict [OF ascending_sort, of key]) (use assms in simp_all)

end

definition cmp_then :: "('a \<Rightarrow> 'a \<Rightarrow> int) \<Rightarrow> ('a \<Rightarrow> 'a \<Rightarrow> int) \<Rightarrow> 'a \<Rightarrow> 'a \<Rightarrow> int" where
  "cmp_then c d x y = (if c x y \<noteq> 0 then c x y else d x y)"

lemma sign_comparator_then:
  assumes c: "sign_comparator c" and d: "sign_comparator d"
  shows "sign_comparator (cmp_then c d)"
proof (unfold_locales)
  note cc = sign_comparator.axioms(1) [OF c] and dd = sign_comparator.axioms(1) [OF d]
  note flip = sign_comparator.cmp_flip [OF c]
  show "cmp_then c d x y \<le> 0 \<or> cmp_then c d y x \<le> 0" for x y
    using comparator.cmp_total [OF dd, of x y] flip(1) [of x y] flip(2) [of x y] by (auto simp: cmp_then_def)
  show "sgn (cmp_then c d x y) = - sgn (cmp_then c d y x)" for x y
    using sign_comparator.cmp_sign [OF c, of x y] sign_comparator.cmp_sign [OF d, of x y] flip(2) [of x y] by (auto simp: cmp_then_def)
  fix x y z
  assume le: "cmp_then c d x y \<le> 0" "cmp_then c d y z \<le> 0"
  consider "c x y < 0" "c y z \<le> 0" | "c x y \<le> 0" "c y z < 0" | "c x y = 0" "c y z = 0" "d x y \<le> 0" "d y z \<le> 0"
    using le by (auto simp: cmp_then_def split: if_splits)
  then show "cmp_then c d x z \<le> 0"
  proof cases
    case 1
    then show ?thesis using sign_comparator.strict_trans [OF c, of x y z] by (auto simp: cmp_then_def)
  next
    case 2
    then show ?thesis using sign_comparator.strict_trans2 [OF c, of x y z] by (auto simp: cmp_then_def)
  next
    case 3
    then show ?thesis using sign_comparator.zero_trans [OF c, of x y z] comparator.cmp_trans [OF dd, of x y z] by (auto simp: cmp_then_def)
  qed
qed

lemma sign_comparator_hex: "sign_comparator (\<lambda>x y. compareHex (f x) (f y))"
  by unfold_locales (auto simp: compareHex_def split: if_splits)

lemma sign_comparator_diff: "sign_comparator (\<lambda>x y. (g x :: int) - g y)"
  by unfold_locales (auto simp: sgn_if)

text \<open>An index promises sorted identifiers; its lookup then returns what a scan of all entries returns.\<close>

locale fanout_index = sign_comparator compare for compare :: "'e \<Rightarrow> 'e \<Rightarrow> int" +
  fixes id_of :: "'e \<Rightarrow> string" and kind_of :: "'e \<Rightarrow> record_kind"
  assumes compare_id: "compare x y < 0 \<Longrightarrow> id_of x \<le> id_of y"
begin

lemma ids_sorted: "sorted_wrt (\<lambda>x y. compare x y < 0) es \<Longrightarrow> sorted (map id_of es)"
  by (simp add: sorted_wrt_map, erule sorted_wrt_mono_rel [rotated]) (rule compare_id)

theorem lookup_is_filter:
  assumes "sorted_wrt (\<lambda>x y. compare x y < 0) es" and "list_all (\<lambda>e. is_sha256_hex (id_of e)) es" and "is_sha256_hex i"
  shows "fanout_lookup id_of kind_of es (fanout_of (map id_of es)) i k = filter (\<lambda>e. id_of e = i \<and> kind_of e = k) es"
proof -
  let ?ids = "map id_of es" and ?n = "length es"
  let ?upto = "\<lambda>b. length (filter (\<lambda>j. byte_of j \<le> b) ?ids)"
  have sorted: "sorted ?ids" by (rule ids_sorted [OF assms(1)])
  have hex: "\<forall>j \<in> set ?ids. is_sha256_hex j" using assms(2) by (auto simp: list_all_iff)
  have down: "sorted_wrt (\<lambda>x y. byte_of y \<le> b \<longrightarrow> byte_of x \<le> b) ?ids" for b
    by (rule sorted_wrt_mono_rel [OF _ sorted]) (use hex byte_of_mono in force)
  have upto: "j < ?upto b \<longleftrightarrow> byte_of (?ids ! j) \<le> b" if "j < ?n" for j b
    using downward_prefix [OF down] that by simp
  have bound: "?upto b \<le> ?n" for b using length_filter_le [of _ ?ids] by simp
  define b where "b = byte_of i"
  have b: "first_byte i = Some b" "b < 256" using first_byte_of [OF assms(3)] by (simp_all add: b_def)
  define start where "start = (if b = 0 then 0 else ?upto (b - 1))"
  define lo where "lo = lower_bound ?ids i start (?upto b)"
  have le: "start \<le> ?upto b" using upto_mono [of "b - 1" b ?ids] by (simp add: start_def)
  have run: "fanout_lookup id_of kind_of es (fanout_of ?ids) i k = collect_matches id_of kind_of i k (drop lo (take (?upto b) es))"
    using b by (auto simp: fanout_lookup_def at_or_def fanout_of_nth start_def lo_def Let_def)
  have fits: "?upto b \<le> length ?ids" by (rule length_filter_le)
  note between = lower_bound_between [OF sorted le fits, of i, folded lo_def]
  have none_before: "id_of (es ! j) \<noteq> i" if "j < lo" "j < ?n" for j
  proof (cases "j < start")
    case True
    then have "b \<noteq> 0" "byte_of (?ids ! j) \<le> b - 1" using upto [OF that(2), of "b - 1"] by (auto simp: start_def split: if_splits)
    then show ?thesis using that(2) by (auto simp: b_def)
  next
    case False
    then have "?ids ! j < i" using between that(1) by (meson not_le)
    then show ?thesis using that(2) by auto
  qed
  have none_after: "id_of (es ! j) \<noteq> i" if "?upto b \<le> j" "j < ?n" for j
    using upto [OF that(2), of b] that by (auto simp: b_def)
  let ?P = "\<lambda>e. id_of e = i \<and> kind_of e = k"
  let ?mid = "drop lo (take (?upto b) es)"
  have split: "es = take lo es @ ?mid @ drop (?upto b) es"
    using between by (metis append.assoc append_take_drop_id le_eq_less_or_eq min.absorb1 take_take)
  have "id_of e \<noteq> i" if "e \<in> set (take lo es)" for e
    using that none_before by (metis in_set_conv_nth length_take min_less_iff_conj nth_take)
  moreover have "id_of e \<noteq> i" if "e \<in> set (drop (?upto b) es)" for e
    using in_set_dropE [OF that] none_after by metis
  ultimately have none: "filter ?P (take lo es) = []" "filter ?P (drop (?upto b) es) = []"
    unfolding filter_empty_conv by blast+
  have "filter ?P es = filter ?P (take lo es @ ?mid @ drop (?upto b) es)" using split by (rule arg_cong)
  then have "filter ?P es = filter ?P ?mid" by (simp only: filter_append none append_Nil append_Nil2)
  moreover have "collect_matches id_of kind_of i k ?mid = filter ?P ?mid"
  proof (rule collect_is_filter)
    show "sorted (map id_of ?mid)" using sorted by (simp add: drop_map [symmetric] take_map [symmetric] sorted_wrt_drop sorted_wrt_take)
    show "\<forall>e \<in> set ?mid. i \<le> id_of e"
    proof
      fix e
      assume "e \<in> set ?mid"
      then obtain j where j: "j < length ?mid" "?mid ! j = e" by (metis in_set_conv_nth)
      then have "lo + j < ?upto b" by auto
      then have "lo + j < ?n" using bound [of b] by (rule less_le_trans)
      moreover have "i \<le> ?ids ! (lo + j)" using between \<open>lo + j < ?upto b\<close> by (meson le_add1)
      ultimately show "i \<le> id_of e" using j by auto
    qed
  qed
  ultimately show ?thesis using run by simp
qed

end

end
