(* ===== verification/Pack_Footer.thy ===== *)
theory Pack_Footer
  imports Fanout_Index
begin

text \<open>
  The data model of a pack file and its footer index (\<^verbatim>\<open>content-store/pack.ts\<close>): pack classes and their
  limits, index entries and their order, the 64-bit length field and the footer codec.
\<close>

subsection \<open>Limits and magic numbers\<close>

definition DATA_PACK_TARGET_BYTES :: int where "DATA_PACK_TARGET_BYTES = 32 * 1024 * 1024"
definition DATA_PACK_HARD_MAX_BYTES :: int where "DATA_PACK_HARD_MAX_BYTES = 64 * 1024 * 1024"
definition METADATA_PACK_TARGET_BYTES :: int where "METADATA_PACK_TARGET_BYTES = 4 * 1024 * 1024"
definition METADATA_PACK_MULTI_RECORD_MAX_BYTES :: int where "METADATA_PACK_MULTI_RECORD_MAX_BYTES = 32 * 1024 * 1024"
definition METADATA_PACK_HARD_MAX_BYTES :: int where
  "METADATA_PACK_HARD_MAX_BYTES = ABSOLUTE_MAX_TREE_MANIFEST_BYTES + 1024 * 1024"
definition MAX_PACK_RECORDS :: int where "MAX_PACK_RECORDS = 65535"
definition MAX_FULL_CONTENT_RECORD_BYTES :: int where "MAX_FULL_CONTENT_RECORD_BYTES = 256 * 1024"
definition MAX_METADATA_RECORD_BYTES :: int where "MAX_METADATA_RECORD_BYTES = ABSOLUTE_MAX_TREE_MANIFEST_BYTES"

definition FOOTER_MAGIC :: bytes where "FOOTER_MAGIC = [0x43, 0x59, 0x50, 0x46, 0x54, 0x52, 0x30, 0x31]"
definition PACK_FOOTER_FORMAT_VERSION :: int where "PACK_FOOTER_FORMAT_VERSION = 1"
definition FOOTER_FLAGS_NONE :: int where "FOOTER_FLAGS_NONE = 0"

subsection \<open>Classes, entries and codes\<close>

datatype pack_class = Data_pack | Metadata_pack

fun PACK_CLASS_CODES :: "pack_class \<Rightarrow> int" where
  "PACK_CLASS_CODES Data_pack = 1"
| "PACK_CLASS_CODES Metadata_pack = 2"

record pack_index_entry =
  pe_logicalId :: string
  pe_kind :: record_kind
  pe_encoding :: record_encoding
  pe_decodedLength :: int
  pe_physicalOrdinal :: int
  pe_offset :: int
  pe_length :: int

definition packHardMax :: "pack_class \<Rightarrow> int" where
  "packHardMax packClass = (if packClass = Data_pack then DATA_PACK_HARD_MAX_BYTES else METADATA_PACK_HARD_MAX_BYTES)"

definition parsePackId :: "string \<Rightarrow> string result" where
  "parsePackId v = (if is_sha256_hex v then Inr v else Inl (PackFormatError Pack_invalid_input))"

definition writeUnsigned64 :: "int \<Rightarrow> bytes result" where
  "writeUnsigned64 v =
     (if \<not> isSafeInteger v \<or> v < 0 then Inl (PackFormatError Pack_invalid_input)
      else Inr (map (\<lambda>k. word_of_int (v div 256 ^ (7 - k) mod 256)) [0..<8]))"

definition readUnsigned64 :: "bytes \<Rightarrow> int \<Rightarrow> int result" where
  "readUnsigned64 bs offset =
     (if \<not> isSafeInteger offset \<or> offset < 0 \<or> offset > byteLength bs - 8
      then Inl (PackFormatError Pack_invalid_format)
      else let v = foldl (\<lambda>a b. a * 256 + uint b) 0 (take 8 (drop (nat offset) bs)) in
        if v > MAX_SAFE_INTEGER then Inl (PackFormatError Pack_limit_exceeded) else Inr v)"

fun find_code :: "js_error \<Rightarrow> ('k \<times> int) list \<Rightarrow> int \<Rightarrow> 'k result" where
  "find_code err [] code = Inl err"
| "find_code err ((k, expected) # entries) code = (if code = expected then Inr k else find_code err entries code)"

definition classFromCode :: "js_error \<Rightarrow> int \<Rightarrow> pack_class result" where
  "classFromCode err code =
     (if code = PACK_CLASS_CODES Data_pack then Inr Data_pack
      else if code = PACK_CLASS_CODES Metadata_pack then Inr Metadata_pack
      else Inl err)"

text \<open>The error is \<^verbatim>\<open>invalid-format\<close> in a pack and \<^verbatim>\<open>corrupt\<close> in a multi-pack index.\<close>

definition index_kindFromCode :: "js_error \<Rightarrow> int \<Rightarrow> record_kind result" where
  "index_kindFromCode err code = find_code err RECORD_KIND_CODES code"

definition index_encodingFromCode :: "js_error \<Rightarrow> int \<Rightarrow> record_encoding result" where
  "index_encodingFromCode err code = find_code err RECORD_ENCODING_CODES code"

definition idFromDigest :: "record_kind \<Rightarrow> bytes \<Rightarrow> string result" where
  "idFromDigest kind digest =
     (if kind = Kind_content then contentIdFromDigestBytes digest
      else if kind = Kind_recipe then recipeIdFromDigestBytes digest
      else metadataIdFromDigestBytes digest)"

definition assertKeyShape :: "record_kind \<Rightarrow> string \<Rightarrow> unit result" where
  "assertKeyShape kind i =
     rbind (if kind = Kind_content then parseContentId i
            else if kind = Kind_recipe then parseRecipeId i
            else parseMetadataId i) (\<lambda>_. Inr ())"

fun packClassForRecordKind :: "record_kind \<Rightarrow> pack_class" where
  "packClassForRecordKind Kind_content = Data_pack"
| "packClassForRecordKind Kind_recipe = Metadata_pack"
| "packClassForRecordKind Kind_tree_root = Metadata_pack"
| "packClassForRecordKind Kind_tree_node = Metadata_pack"
| "packClassForRecordKind Kind_scope = Metadata_pack"

subsection \<open>The order of entries\<close>

definition comparePackEntries :: "pack_index_entry \<Rightarrow> pack_index_entry \<Rightarrow> int" where
  "comparePackEntries left right =
     (let idOrder = compareHex (pe_logicalId left) (pe_logicalId right);
          kindOrder = recordKindCode (pe_kind left) - recordKindCode (pe_kind right);
          encodingOrder = recordEncodingCode (pe_encoding left) - recordEncodingCode (pe_encoding right)
      in if idOrder \<noteq> 0 then idOrder
         else if kindOrder \<noteq> 0 then kindOrder
         else if encodingOrder \<noteq> 0 then encodingOrder
         else pe_physicalOrdinal left - pe_physicalOrdinal right)"

subsection \<open>Writing the footer\<close>

fun write_items :: "('a \<Rightarrow> canonical_writer \<Rightarrow> canonical_writer result) \<Rightarrow> 'a list \<Rightarrow> canonical_writer \<Rightarrow> canonical_writer result" where
  "write_items f [] w = Inr w"
| "write_items f (x # xs) w = rbind (f x w) (write_items f xs)"

definition write_entry :: "pack_index_entry \<Rightarrow> canonical_writer \<Rightarrow> canonical_writer result" where
  "write_entry e w =
     rbind (idToBytes (pe_logicalId e)) (\<lambda>digest.
     rbind (writeBytes digest w) (\<lambda>w.
     rbind (writeByte (recordKindCode (pe_kind e)) w) (\<lambda>w.
     rbind (writeByte (recordEncodingCode (pe_encoding e)) w) (\<lambda>w.
     rbind (writeVarint (pe_decodedLength e) w) (\<lambda>w.
     rbind (writeVarint (pe_physicalOrdinal e) w) (\<lambda>w.
     rbind (writeVarint (pe_offset e) w) (writeVarint (pe_length e))))))))"

definition writeFooter :: "pack_index_entry list \<Rightarrow> bytes result" where
  "writeFooter entries =
     (let sorted = js_sort comparePackEntries entries in
      rbind (fanoutFor (PackFormatError Pack_invalid_format) (map pe_logicalId sorted)) (\<lambda>fanout.
      rbind (writeBytes FOOTER_MAGIC newCanonicalWriter) (\<lambda>w.
      rbind (writeByte PACK_FOOTER_FORMAT_VERSION w) (\<lambda>w.
      rbind (writeVarint FOOTER_FLAGS_NONE w) (\<lambda>w.
      rbind (writeVarint (int (length sorted)) w) (\<lambda>w.
      rbind (write_items writeVarint fanout w) (\<lambda>w.
      rbind (write_items write_entry sorted w) (\<lambda>w.
        Inr (finish w)))))))))"

subsection \<open>Reading the footer\<close>

text \<open>The loop over the fanout table: every count is at least the previous one and at most the number of entries.\<close>

fun read_fanout :: "js_error \<Rightarrow> int \<Rightarrow> nat \<Rightarrow> int \<Rightarrow> canonical_reader \<Rightarrow> (int list \<times> canonical_reader) result" where
  "read_fanout err entryCount 0 previous r = Inr ([], r)"
| "read_fanout err entryCount (Suc n) previous r =
     rbind (readVarint r) (\<lambda>(count, r).
       if count < previous \<or> count > entryCount then Inl err
       else rbind (read_fanout err entryCount n count r) (\<lambda>(counts, r). Inr (count # counts, r)))"

definition read_entry :: "canonical_reader \<Rightarrow> (pack_index_entry \<times> canonical_reader) result" where
  "read_entry r =
     rbind (readBytes SHA256_BYTE_LENGTH r) (\<lambda>(digest, r).
     rbind (readByte r) (\<lambda>(kindCode, r).
     rbind (index_kindFromCode (PackFormatError Pack_invalid_format) kindCode) (\<lambda>kind.
     rbind (readByte r) (\<lambda>(encodingCode, r).
     rbind (index_encodingFromCode (PackFormatError Pack_invalid_format) encodingCode) (\<lambda>encoding.
     rbind (readVarint r) (\<lambda>(decodedLen, r).
     rbind (readVarint r) (\<lambda>(ordinal, r).
     rbind (readVarint r) (\<lambda>(offset, r).
     rbind (readVarint r) (\<lambda>(len, r).
     rbind (idFromDigest kind digest) (\<lambda>i.
       Inr (\<lparr>pe_logicalId = i, pe_kind = kind, pe_encoding = encoding, pe_decodedLength = decodedLen,
             pe_physicalOrdinal = ordinal, pe_offset = offset, pe_length = len\<rparr>, r)))))))))))"

text \<open>The part of a footer behind its record count.\<close>

definition read_index :: "int \<Rightarrow> canonical_reader \<Rightarrow> (pack_index_entry list \<times> int list) result" where
  "read_index recordCount r =
     rbind (read_fanout (PackFormatError Pack_invalid_format) recordCount FANOUT_ENTRIES 0 r) (\<lambda>(fanout, r).
       if last fanout \<noteq> recordCount then Inl (PackFormatError Pack_invalid_format)
       else rbind (read_many read_entry (nat recordCount) r) (\<lambda>(entries, r).
       rbind (assertEnd r) (\<lambda>_.
         if \<not> strictly_sorted comparePackEntries entries then Inl (PackFormatError Pack_invalid_format)
         else rbind (fanoutFor (PackFormatError Pack_invalid_format) (map pe_logicalId entries)) (\<lambda>expected.
           if expected \<noteq> fanout then Inl (PackFormatError Pack_invalid_format)
           else Inr (entries, fanout)))))"

definition readFooter :: "bytes \<Rightarrow> (pack_index_entry list \<times> int list) result" where
  "readFooter encoded =
     rbind (expectBytes FOOTER_MAGIC (newCanonicalReader encoded)) (\<lambda>r.
     rbind (readByte r) (\<lambda>(version, r).
       if version \<noteq> PACK_FOOTER_FORMAT_VERSION then Inl (PackFormatError Pack_invalid_format)
       else rbind (readVarint r) (\<lambda>(flags, r).
         if flags \<noteq> FOOTER_FLAGS_NONE then Inl (PackFormatError Pack_invalid_format)
         else rbind (readVarint r) (\<lambda>(recordCount, r).
           if recordCount = 0 \<or> recordCount > MAX_PACK_RECORDS then Inl (PackFormatError Pack_limit_exceeded)
           else read_index recordCount r))))"

subsection \<open>Facts about codes and the order\<close>

lemma index_kindFromCode_Inr: "index_kindFromCode err c = Inr k \<longleftrightarrow> recordKindCode k = c"
  by (cases k) (auto simp: index_kindFromCode_def RECORD_KIND_CODES_def)

lemma index_encodingFromCode_Inr: "index_encodingFromCode err c = Inr e \<longleftrightarrow> recordEncodingCode e = c"
  by (cases e) (auto simp: index_encodingFromCode_def RECORD_ENCODING_CODES_def)

lemma classFromCode_Inr: "classFromCode err c = Inr k \<longleftrightarrow> PACK_CLASS_CODES k = c"
  by (cases k) (auto simp: classFromCode_def)

lemma idFromDigest_Inr: "idFromDigest k bs = Inr i \<longleftrightarrow> is_sha256_hex i \<and> bs = fromHex i"
  by (simp add: idFromDigest_def digest_id_Inr)

lemma kind_code_eq [simp]: "recordKindCode k = recordKindCode k' \<longleftrightarrow> k = k'"
  by (cases k; cases k') simp_all

lemma encoding_code_eq [simp]: "recordEncodingCode e = recordEncodingCode e' \<longleftrightarrow> e = e'"
  by (cases e; cases e') simp_all

lemma comparePackEntries_then:
  "comparePackEntries = cmp_then (\<lambda>x y. compareHex (pe_logicalId x) (pe_logicalId y))
     (cmp_then (\<lambda>x y. recordKindCode (pe_kind x) - recordKindCode (pe_kind y))
     (cmp_then (\<lambda>x y. recordEncodingCode (pe_encoding x) - recordEncodingCode (pe_encoding y))
       (\<lambda>x y. pe_physicalOrdinal x - pe_physicalOrdinal y)))"
  by (simp add: fun_eq_iff comparePackEntries_def cmp_then_def Let_def)

lemma comparePackEntries_id: "comparePackEntries x y < 0 \<Longrightarrow> pe_logicalId x \<le> pe_logicalId y"
  by (auto simp: comparePackEntries_def compareHex_def Let_def split: if_splits)

lemma comparePackEntries_zero:
  "comparePackEntries x y = 0 \<longleftrightarrow> pe_logicalId x = pe_logicalId y \<and> pe_kind x = pe_kind y \<and>
     pe_encoding x = pe_encoding y \<and> pe_physicalOrdinal x = pe_physicalOrdinal y"
  by (auto simp: comparePackEntries_def compareHex_def Let_def split: if_splits)

lemma pack_sign_comparator: "sign_comparator comparePackEntries"
  unfolding comparePackEntries_then
  by (intro sign_comparator_then sign_comparator_hex sign_comparator_diff)

interpretation pack_index: fanout_index comparePackEntries pe_logicalId pe_kind
  using pack_sign_comparator by (intro fanout_index.intro fanout_index_axioms.intro comparePackEntries_id)

subsection \<open>The bytes of a footer\<close>

definition index_entry_ok :: "pack_index_entry \<Rightarrow> bool" where
  "index_entry_ok e \<longleftrightarrow> is_sha256_hex (pe_logicalId e) \<and> safe_unsigned (pe_decodedLength e) \<and>
     safe_unsigned (pe_physicalOrdinal e) \<and> safe_unsigned (pe_offset e) \<and> safe_unsigned (pe_length e)"

definition entry_chunks :: "pack_index_entry \<Rightarrow> bytes list" where
  "entry_chunks e = [fromHex (pe_logicalId e), byte1 (recordKindCode (pe_kind e)), byte1 (recordEncodingCode (pe_encoding e)),
     varint (pe_decodedLength e), varint (pe_physicalOrdinal e), varint (pe_offset e), varint (pe_length e)]"

definition footer_bytes :: "pack_index_entry list \<Rightarrow> bytes" where
  "footer_bytes es = FOOTER_MAGIC @ byte1 1 @ varint 0 @ varint (int (length es)) @
     concat (map varint (fanout_of (map pe_logicalId es))) @ concat (map (concat \<circ> entry_chunks) es)"

lemma write_items_at:
  assumes step: "\<And>x vs w'. x \<in> set xs \<Longrightarrow> byteLength (concat vs) \<le> MAX_SAFE_INTEGER \<Longrightarrow>
      f x (writer_at vs) = Inr w' \<longleftrightarrow> valid x \<and> byteLength (concat vs) + byteLength (concat (ch x)) \<le> MAX_SAFE_INTEGER \<and> w' = writer_at (vs @ ch x)"
    and "byteLength (concat vs) \<le> MAX_SAFE_INTEGER"
  shows "write_items f xs (writer_at vs) = Inr w' \<longleftrightarrow> list_all valid xs \<and>
    byteLength (concat vs) + byteLength (concat (concat (map ch xs))) \<le> MAX_SAFE_INTEGER \<and> w' = writer_at (vs @ concat (map ch xs))"
  using assms
proof (induction xs arbitrary: vs)
  case (Cons x xs)
  have first: "f x (writer_at vs) = Inr w1 \<longleftrightarrow> valid x \<and> byteLength (concat vs) + byteLength (concat (ch x)) \<le> MAX_SAFE_INTEGER \<and> w1 = writer_at (vs @ ch x)" for w1
    using Cons.prems by simp
  have rest: "write_items f xs (writer_at (vs @ ch x)) = Inr w' \<longleftrightarrow> list_all valid xs \<and>
      byteLength (concat (vs @ ch x)) + byteLength (concat (concat (map ch xs))) \<le> MAX_SAFE_INTEGER \<and>
      w' = writer_at ((vs @ ch x) @ concat (map ch xs))"
    if "byteLength (concat (vs @ ch x)) \<le> MAX_SAFE_INTEGER"
    by (rule Cons.IH) (use Cons.prems that in auto)
  show ?case using rest by (auto simp: rbind_eq_Inr first)
qed auto

lemma write_entry_at:
  "write_entry e (writer_at vs) = Inr w' \<longleftrightarrow> index_entry_ok e \<and>
     byteLength (concat vs) + byteLength (concat (entry_chunks e)) \<le> MAX_SAFE_INTEGER \<and> w' = writer_at (vs @ entry_chunks e)"
  by (auto simp: write_entry_def entry_chunks_def index_entry_ok_def rbind_eq_Inr idToBytes_Inr writeBytes_at writeVarint_at writeByte_one_at)

lemma fanout_varints: "c \<in> set (fanout_of ids) \<Longrightarrow> int (length ids) \<le> MAX_SAFE_INTEGER \<Longrightarrow> safe_unsigned c"
  using fanout_of_shape(2) [of ids] by (auto simp: isSafeInteger_def)

lemma pack_sort_map: "set (map pe_logicalId (js_sort comparePackEntries es)) = set (map pe_logicalId es)"
  by simp

lemma entries_fit: "length es \<le> length (concat (map (concat \<circ> entry_chunks) es))"
proof (induction es)
  case (Cons e es)
  have "1 \<le> length (concat (entry_chunks e))" by (simp add: entry_chunks_def)
  then show ?case using Cons by simp
qed simp

lemma writeFooter_Inr:
  "writeFooter es = Inr bs \<longleftrightarrow> list_all index_entry_ok es \<and> byteLength (footer_bytes (js_sort comparePackEntries es)) \<le> MAX_SAFE_INTEGER \<and>
     bs = footer_bytes (js_sort comparePackEntries es)"
proof -
  let ?s = "js_sort comparePackEntries es" and ?f = "fanout_of (map pe_logicalId (js_sort comparePackEntries es))"
  define head where "head = [FOOTER_MAGIC, byte1 1, varint 0, varint (int (length ?s))]"
  have ok: "list_all index_entry_ok ?s = list_all index_entry_ok es" by (simp add: list_all_iff)
  have hex: "list_all is_sha256_hex (map pe_logicalId ?s)" if "list_all index_entry_ok es"
    using that by (auto simp: list_all_iff index_entry_ok_def)
  have fan: "write_items writeVarint ?f (writer_at head) = Inr w' \<longleftrightarrow> list_all safe_unsigned ?f \<and>
      byteLength (concat head) + byteLength (concat (concat (map (\<lambda>c. [varint c]) ?f))) \<le> MAX_SAFE_INTEGER \<and>
      w' = writer_at (head @ concat (map (\<lambda>c. [varint c]) ?f))" if "byteLength (concat head) \<le> MAX_SAFE_INTEGER" for w'
    by (rule write_items_at) (auto simp: writeVarint_at that)
  have each: "write_items write_entry ?s (writer_at vs) = Inr w' \<longleftrightarrow> list_all index_entry_ok ?s \<and>
      byteLength (concat vs) + byteLength (concat (concat (map entry_chunks ?s))) \<le> MAX_SAFE_INTEGER \<and>
      w' = writer_at (vs @ concat (map entry_chunks ?s))" if "byteLength (concat vs) \<le> MAX_SAFE_INTEGER" for vs w'
    by (rule write_items_at) (auto simp: write_entry_at that)
  have bytes: "concat (head @ concat (map (\<lambda>c. [varint c]) ?f) @ concat (map entry_chunks ?s)) = footer_bytes ?s"
    by (simp add: head_def footer_bytes_def concat_map_singleton comp_def concat_concat)
  have start: "rbind (writeBytes FOOTER_MAGIC newCanonicalWriter) (\<lambda>w. rbind (writeByte PACK_FOOTER_FORMAT_VERSION w) (\<lambda>w.
      rbind (writeVarint FOOTER_FLAGS_NONE w) (\<lambda>w. rbind (writeVarint (int (length ?s)) w) k))) = Inr bs \<longleftrightarrow>
      isSafeInteger (int (length ?s)) \<and> byteLength (concat head) \<le> MAX_SAFE_INTEGER \<and> k (writer_at head) = Inr bs" for k
    by (auto simp: rbind_eq_Inr writeBytes_at writeVarint_at writeByte_one_at head_def PACK_FOOTER_FORMAT_VERSION_def FOOTER_FLAGS_NONE_def)
  have safe: "isSafeInteger (int (length ?s)) \<and> list_all safe_unsigned ?f" if "byteLength (footer_bytes ?s) \<le> MAX_SAFE_INTEGER"
  proof -
    have "int (length ?s) \<le> MAX_SAFE_INTEGER" using entries_fit [of ?s] that by (simp add: footer_bytes_def del: pack_index.length_sort)
    then show ?thesis using fanout_varints [of _ "map pe_logicalId ?s"]
      by (auto simp: list_all_iff isSafeInteger_def simp del: pack_index.length_sort)
  qed
  let ?rest = "\<lambda>w. rbind (write_items writeVarint ?f w) (\<lambda>w. rbind (write_items write_entry ?s w) (\<lambda>w. Inr (finish w)))"
  have tail: "?rest (writer_at head) = Inr bs \<longleftrightarrow> list_all safe_unsigned ?f \<and> list_all index_entry_ok ?s \<and>
      byteLength (footer_bytes ?s) \<le> MAX_SAFE_INTEGER \<and> bs = footer_bytes ?s" if "byteLength (concat head) \<le> MAX_SAFE_INTEGER"
  proof -
    let ?vs = "head @ concat (map (\<lambda>c. [varint c]) ?f)"
    have steps: "?rest (writer_at head) = Inr bs \<longleftrightarrow>
        (\<exists>w. write_items writeVarint ?f (writer_at head) = Inr w \<and> (\<exists>w'. write_items write_entry ?s w = Inr w' \<and> finish w' = bs))"
      by (simp add: rbind_eq_Inr)
    show ?thesis
    proof (cases "byteLength (concat ?vs) \<le> MAX_SAFE_INTEGER")
      case True
      have "?rest (writer_at head) = Inr bs \<longleftrightarrow> list_all safe_unsigned ?f \<and> (\<exists>w'. write_items write_entry ?s (writer_at ?vs) = Inr w' \<and> finish w' = bs)"
        unfolding steps using fan [OF that] True by auto
      also have "\<dots> \<longleftrightarrow> list_all safe_unsigned ?f \<and> list_all index_entry_ok ?s \<and>
          byteLength (concat ?vs) + byteLength (concat (concat (map entry_chunks ?s))) \<le> MAX_SAFE_INTEGER \<and>
          bs = concat (?vs @ concat (map entry_chunks ?s))"
        unfolding each [OF True] by auto
      finally show ?thesis unfolding bytes [symmetric] by (simp add: add.assoc)
    next
      case False
      then have "\<not> byteLength (footer_bytes ?s) \<le> MAX_SAFE_INTEGER" unfolding bytes [symmetric] by simp
      moreover have "?rest (writer_at head) \<noteq> Inr bs" unfolding steps using fan [OF that] False by auto
      ultimately show ?thesis by simp
    qed
  qed
  have "writeFooter es = Inr bs \<longleftrightarrow> list_all is_sha256_hex (map pe_logicalId ?s) \<and>
      isSafeInteger (int (length ?s)) \<and> byteLength (concat head) \<le> MAX_SAFE_INTEGER \<and> ?rest (writer_at head) = Inr bs"
  proof (cases "list_all is_sha256_hex (map pe_logicalId ?s)")
    case True
    then show ?thesis by (simp only: writeFooter_def Let_def fanoutFor_ok [OF True] rbind_Inr start simp_thms)
  next
    case False
    then obtain e where "fanoutFor (PackFormatError Pack_invalid_format) (map pe_logicalId ?s) = Inl e"
      using fanoutFor_Inr by (metis sumE)
    then have "writeFooter es = Inl e" by (simp only: writeFooter_def Let_def rbind_Inl)
    then show ?thesis using False by simp
  qed
  then show ?thesis using tail safe hex ok by (auto simp: bytes [symmetric])
qed

subsection \<open>What the reader of a footer accepts\<close>

lemma read_entry_canonical:
  assumes "reader_ok r"
  shows "read_entry r = Inr (e, r') \<longleftrightarrow>
    index_entry_ok e \<and> starts r (concat (entry_chunks e)) \<and> r' = after (concat (entry_chunks e)) r"
  using assms
  by (cases e) (simp add: read_entry_def entry_chunks_def decoding_chunks layout index_kindFromCode_Inr index_encodingFromCode_Inr
      idFromDigest_Inr SHA256_BYTE_LENGTH_def cong: conj_cong,
      auto simp: index_entry_ok_def id_bytes)

interpretation entry_codec: canonical_codec "\<lambda>e. concat (entry_chunks e)" index_entry_ok read_entry
  by unfold_locales (rule read_entry_canonical)

lemma read_fanout_Inr:
  assumes "reader_ok r" and "0 \<le> previous"
  shows "read_fanout err entryCount n previous r = Inr (counts, r') \<longleftrightarrow> length counts = n \<and> sorted (previous # counts) \<and>
    (\<forall>c \<in> set counts. c \<le> entryCount \<and> isSafeInteger c) \<and>
    starts r (concat (map varint counts)) \<and> r' = after (concat (map varint counts)) r"
  using assms
proof (induction n arbitrary: previous r counts)
  case 0
  then show ?case by auto
next
  case (Suc n)
  show ?case
  proof (cases counts)
    case Nil
    then show ?thesis by (auto simp: rbind_eq_Inr guard_eq_Inr split: if_splits)
  next
    case (Cons c cs)
    have "read_fanout err entryCount (Suc n) previous r = Inr (counts, r') \<longleftrightarrow> safe_unsigned c \<and> starts r (varint c) \<and>
        previous \<le> c \<and> c \<le> entryCount \<and> read_fanout err entryCount n c (after (varint c) r) = Inr (cs, r')"
      using Suc.prems by (auto simp: Cons rbind_eq_Inr guard_eq_Inr readVarint_canonical split: if_splits)
    also have "\<dots> \<longleftrightarrow> safe_unsigned c \<and> starts r (varint c) \<and> previous \<le> c \<and> c \<le> entryCount \<and> length cs = n \<and> sorted (c # cs) \<and>
        (\<forall>c \<in> set cs. c \<le> entryCount \<and> isSafeInteger c) \<and> starts (after (varint c) r) (concat (map varint cs)) \<and>
        r' = after (concat (map varint cs)) (after (varint c) r)"
      using Suc.IH [of "after (varint c) r" c cs] Suc.prems starts_ok [OF Suc.prems(1), of "varint c"]
      by (cases "isSafeInteger c \<and> \<not> c < 0 \<and> starts r (varint c)") (simp, blast)
    finally show ?thesis using Suc.prems by (auto simp: Cons starts_append after_after intro: order_trans)
  qed
qed

definition footer_ok :: "pack_index_entry list \<Rightarrow> bool" where
  "footer_ok es \<longleftrightarrow> es \<noteq> [] \<and> int (length es) \<le> MAX_PACK_RECORDS \<and> list_all index_entry_ok es \<and>
     sorted_wrt (\<lambda>x y. comparePackEntries x y < 0) es"

lemma fanout_readable:
  assumes "list_all is_sha256_hex ids" and "int (length ids) = n" and "isSafeInteger n"
  shows "length (fanout_of ids) = FANOUT_ENTRIES \<and> sorted (0 # fanout_of ids) \<and>
    (\<forall>c \<in> set (fanout_of ids). c \<le> n \<and> isSafeInteger c) \<and> last (fanout_of ids) = n"
  using fanout_of_shape [of ids] assms by (auto simp: FANOUT_ENTRIES_def isSafeInteger_def)

lemma read_index_Inr:
  assumes r: "reader_ok r" and n: "safe_unsigned n"
  shows "read_index n r = Inr (es, f) \<longleftrightarrow> int (length es) = n \<and> list_all index_entry_ok es \<and>
    sorted_wrt (\<lambda>x y. comparePackEntries x y < 0) es \<and> f = fanout_of (map pe_logicalId es) \<and>
    rest_of r = concat (map varint f) @ concat (map (concat \<circ> entry_chunks) es)" (is "_ \<longleftrightarrow> ?right")
proof -
  let ?ids = "map pe_logicalId es" and ?f = "concat (map varint f)" and ?es = "concat (map (concat \<circ> entry_chunks) es)"
  have steps: "read_index n r = Inr (es, f) \<longleftrightarrow> (\<exists>r2 r3.
      read_fanout (PackFormatError Pack_invalid_format) n FANOUT_ENTRIES 0 r = Inr (f, r2) \<and> last f = n \<and>
      read_many read_entry (nat n) r2 = Inr (es, r3) \<and> assertEnd r3 = Inr () \<and>
      sorted_wrt (\<lambda>x y. comparePackEntries x y < 0) es \<and> list_all is_sha256_hex ?ids \<and> f = fanout_of ?ids)"
    by (auto simp: read_index_def rbind_eq_Inr guard_eq_Inr fanoutFor_Inr pack_index.strictly_sorted_iff split: if_splits)
  have many: "read_many read_entry (nat n) (after ?f r) = Inr (es, r3) \<longleftrightarrow>
      length es = nat n \<and> list_all index_entry_ok es \<and> starts (after ?f r) ?es \<and> r3 = after ?es (after ?f r)"
    if "starts r ?f" for r3
    using entry_codec.read_many_canonical [OF starts_ok [OF r that], of "nat n" es r3] by (simp add: comp_def)
  show ?thesis
  proof
    assume "read_index n r = Inr (es, f)"
    then obtain r2 r3 where fan: "read_fanout (PackFormatError Pack_invalid_format) n FANOUT_ENTRIES 0 r = Inr (f, r2)"
        and es: "read_many read_entry (nat n) r2 = Inr (es, r3)" and fin: "assertEnd r3 = Inr ()"
        and f: "sorted_wrt (\<lambda>x y. comparePackEntries x y < 0) es" "f = fanout_of ?ids"
      unfolding steps by blast
    have f1: "starts r ?f" "r2 = after ?f r" using fan read_fanout_Inr [OF r order_refl] by auto
    have e1: "length es = nat n" "list_all index_entry_ok es" "starts (after ?f r) ?es" "r3 = after ?es (after ?f r)"
      using es unfolding f1(2) many [OF f1(1)] by auto
    have "rest_of (after ?es (after ?f r)) = []"
      using fin starts_ok [OF starts_ok [OF r f1(1)] e1(3)] unfolding e1(4) by simp
    then have "rest_of (after ?f r) = ?es" using rest_chunk [OF starts_ok [OF r f1(1)]] e1(3) by blast
    then have "rest_of r = ?f @ ?es" using rest_append [OF r] f1(1) by blast
    moreover have "int (length es) = n" using e1(1) n by simp
    ultimately show ?right using e1(2) f by blast
  next
    assume right: ?right
    then have ids: "list_all is_sha256_hex ?ids" by (auto simp: list_all_iff index_entry_ok_def)
    have f1: "starts r ?f" and rest: "rest_of (after ?f r) = ?es" using right rest_append [OF r] by auto
    have e1: "starts (after ?f r) ?es" "rest_of (after ?es (after ?f r)) = []"
      using rest rest_chunk [OF starts_ok [OF r f1]] by auto
    show "read_index n r = Inr (es, f)"
      unfolding steps
    proof (intro exI conjI)
      show "read_fanout (PackFormatError Pack_invalid_format) n FANOUT_ENTRIES 0 r = Inr (f, after ?f r)"
        using fanout_readable [of ?ids n] ids right n f1 by (simp add: read_fanout_Inr [OF r order_refl])
      show "last f = n" using fanout_readable [of ?ids n] ids right n by simp
      show "read_many read_entry (nat n) (after ?f r) = Inr (es, after ?es (after ?f r))"
        using many [OF f1] right e1 by auto
      show "assertEnd (after ?es (after ?f r)) = Inr ()" using e1 starts_ok [OF starts_ok [OF r f1] e1(1)] by simp
    qed (use right ids in simp_all)
  qed
qed

lemma readFooter_Inr:
  assumes size: "byteLength encoded \<le> MAX_SAFE_INTEGER"
  shows "readFooter encoded = Inr (es, fanout) \<longleftrightarrow>
    footer_ok es \<and> encoded = footer_bytes es \<and> fanout = fanout_of (map pe_logicalId es)"
proof -
  obtain r where new: "newCanonicalReader encoded = r" and r: "reader_ok r" and whole: "encoded = rest_of r"
    using size by (metis new_reader)
  have small: "isSafeInteger n" if "0 \<le> n" "n \<le> MAX_PACK_RECORDS" for n
    using that by (simp add: isSafeInteger_def MAX_PACK_RECORDS_def MAX_SAFE_INTEGER_def)
  have "readFooter encoded = Inr (es, fanout) \<longleftrightarrow> (\<exists>n. starts r (FOOTER_MAGIC @ byte1 1 @ varint 0 @ varint n) \<and>
      safe_unsigned n \<and> n \<noteq> 0 \<and> n \<le> MAX_PACK_RECORDS \<and>
      read_index n (after (FOOTER_MAGIC @ byte1 1 @ varint 0 @ varint n) r) = Inr (es, fanout))"
    unfolding readFooter_def new
    using r by (auto simp: decoding_chunks starts_append after_append PACK_FOOTER_FORMAT_VERSION_def FOOTER_FLAGS_NONE_def
        cong: conj_cong simp del: append.simps)
  also have "\<dots> \<longleftrightarrow> footer_ok es \<and> rest_of r = footer_bytes es \<and> fanout = fanout_of (map pe_logicalId es)"
  proof -
    let ?n = "int (length es)"
    have body: "read_index n (after (FOOTER_MAGIC @ byte1 1 @ varint 0 @ varint n) r) = Inr (es, fanout) \<longleftrightarrow>
        ?n = n \<and> list_all index_entry_ok es \<and> sorted_wrt (\<lambda>x y. comparePackEntries x y < 0) es \<and>
        fanout = fanout_of (map pe_logicalId es) \<and>
        rest_of (after (FOOTER_MAGIC @ byte1 1 @ varint 0 @ varint n) r) =
          concat (map varint fanout) @ concat (map (concat \<circ> entry_chunks) es)"
      if "starts r (FOOTER_MAGIC @ byte1 1 @ varint 0 @ varint n)" "safe_unsigned n" for n
      using read_index_Inr [OF starts_ok [OF r that(1)] that(2)] by blast
    have bytes: "footer_bytes es = (FOOTER_MAGIC @ byte1 1 @ varint 0 @ varint ?n) @
        (concat (map varint (fanout_of (map pe_logicalId es))) @ concat (map (concat \<circ> entry_chunks) es))"
      by (simp add: footer_bytes_def)
    show ?thesis
      unfolding bytes rest_append [OF r]
      using body small by (auto simp: footer_ok_def)
  qed
  finally show ?thesis unfolding whole .
qed

lemma footer_writes:
  assumes "footer_ok es" and "byteLength (footer_bytes es) \<le> MAX_SAFE_INTEGER"
  shows "writeFooter es = Inr (footer_bytes es)"
proof -
  have "sorted_wrt (\<lambda>x y. comparePackEntries x y \<le> 0) es"
    using assms(1) by (auto simp: footer_ok_def intro: sorted_wrt_mono_rel [rotated])
  then have "js_sort comparePackEntries es = es" by (rule pack_index.sort_ascending)
  then show ?thesis using assms by (simp add: writeFooter_Inr footer_ok_def)
qed

text \<open>No footer is longer than its format limit.\<close>

lemma varint_length_le: "0 \<le> v \<Longrightarrow> varint_length v \<le> Suc m \<longleftrightarrow> v < 128 ^ Suc m"
proof (induction m arbitrary: v)
  case 0
  then show ?case using varint_length_pos [of "v div 128"]
    by (cases "v < 128") (simp_all add: varint_length_small varint_length_big)
next
  case (Suc m)
  show ?case
  proof (cases "v < 128")
    case True
    have "(128 :: int) ^ 1 \<le> 128 ^ Suc (Suc m)" by (rule power_increasing) simp_all
    then show ?thesis using True by (simp add: varint_length_small del: power_Suc)
  next
    case False
    have "v div 128 < 128 ^ Suc m \<longleftrightarrow> v < 128 ^ Suc (Suc m)"
      using zdiv_less_iff [of 128 v "128 ^ Suc m"] by (simp add: algebra_simps)
    then show ?thesis using Suc.IH [of "v div 128"] Suc.prems False by (simp add: varint_length_big del: power_Suc)
  qed
qed

lemma varint_length_mono: "0 \<le> v \<Longrightarrow> v \<le> w \<Longrightarrow> varint_length v \<le> varint_length w"
  using varint_length_le [of v "varint_length w - 1"] varint_length_le [of w "varint_length w - 1"] varint_length_pos [of w]
  by (simp del: power_Suc)

lemma varint_length_safe: "safe_unsigned v \<Longrightarrow> varint_length v \<le> 8"
  using varint_length_le [of v 7] by (simp add: isSafeInteger_def MAX_SAFE_INTEGER_def)

lemma concat_bound: "(\<And>x. x \<in> set xs \<Longrightarrow> length (f x) \<le> n) \<Longrightarrow> length (concat (map f xs)) \<le> n * length xs"
proof (induction xs)
  case (Cons x xs)
  have "length (f x) \<le> n" "length (concat (map f xs)) \<le> n * length xs" using Cons by auto
  then show ?case by simp
qed simp

lemma entry_size: "index_entry_ok e \<Longrightarrow> length (concat (entry_chunks e)) \<le> 66"
  using varint_length_safe [of "pe_decodedLength e"] varint_length_safe [of "pe_physicalOrdinal e"]
    varint_length_safe [of "pe_offset e"] varint_length_safe [of "pe_length e"]
  by (simp add: entry_chunks_def index_entry_ok_def length_fromHex is_sha256_hex_def)

lemma footer_size:
  assumes "list_all index_entry_ok es" and "int (length es) \<le> MAX_PACK_RECORDS"
  shows "length (footer_bytes es) \<le> 2073 + 66 * length es"
proof -
  have n: "safe_unsigned (int (length es))" using assms(2) by (simp add: isSafeInteger_def MAX_PACK_RECORDS_def MAX_SAFE_INTEGER_def)
  have "length (concat (map varint (fanout_of (map pe_logicalId es)))) \<le> 8 * length (fanout_of (map pe_logicalId es))"
    by (rule concat_bound) (use fanout_varints [of _ "map pe_logicalId es"] n varint_length_safe in \<open>auto simp: isSafeInteger_def\<close>)
  moreover have "length (concat (map (concat \<circ> entry_chunks) es)) \<le> 66 * length es"
    by (rule concat_bound) (use assms(1) entry_size in \<open>auto simp: list_all_iff\<close>)
  ultimately show ?thesis
    using varint_length_safe [OF n] varint_length_safe [of 0] by (simp add: footer_bytes_def FOOTER_MAGIC_def)
qed

subsection \<open>Properties\<close>

text \<open>C30. Footers round trip: within the safe lengths, reading a footer accepts exactly what writing produces for one to
  65535 entries in strict order, and returns these entries and their fanout table.\<close>

theorem footer_codec_is_canonical:
  assumes "byteLength encoded \<le> MAX_SAFE_INTEGER"
  shows "readFooter encoded = Inr (es, fanout) \<longleftrightarrow>
    writeFooter es = Inr encoded \<and> es \<noteq> [] \<and> int (length es) \<le> MAX_PACK_RECORDS \<and> strictly_sorted comparePackEntries es \<and>
    fanoutFor (PackFormatError Pack_invalid_format) (map pe_logicalId es) = Inr fanout"
  unfolding readFooter_Inr [OF assms] fanoutFor_Inr pack_index.strictly_sorted_iff
proof
  assume left: "footer_ok es \<and> encoded = footer_bytes es \<and> fanout = fanout_of (map pe_logicalId es)"
  then show "writeFooter es = Inr encoded \<and> es \<noteq> [] \<and> int (length es) \<le> MAX_PACK_RECORDS \<and>
      sorted_wrt (\<lambda>x y. comparePackEntries x y < 0) es \<and>
      list_all is_sha256_hex (map pe_logicalId es) \<and> fanout = fanout_of (map pe_logicalId es)"
    using footer_writes [of es] assms by (auto simp: footer_ok_def list_all_iff index_entry_ok_def)
next
  assume right: "writeFooter es = Inr encoded \<and> es \<noteq> [] \<and> int (length es) \<le> MAX_PACK_RECORDS \<and>
      sorted_wrt (\<lambda>x y. comparePackEntries x y < 0) es \<and>
      list_all is_sha256_hex (map pe_logicalId es) \<and> fanout = fanout_of (map pe_logicalId es)"
  then have ok: "footer_ok es" by (auto simp: footer_ok_def writeFooter_Inr)
  have "sorted_wrt (\<lambda>x y. comparePackEntries x y \<le> 0) es"
    using right by (auto intro: sorted_wrt_mono_rel [rotated])
  then have "js_sort comparePackEntries es = es" by (rule pack_index.sort_ascending)
  then show "footer_ok es \<and> encoded = footer_bytes es \<and> fanout = fanout_of (map pe_logicalId es)"
    using right ok by (auto simp: writeFooter_Inr)
qed

definition sample_entry :: "string \<Rightarrow> int \<Rightarrow> pack_index_entry" where
  "sample_entry i ordinal = \<lparr>pe_logicalId = i, pe_kind = Kind_content, pe_encoding = Raw, pe_decodedLength = 2,
     pe_physicalOrdinal = ordinal, pe_offset = 12 + 50 * ordinal, pe_length = 50\<rparr>"

definition sample_entries :: "pack_index_entry list" where
  "sample_entries = [sample_entry (replicate 64 CHR ''3'') 1, sample_entry (replicate 64 CHR ''7'') 0]"

theorem footer_codec_is_canonical_witness:
  "\<exists>encoded fanout. writeFooter sample_entries = Inr encoded \<and> readFooter encoded = Inr (sample_entries, fanout)"
proof -
  have sorted: "strictly_sorted comparePackEntries sample_entries" and ok: "list_all index_entry_ok sample_entries" by code_simp+
  have size: "byteLength (footer_bytes sample_entries) \<le> MAX_SAFE_INTEGER"
    using footer_size [OF ok] by (simp add: sample_entries_def MAX_PACK_RECORDS_def MAX_SAFE_INTEGER_def)
  have "footer_ok sample_entries"
    using sorted ok by (simp add: footer_ok_def pack_index.strictly_sorted_iff) (simp add: sample_entries_def MAX_PACK_RECORDS_def)
  then have written: "writeFooter sample_entries = Inr (footer_bytes sample_entries)" using size by (rule footer_writes)
  have "list_all is_sha256_hex (map pe_logicalId sample_entries)" by code_simp
  then have "fanoutFor (PackFormatError Pack_invalid_format) (map pe_logicalId sample_entries)
      = Inr (fanout_of (map pe_logicalId sample_entries))" by (rule fanoutFor_ok)
  then have "readFooter (footer_bytes sample_entries) = Inr (sample_entries, fanout_of (map pe_logicalId sample_entries))"
    using footer_codec_is_canonical [OF size] written sorted by (simp add: sample_entries_def MAX_PACK_RECORDS_def)
  then show ?thesis using written by blast
qed

end
