(* ===== verification/Pack_Layout.thy ===== *)
theory Pack_Layout
  imports Pack_Footer
begin

text \<open>
  Encoding a pack (\<^verbatim>\<open>content-store/pack.ts\<close>): the layout of a list of records, its measured length and the
  bound that plans batches, the verification of every record against its identifier, and the encoded file.
  SHA-256, the zstd decoder and the verifiers of metadata and of chunked content are arguments. Cancellation
  points are not modelled.
\<close>

subsection \<open>Limits of a record\<close>

definition PACK_MAGIC :: bytes where "PACK_MAGIC = [0x43, 0x59, 0x50, 0x41, 0x43, 0x4B, 0x30, 0x31]"
definition TRAILER_MAGIC :: bytes where "TRAILER_MAGIC = [0x43, 0x59, 0x50, 0x54, 0x52, 0x4C, 0x30, 0x31]"
definition PACK_FORMAT_VERSION :: int where "PACK_FORMAT_VERSION = 1"
definition PACK_FLAGS_NONE :: int where "PACK_FLAGS_NONE = 0"
definition FIXED_TRAILER_BYTES :: int where "FIXED_TRAILER_BYTES = 8 + SHA256_BYTE_LENGTH + byteLength TRAILER_MAGIC"

abbreviation invalid_pack :: "pack_error_code \<Rightarrow> 'a result" where
  "invalid_pack code \<equiv> Inl (PackFormatError code)"

definition assertRecordHeaderLimits :: "record_kind \<Rightarrow> record_encoding \<Rightarrow> int \<Rightarrow> int \<Rightarrow> unit result" where
  "assertRecordHeaderLimits kind encoding decodedLen payloadLen =
     (if \<not> isSafeInteger decodedLen \<or> decodedLen < 0 then invalid_pack Pack_invalid_format
      else if \<not> isSafeInteger payloadLen \<or> payloadLen < 0 then invalid_pack Pack_invalid_format
      else if kind = Kind_content \<and> (encoding = Raw \<or> encoding = Zstd_v1) \<and>
        (decodedLen > MAX_FULL_CONTENT_RECORD_BYTES \<or> payloadLen > MAX_FULL_CONTENT_RECORD_BYTES)
      then invalid_pack Pack_limit_exceeded
      else if kind = Kind_content \<and> encoding = Chunked_v1 \<and> decodedLen < CHUNKED_CONTENT_MIN_BYTES
      then invalid_pack Pack_invalid_format
      else if kind = Kind_content \<and> encoding = Chunked_v1 \<and> payloadLen \<noteq> SHA256_BYTE_LENGTH
      then invalid_pack Pack_invalid_format
      else if kind = Kind_content \<and> encoding = Delta1 \<and>
        (decodedLen > DELTA1_MAX_TARGET_BYTES \<or> payloadLen > DELTA1_MAX_PAYLOAD_BYTES)
      then invalid_pack Pack_limit_exceeded
      else if kind = Kind_recipe \<and> (decodedLen > MAX_RECIPE_OBJECT_BYTES \<or> payloadLen > MAX_RECIPE_OBJECT_BYTES)
      then invalid_pack Pack_limit_exceeded
      else if kind \<noteq> Kind_content \<and> kind \<noteq> Kind_recipe \<and>
        (decodedLen > MAX_METADATA_RECORD_BYTES \<or> payloadLen > MAX_METADATA_RECORD_BYTES)
      then invalid_pack Pack_limit_exceeded
      else Inr ())"

definition assertRecordLimits :: "record_envelope \<Rightarrow> unit result" where
  "assertRecordLimits rec =
     assertRecordHeaderLimits (rec_kind rec) (rec_encoding rec) (decodedLength rec) (byteLength (payload rec))"

subsection \<open>The layout of a pack\<close>

record encode_pack_input =
  in_packClass :: pack_class
  in_records :: "record_envelope list"

record pack_layout =
  lay_header :: bytes
  lay_records :: "record_envelope list"
  lay_entries :: "pack_index_entry list"
  lay_frames :: "bytes list"
  lay_footer :: bytes
  lay_byteLength :: int

fun check_pack_records :: "pack_class \<Rightarrow> record_envelope list \<Rightarrow> int \<Rightarrow> unit result" where
  "check_pack_records packClass [] totalPayloadBytes = Inr ()"
| "check_pack_records packClass (rec # recs) totalPayloadBytes =
     (if packClassForRecordKind (rec_kind rec) \<noteq> packClass then invalid_pack Pack_invalid_input
      else rbind (assertRecordLimits rec) (\<lambda>_.
        if byteLength (payload rec) > packHardMax packClass - totalPayloadBytes then invalid_pack Pack_limit_exceeded
        else check_pack_records packClass recs (totalPayloadBytes + byteLength (payload rec))))"

definition encode_header :: "pack_class \<Rightarrow> int \<Rightarrow> bytes result" where
  "encode_header packClass recordCount =
     rbind (writeBytes PACK_MAGIC newCanonicalWriter) (\<lambda>w.
     rbind (writeByte PACK_FORMAT_VERSION w) (\<lambda>w.
     rbind (writeByte (PACK_CLASS_CODES packClass) w) (\<lambda>w.
     rbind (writeVarint PACK_FLAGS_NONE w) (\<lambda>w.
     rbind (writeVarint recordCount w) (\<lambda>w. Inr (finish w))))))"

type_synonym representation_key = "string \<times> record_kind \<times> record_encoding"

text \<open>The loop over the records: the entry and the frame of each, and the offset behind the last one.\<close>

fun layout_records :: "int \<Rightarrow> record_envelope list \<Rightarrow> int \<Rightarrow> int \<Rightarrow> representation_key list \<Rightarrow>
    ((pack_index_entry \<times> bytes) list \<times> int) result" where
  "layout_records hardMax [] physicalOrdinal nextOffset duplicateKeys = Inr ([], nextOffset)"
| "layout_records hardMax (rec # recs) physicalOrdinal nextOffset duplicateKeys =
     rbind (encodeRecord rec) (\<lambda>encoded.
     rbind (writeVarint (byteLength encoded) newCanonicalWriter) (\<lambda>w.
     rbind (writeBytes encoded w) (\<lambda>w.
       let frame = finish w; len = byteLength frame;
           duplicateKey = (logicalId rec, rec_kind rec, rec_encoding rec)
       in if len > hardMax - nextOffset then invalid_pack Pack_limit_exceeded
          else if duplicateKey \<in> set duplicateKeys then invalid_pack Pack_invalid_input
          else rbind (layout_records hardMax recs (physicalOrdinal + 1) (nextOffset + len) (duplicateKey # duplicateKeys))
            (\<lambda>(rest, endOffset).
              Inr ((\<lparr>pe_logicalId = logicalId rec, pe_kind = rec_kind rec, pe_encoding = rec_encoding rec,
                     pe_decodedLength = decodedLength rec, pe_physicalOrdinal = physicalOrdinal,
                     pe_offset = nextOffset, pe_length = len\<rparr>, frame) # rest, endOffset)))))"

definition preparePackLayout :: "encode_pack_input \<Rightarrow> pack_layout result" where
  "preparePackLayout input =
     (let records = in_records input; recordCount = int (length records); hardMax = packHardMax (in_packClass input) in
      if recordCount = 0 \<or> recordCount > MAX_PACK_RECORDS then invalid_pack Pack_limit_exceeded
      else rbind (check_pack_records (in_packClass input) records 0) (\<lambda>_.
        rbind (encode_header (in_packClass input) recordCount) (\<lambda>header.
        rbind (layout_records hardMax records 0 (byteLength header) []) (\<lambda>(placed, nextOffset).
        rbind (writeFooter (map fst placed)) (\<lambda>footer.
          let total = nextOffset + byteLength footer + FIXED_TRAILER_BYTES in
          if \<not> isSafeInteger total \<or> total > hardMax then invalid_pack Pack_limit_exceeded
          else if in_packClass input = Metadata_pack \<and> recordCount > 1 \<and> total > METADATA_PACK_MULTI_RECORD_MAX_BYTES
          then invalid_pack Pack_limit_exceeded
          else Inr \<lparr>lay_header = header, lay_records = records, lay_entries = map fst placed,
            lay_frames = map snd placed, lay_footer = footer, lay_byteLength = total\<rparr>)))))"

text \<open>The \<^verbatim>\<open>catch\<close> clauses: errors of the codecs become errors of the pack.\<close>

fun rethrow_pack :: "pack_error_code \<Rightarrow> 'a result \<Rightarrow> 'a result" where
  "rethrow_pack code (Inl (CanonicalBinaryError c)) = invalid_pack code"
| "rethrow_pack code (Inl Delta1FormatError) = invalid_pack code"
| "rethrow_pack code (Inl TypeError) = invalid_pack code"
| "rethrow_pack code m = m"

definition measurePackInputBytes :: "encode_pack_input \<Rightarrow> int result" where
  "measurePackInputBytes input =
     rethrow_pack Pack_invalid_input (rbind (preparePackLayout input) (\<lambda>layout. Inr (lay_byteLength layout)))"

subsection \<open>The planning bound\<close>

definition plan_checkedAdd :: "int \<Rightarrow> int \<Rightarrow> int result" where
  "plan_checkedAdd left right =
     (if right > MAX_SAFE_INTEGER - left then invalid_pack Pack_limit_exceeded else Inr (left + right))"

definition plan_checkedMultiply :: "int \<Rightarrow> int \<Rightarrow> int result" where
  "plan_checkedMultiply left right =
     (if left \<noteq> 0 \<and> right > MAX_SAFE_INTEGER div left then invalid_pack Pack_limit_exceeded else Inr (left * right))"

definition packPlanningUpperBoundBytes :: "int \<Rightarrow> int \<Rightarrow> int result" where
  "packPlanningUpperBoundBytes recordCount encodedRecordBytes =
     (if \<not> isSafeInteger recordCount \<or> recordCount < 0 \<or> recordCount > MAX_PACK_RECORDS
        \<or> \<not> isSafeInteger encodedRecordBytes \<or> encodedRecordBytes < 0 then invalid_pack Pack_invalid_input
      else if recordCount = 0 \<and> encodedRecordBytes \<noteq> 0 then invalid_pack Pack_invalid_input
      else rbind (unsignedVarintLength recordCount) (\<lambda>countVarintBytes.
        rbind (unsignedVarintLength PACK_FLAGS_NONE) (\<lambda>flagBytes.
        let bodyBytes = byteLength PACK_MAGIC + 2 + flagBytes + countVarintBytes in
        rbind (if recordCount > 0
          then rbind (plan_checkedAdd bodyBytes encodedRecordBytes) (\<lambda>bodyBytes.
            rbind (unsignedVarintLength encodedRecordBytes) (\<lambda>lengthBytes.
            rbind (plan_checkedMultiply recordCount lengthBytes) (plan_checkedAdd bodyBytes)))
          else Inr bodyBytes) (\<lambda>bodyBytes.
        rbind (unsignedVarintLength bodyBytes) (\<lambda>rangeVarintBytes.
        rbind (unsignedVarintLength MAX_SAFE_INTEGER) (\<lambda>decodedBytes.
        rbind (unsignedVarintLength (max 0 (recordCount - 1))) (\<lambda>ordinalBytes.
        rbind (unsignedVarintLength FOOTER_FLAGS_NONE) (\<lambda>footerFlagBytes.
          let entryBytes = SHA256_BYTE_LENGTH + 2 + decodedBytes + ordinalBytes + rangeVarintBytes * 2 in
          rbind (plan_checkedAdd bodyBytes (byteLength FOOTER_MAGIC + 1 + footerFlagBytes + countVarintBytes)) (\<lambda>sum.
          rbind (plan_checkedMultiply (int FANOUT_ENTRIES) countVarintBytes) (\<lambda>fanoutBytes.
          rbind (plan_checkedAdd sum fanoutBytes) (\<lambda>sum.
          rbind (plan_checkedMultiply recordCount entryBytes) (\<lambda>tableBytes.
          rbind (plan_checkedAdd sum tableBytes) (\<lambda>sum.
            plan_checkedAdd sum FIXED_TRAILER_BYTES)))))))))))))"

subsection \<open>Verifying and encoding\<close>

text \<open>What verification is given: the digest, the zstd decoder and the two verifiers, which may be absent.\<close>

record pack_verification =
  sha256 :: "bytes \<Rightarrow> bytes"
  decodeZstdV1 :: "bytes \<Rightarrow> int \<Rightarrow> bytes result"
  verifyMetadataId :: "(record_kind \<Rightarrow> string \<Rightarrow> bytes \<Rightarrow> bool result) option"
  verifyChunkedContent :: "(string \<Rightarrow> string \<Rightarrow> int \<Rightarrow> bool result) option"

definition decodeFullRecord :: "pack_verification \<Rightarrow> record_envelope \<Rightarrow> bytes result" where
  "decodeFullRecord v rec =
     (case rec_encoding rec of
        Raw \<Rightarrow> Inr (payload rec)
      | Zstd_v1 \<Rightarrow>
          (case decodeZstdV1 v (payload rec) (decodedLength rec) of
             Inl ZstdCodecError \<Rightarrow> invalid_pack Pack_integrity
           | m \<Rightarrow> m)
      | _ \<Rightarrow> invalid_pack Pack_invalid_format)"

definition verifyLogicalId :: "pack_verification \<Rightarrow> record_envelope \<Rightarrow> bytes \<Rightarrow> unit result" where
  "verifyLogicalId v rec decoded =
     (if byteLength decoded \<noteq> decodedLength rec then invalid_pack Pack_integrity
      else if rec_kind rec = Kind_content
      then (if contentIdFromBytes (sha256 v) decoded \<noteq> logicalId rec then invalid_pack Pack_integrity else Inr ())
      else if rec_kind rec = Kind_recipe
      then (if recipeIdFromCanonicalBytes (sha256 v) decoded \<noteq> logicalId rec then invalid_pack Pack_integrity else Inr ())
      else case verifyMetadataId v of
        None \<Rightarrow> invalid_pack Pack_verification_required
      | Some verifier \<Rightarrow>
          rbind (verifier (rec_kind rec) (logicalId rec) decoded) (\<lambda>ok.
            if \<not> ok then invalid_pack Pack_integrity else Inr ()))"

definition element_at :: "'a list \<Rightarrow> int \<Rightarrow> 'a option" where
  "element_at xs i = (if 0 \<le> i \<and> nat i < length xs then Some (xs ! nat i) else None)"

definition decodeAndVerifyRecord :: "pack_verification \<Rightarrow> record_envelope list \<Rightarrow> int \<Rightarrow> bytes result" where
  "decodeAndVerifyRecord v records physicalOrdinal =
     (case element_at records physicalOrdinal of
        None \<Rightarrow> invalid_pack Pack_invalid_input
      | Some rec \<Rightarrow>
          rbind (case rec_encoding rec of
              Raw \<Rightarrow> decodeFullRecord v rec
            | Zstd_v1 \<Rightarrow> decodeFullRecord v rec
            | Chunked_v1 \<Rightarrow> invalid_pack Pack_verification_required
            | Delta1 \<Rightarrow>
                rbind (decodeDelta1Program (payload rec) (decodedLength rec)) (\<lambda>program.
                  case element_at records (physicalOrdinal - baseBackDistance program) of
                    None \<Rightarrow> invalid_pack Pack_integrity
                  | Some baseRec \<Rightarrow>
                      if rec_kind baseRec \<noteq> Kind_content \<or> (rec_encoding baseRec \<noteq> Raw \<and> rec_encoding baseRec \<noteq> Zstd_v1)
                      then invalid_pack Pack_integrity
                      else rbind (decodeFullRecord v baseRec) (\<lambda>base.
                        rbind (verifyLogicalId v baseRec base) (\<lambda>_.
                          applyDelta1Program program base (decodedLength rec))))) (\<lambda>decoded.
          rbind (verifyLogicalId v rec decoded) (\<lambda>_. Inr decoded)))"

text \<open>The verification of one record before a pack is published.\<close>

definition verify_publication :: "pack_verification \<Rightarrow> record_envelope list \<Rightarrow> nat \<Rightarrow> unit result" where
  "verify_publication v records ordinal =
     (let rec = records ! ordinal in
      if rec_encoding rec \<noteq> Chunked_v1 then rbind (decodeAndVerifyRecord v records (int ordinal)) (\<lambda>_. Inr ())
      else if rec_kind rec \<noteq> Kind_content then invalid_pack Pack_invalid_input
      else case verifyChunkedContent v of
        None \<Rightarrow> invalid_pack Pack_verification_required
      | Some verifier \<Rightarrow>
          rbind (recipeIdFromDigestBytes (payload rec)) (\<lambda>recipe.
          rbind (verifier (logicalId rec) recipe (decodedLength rec)) (\<lambda>ok.
            if \<not> ok then invalid_pack Pack_integrity else Inr ())))"

record pack_index =
  px_packId :: string
  px_packClass :: pack_class
  px_byteLength :: int
  px_entries :: "pack_index_entry list"
  px_fanout :: "int list"

record encoded_pack =
  ep_bytes :: bytes
  ep_index :: pack_index
  ep_records :: "record_envelope list"

definition encodePackInternal :: "pack_verification \<Rightarrow> encode_pack_input \<Rightarrow> encoded_pack result" where
  "encodePackInternal v input =
     rbind (preparePackLayout input) (\<lambda>layout.
     rbind (rmap (verify_publication v (lay_records layout)) [0..<length (lay_records layout)]) (\<lambda>_.
     rbind (writeBytes (lay_header layout) newCanonicalWriter) (\<lambda>w.
     rbind (write_items writeBytes (lay_frames layout) w) (\<lambda>w.
     rbind (writeBytes (lay_footer layout) w) (\<lambda>w.
     rbind (writeUnsigned64 (byteLength (lay_footer layout))) (\<lambda>lengthField.
     rbind (writeBytes lengthField w) (\<lambda>w.
       let authenticated = finish w; checksum = sha256 v authenticated in
       rbind (writeBytes authenticated newCanonicalWriter) (\<lambda>w.
       rbind (writeBytes checksum w) (\<lambda>w.
       rbind (writeBytes TRAILER_MAGIC w) (\<lambda>w.
         let complete = finish w; sortedEntries = js_sort comparePackEntries (lay_entries layout) in
         if byteLength complete \<noteq> lay_byteLength layout then invalid_pack Pack_invalid_format
         else rbind (fanoutFor (PackFormatError Pack_invalid_format) (map pe_logicalId sortedEntries)) (\<lambda>fanout.
           Inr \<lparr>ep_bytes = complete,
             ep_index = \<lparr>px_packId = toHex checksum, px_packClass = in_packClass input, px_byteLength = byteLength complete,
               px_entries = sortedEntries, px_fanout = fanout\<rparr>,
             ep_records = lay_records layout\<rparr>)))))))))))"

definition encodePack :: "pack_verification \<Rightarrow> encode_pack_input \<Rightarrow> encoded_pack result" where
  "encodePack v input = rethrow_pack Pack_invalid_input (encodePackInternal v input)"

subsection \<open>Where records are placed\<close>

definition record_bytes :: "record_envelope \<Rightarrow> bytes" where
  "record_bytes rec = concat (record_chunks rec)"

definition frame_of :: "record_envelope \<Rightarrow> bytes" where
  "frame_of rec = varint (byteLength (record_bytes rec)) @ record_bytes rec"

definition entry_of :: "record_envelope \<Rightarrow> int \<Rightarrow> int \<Rightarrow> pack_index_entry" where
  "entry_of rec ordinal offset =
     \<lparr>pe_logicalId = logicalId rec, pe_kind = rec_kind rec, pe_encoding = rec_encoding rec,
      pe_decodedLength = decodedLength rec, pe_physicalOrdinal = ordinal, pe_offset = offset,
      pe_length = byteLength (frame_of rec)\<rparr>"

fun placed :: "record_envelope list \<Rightarrow> int \<Rightarrow> int \<Rightarrow> pack_index_entry list" where
  "placed [] ordinal offset = []"
| "placed (rec # recs) ordinal offset =
     entry_of rec ordinal offset # placed recs (ordinal + 1) (offset + byteLength (frame_of rec))"

definition frames_length :: "record_envelope list \<Rightarrow> int" where
  "frames_length recs = byteLength (concat (map frame_of recs))"

lemma frames_length_Cons [simp]: "frames_length (rec # recs) = byteLength (frame_of rec) + frames_length recs"
  by (simp add: frames_length_def)

lemma frames_length_Nil [simp]: "frames_length [] = 0"
  by (simp add: frames_length_def)

lemma frames_length_nonneg [simp]: "0 \<le> frames_length recs"
  by (simp add: frames_length_def)

lemma length_placed [simp]: "length (placed recs ordinal offset) = length recs"
  by (induction recs arbitrary: ordinal offset) auto

lemma placed_nth:
  "i < length recs \<Longrightarrow> placed recs ordinal offset ! i =
     entry_of (recs ! i) (ordinal + int i) (offset + frames_length (take i recs))"
proof (induction recs arbitrary: ordinal offset i)
  case (Cons rec recs)
  then show ?case by (cases i) (auto simp: algebra_simps)
qed simp

definition representation :: "record_envelope \<Rightarrow> representation_key" where
  "representation rec = (logicalId rec, rec_kind rec, rec_encoding rec)"

lemma layout_records_Inr:
  assumes "layout_records hardMax recs ordinal offset keys = Inr (ps, endOffset)" and "offset \<le> hardMax"
  shows "map fst ps = placed recs ordinal offset \<and> map snd ps = map frame_of recs \<and> list_all record_shape recs \<and>
    endOffset = offset + frames_length recs \<and> endOffset \<le> hardMax \<and>
    distinct (map representation recs) \<and> set (map representation recs) \<inter> set keys = {}"
  using assms
proof (induction recs arbitrary: ordinal offset keys ps)
  case (Cons rec recs)
  from Cons.prems(1) obtain encoded w1 w2 rest where enc: "encodeRecord rec = Inr encoded"
      and w1: "writeVarint (byteLength encoded) newCanonicalWriter = Inr w1" and w2: "writeBytes encoded w1 = Inr w2"
      and fits: "\<not> byteLength (finish w2) > hardMax - offset"
      and new: "(logicalId rec, rec_kind rec, rec_encoding rec) \<notin> set keys"
      and rest: "layout_records hardMax recs (ordinal + 1) (offset + byteLength (finish w2))
          ((logicalId rec, rec_kind rec, rec_encoding rec) # keys) = Inr (rest, endOffset)"
      and ps: "ps = (\<lparr>pe_logicalId = logicalId rec, pe_kind = rec_kind rec, pe_encoding = rec_encoding rec,
                     pe_decodedLength = decodedLength rec, pe_physicalOrdinal = ordinal,
                     pe_offset = offset, pe_length = byteLength (finish w2)\<rparr>, finish w2) # rest"
    by (auto simp: rbind_eq_Inr Let_def split: if_splits)
  have encoded: "encoded = record_bytes rec" "record_shape rec" using enc by (simp_all add: encodeRecord_Inr record_bytes_def)
  have frame: "finish w2 = frame_of rec"
    using w1 w2 by (auto simp: writeVarint_at writeBytes_at frame_of_def encoded)
  have "offset + byteLength (frame_of rec) \<le> hardMax" using fits frame by simp
  from Cons.IH [OF rest [unfolded frame] this] show ?case
    using ps new encoded(2) by (auto simp: frame entry_of_def representation_def)
qed auto

definition header_bytes :: "pack_class \<Rightarrow> int \<Rightarrow> bytes" where
  "header_bytes packClass n = PACK_MAGIC @ byte1 1 @ byte1 (PACK_CLASS_CODES packClass) @ varint 0 @ varint n"

lemma encode_header_Inr:
  "safe_unsigned n \<Longrightarrow> encode_header packClass n = Inr bs \<longleftrightarrow> bs = header_bytes packClass n"
proof -
  assume n: "safe_unsigned n"
  have "0 \<le> PACK_CLASS_CODES packClass \<and> PACK_CLASS_CODES packClass < 256" by (cases packClass) simp_all
  moreover have "length (concat [PACK_MAGIC, byte1 1, byte1 (PACK_CLASS_CODES packClass), varint 0, varint n]) \<le> 27"
    using varint_length_safe [OF n] varint_length_safe [of 0] by (simp add: PACK_MAGIC_def)
  then have "byteLength (concat [PACK_MAGIC, byte1 1, byte1 (PACK_CLASS_CODES packClass), varint 0, varint n]) \<le> MAX_SAFE_INTEGER"
    by (simp add: MAX_SAFE_INTEGER_def)
  ultimately show ?thesis
    using n by (auto simp: encode_header_def header_bytes_def rbind_eq_Inr writeBytes_at writeVarint_at writeByte_one_at
        PACK_FORMAT_VERSION_def PACK_FLAGS_NONE_def)
qed

lemma header_size: "safe_unsigned n \<Longrightarrow> length (header_bytes packClass n) = 11 + varint_length n"
  by (simp add: header_bytes_def PACK_MAGIC_def varint_length_small)

lemma trailer_size: "FIXED_TRAILER_BYTES = 48"
  by (simp add: FIXED_TRAILER_BYTES_def SHA256_BYTE_LENGTH_def TRAILER_MAGIC_def)

lemma packHardMax_range: "1024 \<le> packHardMax c" "packHardMax c \<le> MAX_SAFE_INTEGER"
  by (simp_all add: packHardMax_def DATA_PACK_HARD_MAX_BYTES_def METADATA_PACK_HARD_MAX_BYTES_def
      ABSOLUTE_MAX_TREE_MANIFEST_BYTES_def MAX_SAFE_INTEGER_def)

lemma check_pack_records_Inr:
  "check_pack_records packClass recs total_bytes = Inr u \<Longrightarrow>
     list_all (\<lambda>rec. packClassForRecordKind (rec_kind rec) = packClass \<and> assertRecordLimits rec = Inr ()) recs"
  by (induction recs arbitrary: total_bytes) (auto simp: rbind_eq_Inr split: if_splits)

text \<open>Everything about a layout that was accepted.\<close>

lemma preparePackLayout_Inr:
  assumes "preparePackLayout input = Inr layout"
  defines "recs \<equiv> in_records input" and "n \<equiv> int (length (in_records input))"
  defines "es \<equiv> placed recs 0 (byteLength (header_bytes (in_packClass input) n))"
  defines "footer \<equiv> footer_bytes (js_sort comparePackEntries es)"
  shows "0 < n \<and> n \<le> MAX_PACK_RECORDS"
    and "layout = \<lparr>lay_header = header_bytes (in_packClass input) n, lay_records = recs, lay_entries = es,
      lay_frames = map frame_of recs, lay_footer = footer,
      lay_byteLength = byteLength (header_bytes (in_packClass input) n) + frames_length recs + byteLength footer + FIXED_TRAILER_BYTES\<rparr>"
    and "list_all (\<lambda>rec. packClassForRecordKind (rec_kind rec) = in_packClass input \<and> assertRecordLimits rec = Inr ()) recs"
    and "list_all record_shape recs" and "distinct (map representation recs)" and "list_all index_entry_ok es"
    and "lay_byteLength layout \<le> packHardMax (in_packClass input)"
    and "in_packClass input = Metadata_pack \<and> n > 1 \<Longrightarrow> lay_byteLength layout \<le> METADATA_PACK_MULTI_RECORD_MAX_BYTES"
proof -
  let ?c = "in_packClass input" and ?h = "header_bytes (in_packClass input) n"
  from assms(1) have n: "n \<noteq> 0" "n \<le> MAX_PACK_RECORDS" by (auto simp: preparePackLayout_def n_def Let_def split: if_splits)
  then show count: "0 < n \<and> n \<le> MAX_PACK_RECORDS" by (simp add: n_def)
  then have safe: "safe_unsigned n" by (simp add: isSafeInteger_def MAX_PACK_RECORDS_def MAX_SAFE_INTEGER_def)
  have hlen: "byteLength ?h \<le> packHardMax ?c"
    using header_size [OF safe, of ?c] varint_length_safe [OF safe] packHardMax_range(1) [of ?c] by simp
  obtain ps endOffset where checked: "check_pack_records ?c recs 0 = Inr ()"
      and ps: "layout_records (packHardMax ?c) recs 0 (byteLength ?h) [] = Inr (ps, endOffset)"
      and footer: "writeFooter (map fst ps) = Inr (lay_footer layout)"
      and layout: "layout = \<lparr>lay_header = ?h, lay_records = recs, lay_entries = map fst ps, lay_frames = map snd ps,
        lay_footer = lay_footer layout, lay_byteLength = endOffset + byteLength (lay_footer layout) + FIXED_TRAILER_BYTES\<rparr>"
      and bound: "lay_byteLength layout \<le> packHardMax ?c"
      and multi: "?c = Metadata_pack \<and> n > 1 \<longrightarrow> lay_byteLength layout \<le> METADATA_PACK_MULTI_RECORD_MAX_BYTES"
    using assms(1) safe
    by (auto simp: preparePackLayout_def n_def recs_def Let_def rbind_eq_Inr guard_eq_Inr encode_header_Inr split: if_splits)
  note placed = layout_records_Inr [OF ps hlen]
  have es: "map fst ps = es" using placed by (simp add: es_def)
  have ok: "list_all index_entry_ok es" and f: "lay_footer layout = footer"
    using footer unfolding es writeFooter_Inr footer_def by simp_all
  show "layout = \<lparr>lay_header = ?h, lay_records = recs, lay_entries = es, lay_frames = map frame_of recs, lay_footer = footer,
      lay_byteLength = byteLength ?h + frames_length recs + byteLength footer + FIXED_TRAILER_BYTES\<rparr>"
    using layout placed f es by simp
  show "list_all (\<lambda>rec. packClassForRecordKind (rec_kind rec) = ?c \<and> assertRecordLimits rec = Inr ()) recs"
    by (rule check_pack_records_Inr [OF checked])
  show "list_all record_shape recs" "distinct (map representation recs)" using placed by simp_all
  show "list_all index_entry_ok es" by (rule ok)
  show "lay_byteLength layout \<le> packHardMax ?c" by (rule bound)
  show "?c = Metadata_pack \<and> n > 1 \<Longrightarrow> lay_byteLength layout \<le> METADATA_PACK_MULTI_RECORD_MAX_BYTES" using multi by blast
qed

text \<open>And conversely, what suffices for a layout.\<close>

lemma layout_records_ok:
  assumes "list_all record_shape recs" and "offset + frames_length recs \<le> hardMax" and "0 \<le> offset" and "hardMax \<le> MAX_SAFE_INTEGER"
    and "distinct (map representation recs)" and "set (map representation recs) \<inter> set keys = {}"
  shows "layout_records hardMax recs ordinal offset keys =
    Inr (zip (placed recs ordinal offset) (map frame_of recs), offset + frames_length recs)"
  using assms
proof (induction recs arbitrary: ordinal offset keys)
  case (Cons rec recs)
  have size: "byteLength (frame_of rec) \<le> hardMax - offset"
    using Cons.prems(2) frames_length_nonneg [of recs] unfolding frames_length_Cons by linarith
  then have total: "int (varint_length (byteLength (record_bytes rec))) + byteLength (record_bytes rec) \<le> MAX_SAFE_INTEGER"
    using Cons.prems(3,4) by (simp add: frame_of_def)
  have enc: "encodeRecord rec = Inr (record_bytes rec)" using Cons.prems(1) total by (simp add: encodeRecord_Inr record_bytes_def)
  have w1: "writeVarint (byteLength (record_bytes rec)) (writer_at []) = Inr (writer_at [varint (byteLength (record_bytes rec))])"
    using total by (simp add: writeVarint_at isSafeInteger_def)
  have w2: "writeBytes (record_bytes rec) (writer_at [varint (byteLength (record_bytes rec))]) =
      Inr (writer_at [varint (byteLength (record_bytes rec)), record_bytes rec])"
    using total by (simp add: writeBytes_at)
  have rest: "layout_records hardMax recs (ordinal + 1) (offset + byteLength (frame_of rec)) (representation rec # keys) =
      Inr (zip (placed recs (ordinal + 1) (offset + byteLength (frame_of rec))) (map frame_of recs),
        offset + byteLength (frame_of rec) + frames_length recs)"
    by (rule Cons.IH) (use Cons.prems in auto)
  have "representation rec \<notin> set keys" using Cons.prems(6) by auto
  then show ?case
    using rest size by (simp add: enc w1 w2 Let_def frame_of_def [symmetric] representation_def [symmetric] entry_of_def)
qed simp

lemma placed_ok:
  assumes "list_all record_shape recs" and "0 \<le> ordinal" and "ordinal + int (length recs) \<le> MAX_SAFE_INTEGER"
    and "0 \<le> offset" and "offset + frames_length recs \<le> MAX_SAFE_INTEGER"
  shows "list_all index_entry_ok (placed recs ordinal offset)"
  using assms
proof (induction recs arbitrary: ordinal offset)
  case (Cons rec recs)
  have "index_entry_ok (entry_of rec ordinal offset)"
  proof -
    have "offset \<le> MAX_SAFE_INTEGER" "byteLength (frame_of rec) \<le> MAX_SAFE_INTEGER"
      using Cons.prems(4,5) frames_length_nonneg [of recs] unfolding frames_length_Cons by linarith+
    then show ?thesis
      using Cons.prems by (auto simp: index_entry_ok_def entry_of_def record_shape_def isSafeInteger_def)
  qed
  moreover have "list_all index_entry_ok (placed recs (ordinal + 1) (offset + byteLength (frame_of rec)))"
    by (rule Cons.IH) (use Cons.prems in auto)
  ultimately show ?case by simp
qed simp

lemma preparePackLayout_ok:
  fixes input
  defines "recs \<equiv> in_records input" and "n \<equiv> int (length (in_records input))" and "c \<equiv> in_packClass input"
  defines "es \<equiv> placed recs 0 (byteLength (header_bytes c n))"
  defines "footer \<equiv> footer_bytes (js_sort comparePackEntries es)"
  defines "packLength \<equiv> byteLength (header_bytes c n) + frames_length recs + byteLength footer + FIXED_TRAILER_BYTES"
  assumes "0 < n" and "n \<le> MAX_PACK_RECORDS" and "check_pack_records c recs 0 = Inr ()" and "list_all record_shape recs"
    and "distinct (map representation recs)" and "packLength \<le> packHardMax c"
    and "c = Metadata_pack \<and> n > 1 \<Longrightarrow> packLength \<le> METADATA_PACK_MULTI_RECORD_MAX_BYTES"
  shows "preparePackLayout input = Inr \<lparr>lay_header = header_bytes c n, lay_records = recs, lay_entries = es,
      lay_frames = map frame_of recs, lay_footer = footer, lay_byteLength = packLength\<rparr>"
proof -
  have safe: "safe_unsigned n" using assms(7,8) by (simp add: isSafeInteger_def MAX_PACK_RECORDS_def MAX_SAFE_INTEGER_def)
  note max = packHardMax_range(2) [of c]
  have size: "packLength \<le> MAX_SAFE_INTEGER" "0 \<le> packLength" using assms(12) max by (simp_all add: packLength_def trailer_size)
  have frames: "byteLength (header_bytes c n) + frames_length recs \<le> packHardMax c"
    using assms(12) by (simp add: packLength_def trailer_size)
  have placed: "layout_records (packHardMax c) recs 0 (byteLength (header_bytes c n)) [] =
      Inr (zip es (map frame_of recs), byteLength (header_bytes c n) + frames_length recs)"
    unfolding es_def by (rule layout_records_ok) (use assms frames max in auto)
  have "list_all index_entry_ok es"
    unfolding es_def by (rule placed_ok) (use assms frames max safe in \<open>auto simp: n_def recs_def isSafeInteger_def\<close>)
  moreover have "byteLength footer \<le> MAX_SAFE_INTEGER"
    using size(1) frames_length_nonneg [of recs] unfolding packLength_def trailer_size by linarith
  ultimately have foot: "writeFooter es = Inr footer" by (simp add: writeFooter_Inr footer_def)
  have zip: "map fst (zip es (map frame_of recs)) = es" "map snd (zip es (map frame_of recs)) = map frame_of recs"
    by (simp_all add: es_def)
  have len: "in_records input = recs" "in_packClass input = c" "int (length recs) = n" "recs \<noteq> []"
    using assms(7) by (auto simp: recs_def c_def n_def)
  have head: "encode_header c n = Inr (header_bytes c n)" using encode_header_Inr [OF safe] by simp
  have bytes: "byteLength (header_bytes c n) + frames_length recs + byteLength footer + FIXED_TRAILER_BYTES = packLength"
    by (simp add: packLength_def)
  have bounds: "isSafeInteger packLength" "\<not> packHardMax c < packLength" "\<not> MAX_PACK_RECORDS < n"
    "\<not> (c = Metadata_pack \<and> 1 < n \<and> METADATA_PACK_MULTI_RECORD_MAX_BYTES < packLength)"
    using size assms(8,12,13) by (auto simp: isSafeInteger_def)
  show ?thesis
    unfolding preparePackLayout_def Let_def
    using bounds assms(7,9) by (simp add: len head placed zip foot bytes del: isSafeInteger_def)
qed

subsection \<open>The planning bound is a bound\<close>

lemma unsignedVarintLength_iff: "unsignedVarintLength v = Inr k \<longleftrightarrow> safe_unsigned v \<and> k = int (varint_length v)"
  by (auto simp: unsignedVarintLength_def rbind_eq_Inr varint_length_loop_eq)

lemma plan_checkedAdd_Inr [simp]: "plan_checkedAdd a b = Inr c \<longleftrightarrow> a + b \<le> MAX_SAFE_INTEGER \<and> c = a + b"
  by (auto simp: plan_checkedAdd_def)

lemma plan_checkedMultiply_Inr: "plan_checkedMultiply a b = Inr c \<Longrightarrow> c = a * b"
  by (auto simp: plan_checkedMultiply_def split: if_splits)

lemma planning_value:
  assumes "packPlanningUpperBoundBytes n b = Inr t" and "0 < n"
  defines "B \<equiv> 11 + int (varint_length n) + b + n * int (varint_length b)"
  shows "t = B + 10 + 257 * int (varint_length n) + n * (42 + int (varint_length (n - 1)) + 2 * int (varint_length B)) + FIXED_TRAILER_BYTES"
    and "0 \<le> b" and "safe_unsigned B"
proof -
  have 8: "varint_length MAX_SAFE_INTEGER = 8"
    using varint_length_le [of MAX_SAFE_INTEGER 7] varint_length_le [of MAX_SAFE_INTEGER 6] by (simp add: MAX_SAFE_INTEGER_def)
  have "t = B + 10 + 257 * int (varint_length n) + n * (42 + int (varint_length (n - 1)) + 2 * int (varint_length B)) + FIXED_TRAILER_BYTES
      \<and> 0 \<le> b \<and> safe_unsigned B"
    using assms(1,2) unfolding B_def
    by (auto simp: packPlanningUpperBoundBytes_def rbind_eq_Inr unsignedVarintLength_iff Let_def PACK_MAGIC_def PACK_FLAGS_NONE_def
        FOOTER_FLAGS_NONE_def FOOTER_MAGIC_def varint_length_small 8 SHA256_BYTE_LENGTH_def FANOUT_ENTRIES_def max_def algebra_simps
        dest!: plan_checkedMultiply_Inr split: if_splits)
  then show "t = B + 10 + 257 * int (varint_length n) + n * (42 + int (varint_length (n - 1)) + 2 * int (varint_length B)) + FIXED_TRAILER_BYTES"
    and "0 \<le> b" and "safe_unsigned B" by blast+
qed

definition records_length :: "record_envelope list \<Rightarrow> int" where
  "records_length recs = byteLength (concat (map record_bytes recs))"

lemma records_length_simps [simp]:
  "records_length [] = 0" "records_length (rec # recs) = byteLength (record_bytes rec) + records_length recs"
  by (simp_all add: records_length_def)

lemma records_length_nonneg [simp]: "0 \<le> records_length recs"
  by (simp add: records_length_def)

lemma record_length_le: "rec \<in> set recs \<Longrightarrow> byteLength (record_bytes rec) \<le> records_length recs"
  by (induction recs) fastforce+

lemma frames_length_bound:
  "(\<And>rec. rec \<in> set recs \<Longrightarrow> byteLength (record_bytes rec) \<le> b) \<Longrightarrow>
     frames_length recs \<le> records_length recs + int (length recs) * int (varint_length b)"
proof (induction recs)
  case (Cons rec recs)
  have "varint_length (byteLength (record_bytes rec)) \<le> varint_length b"
    using Cons.prems [of rec] by (intro varint_length_mono) auto
  then show ?case using Cons by (auto simp: frame_of_def algebra_simps)
qed simp

lemma frames_prefix: "frames_length (take i recs) \<le> frames_length recs"
proof -
  have "frames_length recs = frames_length (take i recs) + frames_length (drop i recs)"
    by (metis append_take_drop_id concat_append frames_length_def length_append map_append of_nat_add)
  then show ?thesis by simp
qed

lemma rmap_encode: "rmap encodeRecord recs = Inr encs \<Longrightarrow> encs = map record_bytes recs"
  by (induction recs arbitrary: encs) (auto simp: rbind_eq_Inr encodeRecord_Inr record_bytes_def)

lemma measurePack_Inr: "measurePackInputBytes input = Inr m \<longleftrightarrow> (\<exists>layout. preparePackLayout input = Inr layout \<and> m = lay_byteLength layout)"
proof -
  have rethrow: "rethrow_pack c m' = Inr x \<longleftrightarrow> m' = Inr x" for c m' and x :: int by (cases "(c, m')" rule: rethrow_pack.cases) auto
  show ?thesis by (auto simp: measurePackInputBytes_def rethrow rbind_eq_Inr)
qed

lemma planning_bound:
  assumes "measurePackInputBytes input = Inr m" and "rmap encodeRecord (in_records input) = Inr encoded"
    and "packPlanningUpperBoundBytes (int (length (in_records input))) (int (length (concat encoded))) = Inr bound"
  shows "m \<le> bound"
proof -
  let ?recs = "in_records input" and ?c = "in_packClass input"
  define n where "n = int (length ?recs)"
  define b where "b = records_length ?recs"
  obtain layout where layout: "preparePackLayout input = Inr layout" and m: "m = lay_byteLength layout"
    using assms(1) measurePack_Inr by blast
  note facts = preparePackLayout_Inr [OF layout, folded n_def]
  have bb: "int (length (concat encoded)) = b" using rmap_encode [OF assms(2)] by (simp add: b_def records_length_def)
  have n: "0 < n" "n \<le> MAX_PACK_RECORDS" using facts(1) by simp_all
  define B where "B = 11 + int (varint_length n) + b + n * int (varint_length b)"
  note bnd = planning_value [OF assms(3) [folded n_def, unfolded bb] n(1), folded B_def]
  have safe: "safe_unsigned n" using n by (simp add: isSafeInteger_def MAX_PACK_RECORDS_def MAX_SAFE_INTEGER_def)
  let ?h = "header_bytes ?c n" and ?es = "placed ?recs 0 (byteLength (header_bytes ?c n))"
  have h: "byteLength ?h = 11 + int (varint_length n)" using header_size [OF safe] by simp
  have frames: "frames_length ?recs \<le> b + n * int (varint_length b)"
    unfolding b_def n_def by (rule frames_length_bound) (rule record_length_le)
  have entry: "length (concat (entry_chunks e)) \<le> 42 + varint_length (n - 1) + 2 * varint_length B" if e: "e \<in> set ?es" for e
  proof -
    obtain i where i: "i < length ?recs" "e = entry_of (?recs ! i) (int i) (byteLength ?h + frames_length (take i ?recs))"
    proof -
      obtain i where "i < length ?es" "e = ?es ! i" using e by (metis in_set_conv_nth)
      then show thesis using that [of i] placed_nth [of i ?recs 0 "byteLength ?h"] by simp
    qed
    have "index_entry_ok e" using facts(6) e by (auto simp: list_all_iff)
    then have "length (fromHex (pe_logicalId e)) = 32" "varint_length (pe_decodedLength e) \<le> 8"
      using varint_length_safe by (auto simp: index_entry_ok_def length_fromHex is_sha256_hex_def)
    moreover have "varint_length (pe_physicalOrdinal e) \<le> varint_length (n - 1)"
      using i by (intro varint_length_mono) (auto simp: entry_of_def n_def)
    moreover have "varint_length (pe_offset e) \<le> varint_length B"
      using i frames frames_prefix [of i ?recs] h by (intro varint_length_mono) (auto simp: entry_of_def B_def)
    moreover have "frames_length (take (Suc i) ?recs) = frames_length (take i ?recs) + byteLength (frame_of (?recs ! i))"
      using i(1) by (simp add: take_Suc_conv_app_nth frames_length_def)
    then have "byteLength (frame_of (?recs ! i)) \<le> frames_length ?recs"
      using frames_prefix [of "Suc i" ?recs] frames_length_nonneg [of "take i ?recs"] by linarith
    then have "varint_length (pe_length e) \<le> varint_length B"
      using i frames by (intro varint_length_mono) (auto simp: entry_of_def B_def)
    ultimately show ?thesis by (simp add: entry_chunks_def)
  qed
  let ?s = "js_sort comparePackEntries ?es"
  have table: "length (concat (map (concat \<circ> entry_chunks) ?s)) \<le> (42 + varint_length (n - 1) + 2 * varint_length B) * length ?s"
    by (rule concat_bound) (use entry in auto)
  have "byteLength (concat (map (concat \<circ> entry_chunks) ?s)) \<le> (42 + int (varint_length (n - 1)) + 2 * int (varint_length B)) * n"
    using iffD2 [OF of_nat_le_iff [where 'a = int] table] unfolding of_nat_mult by (simp add: n_def)
  moreover have "length (concat (map varint (fanout_of (map pe_logicalId ?s)))) \<le> varint_length n * length (fanout_of (map pe_logicalId ?s))"
  proof (rule concat_bound)
    show "length (varint x) \<le> varint_length n" if "x \<in> set (fanout_of (map pe_logicalId ?s))" for x
      using fanout_of_shape(2) [of "map pe_logicalId ?s"] that by (auto simp: n_def intro!: varint_length_mono)
  qed
  ultimately have "byteLength (footer_bytes ?s) \<le> 10 + 257 * int (varint_length n) +
      (42 + int (varint_length (n - 1)) + 2 * int (varint_length B)) * n"
    by (simp add: footer_bytes_def FOOTER_MAGIC_def varint_length_small n_def)
  moreover have "m = byteLength ?h + frames_length ?recs + byteLength (footer_bytes ?s) + FIXED_TRAILER_BYTES"
    unfolding m by (subst facts(2)) simp
  ultimately show ?thesis unfolding bnd(1) using frames h by (simp add: B_def algebra_simps)
qed

text \<open>C31. The planning bound is safe: whenever a batch of records can be laid out and the bound for their number and
  encoded length is defined, the measured pack is at most as long as the bound.\<close>

theorem planning_bound_covers_the_pack:
  assumes "measurePackInputBytes input = Inr m" and "rmap encodeRecord (in_records input) = Inr encoded"
    and "packPlanningUpperBoundBytes (int (length (in_records input))) (int (length (concat encoded))) = Inr bound"
  shows "m \<le> bound"
  using assms by (rule planning_bound)

definition sample_input :: encode_pack_input where
  "sample_input = \<lparr>in_packClass = Data_pack, in_records = [sample_record]\<rparr>"

lemma sample_layout: "\<exists>layout. preparePackLayout sample_input = Inr layout"
proof -
  have shape: "record_shape sample_record" and small: "byteLength (frame_of sample_record) = 45" by code_simp+
  let ?es = "js_sort comparePackEntries (placed (in_records sample_input) 0 (byteLength (header_bytes Data_pack 1)))"
  have "length (header_bytes Data_pack 1) = 12" using header_size [of 1 Data_pack] by (simp add: varint_length_small)
  then have es: "list_all index_entry_ok ?es" "length ?es = 1"
    using shape small by (simp_all add: sample_input_def js_sort_def index_entry_ok_def entry_of_def record_shape_def isSafeInteger_def MAX_SAFE_INTEGER_def)
  have "byteLength (footer_bytes ?es) \<le> 2139" using footer_size [OF es(1)] es(2) by (simp add: MAX_PACK_RECORDS_def)
  moreover have "check_pack_records Data_pack [sample_record] 0 = Inr ()" by code_simp
  ultimately show ?thesis
    using preparePackLayout_ok [of sample_input] shape small \<open>length (header_bytes Data_pack 1) = 12\<close>
    by (auto simp: sample_input_def MAX_PACK_RECORDS_def packHardMax_def DATA_PACK_HARD_MAX_BYTES_def trailer_size)
qed

theorem planning_bound_covers_the_pack_witness:
  "\<exists>m bound. measurePackInputBytes sample_input = Inr m \<and> packPlanningUpperBoundBytes 1 44 = Inr bound \<and> m \<le> bound"
proof -
  obtain m where m: "measurePackInputBytes sample_input = Inr m" using sample_layout measurePack_Inr by blast
  obtain bound where bound: "packPlanningUpperBoundBytes 1 44 = Inr bound"
  proof -
    have "(case packPlanningUpperBoundBytes 1 44 of Inl _ \<Rightarrow> False | Inr _ \<Rightarrow> True)" by code_simp
    then show thesis using that by (auto split: sum.splits)
  qed
  have enc: "rmap encodeRecord (in_records sample_input) = Inr [record_bytes sample_record]" by code_simp
  have len: "length (concat [record_bytes sample_record]) = 44" by code_simp
  have "m \<le> bound"
    by (rule planning_bound_covers_the_pack [OF m enc]) (use bound len in \<open>simp add: sample_input_def\<close>)
  then show ?thesis using m bound by blast
qed

end
