(* ===== verification/Pack_Reader.thy ===== *)
theory Pack_Reader
  imports Pack_Layout
begin

text \<open>
  Reading packs (\<^verbatim>\<open>content-store/pack.ts\<close>): the headers, the index of a pack read through a positional source, its
  authentication, and reading single records. A source is an argument: its length and its read operation, which
  may fail or return fewer bytes. Reads are taken to be repeatable, as the interface of a source asks
  (every read is an immutable snapshot of the file); its \<^verbatim>\<open>close\<close> is in \<^verbatim>\<open>Pack_Handle\<close>.
\<close>

subsection \<open>Headers\<close>

definition CHECKSUM_BYTES :: int where "CHECKSUM_BYTES = SHA256_BYTE_LENGTH"
definition FOOTER_LENGTH_BYTES :: int where "FOOTER_LENGTH_BYTES = 8"
definition MAX_SAFE_VARINT_BYTES :: int where "MAX_SAFE_VARINT_BYTES = 8"
definition MAX_RECORD_HEADER_BYTES :: int where
  "MAX_RECORD_HEADER_BYTES = byteLength RECORD_MAGIC + 3 + MAX_SAFE_VARINT_BYTES * 3 + SHA256_BYTE_LENGTH"
definition MAX_PACK_HEADER_BYTES :: int where
  "MAX_PACK_HEADER_BYTES = byteLength PACK_MAGIC + 2 + MAX_SAFE_VARINT_BYTES * 2"
definition MAX_PACK_FOOTER_BYTES :: int where
  "MAX_PACK_FOOTER_BYTES = byteLength FOOTER_MAGIC + 1 + MAX_SAFE_VARINT_BYTES * (2 + int FANOUT_ENTRIES) +
     MAX_PACK_RECORDS * (SHA256_BYTE_LENGTH + 2 + MAX_SAFE_VARINT_BYTES * 4)"
definition PACK_AUTHENTICATION_READ_BUFFER_BYTES :: int where "PACK_AUTHENTICATION_READ_BUFFER_BYTES = 64 * 1024"

text \<open>The constant is \<^verbatim>\<open>unsignedVarintLength(Number.MAX_SAFE_INTEGER)\<close> in the source.\<close>

lemma MAX_SAFE_VARINT_BYTES_value: "unsignedVarintLength MAX_SAFE_INTEGER = Inr MAX_SAFE_VARINT_BYTES"
  by code_simp

record parsed_pack_header =
  hd_packClass :: pack_class
  hd_recordCount :: int
  hd_byteLength :: int

record parsed_record_header =
  rh_logicalId :: string
  rh_kind :: record_kind
  rh_encoding :: record_encoding
  rh_decodedLength :: int
  rh_payloadLength :: int
  rh_headerLength :: int

definition parsePackHeader :: "bytes \<Rightarrow> parsed_pack_header result" where
  "parsePackHeader bs =
     rbind (expectBytes PACK_MAGIC (newCanonicalReader bs)) (\<lambda>r.
     rbind (readByte r) (\<lambda>(version, r).
       if version \<noteq> PACK_FORMAT_VERSION then invalid_pack Pack_invalid_format
       else rbind (readByte r) (\<lambda>(classCode, r).
       rbind (classFromCode (PackFormatError Pack_invalid_format) classCode) (\<lambda>packClass.
       rbind (readVarint r) (\<lambda>(flags, r).
         if flags \<noteq> PACK_FLAGS_NONE then invalid_pack Pack_invalid_format
         else rbind (readVarint r) (\<lambda>(recordCount, r).
           if recordCount = 0 \<or> recordCount > MAX_PACK_RECORDS then invalid_pack Pack_limit_exceeded
           else Inr \<lparr>hd_packClass = packClass, hd_recordCount = recordCount, hd_byteLength = reader_offset r\<rparr>))))))"

definition parseRecordHeader :: "bytes \<Rightarrow> parsed_record_header result" where
  "parseRecordHeader bs =
     rbind (expectBytes RECORD_MAGIC (newCanonicalReader bs)) (\<lambda>r.
     rbind (readByte r) (\<lambda>(version, r).
       if version \<noteq> RECORD_FORMAT_VERSION then invalid_pack Pack_invalid_format
       else rbind (readByte r) (\<lambda>(kindCode, r).
       rbind (index_kindFromCode (PackFormatError Pack_invalid_format) kindCode) (\<lambda>kind.
       rbind (readByte r) (\<lambda>(encodingCode, r).
       rbind (index_encodingFromCode (PackFormatError Pack_invalid_format) encodingCode) (\<lambda>encoding.
       if (encoding = Chunked_v1 \<or> encoding = Delta1) \<and> kind \<noteq> Kind_content then invalid_pack Pack_invalid_format
       else rbind (readVarint r) (\<lambda>(flags, r).
         if flags \<noteq> RECORD_FLAGS_NONE then invalid_pack Pack_invalid_format
         else rbind (readBytes SHA256_BYTE_LENGTH r) (\<lambda>(digest, r).
         rbind (readVarint r) (\<lambda>(decodedLen, r).
         rbind (readVarint r) (\<lambda>(payloadLen, r).
           if encoding = Raw \<and> payloadLen \<noteq> decodedLen then invalid_pack Pack_invalid_format
           else if encoding = Chunked_v1 \<and> payloadLen \<noteq> SHA256_BYTE_LENGTH then invalid_pack Pack_invalid_format
           else rbind (assertRecordHeaderLimits kind encoding decodedLen payloadLen) (\<lambda>_.
             rbind (idFromDigest kind digest) (\<lambda>i.
               Inr \<lparr>rh_logicalId = i, rh_kind = kind, rh_encoding = encoding, rh_decodedLength = decodedLen,
                 rh_payloadLength = payloadLen, rh_headerLength = reader_offset r\<rparr>))))))))))))"

subsection \<open>Positional sources\<close>

record pack_source =
  src_byteLength :: int
  src_read :: "int \<Rightarrow> int \<Rightarrow> bytes result"

definition validateReaderRange :: "int \<Rightarrow> int \<Rightarrow> int \<Rightarrow> unit result" where
  "validateReaderRange sourceLength position len =
     (if \<not> isSafeInteger position \<or> \<not> isSafeInteger len \<or> position < 0 \<or> len < 0 \<or> position > sourceLength \<or> len > sourceLength - position
      then invalid_pack Pack_invalid_input else Inr ())"

definition source_readExactly :: "pack_source \<Rightarrow> int \<Rightarrow> int \<Rightarrow> bytes result" where
  "source_readExactly source position len =
     rbind (validateReaderRange (src_byteLength source) position len) (\<lambda>_.
     rbind (src_read source position len) (\<lambda>bs.
       if byteLength bs \<noteq> len then invalid_pack Pack_invalid_format else Inr bs))"

text \<open>The window of the authenticating reader: one buffered range of the source.\<close>

record read_window =
  win_position :: int
  win_bytes :: bytes

definition new_window :: read_window where
  "new_window = \<lparr>win_position = 0, win_bytes = []\<rparr>"

definition window_readExactly :: "pack_source \<Rightarrow> int \<Rightarrow> int \<Rightarrow> read_window \<Rightarrow> (bytes \<times> read_window) result" where
  "window_readExactly source position len w =
     rbind (validateReaderRange (src_byteLength source) position len) (\<lambda>_.
       if position \<ge> win_position w \<and> len \<le> byteLength (win_bytes w) - (position - win_position w)
       then Inr (take (nat len) (drop (nat (position - win_position w)) (win_bytes w)), w)
       else if len > PACK_AUTHENTICATION_READ_BUFFER_BYTES
       then rbind (source_readExactly source position len) (\<lambda>bs. Inr (bs, w))
       else let windowLength = min PACK_AUTHENTICATION_READ_BUFFER_BYTES (src_byteLength source - position) in
         rbind (source_readExactly source position windowLength) (\<lambda>bs.
           Inr (take (nat len) bs, \<lparr>win_position = position, win_bytes = bs\<rparr>)))"

text \<open>The bytes fed to the hash: the prefix of the source, read in buffers.\<close>

function authenticated_prefix :: "pack_source \<Rightarrow> int \<Rightarrow> int \<Rightarrow> bytes result" where
  "authenticated_prefix source checksumOffset position =
     (if position < checksumOffset
      then let len = min PACK_AUTHENTICATION_READ_BUFFER_BYTES (checksumOffset - position) in
        rbind (source_readExactly source position len) (\<lambda>bs.
        rbind (authenticated_prefix source checksumOffset (position + len)) (\<lambda>rest. Inr (bs @ rest)))
      else Inr [])"
  by pat_completeness auto
termination
  by (relation "measure (\<lambda>(source, checksumOffset, position). nat (checksumOffset - position))")
    (auto simp: PACK_AUTHENTICATION_READ_BUFFER_BYTES_def)

declare authenticated_prefix.simps [simp del]

definition hashAuthenticatedPrefix :: "pack_verification \<Rightarrow> pack_source \<Rightarrow> int \<Rightarrow> bytes result" where
  "hashAuthenticatedPrefix v source checksumOffset =
     rbind (authenticated_prefix source checksumOffset 0) (\<lambda>hashed. Inr (sha256 v hashed))"

subsection \<open>Reading the index of a pack\<close>

definition entryMatchesHeader :: "pack_index_entry \<Rightarrow> parsed_record_header \<Rightarrow> bool" where
  "entryMatchesHeader e h \<longleftrightarrow> pe_logicalId e = rh_logicalId h \<and> pe_kind e = rh_kind h \<and>
     pe_encoding e = rh_encoding h \<and> pe_decodedLength e = rh_decodedLength h"

fun assertDeltaBaseCompatibility :: "delta1_instruction list \<Rightarrow> int \<Rightarrow> unit result" where
  "assertDeltaBaseCompatibility [] baseDecodedLength = Inr ()"
| "assertDeltaBaseCompatibility (Add bs # rest) baseDecodedLength = assertDeltaBaseCompatibility rest baseDecodedLength"
| "assertDeltaBaseCompatibility (Copy baseOffset len # rest) baseDecodedLength =
     (if baseOffset > baseDecodedLength \<or> len > baseDecodedLength - baseOffset then invalid_pack Pack_invalid_format
      else assertDeltaBaseCompatibility rest baseDecodedLength)"

record parsed_pack_index =
  pp_index :: pack_index
  pp_expectedChecksum :: bytes
  pp_footerOffset :: int
  pp_header :: parsed_pack_header
  pp_physicalEntries :: "pack_index_entry list"

text \<open>The array of physical entries: every ordinal in range and taken once.\<close>

fun fill_physical :: "parsed_pack_header \<Rightarrow> pack_index_entry list \<Rightarrow> pack_index_entry option list \<Rightarrow>
    pack_index_entry option list result" where
  "fill_physical h [] physical = Inr physical"
| "fill_physical h (e # es) physical =
     (let ordinal = pe_physicalOrdinal e in
      if ordinal \<ge> hd_recordCount h \<or> physical ! nat ordinal \<noteq> None then invalid_pack Pack_invalid_format
      else if packClassForRecordKind (pe_kind e) \<noteq> hd_packClass h then invalid_pack Pack_invalid_format
      else fill_physical h es (physical[nat ordinal := Some e]))"

text \<open>Each entry starts where the previous one ends; an offset behind the last one.\<close>

fun check_boundaries :: "int \<Rightarrow> pack_index_entry option list \<Rightarrow> int \<Rightarrow> int result" where
  "check_boundaries footerOffset [] nextOffset = Inr nextOffset"
| "check_boundaries footerOffset (None # es) nextOffset = invalid_pack Pack_integrity"
| "check_boundaries footerOffset (Some e # es) nextOffset =
     (if pe_offset e \<noteq> nextOffset \<or> pe_length e = 0 \<or> pe_length e > footerOffset - nextOffset
      then invalid_pack Pack_integrity
      else check_boundaries footerOffset es (nextOffset + pe_length e))"

fun complete_physical :: "pack_index_entry option list \<Rightarrow> pack_index_entry list result" where
  "complete_physical [] = Inr []"
| "complete_physical (None # es) = invalid_pack Pack_invalid_format"
| "complete_physical (Some e # es) = rbind (complete_physical es) (\<lambda>rest. Inr (e # rest))"

definition readPackIndexInternal :: "pack_source \<Rightarrow> string option \<Rightarrow> parsed_pack_index result" where
  "readPackIndexInternal source expectedPackId =
     (let sourceLength = src_byteLength source; absoluteMax = max DATA_PACK_HARD_MAX_BYTES METADATA_PACK_HARD_MAX_BYTES in
      if \<not> isSafeInteger sourceLength \<or> sourceLength < 0 \<or> sourceLength > absoluteMax then invalid_pack Pack_limit_exceeded
      else if sourceLength \<le> FIXED_TRAILER_BYTES then invalid_pack Pack_invalid_format
      else let footerLengthOffset = sourceLength - FIXED_TRAILER_BYTES in
      rbind (source_readExactly source footerLengthOffset FIXED_TRAILER_BYTES) (\<lambda>fixedTrailer.
      rbind (readUnsigned64 fixedTrailer 0) (\<lambda>footerLength.
        if footerLength = 0 \<or> footerLength > MAX_PACK_FOOTER_BYTES then invalid_pack Pack_limit_exceeded
        else let footerOffset = footerLengthOffset - footerLength in
        if footerOffset \<le> 0 then invalid_pack Pack_invalid_format
        else let expectedChecksum = take (nat CHECKSUM_BYTES) (drop (nat FOOTER_LENGTH_BYTES) fixedTrailer);
                 trailerMagic = drop (nat (FOOTER_LENGTH_BYTES + CHECKSUM_BYTES)) fixedTrailer in
        if trailerMagic \<noteq> TRAILER_MAGIC then invalid_pack Pack_invalid_format
        else let packId = toHex expectedChecksum in
        if expectedPackId \<noteq> None \<and> expectedPackId \<noteq> Some packId then invalid_pack Pack_integrity
        else rbind (source_readExactly source footerOffset footerLength) (\<lambda>footerBytes.
        rbind (readFooter footerBytes) (\<lambda>(entries, fanout).
        rbind (source_readExactly source 0 (min MAX_PACK_HEADER_BYTES footerOffset)) (\<lambda>prefix.
        rbind (parsePackHeader prefix) (\<lambda>header.
          if sourceLength > packHardMax (hd_packClass header) then invalid_pack Pack_limit_exceeded
          else if int (length entries) \<noteq> hd_recordCount header then invalid_pack Pack_invalid_format
          else if hd_packClass header = Metadata_pack \<and> hd_recordCount header > 1 \<and> sourceLength > METADATA_PACK_MULTI_RECORD_MAX_BYTES
          then invalid_pack Pack_limit_exceeded
          else rbind (fill_physical header entries (replicate (nat (hd_recordCount header)) None)) (\<lambda>physical.
          rbind (check_boundaries footerOffset physical (hd_byteLength header)) (\<lambda>nextOffset.
            if nextOffset \<noteq> footerOffset then invalid_pack Pack_invalid_format
            else rbind (complete_physical physical) (\<lambda>physicalEntries.
              Inr \<lparr>pp_index = \<lparr>px_packId = packId, px_packClass = hd_packClass header, px_byteLength = sourceLength,
                     px_entries = entries, px_fanout = fanout\<rparr>,
                   pp_expectedChecksum = expectedChecksum, pp_footerOffset = footerOffset, pp_header = header,
                   pp_physicalEntries = physicalEntries\<rparr>))))))))))"

subsection \<open>Authenticating a pack\<close>

text \<open>The index of the physical record a delta is based on.\<close>

definition check_delta_base :: "pack_index_entry list \<Rightarrow> int \<Rightarrow> delta1_program \<Rightarrow> unit result" where
  "check_delta_base physicalEntries physicalOrdinal program =
     (if baseBackDistance program > physicalOrdinal then invalid_pack Pack_invalid_format
      else case element_at physicalEntries (physicalOrdinal - baseBackDistance program) of
        None \<Rightarrow> invalid_pack Pack_invalid_format
      | Some base \<Rightarrow>
          if pe_kind base \<noteq> Kind_content \<or> (pe_encoding base \<noteq> Raw \<and> pe_encoding base \<noteq> Zstd_v1)
            \<or> pe_decodedLength base > DELTA1_MAX_BASE_BYTES
          then invalid_pack Pack_invalid_format
          else assertDeltaBaseCompatibility (instructions program) (pe_decodedLength base))"

text \<open>The body of the loop over physical records: the length of its frame, the window and the seen representations.\<close>

definition authenticate_record :: "pack_source \<Rightarrow> parsed_pack_index \<Rightarrow> int \<Rightarrow> int \<Rightarrow> read_window \<Rightarrow> representation_key list \<Rightarrow>
    (int \<times> read_window \<times> representation_key list) result" where
  "authenticate_record source parsed physicalOrdinal nextOffset w duplicateKeys =
     (let footerOffset = pp_footerOffset parsed; packClass = hd_packClass (pp_header parsed) in
      case element_at (pp_physicalEntries parsed) physicalOrdinal of
        None \<Rightarrow> invalid_pack Pack_integrity
      | Some e \<Rightarrow>
      if pe_offset e \<noteq> nextOffset then invalid_pack Pack_integrity
      else rbind (window_readExactly source nextOffset (min MAX_SAFE_VARINT_BYTES (footerOffset - nextOffset)) w) (\<lambda>(framePrefix, w).
      rbind (decodeUnsignedVarint framePrefix 0) (\<lambda>(recordLength, headLength).
        if recordLength = 0 \<or> recordLength > packHardMax packClass then invalid_pack Pack_limit_exceeded
        else let frameLength = headLength + recordLength in
        if frameLength \<noteq> pe_length e \<or> frameLength > footerOffset - nextOffset then invalid_pack Pack_integrity
        else let recordOffset = nextOffset + headLength in
        rbind (window_readExactly source recordOffset (min MAX_RECORD_HEADER_BYTES recordLength) w) (\<lambda>(headerBytes, w).
        rbind (parseRecordHeader headerBytes) (\<lambda>h.
          if rh_headerLength h + rh_payloadLength h \<noteq> recordLength \<or> \<not> entryMatchesHeader e h
            \<or> packClassForRecordKind (rh_kind h) \<noteq> packClass
          then invalid_pack Pack_integrity
          else let duplicateKey = (pe_logicalId e, pe_kind e, pe_encoding e) in
          if duplicateKey \<in> set duplicateKeys then invalid_pack Pack_invalid_format
          else if rh_encoding h = Delta1
          then rbind (window_readExactly source (recordOffset + rh_headerLength h) (rh_payloadLength h) w) (\<lambda>(body, w).
               rbind (decodeDelta1Program body (rh_decodedLength h)) (\<lambda>program.
               rbind (check_delta_base (pp_physicalEntries parsed) physicalOrdinal program) (\<lambda>_.
                 Inr (nextOffset + frameLength, w, duplicateKey # duplicateKeys))))
          else Inr (nextOffset + frameLength, w, duplicateKey # duplicateKeys))))))"

fun authenticate_records :: "pack_source \<Rightarrow> parsed_pack_index \<Rightarrow> nat \<Rightarrow> int \<Rightarrow> int \<Rightarrow> read_window \<Rightarrow> representation_key list \<Rightarrow> int result" where
  "authenticate_records source parsed 0 physicalOrdinal nextOffset w duplicateKeys = Inr nextOffset"
| "authenticate_records source parsed (Suc n) physicalOrdinal nextOffset w duplicateKeys =
     rbind (authenticate_record source parsed physicalOrdinal nextOffset w duplicateKeys) (\<lambda>(nextOffset, w, duplicateKeys).
       authenticate_records source parsed n (physicalOrdinal + 1) nextOffset w duplicateKeys)"

definition authenticatePackIndexInternal :: "pack_verification \<Rightarrow> pack_source \<Rightarrow> string option \<Rightarrow> pack_index result" where
  "authenticatePackIndexInternal v source expectedPackId =
     rbind (readPackIndexInternal source expectedPackId) (\<lambda>parsed.
     rbind (hashAuthenticatedPrefix v source (src_byteLength source - (CHECKSUM_BYTES + byteLength TRAILER_MAGIC))) (\<lambda>observedChecksum.
       if pp_expectedChecksum parsed \<noteq> observedChecksum then invalid_pack Pack_integrity
       else if expectedPackId \<noteq> None \<and> expectedPackId \<noteq> Some (toHex observedChecksum) then invalid_pack Pack_integrity
       else rbind (authenticate_records source parsed (nat (hd_recordCount (pp_header parsed))) 0
              (hd_byteLength (pp_header parsed)) new_window []) (\<lambda>nextOffset.
         if nextOffset \<noteq> pp_footerOffset parsed then invalid_pack Pack_invalid_format
         else Inr (pp_index parsed))))"

definition authenticatePackReader :: "pack_verification \<Rightarrow> pack_source \<Rightarrow> string option \<Rightarrow> pack_index result" where
  "authenticatePackReader v source expectedPackId =
     rethrow_pack Pack_invalid_format
       (case expectedPackId of
          None \<Rightarrow> authenticatePackIndexInternal v source None
        | Some i \<Rightarrow> rbind (parsePackId i) (\<lambda>i. authenticatePackIndexInternal v source (Some i)))"

text \<open>The \<^verbatim>\<open>catch\<close> clause of the routing reader leaves delta errors alone.\<close>

fun rethrow_index :: "'a result \<Rightarrow> 'a result" where
  "rethrow_index (Inl (CanonicalBinaryError c)) = invalid_pack Pack_invalid_format"
| "rethrow_index (Inl TypeError) = invalid_pack Pack_invalid_format"
| "rethrow_index m = m"

definition readPackIndex :: "pack_source \<Rightarrow> string \<Rightarrow> pack_index result" where
  "readPackIndex source expectedPackId =
     rethrow_index (rbind (parsePackId expectedPackId) (\<lambda>i.
       rbind (readPackIndexInternal source (Some i)) (\<lambda>parsed. Inr (pp_index parsed))))"

subsection \<open>Looking up and reading records\<close>

definition pack_lookup :: "pack_index \<Rightarrow> record_kind \<Rightarrow> string \<Rightarrow> pack_index_entry list result" where
  "pack_lookup index kind i =
     rbind (assertKeyShape kind i) (\<lambda>_. Inr (fanout_lookup pe_logicalId pe_kind (px_entries index) (px_fanout index) i kind))"

text \<open>The array by ordinal is filled in the order of the entries, so a later entry replaces an earlier one.\<close>

definition entryForPhysicalOrdinal :: "pack_index \<Rightarrow> int \<Rightarrow> pack_index_entry option" where
  "entryForPhysicalOrdinal index physicalOrdinal =
     (if \<not> isSafeInteger physicalOrdinal \<or> physicalOrdinal < 0 then None
      else find (\<lambda>e. pe_physicalOrdinal e = physicalOrdinal) (rev (px_entries index)))"

definition readEnvelopeFromReader :: "pack_source \<Rightarrow> pack_index \<Rightarrow> pack_index_entry \<Rightarrow> record_envelope result" where
  "readEnvelopeFromReader source index e =
     (if entryForPhysicalOrdinal index (pe_physicalOrdinal e) \<noteq> Some e then invalid_pack Pack_invalid_input
      else rbind (source_readExactly source (pe_offset e) (pe_length e)) (\<lambda>frame.
      rbind (decodeUnsignedVarint frame 0) (\<lambda>(recordLength, headLength).
        if recordLength = 0 \<or> headLength + recordLength \<noteq> byteLength frame then invalid_pack Pack_integrity
        else let recordBytes = drop (nat headLength) frame in
        rbind (parseRecordHeader recordBytes) (\<lambda>h.
          if rh_headerLength h + rh_payloadLength h \<noteq> byteLength recordBytes then invalid_pack Pack_integrity
          else if packClassForRecordKind (rh_kind h) \<noteq> px_packClass index \<or> \<not> entryMatchesHeader e h
          then invalid_pack Pack_integrity
          else Inr \<lparr>rec_kind = rh_kind h, rec_encoding = rh_encoding h, logicalId = rh_logicalId h,
            decodedLength = rh_decodedLength h, payload = drop (nat (rh_headerLength h)) recordBytes\<rparr>))))"

text \<open>The body of \<^verbatim>\<open>PackReader.readVerified\<close>; owned and copied raw payloads are equal as values.\<close>

definition readVerified :: "pack_verification \<Rightarrow> pack_source \<Rightarrow> pack_index \<Rightarrow> pack_index_entry \<Rightarrow> bytes result" where
  "readVerified v source index e =
     rbind (readEnvelopeFromReader source index e) (\<lambda>rec.
     rbind (case rec_encoding rec of
         Raw \<Rightarrow> decodeFullRecord v rec
       | Zstd_v1 \<Rightarrow> decodeFullRecord v rec
       | Chunked_v1 \<Rightarrow> invalid_pack Pack_verification_required
       | Delta1 \<Rightarrow>
           rbind (decodeDelta1Program (payload rec) (decodedLength rec)) (\<lambda>program.
             case entryForPhysicalOrdinal index (pe_physicalOrdinal e - baseBackDistance program) of
               None \<Rightarrow> invalid_pack Pack_integrity
             | Some baseEntry \<Rightarrow>
                 if pe_kind baseEntry \<noteq> Kind_content \<or> (pe_encoding baseEntry \<noteq> Raw \<and> pe_encoding baseEntry \<noteq> Zstd_v1)
                 then invalid_pack Pack_integrity
                 else rbind (readEnvelopeFromReader source index baseEntry) (\<lambda>baseRec.
                   rbind (decodeFullRecord v baseRec) (\<lambda>base.
                   rbind (verifyLogicalId v baseRec base) (\<lambda>_.
                     applyDelta1Program program base (decodedLength rec)))))) (\<lambda>decoded.
       rbind (verifyLogicalId v rec decoded) (\<lambda>_. Inr decoded)))"

subsection \<open>A file as a source\<close>

definition bytes_source :: "bytes \<Rightarrow> pack_source" where
  "bytes_source bs = \<lparr>src_byteLength = byteLength bs, src_read = (\<lambda>position len. Inr (take (nat len) (drop (nat position) bs)))\<rparr>"

definition slice :: "bytes \<Rightarrow> int \<Rightarrow> int \<Rightarrow> bytes" where
  "slice bs position len = take (nat len) (drop (nat position) bs)"

lemma source_read_bytes:
  assumes "byteLength bs \<le> MAX_SAFE_INTEGER"
  shows "source_readExactly (bytes_source bs) position len =
    (if 0 \<le> position \<and> 0 \<le> len \<and> position + len \<le> byteLength bs then Inr (slice bs position len)
     else invalid_pack Pack_invalid_input)"
proof (cases "0 \<le> position \<and> 0 \<le> len \<and> position + len \<le> byteLength bs")
  case True
  then have "byteLength (take (nat len) (drop (nat position) bs)) = len" by auto
  then show ?thesis
    using True assms by (auto simp: source_readExactly_def validateReaderRange_def bytes_source_def slice_def isSafeInteger_def)
next
  case False
  then show ?thesis by (auto simp: source_readExactly_def validateReaderRange_def bytes_source_def)
qed

subsection \<open>The length field\<close>

fun be_bytes :: "nat \<Rightarrow> int \<Rightarrow> bytes" where
  "be_bytes 0 v = []"
| "be_bytes (Suc n) v = word_of_int (v div 256 ^ n mod 256) # be_bytes n v"

abbreviation be_value :: "int \<Rightarrow> bytes \<Rightarrow> int" where
  "be_value \<equiv> foldl (\<lambda>a b. a * 256 + uint b)"

definition u64 :: "int \<Rightarrow> bytes" where "u64 = be_bytes 8"

lemma length_be_bytes [simp]: "length (be_bytes n v) = n"
  by (induction n) auto

lemma length_u64 [simp]: "length (u64 v) = 8"
  by (simp add: u64_def)

lemma uint_of_byte: "uint (word_of_int (x mod 256) :: byte) = x mod 256"
  by (simp add: unsigned_of_int take_bit_eq_mod)

lemma be_value_bytes: "be_value a (be_bytes n v) = a * 256 ^ n + v mod 256 ^ n"
proof (induction n arbitrary: a)
  case (Suc n)
  have "be_value a (be_bytes (Suc n) v) = be_value (a * 256 + v div 256 ^ n mod 256) (be_bytes n v)"
    by (simp add: uint_of_byte)
  also have "\<dots> = (a * 256 + v div 256 ^ n mod 256) * 256 ^ n + v mod 256 ^ n" by (rule Suc)
  also have "\<dots> = a * 256 ^ Suc n + (256 ^ n * (v div 256 ^ n mod 256) + v mod 256 ^ n)" by (simp add: algebra_simps)
  also have "256 ^ n * (v div 256 ^ n mod 256) + v mod 256 ^ n = v mod 256 ^ Suc n"
    using zmod_zmult2_eq [of 256 v "256 ^ n"] by (simp add: mult.commute)
  finally show ?case .
qed simp

lemma be_value_range: "be_value a bs = a * 256 ^ length bs + be_value 0 bs \<and> 0 \<le> be_value 0 bs \<and> be_value 0 bs < 256 ^ length bs"
proof (induction bs arbitrary: a)
  case (Cons b bs)
  let ?m = "256 ^ length bs :: int"
  have b: "0 \<le> uint b" "uint b \<le> 255" using uint_bounded [of b] by auto
  have first: "be_value a (b # bs) = (a * 256 + uint b) * ?m + be_value 0 bs" for a using Cons [of "a * 256 + uint b"] by simp
  have "0 \<le> uint b * ?m" "uint b * ?m \<le> 255 * ?m" using b by (simp_all only: mult_right_mono zero_le_power zero_le_mult_iff zero_le_numeral) simp
  moreover have "be_value 0 (b # bs) = uint b * ?m + be_value 0 bs" using first [of 0] by simp
  moreover have "256 ^ length (b # bs) = 256 * ?m" by simp
  moreover have "be_value a (b # bs) = a * 256 ^ length (b # bs) + (uint b * ?m + be_value 0 bs)"
    unfolding first by (simp add: algebra_simps)
  ultimately show ?case using Cons [of 0] by (intro conjI) linarith+
qed simp

lemma be_bytes_mod: "be_bytes n (a * 256 ^ n + v) = be_bytes n v"
proof -
  have "be_bytes m (a * 256 ^ n + v) = be_bytes m v" if "m \<le> n" for m
    using that
  proof (induction m)
    case (Suc m)
    have "(256 :: int) ^ n = 256 ^ (n - Suc m) * 256 ^ Suc m" using Suc.prems by (metis le_add_diff_inverse2 power_add)
    then have "a * 256 ^ n + v = v + (a * 256 ^ (n - Suc m) * 256) * 256 ^ m" by (simp add: mult_ac)
    then have "(a * 256 ^ n + v) div 256 ^ m mod 256 = (v div 256 ^ m + a * 256 ^ (n - Suc m) * 256) mod 256"
      by (simp only: div_mult_self1 power_not_zero zero_neq_numeral [symmetric] not_False_eq_True) (simp add: add.commute)
    then show ?case using Suc by simp
  qed simp
  then show ?thesis by simp
qed

lemma be_bytes_value: "be_bytes (length bs) (be_value 0 bs) = bs"
proof (induction bs)
  case (Cons b bs)
  note range = be_value_range [of "uint b" bs]
  have "be_value 0 (b # bs) = uint b * 256 ^ length bs + be_value 0 bs" using range by simp
  then have "be_bytes (length bs) (be_value 0 (b # bs)) = bs" using be_bytes_mod Cons by simp
  moreover have "be_value 0 (b # bs) div 256 ^ length bs mod 256 = uint b"
    using range uint_bounded [of b] by simp
  ultimately show ?case by simp
qed simp

lemma u64_map: "map (\<lambda>k. word_of_int (v div 256 ^ (7 - k) mod 256)) [0..<8] = u64 v"
  by (simp add: u64_def numeral_eq_Suc)

lemma writeUnsigned64_Inr: "writeUnsigned64 v = Inr bs \<longleftrightarrow> safe_unsigned v \<and> bs = u64 v"
  by (auto simp: writeUnsigned64_def u64_map isSafeInteger_def)

lemma readUnsigned64_Inr: "readUnsigned64 bs 0 = Inr v \<longleftrightarrow> 8 \<le> length bs \<and> safe_unsigned v \<and> take 8 bs = u64 v"
proof (cases "8 \<le> length bs")
  case True
  then have len: "length (take 8 bs) = 8" by simp
  have "v < 256 ^ 8" if "safe_unsigned v" using that by (simp add: isSafeInteger_def MAX_SAFE_INTEGER_def)
  then have "be_value 0 (take 8 bs) = v \<longleftrightarrow> take 8 bs = u64 v" if "safe_unsigned v"
    using be_bytes_value [of "take 8 bs"] be_value_bytes [of 0 8 v] len that by (auto simp: u64_def)
  moreover have "0 \<le> be_value 0 (take 8 bs)" using be_value_range by blast
  ultimately show ?thesis using True by (auto simp: readUnsigned64_def isSafeInteger_def Let_def MAX_SAFE_INTEGER_def)
next
  case False
  then show ?thesis by (auto simp: readUnsigned64_def)
qed

subsection \<open>The header of a pack\<close>

lemma parsePackHeader_Inr:
  assumes "byteLength bs \<le> MAX_SAFE_INTEGER"
  shows "parsePackHeader bs = Inr h \<longleftrightarrow> (\<exists>rest. bs = header_bytes (hd_packClass h) (hd_recordCount h) @ rest) \<and>
    0 < hd_recordCount h \<and> hd_recordCount h \<le> MAX_PACK_RECORDS \<and>
    hd_byteLength h = byteLength (header_bytes (hd_packClass h) (hd_recordCount h))"
proof -
  define r where "r = newCanonicalReader bs"
  have new: "newCanonicalReader bs = r" and r: "reader_ok r" and whole: "bs = rest_of r" and start: "reader_offset r = 0"
    using assms new_reader [of bs] by (simp_all add: r_def) (simp add: newCanonicalReader_def)
  have small: "isSafeInteger n" if "0 < n" "n \<le> MAX_PACK_RECORDS" for n
    using that by (simp add: isSafeInteger_def MAX_PACK_RECORDS_def MAX_SAFE_INTEGER_def)
  have code: "0 \<le> PACK_CLASS_CODES c \<and> PACK_CLASS_CODES c < 256" for c by (cases c) simp_all
  have offset: "reader_offset (after b r') = reader_offset r' + byteLength b" for b r' by (simp add: after_def)
  have "parsePackHeader bs = Inr h \<longleftrightarrow> (\<exists>c n. starts r (header_bytes c n) \<and> safe_unsigned n \<and> n \<noteq> 0 \<and> n \<le> MAX_PACK_RECORDS \<and>
      h = \<lparr>hd_packClass = c, hd_recordCount = n, hd_byteLength = byteLength (header_bytes c n)\<rparr>)"
    unfolding parsePackHeader_def new header_bytes_def
    using r code by (auto simp: decoding_chunks starts_append after_append classFromCode_Inr PACK_FORMAT_VERSION_def PACK_FLAGS_NONE_def
        offset start cong: conj_cong simp del: append.simps)
  also have "\<dots> \<longleftrightarrow> starts r (header_bytes (hd_packClass h) (hd_recordCount h)) \<and> 0 < hd_recordCount h \<and>
      hd_recordCount h \<le> MAX_PACK_RECORDS \<and> hd_byteLength h = byteLength (header_bytes (hd_packClass h) (hd_recordCount h))"
    using small by (cases h) auto
  finally show ?thesis by (simp add: starts_def whole)
qed

subsection \<open>The header of a record\<close>

definition record_header_bytes :: "parsed_record_header \<Rightarrow> bytes" where
  "record_header_bytes h = RECORD_MAGIC @ byte1 1 @ byte1 (recordKindCode (rh_kind h)) @ byte1 (recordEncodingCode (rh_encoding h)) @
     varint 0 @ fromHex (rh_logicalId h) @ varint (rh_decodedLength h) @ varint (rh_payloadLength h)"

definition record_header_ok :: "parsed_record_header \<Rightarrow> bool" where
  "record_header_ok h \<longleftrightarrow> is_sha256_hex (rh_logicalId h) \<and> safe_unsigned (rh_decodedLength h) \<and> safe_unsigned (rh_payloadLength h) \<and>
     ((rh_encoding h = Chunked_v1 \<or> rh_encoding h = Delta1) \<longrightarrow> rh_kind h = Kind_content) \<and>
     (rh_encoding h = Raw \<longrightarrow> rh_payloadLength h = rh_decodedLength h) \<and>
     (rh_encoding h = Chunked_v1 \<longrightarrow> rh_payloadLength h = 32) \<and>
     assertRecordHeaderLimits (rh_kind h) (rh_encoding h) (rh_decodedLength h) (rh_payloadLength h) = Inr ()"

lemma parseRecordHeader_Inr:
  assumes "byteLength bs \<le> MAX_SAFE_INTEGER"
  shows "parseRecordHeader bs = Inr h \<longleftrightarrow> (\<exists>rest. bs = record_header_bytes h @ rest) \<and> record_header_ok h \<and>
    rh_headerLength h = byteLength (record_header_bytes h)"
proof -
  define r where "r = newCanonicalReader bs"
  have new: "newCanonicalReader bs = r" and r: "reader_ok r" and whole: "bs = rest_of r" and start: "reader_offset r = 0"
    using assms new_reader [of bs] by (simp_all add: r_def) (simp add: newCanonicalReader_def)
  have offset: "reader_offset (after b r') = reader_offset r' + byteLength b" for b r' by (simp add: after_def)
  have "parseRecordHeader bs = Inr h \<longleftrightarrow> starts r (record_header_bytes h) \<and> record_header_ok h \<and>
      rh_headerLength h = byteLength (record_header_bytes h)"
    unfolding parseRecordHeader_def new record_header_bytes_def
    using r by (cases h) (simp add: decoding_chunks starts_append after_append index_kindFromCode_Inr index_encodingFromCode_Inr
        idFromDigest_Inr RECORD_FORMAT_VERSION_def RECORD_FLAGS_NONE_def SHA256_BYTE_LENGTH_def record_header_ok_def
        offset start cong: conj_cong del: append.simps, auto simp: id_bytes)
  then show ?thesis by (simp add: starts_def whole)
qed

definition header_of_record :: "record_envelope \<Rightarrow> parsed_record_header" where
  "header_of_record rec =
     (let h = \<lparr>rh_logicalId = logicalId rec, rh_kind = rec_kind rec, rh_encoding = rec_encoding rec, rh_decodedLength = decodedLength rec,
        rh_payloadLength = byteLength (payload rec), rh_headerLength = 0\<rparr>
      in h\<lparr>rh_headerLength := byteLength (record_header_bytes h)\<rparr>)"

lemma header_of_record_simps [simp]:
  "rh_logicalId (header_of_record rec) = logicalId rec" "rh_kind (header_of_record rec) = rec_kind rec"
  "rh_encoding (header_of_record rec) = rec_encoding rec" "rh_decodedLength (header_of_record rec) = decodedLength rec"
  "rh_payloadLength (header_of_record rec) = byteLength (payload rec)"
  "rh_headerLength (header_of_record rec) = byteLength (record_header_bytes (header_of_record rec))"
  by (simp_all add: header_of_record_def record_header_bytes_def Let_def)

lemma record_bytes_split: "record_bytes rec = record_header_bytes (header_of_record rec) @ payload rec"
  by (simp add: record_bytes_def record_chunks_def record_header_bytes_def byte1_def)

lemma header_of_record_ok:
  "record_header_ok (header_of_record rec) \<longleftrightarrow> record_shape rec \<and> assertRecordLimits rec = Inr () \<and> isSafeInteger (byteLength (payload rec))"
  by (auto simp: record_header_ok_def record_shape_def assertRecordLimits_def)

lemma record_header_size:
  "record_header_ok h \<Longrightarrow> byteLength (record_header_bytes h) \<le> MAX_RECORD_HEADER_BYTES"
  using varint_length_safe [of "rh_decodedLength h"] varint_length_safe [of "rh_payloadLength h"]
  by (simp add: record_header_ok_def record_header_bytes_def MAX_RECORD_HEADER_BYTES_def RECORD_MAGIC_def
      MAX_SAFE_VARINT_BYTES_def SHA256_BYTE_LENGTH_def varint_length_small length_fromHex is_sha256_hex_def)

text \<open>A frame, its length prefix and its header, read from any prefix that is long enough.\<close>

lemma frame_prefix:
  assumes "byteLength bs \<le> MAX_SAFE_INTEGER"
  shows "decodeUnsignedVarint bs 0 = Inr (n, k) \<longleftrightarrow> safe_unsigned n \<and> k = int (varint_length n) \<and> (\<exists>rest. bs = varint n @ rest)"
  using decodeUnsignedVarint_iff [of "newCanonicalReader bs" n k] assms
  by (auto simp: newCanonicalReader_def starts_def reader_ok_def rest_of_def)

subsection \<open>Entries in physical order\<close>

definition in_physical_order :: "pack_index_entry list \<Rightarrow> pack_index_entry list \<Rightarrow> bool" where
  "in_physical_order es ps \<longleftrightarrow> set ps = set es \<and> length ps = length es \<and>
     map pe_physicalOrdinal ps = map int [0..<length es]"

lemma physical_nth:
  assumes "in_physical_order es ps" and "i < length es"
  shows "ps ! i \<in> set es" and "pe_physicalOrdinal (ps ! i) = int i"
proof -
  have len: "length ps = length es" and ords: "map pe_physicalOrdinal ps = map int [0..<length es]" and "set ps = set es"
    using assms(1) by (auto simp: in_physical_order_def)
  then show "ps ! i \<in> set es" using assms(2) nth_mem by metis
  have "map pe_physicalOrdinal ps ! i = map int [0..<length es] ! i" using ords by simp
  then show "pe_physicalOrdinal (ps ! i) = int i" using assms(2) len by simp
qed

lemma physical_member:
  assumes "in_physical_order es ps" and "e \<in> set es"
  shows "0 \<le> pe_physicalOrdinal e \<and> pe_physicalOrdinal e < int (length es) \<and> ps ! nat (pe_physicalOrdinal e) = e"
proof -
  have "e \<in> set ps" "length ps = length es" using assms by (auto simp: in_physical_order_def)
  then obtain i where "i < length es" "ps ! i = e" by (metis in_set_conv_nth)
  then show ?thesis using physical_nth [OF assms(1), of i] by auto
qed

lemma physical_distinct: "in_physical_order es ps \<Longrightarrow> distinct ps"
proof -
  assume "in_physical_order es ps"
  then have "distinct (map pe_physicalOrdinal ps)" by (simp add: in_physical_order_def distinct_map)
  then show ?thesis by (simp add: distinct_map)
qed

lemma physical_ordinals_inj: "in_physical_order es ps \<Longrightarrow> inj_on pe_physicalOrdinal (set es)"
  by (metis inj_onI physical_member)

lemma physical_ordinals_distinct: "in_physical_order es ps \<Longrightarrow> distinct (map pe_physicalOrdinal es)"
proof -
  assume p: "in_physical_order es ps"
  then have "card (set es) = length es" using physical_distinct [OF p] distinct_card by (fastforce simp: in_physical_order_def)
  then show ?thesis using physical_ordinals_inj [OF p] by (simp add: distinct_map card_distinct)
qed

lemma fill_physical_Inr:
  assumes "\<forall>e \<in> set es. 0 \<le> pe_physicalOrdinal e" and "int (length physical) = hd_recordCount h"
  shows "fill_physical h es physical = Inr filled \<longleftrightarrow>
    (\<forall>e \<in> set es. pe_physicalOrdinal e < hd_recordCount h \<and> packClassForRecordKind (pe_kind e) = hd_packClass h \<and>
       physical ! nat (pe_physicalOrdinal e) = None) \<and> distinct (map pe_physicalOrdinal es) \<and>
    filled = fold (\<lambda>e p. p[nat (pe_physicalOrdinal e) := Some e]) es physical"
  using assms
proof (induction es arbitrary: physical)
  case (Cons e es)
  let ?o = "nat (pe_physicalOrdinal e)"
  have rest: "fill_physical h es (physical[?o := Some e]) = Inr filled \<longleftrightarrow>
      (\<forall>x \<in> set es. pe_physicalOrdinal x < hd_recordCount h \<and> packClassForRecordKind (pe_kind x) = hd_packClass h \<and>
         physical[?o := Some e] ! nat (pe_physicalOrdinal x) = None) \<and> distinct (map pe_physicalOrdinal es) \<and>
      filled = fold (\<lambda>e p. p[nat (pe_physicalOrdinal e) := Some e]) es (physical[?o := Some e])"
    by (rule Cons.IH) (use Cons.prems in auto)
  have upd: "physical[?o := Some e] ! nat (pe_physicalOrdinal x) = None \<longleftrightarrow>
      pe_physicalOrdinal x \<noteq> pe_physicalOrdinal e \<and> physical ! nat (pe_physicalOrdinal x) = None"
    if "x \<in> set es" "pe_physicalOrdinal e < hd_recordCount h" for x
    using that Cons.prems by (cases "pe_physicalOrdinal x = pe_physicalOrdinal e") (auto simp: nth_list_update)
  show ?case
  proof (cases "pe_physicalOrdinal e < hd_recordCount h \<and> packClassForRecordKind (pe_kind e) = hd_packClass h \<and> physical ! ?o = None")
    case True
    then have "fill_physical h (e # es) physical = Inr filled \<longleftrightarrow> fill_physical h es (physical[?o := Some e]) = Inr filled"
      by (simp add: Let_def)
    then show ?thesis unfolding rest using True upd by (auto simp: image_iff)
  next
    case False
    then show ?thesis by (auto simp: Let_def)
  qed
qed auto

lemma fold_fill_length [simp]: "length (fold (\<lambda>e p. p[nat (pe_physicalOrdinal e) := Some e]) es physical) = length physical"
  by (induction es arbitrary: physical) auto

lemma fold_fill_other:
  "\<forall>e \<in> set es. nat (pe_physicalOrdinal e) \<noteq> i \<Longrightarrow> fold (\<lambda>e p. p[nat (pe_physicalOrdinal e) := Some e]) es physical ! i = physical ! i"
  by (induction es arbitrary: physical) auto

lemma fold_fill_nth:
  assumes "distinct (map pe_physicalOrdinal es)" and "\<forall>e \<in> set es. 0 \<le> pe_physicalOrdinal e \<and> pe_physicalOrdinal e < int (length physical)"
    and "e \<in> set es"
  shows "fold (\<lambda>e p. p[nat (pe_physicalOrdinal e) := Some e]) es physical ! nat (pe_physicalOrdinal e) = Some e"
  using assms
proof (induction es arbitrary: physical)
  case (Cons x es)
  show ?case
  proof (cases "e = x")
    case True
    have "nat (pe_physicalOrdinal y) \<noteq> nat (pe_physicalOrdinal x)" if "y \<in> set es" for y
    proof -
      have "pe_physicalOrdinal y \<noteq> pe_physicalOrdinal x" "0 \<le> pe_physicalOrdinal y" "0 \<le> pe_physicalOrdinal x"
        using Cons.prems(1,2) that by (auto simp: image_iff)
      then show ?thesis by simp
    qed
    then show ?thesis using True Cons.prems(2) by (simp add: fold_fill_other nat_less_iff)
  qed (use Cons in simp)
qed simp

lemma complete_physical_Inr: "complete_physical physical = Inr ps \<longleftrightarrow> physical = map Some ps"
  by (induction physical arbitrary: ps rule: complete_physical.induct) (auto simp: rbind_eq_Inr Cons_eq_map_conv)

lemma filled_physical:
  assumes "\<forall>e \<in> set es. 0 \<le> pe_physicalOrdinal e" and "int (length es) = hd_recordCount h"
  shows "fill_physical h es (replicate (length es) None) = Inr physical \<and> complete_physical physical = Inr ps \<longleftrightarrow>
    (\<forall>e \<in> set es. packClassForRecordKind (pe_kind e) = hd_packClass h) \<and> in_physical_order es ps \<and> physical = map Some ps"
    (is "?left \<longleftrightarrow> ?right")
proof
  let ?fill = "fold (\<lambda>e p. p[nat (pe_physicalOrdinal e) := Some e]) es (replicate (length es) None)"
  have count: "int (length (replicate (length es) None)) = hd_recordCount h" using assms(2) by simp
  note fill = fill_physical_Inr [OF assms(1) count, of physical]
  {
    assume left: ?left
    then have f: "fill_physical h es (replicate (length es) None) = Inr physical" and ps: "physical = map Some ps"
      by (simp_all add: complete_physical_Inr)
    note all = iffD1 [OF fill f]
    note each = bspec [OF all [THEN conjunct1]]
    have range: "\<forall>e \<in> set es. pe_physicalOrdinal e < int (length es)"
      unfolding assms(2) by (intro ballI) (rule each [THEN conjunct1])
    have classes: "\<forall>e \<in> set es. packClassForRecordKind (pe_kind e) = hd_packClass h"
      by (intro ballI) (rule each [THEN conjunct2, THEN conjunct1])
    note dist = all [THEN conjunct2, THEN conjunct1] and filled = all [THEN conjunct2, THEN conjunct2]
    note facts = range dist filled classes
    have len: "length ps = length es" using arg_cong [OF facts(3), of length] unfolding ps by simp
    have at: "ps ! nat (pe_physicalOrdinal e) = e" if "e \<in> set es" for e
    proof -
      have "?fill ! nat (pe_physicalOrdinal e) = Some e" by (rule fold_fill_nth) (use facts assms(1) that in auto)
      moreover have "nat (pe_physicalOrdinal e) < length ps" using facts(1) assms(1) that len by (simp add: nat_less_iff)
      ultimately show ?thesis using arg_cong [OF facts(3), of "\<lambda>p. p ! nat (pe_physicalOrdinal e)"] unfolding ps by simp
    qed
    have "set es \<subseteq> set ps" using at facts(1) assms(1) len by (metis nat_less_iff nth_mem subsetI)
    moreover have card: "card (set es) = length es" using facts(2) by (simp add: distinct_map distinct_card)
    moreover have "card (set ps) \<le> length es" using card_length [of ps] len by simp
    ultimately have sets: "set ps = set es" by (metis List.finite_set card_seteq)
    have "pe_physicalOrdinal (ps ! i) = int i" if i: "i < length es" for i
    proof -
      have d: "distinct ps" using sets card len by (simp add: card_distinct)
      have mem: "ps ! i \<in> set es" using i len sets nth_mem by metis
      then have "ps ! nat (pe_physicalOrdinal (ps ! i)) = ps ! i" "nat (pe_physicalOrdinal (ps ! i)) < length ps"
        using at facts(1) assms(1) len by (simp_all add: nat_less_iff)
      then have "nat (pe_physicalOrdinal (ps ! i)) = i" using d i len by (simp add: nth_eq_iff_index_eq)
      then show ?thesis using assms(1) mem by fastforce
    qed
    then have "map pe_physicalOrdinal ps = map int [0..<length es]" using len by (intro nth_equalityI) auto
    then show ?right using facts(4) sets len ps by (simp add: in_physical_order_def)
  next
    assume right: ?right
    then have p: "in_physical_order es ps" and physical: "physical = map Some ps" by simp_all
    have range: "\<forall>e \<in> set es. 0 \<le> pe_physicalOrdinal e \<and> pe_physicalOrdinal e < int (length es)" using physical_member [OF p] by blast
    have "?fill = map Some ps"
    proof (rule nth_equalityI)
      show "length ?fill = length (map Some ps)" using p by (simp add: in_physical_order_def)
      fix i
      assume "i < length ?fill"
      then have i: "i < length es" by simp
      have "?fill ! nat (pe_physicalOrdinal (ps ! i)) = Some (ps ! i)"
        by (rule fold_fill_nth) (use physical_ordinals_distinct [OF p] range physical_nth [OF p i] in auto)
      then show "?fill ! i = map Some ps ! i" using physical_nth [OF p i] i p by (simp add: in_physical_order_def)
    qed
    then show ?left using fill right range assms(2) physical_ordinals_distinct [OF p] by (auto simp: complete_physical_Inr)
  }
qed

text \<open>The body of a pack is tiled by its records.\<close>

fun tiles :: "int \<Rightarrow> pack_index_entry list \<Rightarrow> int \<Rightarrow> bool" where
  "tiles start [] bodyEnd \<longleftrightarrow> start = bodyEnd"
| "tiles start (e # es) bodyEnd \<longleftrightarrow> pe_offset e = start \<and> 0 < pe_length e \<and> tiles (start + pe_length e) es bodyEnd"

lemma tiles_le: "tiles start es bodyEnd \<Longrightarrow> start \<le> bodyEnd"
  by (induction es arbitrary: start) fastforce+

lemma check_boundaries_Inr:
  "\<forall>e \<in> set es. 0 \<le> pe_length e \<Longrightarrow> check_boundaries bodyEnd (map Some es) start = Inr bodyEnd \<longleftrightarrow> tiles start es bodyEnd"
proof (induction es arbitrary: start)
  case (Cons e es)
  then show ?case using tiles_le [of "start + pe_length e" es bodyEnd] by (auto simp: not_less)
qed auto

lemma tiles_nth:
  "tiles start es bodyEnd \<Longrightarrow> i < length es \<Longrightarrow>
     pe_offset (es ! i) = start + sum_list (map pe_length (take i es)) \<and> start \<le> pe_offset (es ! i) \<and>
     pe_offset (es ! i) + pe_length (es ! i) \<le> bodyEnd"
proof (induction es arbitrary: start i)
  case (Cons e es)
  show ?case
  proof (cases i)
    case 0
    then show ?thesis using Cons.prems tiles_le [of "start + pe_length e" es bodyEnd] by auto
  next
    case (Suc j)
    then show ?thesis using Cons.IH [of "start + pe_length e" j] Cons.prems by auto
  qed
qed simp

lemma entry_for_ordinal:
  assumes "in_physical_order (px_entries index) ps" and "int (length ps) \<le> MAX_SAFE_INTEGER"
  shows "entryForPhysicalOrdinal index ordinal = element_at ps ordinal"
proof (cases "0 \<le> ordinal \<and> nat ordinal < length ps")
  case True
  let ?es = "px_entries index" and ?p = "ps ! nat ordinal"
  have len: "length ps = length ?es" using assms(1) by (simp add: in_physical_order_def)
  have p: "?p \<in> set (rev ?es)" "pe_physicalOrdinal ?p = ordinal" using physical_nth [OF assms(1), of "nat ordinal"] True len by auto
  have "find (\<lambda>e. pe_physicalOrdinal e = ordinal) (rev ?es) = Some ?p"
  proof -
    obtain q where q: "find (\<lambda>e. pe_physicalOrdinal e = ordinal) (rev ?es) = Some q"
    proof (cases "find (\<lambda>e. pe_physicalOrdinal e = ordinal) (rev ?es)")
      case None
      then show thesis using p unfolding find_None_iff by blast
    qed
    then obtain i where "i < length (rev ?es)" "q = rev ?es ! i" "pe_physicalOrdinal q = ordinal"
      by (auto simp: find_Some_iff)
    then have "q \<in> set ?es" "pe_physicalOrdinal q = ordinal" using nth_mem [of i "rev ?es"] by simp_all
    then have "q = ?p" using p inj_onD [OF physical_ordinals_inj [OF assms(1)], of q ?p] by simp
    then show ?thesis using q by simp
  qed
  moreover have "ordinal < int (length ps)" using True by linarith
  ultimately show ?thesis using True assms(2) by (simp add: entryForPhysicalOrdinal_def element_at_def isSafeInteger_def)
next
  case False
  have "find (\<lambda>e. pe_physicalOrdinal e = ordinal) (rev (px_entries index)) = None" if "0 \<le> ordinal"
  proof -
    have "length ps = length (px_entries index)" using assms(1) by (simp add: in_physical_order_def)
    then have "pe_physicalOrdinal e \<noteq> ordinal" if "e \<in> set (px_entries index)" for e
      using False \<open>0 \<le> ordinal\<close> physical_member [OF assms(1) that] by linarith
    then show ?thesis unfolding find_None_iff by auto
  qed
  then show ?thesis using False by (auto simp: entryForPhysicalOrdinal_def element_at_def)
qed

subsection \<open>Which files are accepted\<close>

text \<open>The layout of a pack file, and what its index has to say about the body.\<close>

definition pack_file :: "pack_class \<Rightarrow> pack_index_entry list \<Rightarrow> bytes \<Rightarrow> bytes \<Rightarrow> bytes" where
  "pack_file c es body checksum =
     header_bytes c (int (length es)) @ body @ footer_bytes es @ u64 (byteLength (footer_bytes es)) @ checksum @ TRAILER_MAGIC"

definition pack_index_ok :: "pack_class \<Rightarrow> pack_index_entry list \<Rightarrow> pack_index_entry list \<Rightarrow> int \<Rightarrow> bool" where
  "pack_index_ok c es ps footerOffset \<longleftrightarrow> footer_ok es \<and> (\<forall>e \<in> set es. packClassForRecordKind (pe_kind e) = c) \<and>
     in_physical_order es ps \<and> tiles (byteLength (header_bytes c (int (length es)))) ps footerOffset"

definition pack_size_ok :: "pack_class \<Rightarrow> int \<Rightarrow> int \<Rightarrow> bool" where
  "pack_size_ok c n len \<longleftrightarrow> len \<le> packHardMax c \<and> (c = Metadata_pack \<and> n > 1 \<longrightarrow> len \<le> METADATA_PACK_MULTI_RECORD_MAX_BYTES)"

definition parsed_of :: "pack_class \<Rightarrow> pack_index_entry list \<Rightarrow> pack_index_entry list \<Rightarrow> bytes \<Rightarrow> bytes \<Rightarrow> parsed_pack_index" where
  "parsed_of c es ps body checksum =
     (let header = header_bytes c (int (length es)) in
      \<lparr>pp_index = \<lparr>px_packId = toHex checksum, px_packClass = c, px_byteLength = byteLength (pack_file c es body checksum),
         px_entries = es, px_fanout = fanout_of (map pe_logicalId es)\<rparr>,
       pp_expectedChecksum = checksum, pp_footerOffset = byteLength header + byteLength body,
       pp_header = \<lparr>hd_packClass = c, hd_recordCount = int (length es), hd_byteLength = byteLength header\<rparr>,
       pp_physicalEntries = ps\<rparr>)"

lemma TRAILER_MAGIC_length [simp]: "length TRAILER_MAGIC = 8"
  by (simp add: TRAILER_MAGIC_def)

lemma length_pack_file:
  "length checksum = 32 \<Longrightarrow> byteLength (pack_file c es body checksum) =
     byteLength (header_bytes c (int (length es))) + byteLength body + byteLength (footer_bytes es) + FIXED_TRAILER_BYTES"
  by (simp add: pack_file_def trailer_size)

lemma footer_format_limit: "footer_ok es \<Longrightarrow> 0 < byteLength (footer_bytes es) \<and> byteLength (footer_bytes es) \<le> MAX_PACK_FOOTER_BYTES"
proof -
  assume "footer_ok es"
  then have "length (footer_bytes es) \<le> 2073 + 66 * length es" "int (length es) \<le> MAX_PACK_RECORDS"
    using footer_size [of es] by (auto simp: footer_ok_def)
  moreover have "0 < length (footer_bytes es)" by (simp add: footer_bytes_def)
  ultimately show ?thesis
    by (simp add: MAX_PACK_FOOTER_BYTES_def FOOTER_MAGIC_def MAX_SAFE_VARINT_BYTES_def FANOUT_ENTRIES_def MAX_PACK_RECORDS_def SHA256_BYTE_LENGTH_def)
qed

lemma pack_limits: "packHardMax c \<le> max DATA_PACK_HARD_MAX_BYTES METADATA_PACK_HARD_MAX_BYTES"
  by (simp add: packHardMax_def)

lemma absolute_limit: "max DATA_PACK_HARD_MAX_BYTES METADATA_PACK_HARD_MAX_BYTES \<le> MAX_SAFE_INTEGER"
  using packHardMax_range(2) [of Data_pack] packHardMax_range(2) [of Metadata_pack] by (simp add: packHardMax_def)

lemma header_fits: "0 < n \<Longrightarrow> n \<le> MAX_PACK_RECORDS \<Longrightarrow> byteLength (header_bytes c n) \<le> MAX_PACK_HEADER_BYTES"
  using header_size [of n c] varint_length_safe [of n]
  by (simp add: isSafeInteger_def MAX_PACK_RECORDS_def MAX_SAFE_INTEGER_def MAX_PACK_HEADER_BYTES_def PACK_MAGIC_def MAX_SAFE_VARINT_BYTES_def)

lemma trailer_parts:
  assumes "length trailer = 48" and "take 8 trailer = u64 n" and "drop 40 trailer = TRAILER_MAGIC"
  shows "trailer = u64 n @ take 32 (drop 8 trailer) @ TRAILER_MAGIC"
proof -
  have "trailer = take 8 trailer @ take 32 (drop 8 trailer) @ drop 32 (drop 8 trailer)" by (simp only: append_take_drop_id)
  then show ?thesis using assms by simp
qed

text \<open>What is accepted is the encoding of an index over a tiled body.\<close>

lemma readPackIndexInternal_sound:
  assumes "readPackIndexInternal (bytes_source bs) expected = Inr parsed"
  shows "\<exists>c es ps body checksum. bs = pack_file c es body checksum \<and> length checksum = 32 \<and>
    pack_index_ok c es ps (pp_footerOffset parsed) \<and> pack_size_ok c (int (length es)) (byteLength bs) \<and>
    (expected = None \<or> expected = Some (toHex checksum)) \<and> parsed = parsed_of c es ps body checksum"
proof -
  let ?L = "byteLength bs"
  have L: "?L \<le> MAX_SAFE_INTEGER" "48 < ?L"
    using assms absolute_limit by (auto simp: readPackIndexInternal_def Let_def bytes_source_def trailer_size split: if_splits)
  note read = source_read_bytes [OF L(1)]
  have len: "src_byteLength (bytes_source bs) = ?L" by (simp add: bytes_source_def)
  define trailer where "trailer = slice bs (?L - 48) 48"
  have trailer: "trailer = drop (length bs - 48) bs" "length trailer = 48" using L(2) by (auto simp: trailer_def slice_def nat_diff_distrib)
  obtain fl es fanout h physical ps where fl: "readUnsigned64 trailer 0 = Inr fl" "fl \<noteq> 0" "?L - 48 - fl > 0"
      and magic: "drop 40 trailer = TRAILER_MAGIC" and expected: "expected = None \<or> expected = Some (toHex (take 32 (drop 8 trailer)))"
      and footer: "readFooter (slice bs (?L - 48 - fl) fl) = Inr (es, fanout)"
      and header: "parsePackHeader (slice bs 0 (min MAX_PACK_HEADER_BYTES (?L - 48 - fl))) = Inr h"
      and limits: "?L \<le> packHardMax (hd_packClass h)" "int (length es) = hd_recordCount h"
        "hd_packClass h = Metadata_pack \<and> hd_recordCount h > 1 \<longrightarrow> ?L \<le> METADATA_PACK_MULTI_RECORD_MAX_BYTES"
      and filled: "fill_physical h es (replicate (nat (hd_recordCount h)) None) = Inr physical"
      and boundaries: "check_boundaries (?L - 48 - fl) physical (hd_byteLength h) = Inr (?L - 48 - fl)"
      and complete: "complete_physical physical = Inr ps"
      and parsed: "parsed = \<lparr>pp_index = \<lparr>px_packId = toHex (take 32 (drop 8 trailer)), px_packClass = hd_packClass h,
          px_byteLength = ?L, px_entries = es, px_fanout = fanout\<rparr>, pp_expectedChecksum = take 32 (drop 8 trailer),
          pp_footerOffset = ?L - 48 - fl, pp_header = h, pp_physicalEntries = ps\<rparr>"
    using assms L
    by (auto simp: readPackIndexInternal_def Let_def len read rbind_eq_Inr guard_eq_Inr trailer_size trailer_def [symmetric]
        CHECKSUM_BYTES_def FOOTER_LENGTH_BYTES_def SHA256_BYTE_LENGTH_def not_less split: if_splits)
  let ?f = "?L - 48 - fl" and ?checksum = "take 32 (drop 8 trailer)"
  have u64: "safe_unsigned fl" "take 8 trailer = u64 fl" using fl(1) by (auto simp: readUnsigned64_Inr)
  then have fl0: "0 \<le> fl" by simp
  have fbytes: "byteLength (slice bs ?f fl) = fl" using fl fl0 by (auto simp: slice_def)
  have es: "footer_ok es" "slice bs ?f fl = footer_bytes es" "fanout = fanout_of (map pe_logicalId es)"
    using footer readFooter_Inr [of "slice bs ?f fl" es fanout] fbytes u64(1) by (auto simp: isSafeInteger_def)
  have prefix_len: "byteLength (slice bs 0 (min MAX_PACK_HEADER_BYTES ?f)) \<le> MAX_SAFE_INTEGER" using L by (simp add: slice_def)
  obtain rest where h: "slice bs 0 (min MAX_PACK_HEADER_BYTES ?f) = header_bytes (hd_packClass h) (hd_recordCount h) @ rest"
      "hd_byteLength h = byteLength (header_bytes (hd_packClass h) (hd_recordCount h))"
    using header parsePackHeader_Inr [OF prefix_len, of h] by auto
  let ?hb = "header_bytes (hd_packClass h) (hd_recordCount h)"
  have entries: "\<forall>e \<in> set es. 0 \<le> pe_physicalOrdinal e \<and> 0 \<le> pe_length e"
    using es(1) by (auto simp: footer_ok_def list_all_iff index_entry_ok_def)
  have "nat (hd_recordCount h) = length es" using limits(2) by simp
  then have phys: "\<forall>e \<in> set es. packClassForRecordKind (pe_kind e) = hd_packClass h" "in_physical_order es ps" "physical = map Some ps"
    using filled_physical [of es h physical ps] entries limits(2) filled complete by auto
  have "\<forall>e \<in> set ps. 0 \<le> pe_length e" using entries phys(2) by (simp add: in_physical_order_def)
  then have tiles: "tiles (byteLength ?hb) ps ?f" using boundaries check_boundaries_Inr [of ps ?f] by (simp add: phys(3) h(2))
  have hb_le: "length ?hb \<le> nat ?f" using tiles_le [OF tiles] by simp
  have "take (length ?hb) (slice bs 0 (min MAX_PACK_HEADER_BYTES ?f)) = ?hb" by (simp add: h(1))
  moreover have "length ?hb \<le> nat (min MAX_PACK_HEADER_BYTES ?f)"
    using h(1) by (metis append_take_drop_id le_add1 length_append length_take min.boundedE slice_def nat_0 drop0 append_eq_conv_conj)
  ultimately have front: "take (length ?hb) bs = ?hb" by (simp add: slice_def min_def split: if_splits)
  define body where "body = drop (length ?hb) (take (nat ?f) bs)"
  have "take (length ?hb) (take (nat ?f) bs) = ?hb" using front hb_le by (simp add: min_def)
  then have before: "take (nat ?f) bs = ?hb @ body" unfolding body_def by (metis append_take_drop_id)
  have mid: "drop (nat ?f) bs = footer_bytes es @ trailer"
  proof -
    have "nat fl + nat ?f = length bs - 48" using fl fl0 by simp
    then have "drop (nat fl) (drop (nat ?f) bs) = trailer" using trailer by (simp add: drop_drop)
    moreover have "take (nat fl) (drop (nat ?f) bs) = footer_bytes es" using es(2) by (simp add: slice_def)
    ultimately show ?thesis by (metis append_take_drop_id)
  qed
  have tr: "trailer = u64 (byteLength (footer_bytes es)) @ ?checksum @ TRAILER_MAGIC"
    using trailer_parts [OF trailer(2) u64(2) magic] fbytes es(2) by simp
  have bs: "bs = pack_file (hd_packClass h) es body ?checksum"
    unfolding pack_file_def limits(2) using before mid tr by (metis append.assoc append_take_drop_id)
  have ck: "length ?checksum = 32" using trailer by simp
  have f: "?f = byteLength ?hb + byteLength body"
  proof -
    have "length (take (nat ?f) bs) = nat ?f" using fl0 by simp
    then have "nat ?f = length ?hb + length body" using before by simp
    then show ?thesis using fl by linarith
  qed
  have "parsed = parsed_of (hd_packClass h) es ps body ?checksum"
    using parsed bs es(3) h(2) f limits(2) by (cases h) (simp add: parsed_of_def Let_def)
  moreover have "pack_index_ok (hd_packClass h) es ps (pp_footerOffset parsed)"
    using es(1) phys tiles limits(2) by (simp add: pack_index_ok_def parsed)
  moreover have "pack_size_ok (hd_packClass h) (int (length es)) ?L" using limits by (simp add: pack_size_ok_def)
  ultimately show ?thesis using bs ck expected by blast
qed


text \<open>And such an encoding is accepted.\<close>

lemma readPackIndexInternal_complete:
  assumes bs: "bs = pack_file c es body checksum" and ck: "length checksum = 32"
    and ok: "pack_index_ok c es ps (byteLength (header_bytes c (int (length es))) + byteLength body)"
    and size: "pack_size_ok c (int (length es)) (byteLength bs)" and expected: "expected = None \<or> expected = Some (toHex checksum)"
  shows "readPackIndexInternal (bytes_source bs) expected = Inr (parsed_of c es ps body checksum)"
proof -
  let ?L = "byteLength bs" and ?hb = "header_bytes c (int (length es))" and ?fb = "footer_bytes es"
  let ?f = "byteLength ?hb + byteLength body"
  have footer_ok: "footer_ok es" and classes: "\<forall>e \<in> set es. packClassForRecordKind (pe_kind e) = c"
    and order: "in_physical_order es ps" and tiles: "tiles (byteLength ?hb) ps ?f" using ok by (auto simp: pack_index_ok_def)
  have n: "0 < int (length es)" "int (length es) \<le> MAX_PACK_RECORDS" using footer_ok by (auto simp: footer_ok_def)
  have L: "?L = ?f + byteLength ?fb + 48" using length_pack_file [OF ck, of c es body] bs by (simp add: trailer_size)
  have max: "?L \<le> packHardMax c" "?L \<le> max DATA_PACK_HARD_MAX_BYTES METADATA_PACK_HARD_MAX_BYTES" "?L \<le> MAX_SAFE_INTEGER"
    using size pack_limits [of c] packHardMax_range(2) [of c] by (simp_all only: pack_size_ok_def) linarith+
  note fb = footer_format_limit [OF footer_ok]
  note read = source_read_bytes [OF max(3)]
  have len: "src_byteLength (bytes_source bs) = ?L" by (simp add: bytes_source_def)
  let ?trailer = "u64 (byteLength ?fb) @ checksum @ TRAILER_MAGIC"
  have whole: "bs = (?hb @ body) @ ?fb @ ?trailer" unfolding bs pack_file_def by simp
  have trailer: "slice bs (?L - 48) 48 = ?trailer"
  proof -
    have "nat (?L - 48) = length (?hb @ body) + length ?fb" using L by simp
    moreover have "length ?trailer = 48" using ck by simp
    ultimately show ?thesis unfolding slice_def by (subst whole) simp
  qed
  have footer: "slice bs (?L - 48 - byteLength ?fb) (byteLength ?fb) = ?fb"
  proof -
    have "nat (?L - 48 - byteLength ?fb) = length (?hb @ body)" using L by simp
    then show ?thesis unfolding slice_def by (subst whole) simp
  qed
  have front: "slice bs 0 (min MAX_PACK_HEADER_BYTES (?L - 48 - byteLength ?fb)) = ?hb @ take (nat (min MAX_PACK_HEADER_BYTES ?f - byteLength ?hb)) body"
  proof -
    have "length ?hb \<le> nat (min MAX_PACK_HEADER_BYTES ?f)" using header_fits [OF n, of c] by simp
    moreover have "?L - 48 - byteLength ?fb = ?f" using L by simp
    moreover have "nat (min MAX_PACK_HEADER_BYTES ?f) - length ?hb = nat (min MAX_PACK_HEADER_BYTES ?f - byteLength ?hb)" by simp
    ultimately show ?thesis unfolding slice_def by (subst whole) simp
  qed
  have small: "byteLength ?fb \<le> MAX_SAFE_INTEGER" "byteLength (?hb @ take k body) \<le> MAX_SAFE_INTEGER" for k
    using max(3) L by simp_all
  have r1: "readUnsigned64 ?trailer 0 = Inr (byteLength ?fb)"
    using small(1) fb by (simp add: readUnsigned64_Inr isSafeInteger_def)
  have r2: "readFooter ?fb = Inr (es, fanout_of (map pe_logicalId es))" using readFooter_Inr [OF small(1)] footer_ok by simp
  let ?h = "\<lparr>hd_packClass = c, hd_recordCount = int (length es), hd_byteLength = byteLength ?hb\<rparr>"
  have r3: "parsePackHeader (?hb @ take k body) = Inr ?h" for k
    using parsePackHeader_Inr [OF small(2), of k ?h] n by auto
  have entries: "\<forall>e \<in> set es. 0 \<le> pe_physicalOrdinal e \<and> 0 \<le> pe_length e"
    using footer_ok by (auto simp: footer_ok_def list_all_iff index_entry_ok_def)
  then have r4: "fill_physical ?h es (replicate (length es) None) = Inr (map Some ps)" "complete_physical (map Some ps) = Inr ps"
    using filled_physical [of es ?h "map Some ps" ps] classes order by auto
  have "\<forall>e \<in> set ps. 0 \<le> pe_length e" using entries order by (simp add: in_physical_order_def)
  then have r5: "check_boundaries ?f (map Some ps) (byteLength ?hb) = Inr ?f" using tiles check_boundaries_Inr by blast
  have positive: "0 < byteLength ?hb" using header_size [of "int (length es)" c] by (simp add: header_bytes_def PACK_MAGIC_def)
  have offsets: "?L - 48 - byteLength ?fb = ?f" "48 < ?L" "0 \<le> ?L - 48" using L fb by linarith+
  have bounds: "isSafeInteger ?L" using max(3) by (simp add: isSafeInteger_def)
  have parts: "take 32 (drop 8 ?trailer) = checksum" "drop 40 ?trailer = TRAILER_MAGIC" using ck by simp_all
  have multi: "\<not> (c = Metadata_pack \<and> 1 < int (length es) \<and> METADATA_PACK_MULTI_RECORD_MAX_BYTES < ?L)"
    using size by (auto simp: pack_size_ok_def)
  have e: "\<not> (expected \<noteq> None \<and> expected \<noteq> Some (toHex checksum))" using expected by auto
  have below: "\<not> (DATA_PACK_HARD_MAX_BYTES < ?L \<and> METADATA_PACK_HARD_MAX_BYTES < ?L)" using max(2) by auto
  have start: "\<not> ?f \<le> 0" using positive by linarith
  have reads: "source_readExactly (bytes_source bs) (?L - 48) 48 = Inr ?trailer"
      "source_readExactly (bytes_source bs) ?f (byteLength ?fb) = Inr ?fb"
      "source_readExactly (bytes_source bs) 0 (min MAX_PACK_HEADER_BYTES ?f) =
         Inr (?hb @ take (nat (min MAX_PACK_HEADER_BYTES ?f - byteLength ?hb)) body)"
    using trailer footer front offsets L positive by (auto simp: read MAX_PACK_HEADER_BYTES_def MAX_SAFE_VARINT_BYTES_def)
  show ?thesis
    unfolding readPackIndexInternal_def Let_def len trailer_size
    using bounds offsets max reads fb parts e multi start below
    by (auto simp add: r1 r2 r3 r4 r5 CHECKSUM_BYTES_def FOOTER_LENGTH_BYTES_def SHA256_BYTE_LENGTH_def parsed_of_def Let_def
        bs [symmetric] del: append.simps take_append drop_append)
qed

end
