(* ===== verification/Pack_Roundtrip.thy ===== *)
theory Pack_Roundtrip
  imports Pack_Reader
begin

text \<open>
  Packs round trip (\<^verbatim>\<open>content-store/pack.ts\<close>): what the encoder writes is what the routing reader and the
  authenticating reader accept, record by record; what a reader returns is authentic.
\<close>

subsection \<open>What the encoder writes\<close>

lemma rethrow_pack_Inr [simp]: "rethrow_pack code m = Inr x \<longleftrightarrow> m = Inr x"
  by (cases "(code, m)" rule: rethrow_pack.cases) auto

lemma rethrow_index_Inr [simp]: "rethrow_index m = Inr x \<longleftrightarrow> m = Inr x"
  by (cases m rule: rethrow_index.cases) auto

lemma frame_nonempty [simp]: "frame_of rec \<noteq> []"
  using varint_length_pos [of "byteLength (record_bytes rec)"] by (auto simp: frame_of_def simp flip: length_varint)

lemma placed_append_tiles:
  "list_all record_shape recs \<Longrightarrow> tiles offset (placed recs ordinal offset) (offset + frames_length recs)"
proof (induction recs arbitrary: ordinal offset)
  case (Cons rec recs)
  have "tiles (offset + byteLength (frame_of rec)) (placed recs (ordinal + 1) (offset + byteLength (frame_of rec)))
      (offset + byteLength (frame_of rec) + frames_length recs)" by (rule Cons.IH) (use Cons.prems in simp)
  then show ?case by (simp add: entry_of_def frame_nonempty add.assoc)
qed simp

lemma placed_ordinals: "map pe_physicalOrdinal (placed recs ordinal offset) = map (\<lambda>i. ordinal + int i) [0..<length recs]"
  by (rule nth_equalityI) (simp_all add: placed_nth entry_of_def)

lemma placed_representations:
  "map (\<lambda>e. (pe_logicalId e, pe_kind e, pe_encoding e)) (placed recs ordinal offset) = map representation recs"
  by (rule nth_equalityI) (simp_all add: placed_nth entry_of_def representation_def)

lemma write_frames_at:
  "write_items writeBytes frames (writer_at vs) = Inr w \<Longrightarrow> byteLength (concat vs) \<le> MAX_SAFE_INTEGER \<Longrightarrow>
     w = writer_at (vs @ frames) \<and> byteLength (concat (vs @ frames)) \<le> MAX_SAFE_INTEGER"
proof (induction frames arbitrary: vs)
  case (Cons f frames)
  then have "write_items writeBytes frames (writer_at (vs @ [f])) = Inr w" "byteLength (concat (vs @ [f])) \<le> MAX_SAFE_INTEGER"
    by (auto simp: rbind_eq_Inr writeBytes_at)
  from Cons.IH [OF this] show ?case by simp
qed simp

text \<open>The published pack: its file, its index and the entries in physical order.\<close>

lemma encodePack_Inr:
  assumes "encodePack v input = Inr ep" and hash: "\<And>bs. length (sha256 v bs) = 32"
  defines "c \<equiv> in_packClass input" and "recs \<equiv> in_records input"
  defines "ps \<equiv> placed (in_records input) 0 (byteLength (header_bytes (in_packClass input) (int (length (in_records input)))))"
  defines "es \<equiv> js_sort comparePackEntries ps"
  defines "body \<equiv> concat (map frame_of recs)"
  defines "checksum \<equiv> sha256 v (header_bytes c (int (length es)) @ body @ footer_bytes es @ u64 (byteLength (footer_bytes es)))"
  shows "ep_bytes ep = pack_file c es body checksum" and "ep_index ep = pp_index (parsed_of c es ps body checksum)"
    and "ep_records ep = recs"
    and "pack_index_ok c es ps (byteLength (header_bytes c (int (length es))) + byteLength body)"
    and "pack_size_ok c (int (length es)) (byteLength (ep_bytes ep))"
    and "list_all (\<lambda>rec. packClassForRecordKind (rec_kind rec) = c \<and> assertRecordLimits rec = Inr () \<and> record_shape rec) recs"
    and "\<forall>i < length recs. verify_publication v recs i = Inr ()"
proof -
  have enc: "encodePackInternal v input = Inr ep" using assms(1) by (simp add: encodePack_def)
  then obtain layout where layout: "preparePackLayout input = Inr layout" by (auto simp: encodePackInternal_def rbind_eq_Inr)
  note facts = preparePackLayout_Inr [OF layout, folded c_def recs_def]
  have ps: "ps = placed recs 0 (byteLength (header_bytes c (int (length recs))))" by (simp add: ps_def c_def recs_def)
  note facts = facts [folded ps, folded es_def]
  have len: "length es = length recs" by (simp add: es_def ps_def recs_def)
  have lay: "lay_header layout = header_bytes c (int (length es))" "lay_records layout = recs" "lay_entries layout = ps"
      "lay_frames layout = map frame_of recs" "lay_footer layout = footer_bytes es"
    using facts(2) by (simp_all add: len)
  from enc obtain u w1 w2 w3 lengthField w4 w5 w6 w7 fanout
    where verified: "rmap (verify_publication v recs) [0..<length recs] = Inr u"
      and w1: "writeBytes (header_bytes c (int (length es))) newCanonicalWriter = Inr w1"
      and w2: "write_items writeBytes (map frame_of recs) w1 = Inr w2"
      and w3: "writeBytes (footer_bytes es) w2 = Inr w3" and lf: "writeUnsigned64 (byteLength (footer_bytes es)) = Inr lengthField"
      and w4: "writeBytes lengthField w3 = Inr w4" and w5: "writeBytes (finish w4) newCanonicalWriter = Inr w5"
      and w6: "writeBytes (sha256 v (finish w4)) w5 = Inr w6" and w7: "writeBytes TRAILER_MAGIC w6 = Inr w7"
      and fanout: "fanoutFor (PackFormatError Pack_invalid_format) (map pe_logicalId es) = Inr fanout"
      and ep: "ep = \<lparr>ep_bytes = finish w7, ep_index = \<lparr>px_packId = toHex (sha256 v (finish w4)), px_packClass = c,
          px_byteLength = byteLength (finish w7), px_entries = es, px_fanout = fanout\<rparr>, ep_records = recs\<rparr>"
      and total_length: "byteLength (finish w7) = lay_byteLength layout"
    by (auto simp: encodePackInternal_def layout lay rbind_eq_Inr Let_def c_def es_def [symmetric] split: if_splits)
  have w1': "w1 = writer_at [header_bytes c (int (length es))]" "byteLength (header_bytes c (int (length es))) \<le> MAX_SAFE_INTEGER"
    using w1 by (simp_all add: writeBytes_at)
  have w2': "w2 = writer_at (header_bytes c (int (length es)) # map frame_of recs)"
      "byteLength (concat (header_bytes c (int (length es)) # map frame_of recs)) \<le> MAX_SAFE_INTEGER"
    using write_frames_at [of "map frame_of recs" "[header_bytes c (int (length es))]" w2] w2 w1' by simp_all
  have pre: "finish w4 = header_bytes c (int (length es)) @ body @ footer_bytes es @ u64 (byteLength (footer_bytes es))"
    using w3 w4 lf w2' by (auto simp: writeBytes_at writeUnsigned64_Inr body_def)
  then have ck: "checksum = sha256 v (finish w4)" by (simp add: checksum_def)
  have "finish w7 = finish w4 @ checksum @ TRAILER_MAGIC"
    using w5 w6 w7 by (auto simp: writeBytes_at ck)
  then have file_eq: "finish w7 = pack_file c es body checksum" by (simp add: pre pack_file_def)
  then show "ep_bytes ep = pack_file c es body checksum" by (simp add: ep)
  show "ep_index ep = pp_index (parsed_of c es ps body checksum)"
    using fanout by (simp add: ep parsed_of_def Let_def file_eq ck fanoutFor_Inr)
  show "ep_records ep = recs" by (simp add: ep)
  show all: "list_all (\<lambda>rec. packClassForRecordKind (rec_kind rec) = c \<and> assertRecordLimits rec = Inr () \<and> record_shape rec) recs"
    using facts(3,4) by (auto simp: list_all_iff)
  show "\<forall>i < length recs. verify_publication v recs i = Inr ()"
    using verified by (auto simp: rmap_eq_Inr list_all2_conv_all_nth)
  have n: "recs \<noteq> []" "int (length recs) \<le> MAX_PACK_RECORDS" using facts(1) by auto
  have sorted: "sorted_wrt (\<lambda>x y. comparePackEntries x y < 0) es"
    unfolding es_def
    by (rule pack_index.sort_strict [where key = "\<lambda>e. (pe_logicalId e, pe_kind e, pe_encoding e)"])
      (use facts(5) in \<open>simp_all add: comparePackEntries_zero ps placed_representations\<close>)
  have "footer_ok es"
  proof -
    have "es \<noteq> []" using n len by auto
    moreover have "set es = set ps" by (simp add: es_def)
    ultimately show ?thesis using n facts(6) sorted len by (auto simp: footer_ok_def list_all_iff)
  qed
  moreover have "packClassForRecordKind (pe_kind e) = c" if "e \<in> set es" for e
  proof -
    have "e \<in> set ps" using that by (simp add: es_def)
    then obtain i where "i < length recs" "e = ps ! i" by (metis in_set_conv_nth length_placed ps)
    then show ?thesis using all by (simp add: ps placed_nth entry_of_def list_all_length)
  qed
  moreover have "in_physical_order es ps"
    unfolding in_physical_order_def len by (simp add: es_def) (simp add: ps placed_ordinals)
  moreover have "tiles (byteLength (header_bytes c (int (length es)))) ps (byteLength (header_bytes c (int (length es))) + byteLength body)"
    using placed_append_tiles [OF facts(4), of "byteLength (header_bytes c (int (length recs)))" 0] by (simp add: ps len body_def frames_length_def)
  ultimately show "pack_index_ok c es ps (byteLength (header_bytes c (int (length es))) + byteLength body)"
    by (simp add: pack_index_ok_def)
  show "pack_size_ok c (int (length es)) (byteLength (ep_bytes ep))"
    using facts(7,8) total_length by (auto simp: ep pack_size_ok_def len)
qed

subsection \<open>Reading records\<close>

lemma frame_slice:
  assumes "i < length recs"
  shows "slice (pre @ concat (map frame_of recs) @ post) (byteLength pre + frames_length (take i recs)) (byteLength (frame_of (recs ! i)))
    = frame_of (recs ! i)"
proof -
  have split: "concat (map frame_of recs) = concat (map frame_of (take i recs)) @ frame_of (recs ! i) @ concat (map frame_of (drop (Suc i) recs))"
    using id_take_nth_drop [OF assms] by (metis concat.simps(2) concat_append list.simps(9) map_append)
  have "nat (byteLength pre + frames_length (take i recs)) = length (pre @ concat (map frame_of (take i recs)))"
    by (simp add: frames_length_def)
  then show ?thesis unfolding slice_def split by simp
qed

lemma frame_parses:
  assumes "record_shape rec" and "assertRecordLimits rec = Inr ()" and "byteLength (frame_of rec) \<le> MAX_SAFE_INTEGER"
  shows "decodeUnsignedVarint (frame_of rec) 0 = Inr (byteLength (record_bytes rec), int (varint_length (byteLength (record_bytes rec))))"
    and "record_bytes rec \<noteq> []" and "parseRecordHeader (record_bytes rec) = Inr (header_of_record rec)"
    and "safe_unsigned (byteLength (record_bytes rec))"
proof -
  have size: "byteLength (record_bytes rec) \<le> MAX_SAFE_INTEGER" using assms(3) by (simp add: frame_of_def)
  then show safe: "safe_unsigned (byteLength (record_bytes rec))" by (simp add: isSafeInteger_def)
  show "decodeUnsignedVarint (frame_of rec) 0 = Inr (byteLength (record_bytes rec), int (varint_length (byteLength (record_bytes rec))))"
    using frame_prefix [OF assms(3), of "byteLength (record_bytes rec)" "int (varint_length (byteLength (record_bytes rec)))"] safe
    by (simp add: frame_of_def)
  show "record_bytes rec \<noteq> []" by (simp add: record_bytes_def record_chunks_def RECORD_MAGIC_def)
  have "isSafeInteger (byteLength (payload rec))" using size by (simp add: record_bytes_split isSafeInteger_def)
  then show "parseRecordHeader (record_bytes rec) = Inr (header_of_record rec)"
    using parseRecordHeader_Inr [OF size, of "header_of_record rec"] assms(1,2) by (simp add: header_of_record_ok record_bytes_split)
qed

lemma readEnvelope_ok:
  assumes rec: "record_shape rec" "assertRecordLimits rec = Inr ()" "byteLength (frame_of rec) \<le> MAX_SAFE_INTEGER"
    and "entryForPhysicalOrdinal index (pe_physicalOrdinal e) = Some e"
    and e: "e = entry_of rec ordinal offset" and frame: "source_readExactly source offset (byteLength (frame_of rec)) = Inr (frame_of rec)"
    and in_class: "packClassForRecordKind (rec_kind rec) = px_packClass index"
  shows "readEnvelopeFromReader source index e = Inr rec"
proof -
  note parse = frame_parses [OF rec]
  have drop: "drop (varint_length (byteLength (record_bytes rec))) (frame_of rec) = record_bytes rec" by (simp add: frame_of_def)
  have body: "drop (length (record_header_bytes (header_of_record rec))) (record_bytes rec) = payload rec" by (simp add: record_bytes_split)
  have sizes: "byteLength (frame_of rec) = int (varint_length (byteLength (record_bytes rec))) + byteLength (record_bytes rec)"
      "byteLength (record_bytes rec) = byteLength (record_header_bytes (header_of_record rec)) + byteLength (payload rec)"
    by (simp_all add: frame_of_def record_bytes_split)
  have match: "entryMatchesHeader e (header_of_record rec)" by (simp add: entryMatchesHeader_def e entry_of_def)
  have at: "pe_offset e = offset" "pe_length e = byteLength (frame_of rec)" by (simp_all add: e entry_of_def)
  show ?thesis
    unfolding readEnvelopeFromReader_def at frame
    using parse(2) assms(4) in_class match
    by (simp add: parse(1,3) drop body Let_def sizes(1)) (simp add: sizes(2))
qed

subsection \<open>Reading through the window and the hashed prefix\<close>

definition window_ok :: "bytes \<Rightarrow> read_window \<Rightarrow> bool" where
  "window_ok bs w \<longleftrightarrow> 0 \<le> win_position w \<and> win_position w + byteLength (win_bytes w) \<le> byteLength bs \<and>
     win_bytes w = slice bs (win_position w) (byteLength (win_bytes w))"

lemma new_window_ok [simp]: "window_ok bs new_window"
  by (simp add: window_ok_def new_window_def slice_def)

lemma slice_slice:
  "0 \<le> p \<Longrightarrow> 0 \<le> q \<Longrightarrow> 0 \<le> n \<Longrightarrow> q + n \<le> m \<Longrightarrow> slice (slice bs p m) q n = slice bs (p + q) n"
  by (simp add: slice_def drop_take nat_add_distrib add.commute flip: nat_diff_distrib)

lemma slice_length: "0 \<le> p \<Longrightarrow> 0 \<le> n \<Longrightarrow> p + n \<le> byteLength bs \<Longrightarrow> byteLength (slice bs p n) = n"
  by (auto simp: slice_def)

lemma slice_le: "byteLength (slice bs p n) \<le> byteLength bs"
  by (simp add: slice_def)

lemma window_read:
  assumes "window_ok bs w" and "byteLength bs \<le> MAX_SAFE_INTEGER" and "0 \<le> position" and "0 \<le> len" and "position + len \<le> byteLength bs"
  shows "\<exists>w'. window_readExactly (bytes_source bs) position len w = Inr (slice bs position len, w') \<and> window_ok bs w'"
proof -
  let ?src = "bytes_source bs"
  have total_length: "src_byteLength ?src = byteLength bs" by (simp add: bytes_source_def)
  have range: "validateReaderRange (src_byteLength ?src) position len = Inr ()"
    using assms(2-5) by (simp add: validateReaderRange_def total_length isSafeInteger_def)
  consider (hit) "position \<ge> win_position w \<and> len \<le> byteLength (win_bytes w) - (position - win_position w)"
    | (long) "\<not> (position \<ge> win_position w \<and> len \<le> byteLength (win_bytes w) - (position - win_position w))"
        "len > PACK_AUTHENTICATION_READ_BUFFER_BYTES"
    | (fill) "\<not> (position \<ge> win_position w \<and> len \<le> byteLength (win_bytes w) - (position - win_position w))"
        "\<not> len > PACK_AUTHENTICATION_READ_BUFFER_BYTES" by blast
  then show ?thesis
  proof cases
    case hit
    have "slice (win_bytes w) (position - win_position w) len = slice bs position len"
      using assms(1,4) hit slice_slice [of "win_position w" "position - win_position w" len "byteLength (win_bytes w)" bs]
      by (simp add: window_ok_def)
    then show ?thesis using hit range assms(1) by (simp add: window_readExactly_def slice_def)
  next
    case long
    then show ?thesis using range assms source_read_bytes [OF assms(2), of position len]
      by (simp only: window_readExactly_def rbind_Inr if_False if_True) auto
  next
    case fill
    let ?n = "min PACK_AUTHENTICATION_READ_BUFFER_BYTES (byteLength bs - position)"
    have n: "0 \<le> ?n" "len \<le> ?n" "position + ?n \<le> byteLength bs"
      using assms(3-5) fill(2) by (auto simp: PACK_AUTHENTICATION_READ_BUFFER_BYTES_def)
    have "source_readExactly ?src position ?n = Inr (slice bs position ?n)"
      using source_read_bytes [OF assms(2), of position ?n] n assms(3) by auto
    moreover have "take (nat len) (slice bs position ?n) = slice bs position len"
      using n(2) by (simp add: slice_def take_take min_absorb1 nat_mono)
    moreover have "window_ok bs \<lparr>win_position = position, win_bytes = slice bs position ?n\<rparr>"
      using slice_length [OF assms(3) n(1,3)] n assms(3) by (simp add: window_ok_def)
    ultimately show ?thesis
      using range fill by (simp only: window_readExactly_def rbind_Inr if_False total_length Let_def) auto
  qed
qed

lemma slice_split: "0 \<le> p \<Longrightarrow> 0 \<le> n \<Longrightarrow> 0 \<le> m \<Longrightarrow> slice bs p n @ slice bs (p + n) m = slice bs p (n + m)"
  by (simp add: slice_def nat_add_distrib take_add add.commute [of "nat p"])

lemma authenticated_prefix_bytes:
  assumes "byteLength bs \<le> MAX_SAFE_INTEGER" and "0 \<le> position" and "position \<le> bound" and "bound \<le> byteLength bs"
  shows "authenticated_prefix (bytes_source bs) bound position = Inr (slice bs position (bound - position))"
  using assms(2-4)
proof (induction "bytes_source bs" bound position rule: authenticated_prefix.induct)
  case (1 bound position)
  let ?n = "min PACK_AUTHENTICATION_READ_BUFFER_BYTES (bound - position)"
  show ?case
  proof (cases "position < bound")
    case True
    have n: "0 < ?n" "position + ?n \<le> bound" using True by (auto simp: PACK_AUTHENTICATION_READ_BUFFER_BYTES_def)
    have read: "source_readExactly (bytes_source bs) position ?n = Inr (slice bs position ?n)"
      using source_read_bytes [OF assms(1), of position ?n] n "1.prems" by auto
    have rest: "authenticated_prefix (bytes_source bs) bound (position + ?n) = Inr (slice bs (position + ?n) (bound - (position + ?n)))"
      by (rule "1.hyps" [OF True refl read]) (use n "1.prems" in auto)
    have "slice bs position ?n @ slice bs (position + ?n) (bound - (position + ?n)) = slice bs position (bound - position)"
      using slice_split [of position ?n "bound - (position + ?n)" bs] n "1.prems" by (simp only: algebra_simps) simp
    then show ?thesis using True read rest by (subst authenticated_prefix.simps) (simp add: Let_def)
  next
    case False
    then show ?thesis using "1.prems" by (subst authenticated_prefix.simps) (simp add: slice_def)
  qed
qed

subsection \<open>Authenticating a published record\<close>

lemma delta_base_compatible:
  "assertDeltaBaseCompatibility is n = Inr u \<longleftrightarrow> (\<forall>o' len. Copy o' len \<in> set is \<longrightarrow> o' \<le> n \<and> len \<le> n - o')"
  by (induction "is" n rule: assertDeltaBaseCompatibility.induct) (auto simp: not_less)

lemma apply_delta_Inr:
  assumes "applyDelta1Program p base n = Inr target"
  shows "program_ok p n \<and> byteLength base \<le> DELTA1_MAX_BASE_BYTES \<and> list_all (in_base base) (instructions p)"
proof -
  have ok: "program_ok p n" and base: "byteLength base \<le> DELTA1_MAX_BASE_BYTES"
    using assms by (auto simp: applyDelta1Program_def rbind_eq_Inr validateProgram_Inr split: if_splits)
  note parts = program_parts [OF ok]
  have len: "total_output (instructions p) \<le> byteLength (replicate (nat n) (0 :: byte))" using ok by (simp add: program_ok_def)
  have "list_all (in_base base) (instructions p)"
    using assms ok base apply_instructions_Inr [OF parts(1) len, of base "[]"]
    by (auto simp: applyDelta1Program_def rbind_eq_Inr split: if_splits)
  then show ?thesis using ok base by blast
qed

lemma check_delta_base_ok:
  assumes "verify_publication v recs i = Inr u" and "i < length recs" and "rec_encoding (recs ! i) = Delta1"
    and "length ps = length recs"
    and ps: "\<And>j. j < length recs \<Longrightarrow> pe_kind (ps ! j) = rec_kind (recs ! j) \<and> pe_encoding (ps ! j) = rec_encoding (recs ! j) \<and>
      pe_decodedLength (ps ! j) = decodedLength (recs ! j)"
  shows "\<exists>program. decodeDelta1Program (payload (recs ! i)) (decodedLength (recs ! i)) = Inr program \<and>
    check_delta_base ps (int i) program = Inr ()"
proof -
  let ?rec = "recs ! i"
  have "element_at recs (int i) = Some ?rec" using assms(2) by (simp add: element_at_def)
  then obtain program baseRec base decoded where program: "decodeDelta1Program (payload ?rec) (decodedLength ?rec) = Inr program"
      and baseRec: "element_at recs (int i - baseBackDistance program) = Some baseRec"
      and kind: "rec_kind baseRec = Kind_content" "rec_encoding baseRec = Raw \<or> rec_encoding baseRec = Zstd_v1"
      and base: "verifyLogicalId v baseRec base = Inr ()"
      and applied: "applyDelta1Program program base (decodedLength ?rec) = Inr decoded"
    using assms(1,3) by (auto simp: verify_publication_def decodeAndVerifyRecord_def rbind_eq_Inr Let_def split: option.splits if_splits)
  define j where "j = nat (int i - baseBackDistance program)"
  have j: "0 \<le> int i - baseBackDistance program" "j < length recs" "baseRec = recs ! j"
    using baseRec by (auto simp: element_at_def j_def split: if_splits)
  have "byteLength base = decodedLength baseRec" using base by (auto simp: verifyLogicalId_def split: if_splits)
  then have d: "decodedLength baseRec \<le> DELTA1_MAX_BASE_BYTES" and
      inb: "list_all (in_base base) (instructions program)" "byteLength base = decodedLength baseRec"
      and ok: "list_all instruction_ok (instructions program)"
    using apply_delta_Inr [OF applied] program_parts(1) by auto
  have compatible: "assertDeltaBaseCompatibility (instructions program) (decodedLength baseRec) = Inr ()"
    unfolding delta_base_compatible
  proof (intro allI impI)
    fix off len
    assume "Copy off len \<in> set (instructions program)"
    then have "in_base base (Copy off len)" "instruction_ok (Copy off len)" using inb(1) ok by (auto simp: list_all_iff)
    then show "off \<le> decodedLength baseRec \<and> len \<le> decodedLength baseRec - off" using inb(2) by simp
  qed
  have "element_at ps (int i - baseBackDistance program) = Some (ps ! j)"
    using j assms(4) by (simp add: element_at_def j_def)
  then have "check_delta_base ps (int i) program = Inr ()"
    using j ps [OF j(2)] kind d compatible by (auto simp: check_delta_base_def)
  then show ?thesis using program by blast
qed

lemma authenticate_record_ok:
  fixes c recs es body checksum
  defines "hl \<equiv> byteLength (header_bytes c (int (length es)))"
  defines "ps \<equiv> placed recs 0 hl" and "bs \<equiv> pack_file c es (concat (map frame_of recs)) checksum"
  assumes i: "i < length recs" and rec: "record_shape (recs ! i)" "assertRecordLimits (recs ! i) = Inr ()"
      "packClassForRecordKind (rec_kind (recs ! i)) = c"
    and verified: "verify_publication v recs i = Inr ()" and w: "window_ok bs w" and size: "byteLength bs \<le> packHardMax c"
    and new: "representation (recs ! i) \<notin> set keys"
  shows "\<exists>w'. authenticate_record (bytes_source bs) (parsed_of c es ps (concat (map frame_of recs)) checksum) (int i)
      (hl + frames_length (take i recs)) w keys =
      Inr (hl + frames_length (take (Suc i) recs), w', representation (recs ! i) # keys) \<and> window_ok bs w'"
proof -
  let ?rec = "recs ! i" and ?off = "hl + frames_length (take i recs)" and ?f = "hl + frames_length recs"
  let ?n = "byteLength (record_bytes ?rec)" and ?h = "header_of_record ?rec"
  let ?k = "int (varint_length ?n)" and ?src = "bytes_source bs"
  let ?parsed = "parsed_of c es ps (concat (map frame_of recs)) checksum"
  define rest where "rest = concat (map frame_of (drop (Suc i) recs))"
  have safe: "byteLength bs \<le> MAX_SAFE_INTEGER" using size packHardMax_range(2) [of c] by linarith
  have all: "frames_length recs = frames_length (take i recs) + byteLength (frame_of ?rec) + byteLength rest"
  proof -
    have "concat (map frame_of recs) = concat (map frame_of (take i recs)) @ frame_of ?rec @ rest"
      unfolding rest_def using id_take_nth_drop [OF i] by (metis concat.simps(2) concat_append list.simps(9) map_append)
    then show ?thesis by (simp add: frames_length_def)
  qed
  have next_off: "frames_length (take (Suc i) recs) = frames_length (take i recs) + byteLength (frame_of ?rec)"
    using i by (simp add: take_Suc_conv_app_nth frames_length_def)
  have len: "?f \<le> byteLength bs" by (simp add: bs_def pack_file_def hl_def frames_length_def)
  have nonneg: "0 \<le> ?off" "?off \<le> ?f" using all by (simp_all add: hl_def)
  have flen: "byteLength (frame_of ?rec) = ?k + ?n" by (simp add: frame_of_def)
  have tail: "slice bs ?off (?f - ?off) = varint ?n @ record_bytes ?rec @ rest"
  proof -
    have split: "concat (map frame_of recs) = concat (map frame_of (take i recs)) @ (varint ?n @ record_bytes ?rec) @ rest"
      unfolding rest_def frame_of_def [symmetric] using id_take_nth_drop [OF i]
      by (metis concat.simps(2) concat_append list.simps(9) map_append)
    have "nat ?off = length (header_bytes c (int (length es)) @ concat (map frame_of (take i recs)))"
      by (simp add: hl_def frames_length_def)
    moreover have "nat (?f - ?off) = length (varint ?n @ record_bytes ?rec @ rest)" using all flen by simp
    ultimately show ?thesis unfolding slice_def bs_def pack_file_def split by simp
  qed
  have read: "slice bs (?off + q) m = take (nat m) (drop (nat q) (varint ?n @ record_bytes ?rec @ rest))"
    if "0 \<le> q" "0 \<le> m" "q + m \<le> ?f - ?off" for q m
    using slice_slice [OF nonneg(1) that, of bs] unfolding tail by (simp add: slice_def)
  have frame_safe: "byteLength (frame_of ?rec) \<le> MAX_SAFE_INTEGER" using all nonneg len safe by linarith
  note parse = frame_parses [OF rec(1,2) frame_safe]
  have k: "varint_length ?n \<le> 8" "0 < varint_length ?n" using varint_length_safe [OF parse(4)] by simp_all
  have room: "?k + ?n \<le> ?f - ?off" using all flen by simp
  obtain w1 where w1: "window_readExactly ?src ?off (min MAX_SAFE_VARINT_BYTES (?f - ?off)) w =
      Inr (slice bs ?off (min MAX_SAFE_VARINT_BYTES (?f - ?off)), w1)" "window_ok bs w1"
  proof -
    have "0 \<le> min MAX_SAFE_VARINT_BYTES (?f - ?off)" using nonneg by (simp add: MAX_SAFE_VARINT_BYTES_def)
    moreover have "?off + min MAX_SAFE_VARINT_BYTES (?f - ?off) \<le> byteLength bs" using len by linarith
    ultimately show thesis using that window_read [OF w safe nonneg(1)] by blast
  qed
  have prefix: "decodeUnsignedVarint (slice bs ?off (min MAX_SAFE_VARINT_BYTES (?f - ?off))) 0 = Inr (?n, ?k)"
  proof -
    let ?m = "min MAX_SAFE_VARINT_BYTES (?f - ?off)"
    have m: "0 \<le> ?m" "?k \<le> ?m" "?m \<le> 8" using k room nonneg by (auto simp: MAX_SAFE_VARINT_BYTES_def)
    have "slice bs ?off ?m = take (nat ?m) (varint ?n @ record_bytes ?rec @ rest)"
      using read [OF order_refl m(1)] m(3) unfolding add_0_right nat_0 drop_0 add_0_left by auto
    also have "\<dots> = varint ?n @ take (nat ?m - varint_length ?n) (record_bytes ?rec @ rest)"
    proof -
      have "length (varint ?n) \<le> nat ?m" using m(2) unfolding length_varint by linarith
      then show ?thesis by (simp add: take_all)
    qed
    finally have eq: "slice bs ?off ?m = varint ?n @ take (nat ?m - varint_length ?n) (record_bytes ?rec @ rest)" .
    have small: "byteLength (slice bs ?off ?m) \<le> MAX_SAFE_INTEGER" using m by (simp add: slice_def MAX_SAFE_INTEGER_def)
    show ?thesis unfolding frame_prefix [OF small] using eq parse(4) by blast
  qed
  let ?hm = "min MAX_RECORD_HEADER_BYTES ?n"
  obtain w2 where w2: "window_readExactly ?src (?off + ?k) ?hm w1 = Inr (slice bs (?off + ?k) ?hm, w2)" "window_ok bs w2"
  proof -
    have "0 \<le> ?hm" by (simp add: MAX_RECORD_HEADER_BYTES_def MAX_SAFE_VARINT_BYTES_def SHA256_BYTE_LENGTH_def)
    moreover have "?off + ?k + ?hm \<le> byteLength bs" "0 \<le> ?off + ?k" using len room nonneg by linarith+
    ultimately show thesis using that window_read [OF w1(2) safe] by blast
  qed
  have hok: "record_header_ok ?h" using parse(4) rec(1,2) by (auto simp: header_of_record_ok record_bytes_split isSafeInteger_def)
  have header: "parseRecordHeader (slice bs (?off + ?k) ?hm) = Inr ?h"
  proof -
    have m: "0 \<le> ?hm" "byteLength (record_header_bytes ?h) \<le> ?hm" "?hm \<le> ?n"
      using record_header_size [OF hok] by (auto simp: record_bytes_split MAX_RECORD_HEADER_BYTES_def MAX_SAFE_VARINT_BYTES_def SHA256_BYTE_LENGTH_def)
    have "slice bs (?off + ?k) ?hm = take (nat ?hm) (record_bytes ?rec @ rest)"
    proof -
      have "drop (nat ?k) (varint ?n @ record_bytes ?rec @ rest) = record_bytes ?rec @ rest" by simp
      moreover have "?k + ?hm \<le> ?f - ?off" using m(3) room by linarith
      ultimately show ?thesis using read [OF _ m(1), of ?k] by simp
    qed
    also have "\<dots> = record_header_bytes ?h @ take (nat ?hm - length (record_header_bytes ?h)) (payload ?rec @ rest)"
    proof -
      have "length (record_header_bytes ?h) \<le> nat ?hm" using m(2) by linarith
      then show ?thesis by (simp add: record_bytes_split take_all)
    qed
    finally have eq: "slice bs (?off + ?k) ?hm = record_header_bytes ?h @ take (nat ?hm - length (record_header_bytes ?h)) (payload ?rec @ rest)" .
    have small: "byteLength (slice bs (?off + ?k) ?hm) \<le> MAX_SAFE_INTEGER" using slice_le safe by (rule order_trans)
    show ?thesis unfolding parseRecordHeader_Inr [OF small] using eq hok header_of_record_simps(6) by blast
  qed
  have sum: "rh_headerLength ?h + rh_payloadLength ?h = ?n" by (simp add: record_bytes_split)
  let ?p = "?off + ?k + rh_headerLength ?h"
  have at: "0 \<le> ?p" "?p + rh_payloadLength ?h \<le> byteLength bs" using nonneg room len sum by simp_all
  obtain w3 where w3: "window_readExactly ?src ?p (rh_payloadLength ?h) w2 = Inr (payload ?rec, w3)" "window_ok bs w3"
  proof -
    have "slice bs ?p (rh_payloadLength ?h) = payload ?rec"
    proof -
      have "slice bs (?off + (?k + rh_headerLength ?h)) (rh_payloadLength ?h) =
          take (nat (rh_payloadLength ?h)) (drop (nat (?k + rh_headerLength ?h)) (varint ?n @ record_bytes ?rec @ rest))"
        by (rule read) (use room sum in simp_all)
      moreover have "nat (?k + rh_headerLength ?h) = length (varint ?n @ record_header_bytes ?h)" by simp
      ultimately show ?thesis by (simp add: record_bytes_split add.assoc)
    qed
    then show thesis using that window_read [OF w2(2) safe at(1) _ at(2)] by auto
  qed
  have e: "element_at ps (int i) = Some (entry_of ?rec (int i) ?off)"
    using i by (simp add: element_at_def ps_def placed_nth)
  have fields: "pp_footerOffset ?parsed = ?f" "hd_packClass (pp_header ?parsed) = c" "pp_physicalEntries ?parsed = ps"
    by (simp_all add: parsed_of_def Let_def hl_def frames_length_def)
  have entry: "pe_offset (entry_of ?rec (int i) ?off) = ?off" "pe_length (entry_of ?rec (int i) ?off) = ?k + ?n"
      "(pe_logicalId (entry_of ?rec (int i) ?off), pe_kind (entry_of ?rec (int i) ?off), pe_encoding (entry_of ?rec (int i) ?off)) = representation ?rec"
      "entryMatchesHeader (entry_of ?rec (int i) ?off) ?h"
    by (simp_all add: entry_of_def flen representation_def entryMatchesHeader_def)
  have limits: "?n \<noteq> 0" "\<not> ?n > packHardMax c" using parse(2) room nonneg len size k by auto
  have guard: "\<not> ?k + ?n > ?f - ?off" using room by simp
  have run: "authenticate_record ?src ?parsed (int i) ?off w keys =
      (if rec_encoding ?rec = Delta1
       then rbind (window_readExactly ?src ?p (rh_payloadLength ?h) w2) (\<lambda>(body, w).
              rbind (decodeDelta1Program body (rh_decodedLength ?h)) (\<lambda>program.
              rbind (check_delta_base ps (int i) program) (\<lambda>_. Inr (?off + (?k + ?n), w, representation ?rec # keys))))
       else Inr (?off + (?k + ?n), w2, representation ?rec # keys))"
    unfolding authenticate_record_def Let_def fields e option.case entry
    by (simp only: w1(1) w2(1) prefix header rbind_Inr prod.case limits guard sum sum [unfolded header_of_record_simps] entry rec(3) new header_of_record_simps simp_thms if_False)
  show ?thesis
  proof (cases "rec_encoding ?rec = Delta1")
    case False
    then show ?thesis using run w2(2) next_off flen by simp
  next
    case True
    obtain program where "decodeDelta1Program (payload ?rec) (decodedLength ?rec) = Inr program" "check_delta_base ps (int i) program = Inr ()"
      using check_delta_base_ok [OF verified i True, of ps] by (auto simp: ps_def placed_nth entry_of_def)
    then show ?thesis using run True w3 next_off flen by simp
  qed
qed

lemma authenticate_records_ok:
  fixes c recs es checksum
  defines "hl \<equiv> byteLength (header_bytes c (int (length es)))"
  defines "ps \<equiv> placed recs 0 hl" and "bs \<equiv> pack_file c es (concat (map frame_of recs)) checksum"
  assumes all: "list_all (\<lambda>rec. packClassForRecordKind (rec_kind rec) = c \<and> assertRecordLimits rec = Inr () \<and> record_shape rec) recs"
    and verified: "\<forall>i < length recs. verify_publication v recs i = Inr ()" and size: "byteLength bs \<le> packHardMax c"
    and distinct: "distinct (map representation recs)"
  shows "i + n = length recs \<Longrightarrow> window_ok bs w \<Longrightarrow> set keys = set (map representation (take i recs)) \<Longrightarrow>
    authenticate_records (bytes_source bs) (parsed_of c es ps (concat (map frame_of recs)) checksum) n (int i)
      (hl + frames_length (take i recs)) w keys = Inr (hl + frames_length recs)"
proof (induction n arbitrary: i w keys)
  case (Suc n)
  have i: "i < length recs" using Suc.prems(1) by simp
  have "representation (recs ! i) \<notin> set keys"
  proof
    assume "representation (recs ! i) \<in> set keys"
    then obtain j where "j < i" "representation (recs ! j) = representation (recs ! i)"
      using Suc.prems(3) i by (auto simp: in_set_conv_nth)
    then show False using distinct i by (simp add: distinct_conv_nth)
  qed
  moreover have "record_shape (recs ! i)" "assertRecordLimits (recs ! i) = Inr ()" "packClassForRecordKind (rec_kind (recs ! i)) = c"
    using all i by (auto simp: list_all_length)
  ultimately obtain w' where step: "authenticate_record (bytes_source bs) (parsed_of c es ps (concat (map frame_of recs)) checksum) (int i)
      (hl + frames_length (take i recs)) w keys = Inr (hl + frames_length (take (Suc i) recs), w', representation (recs ! i) # keys)"
      and w': "window_ok bs w'"
    using authenticate_record_ok [of i recs c v es checksum w keys] i verified Suc.prems(2) size
    unfolding hl_def ps_def bs_def by blast
  have "authenticate_records (bytes_source bs) (parsed_of c es ps (concat (map frame_of recs)) checksum) n (int (Suc i))
      (hl + frames_length (take (Suc i) recs)) w' (representation (recs ! i) # keys) = Inr (hl + frames_length recs)"
    by (rule Suc.IH) (use Suc.prems w' i in \<open>auto simp: take_Suc_conv_app_nth\<close>)
  then show ?case using step by (simp add: add.commute)
qed simp

subsection \<open>Properties\<close>

lemma published_index_reads:
  assumes "encodePack v input = Inr ep" and "\<And>bs. length (sha256 v bs) = 32"
  shows "readPackIndex (bytes_source (ep_bytes ep)) (px_packId (ep_index ep)) = Inr (ep_index ep)"
proof -
  let ?c = "in_packClass input" and ?recs = "in_records input"
  define ps where "ps = placed ?recs 0 (byteLength (header_bytes ?c (int (length ?recs))))"
  define es where "es = js_sort comparePackEntries ps"
  define checksum where "checksum = sha256 v (header_bytes ?c (int (length es)) @ concat (map frame_of ?recs) @ footer_bytes es @
    u64 (byteLength (footer_bytes es)))"
  note facts = encodePack_Inr [OF assms, folded ps_def, folded es_def, folded checksum_def]
  have ck: "length checksum = 32" using assms(2) by (simp add: checksum_def)
  have "readPackIndexInternal (bytes_source (ep_bytes ep)) (Some (toHex checksum)) =
      Inr (parsed_of ?c es ps (concat (map frame_of ?recs)) checksum)"
    by (rule readPackIndexInternal_complete [OF facts(1) ck facts(4,5)]) simp
  then show ?thesis unfolding facts(2) by (simp add: readPackIndex_def parsePackId_def parsed_of_def Let_def ck)
qed

text \<open>C29. Packs round trip: the file an encoder publishes is accepted by the routing reader under its own identifier, with
  the index the encoder returned, and reading the entry of the n-th record returns the n-th record that was encoded.\<close>

theorem published_packs_read_back:
  assumes "encodePack v input = Inr ep" and "\<And>bs. length (sha256 v bs) = 32"
  shows "readPackIndex (bytes_source (ep_bytes ep)) (px_packId (ep_index ep)) = Inr (ep_index ep) \<and>
    map (\<lambda>i. rbind (case entryForPhysicalOrdinal (ep_index ep) (int i) of None \<Rightarrow> invalid_pack Pack_invalid_input | Some e \<Rightarrow> Inr e)
        (readEnvelopeFromReader (bytes_source (ep_bytes ep)) (ep_index ep))) [0..<length (in_records input)] =
      map Inr (in_records input)"
proof -
  let ?c = "in_packClass input" and ?recs = "in_records input"
  define ps where "ps = placed ?recs 0 (byteLength (header_bytes ?c (int (length ?recs))))"
  define es where "es = js_sort comparePackEntries ps"
  define checksum where "checksum = sha256 v (header_bytes ?c (int (length es)) @ concat (map frame_of ?recs) @ footer_bytes es @
    u64 (byteLength (footer_bytes es)))"
  note facts = encodePack_Inr [OF assms, folded ps_def, folded es_def, folded checksum_def]
  have len: "length es = length ?recs" by (simp add: es_def ps_def)
  let ?body = "concat (map frame_of ?recs)" and ?hl = "byteLength (header_bytes ?c (int (length es)))"
  let ?index = "pp_index (parsed_of ?c es ps ?body checksum)"
  have id: "px_packId ?index = toHex checksum" "px_entries ?index = es" "px_packClass ?index = ?c" by (simp_all add: parsed_of_def Let_def)
  have "rbind (case entryForPhysicalOrdinal (ep_index ep) (int i) of None \<Rightarrow> invalid_pack Pack_invalid_input | Some e \<Rightarrow> Inr e)
      (readEnvelopeFromReader (bytes_source (ep_bytes ep)) (ep_index ep)) = Inr (?recs ! i)" if i: "i < length ?recs" for i
  proof -
    let ?rec = "?recs ! i" and ?off = "?hl + frames_length (take i ?recs)"
    have size: "byteLength (ep_bytes ep) \<le> packHardMax ?c" using facts(5) by (simp add: pack_size_ok_def)
    then have safe: "byteLength (ep_bytes ep) \<le> MAX_SAFE_INTEGER" using packHardMax_range(2) [of ?c] by linarith
    have rec: "record_shape ?rec" "assertRecordLimits ?rec = Inr ()" "packClassForRecordKind (rec_kind ?rec) = ?c"
      using facts(6) i by (auto simp: list_all_length)
    have order: "in_physical_order es ps" using facts(4) by (simp add: pack_index_ok_def)
    have n: "int (length ps) \<le> MAX_SAFE_INTEGER"
      using facts(4) by (simp add: pack_index_ok_def footer_ok_def ps_def len MAX_PACK_RECORDS_def MAX_SAFE_INTEGER_def)
    have at: "entryForPhysicalOrdinal ?index (int i) = Some (entry_of ?rec (int i) ?off)"
    proof -
      have "in_physical_order (px_entries ?index) ps" using order by (simp add: id)
      from entry_for_ordinal [OF this n] show ?thesis using i by (simp add: element_at_def ps_def placed_nth len)
    qed
    have fits: "?off + byteLength (frame_of ?rec) \<le> byteLength (ep_bytes ep)"
    proof -
      have "frames_length (take (Suc i) ?recs) = frames_length (take i ?recs) + byteLength (frame_of ?rec)"
        using i by (simp add: take_Suc_conv_app_nth frames_length_def)
      then have "?off + byteLength (frame_of ?rec) \<le> ?hl + frames_length ?recs" using frames_prefix [of "Suc i" ?recs] by simp
      also have "\<dots> \<le> byteLength (ep_bytes ep)" by (simp add: facts(1) pack_file_def frames_length_def)
      finally show ?thesis .
    qed
    have "source_readExactly (bytes_source (ep_bytes ep)) ?off (byteLength (frame_of ?rec)) = Inr (frame_of ?rec)"
      using source_read_bytes [OF safe, of ?off "byteLength (frame_of ?rec)"] fits frame_slice [OF i, of "header_bytes ?c (int (length es))"
        "footer_bytes es @ u64 (byteLength (footer_bytes es)) @ checksum @ TRAILER_MAGIC"]
      by (simp add: facts(1) pack_file_def)
    moreover have "byteLength (frame_of ?rec) \<le> MAX_SAFE_INTEGER" using fits safe frames_length_nonneg [of "take i ?recs"] by linarith
    ultimately have "readEnvelopeFromReader (bytes_source (ep_bytes ep)) ?index (entry_of ?rec (int i) ?off) = Inr ?rec"
      using readEnvelope_ok [OF rec(1,2) _ _ refl, of ?index "int i" ?off "bytes_source (ep_bytes ep)"] at rec(3) fits safe
      by (simp add: id entry_of_def)
    then show ?thesis by (simp add: facts(2) at)
  qed
  then show ?thesis using published_index_reads [OF assms] by (auto intro: nth_equalityI)
qed

text \<open>Encoding succeeds exactly when the records can be laid out and every one of them passes its verification; in
  particular the final comparison of measured and written length never fails.\<close>

lemma write_frames_ok:
  "byteLength (concat (vs @ frames)) \<le> MAX_SAFE_INTEGER \<Longrightarrow> write_items writeBytes frames (writer_at vs) = Inr (writer_at (vs @ frames))"
proof (induction frames arbitrary: vs)
  case (Cons f frames)
  have "writeBytes f (writer_at vs) = Inr (writer_at (vs @ [f]))" using Cons.prems by (simp add: writeBytes_at)
  moreover have "write_items writeBytes frames (writer_at (vs @ [f])) = Inr (writer_at ((vs @ [f]) @ frames))"
    by (rule Cons.IH) (use Cons.prems in simp)
  ultimately show ?case by simp
qed simp

lemma encodePack_ok:
  assumes layout: "preparePackLayout input = Inr layout" and hash: "\<And>bs. length (sha256 v bs) = 32"
    and verified: "\<forall>i < length (in_records input). verify_publication v (in_records input) i = Inr ()"
  shows "\<exists>ep. encodePack v input = Inr ep"
proof -
  let ?c = "in_packClass input" and ?recs = "in_records input"
  note facts = preparePackLayout_Inr [OF layout]
  define h where "h = lay_header layout"
  define fb where "fb = lay_footer layout"
  let ?frames = "map frame_of ?recs"
  have lay: "lay_records layout = ?recs" "lay_frames layout = ?frames" by (subst facts(2), simp)+
  have measured: "lay_byteLength layout = byteLength h + frames_length ?recs + byteLength fb + FIXED_TRAILER_BYTES"
    unfolding h_def fb_def by (subst (1 2 3) facts(2)) simp
  have "lay_byteLength layout \<le> MAX_SAFE_INTEGER" using facts(7) packHardMax_range(2) [of ?c] by linarith
  then have size: "byteLength h + frames_length ?recs + byteLength fb + 48 \<le> MAX_SAFE_INTEGER" by (simp add: measured trailer_size)
  have sizes: "byteLength h \<le> MAX_SAFE_INTEGER" "byteLength h + frames_length ?recs \<le> MAX_SAFE_INTEGER"
      "byteLength h + frames_length ?recs + byteLength fb \<le> MAX_SAFE_INTEGER"
    using size frames_length_nonneg [of ?recs] by linarith+
  have w1: "writeBytes h (writer_at []) = Inr (writer_at [h])" using sizes by (simp add: writeBytes_at)
  have w2: "write_items writeBytes ?frames (writer_at [h]) = Inr (writer_at ([h] @ ?frames))"
    by (rule write_frames_ok) (use sizes in \<open>simp add: frames_length_def\<close>)
  have w3: "writeBytes fb (writer_at ([h] @ ?frames)) = Inr (writer_at ([h] @ ?frames @ [fb]))"
    using sizes by (simp add: writeBytes_at frames_length_def add.assoc)
  have lf: "writeUnsigned64 (byteLength fb) = Inr (u64 (byteLength fb))"
  proof -
    have "byteLength fb \<le> MAX_SAFE_INTEGER" using size frames_length_nonneg [of ?recs] by linarith
    then show ?thesis by (simp add: writeUnsigned64_Inr isSafeInteger_def)
  qed
  have w4: "writeBytes (u64 (byteLength fb)) (writer_at ([h] @ ?frames @ [fb])) = Inr (writer_at ([h] @ ?frames @ [fb, u64 (byteLength fb)]))"
    using size by (simp add: writeBytes_at frames_length_def add.assoc)
  define pre where "pre = concat ([h] @ ?frames @ [fb, u64 (byteLength fb)])"
  have pre: "byteLength pre = byteLength h + frames_length ?recs + byteLength fb + 8" by (simp add: pre_def frames_length_def)
  have w5: "writeBytes pre (writer_at []) = Inr (writer_at [pre])" using size pre by (simp add: writeBytes_at)
  have w6: "writeBytes (sha256 v pre) (writer_at [pre]) = Inr (writer_at [pre, sha256 v pre])" using size pre hash by (simp add: writeBytes_at)
  have w7: "writeBytes TRAILER_MAGIC (writer_at [pre, sha256 v pre]) = Inr (writer_at [pre, sha256 v pre, TRAILER_MAGIC])"
    using size pre hash by (simp add: writeBytes_at)
  have fan: "fanoutFor (PackFormatError Pack_invalid_format) (map pe_logicalId (js_sort comparePackEntries (lay_entries layout))) =
      Inr (fanout_of (map pe_logicalId (js_sort comparePackEntries (lay_entries layout))))"
  proof (rule fanoutFor_ok)
    have "list_all index_entry_ok (lay_entries layout)" by (subst facts(2)) (simp add: facts(6))
    then show "list_all is_sha256_hex (map pe_logicalId (js_sort comparePackEntries (lay_entries layout)))"
      by (auto simp: list_all_iff index_entry_ok_def)
  qed
  have checks: "rmap (verify_publication v ?recs) [0..<length ?recs] = Inr (map (\<lambda>_. ()) [0..<length ?recs])"
    by (rule rmap_Inr) (use verified in auto)
  have fin: "finish (writer_at ([h] @ ?frames @ [fb, u64 (byteLength fb)])) = pre" by (simp add: pre_def)
  have len: "byteLength (finish (writer_at [pre, sha256 v pre, TRAILER_MAGIC])) = lay_byteLength layout"
    using hash by (simp add: pre measured trailer_size)
  have "\<exists>ep. encodePackInternal v input = Inr ep"
    unfolding encodePackInternal_def layout Let_def rbind_Inr lay checks new_writer h_def [symmetric] fb_def [symmetric] w1 w2 w3 lf w4 fin w5 w6 w7 len fan
    by simp
  then show ?thesis by (auto simp: encodePack_def)
qed

text \<open>Encoding a pack succeeds exactly when its layout is accepted and every record passes verification in its place,
  for any hash of 32 bytes: no later step of the encoder can fail.\<close>

theorem encoding_succeeds_iff_verified:
  assumes "\<And>bs. length (sha256 v bs) = 32"
  shows "(\<exists>ep. encodePack v input = Inr ep) \<longleftrightarrow> (\<exists>layout. preparePackLayout input = Inr layout) \<and>
    list_all (\<lambda>i. verify_publication v (in_records input) i = Inr ()) [0..<length (in_records input)]"
  using encodePack_ok [OF _ assms, of input] encodePack_Inr(7) [OF _ assms, of input]
  by (auto simp: list_all_iff encodePack_def encodePackInternal_def rbind_eq_Inr)

definition sample_verification :: pack_verification where
  "sample_verification = \<lparr>sha256 = (\<lambda>_. replicate 32 0x77), decodeZstdV1 = (\<lambda>_ _. Inl ZstdCodecError), verifyMetadataId = None,
     verifyChunkedContent = None\<rparr>"

lemma sample_verified: "verify_publication sample_verification (in_records sample_input) 0 = Inr ()"
  by code_simp

lemma sample_hash: "length (sha256 sample_verification bs) = 32"
  by (simp add: sample_verification_def)

lemma sample_published: "\<exists>ep. encodePack sample_verification sample_input = Inr ep"
proof -
  obtain layout where "preparePackLayout sample_input = Inr layout" using sample_layout by blast
  then show ?thesis
    by (rule encodePack_ok [OF _ sample_hash]) (use sample_verified in \<open>simp add: sample_input_def\<close>)
qed

theorem encoding_succeeds_iff_verified_witness:
  "\<exists>layout. preparePackLayout sample_input = Inr layout"
  using encoding_succeeds_iff_verified [OF sample_hash, of sample_input] sample_published by blast

theorem published_packs_read_back_witness:
  "\<exists>ep. encodePack sample_verification sample_input = Inr ep \<and>
     readPackIndex (bytes_source (ep_bytes ep)) (px_packId (ep_index ep)) = Inr (ep_index ep)"
  using published_packs_read_back [OF _ sample_hash] sample_published by blast

lemma published_authenticates:
  assumes "encodePack v input = Inr ep" and "\<And>bs. length (sha256 v bs) = 32"
    and expected: "expected = None \<or> expected = Some (px_packId (ep_index ep))"
  shows "authenticatePackReader v (bytes_source (ep_bytes ep)) expected = Inr (ep_index ep)"
proof -
  let ?c = "in_packClass input" and ?recs = "in_records input"
  define ps where "ps = placed ?recs 0 (byteLength (header_bytes ?c (int (length ?recs))))"
  define es where "es = js_sort comparePackEntries ps"
  let ?body = "concat (map frame_of ?recs)" and ?hb = "header_bytes ?c (int (length es))"
  define pre where "pre = ?hb @ ?body @ footer_bytes es @ u64 (byteLength (footer_bytes es))"
  define checksum where "checksum = sha256 v pre"
  note facts = encodePack_Inr [OF assms(1,2), folded ps_def, folded es_def, folded pre_def, folded checksum_def]
  have ck: "length checksum = 32" using assms(2) by (simp add: checksum_def)
  have len: "length es = length ?recs" by (simp add: es_def ps_def)
  have ps: "ps = placed ?recs 0 (byteLength ?hb)" by (simp add: ps_def len)
  let ?bs = "ep_bytes ep" and ?parsed = "parsed_of ?c es ps ?body checksum"
  have size: "byteLength ?bs \<le> packHardMax ?c" using facts(5) by (simp add: pack_size_ok_def)
  then have safe: "byteLength ?bs \<le> MAX_SAFE_INTEGER" using packHardMax_range(2) [of ?c] by linarith
  have file_eq: "?bs = pre @ checksum @ TRAILER_MAGIC" by (simp add: facts(1) pack_file_def pre_def)
  have id: "px_packId (ep_index ep) = toHex checksum" by (simp add: facts(2) parsed_of_def Let_def)
  have read: "readPackIndexInternal (bytes_source ?bs) expected = Inr ?parsed"
    by (rule readPackIndexInternal_complete [OF facts(1) ck facts(4,5)]) (use expected id in simp)
  have "src_byteLength (bytes_source ?bs) - (CHECKSUM_BYTES + byteLength TRAILER_MAGIC) = byteLength pre"
    using ck by (simp add: bytes_source_def file_eq CHECKSUM_BYTES_def SHA256_BYTE_LENGTH_def)
  moreover have "authenticated_prefix (bytes_source ?bs) (byteLength pre) 0 = Inr pre"
    using authenticated_prefix_bytes [OF safe, of 0 "byteLength pre"] by (simp add: file_eq slice_def)
  ultimately have hashed: "hashAuthenticatedPrefix v (bytes_source ?bs)
      (src_byteLength (bytes_source ?bs) - (CHECKSUM_BYTES + byteLength TRAILER_MAGIC)) = Inr checksum"
    by (simp add: hashAuthenticatedPrefix_def checksum_def)
  have "distinct (map representation ?recs)"
  proof -
    obtain layout where "preparePackLayout input = Inr layout"
      using assms(1) by (auto simp: encodePack_def encodePackInternal_def rbind_eq_Inr)
    then show ?thesis by (rule preparePackLayout_Inr(5))
  qed
  then have walk: "authenticate_records (bytes_source ?bs) ?parsed (length ?recs) (int 0) (byteLength ?hb + frames_length (take 0 ?recs))
      new_window [] = Inr (byteLength ?hb + frames_length ?recs)"
    unfolding ps facts(1)
    by (intro authenticate_records_ok [OF facts(6,7)]) (use size facts(1) in \<open>simp_all add: ps\<close>)
  have fields: "pp_expectedChecksum ?parsed = checksum" "hd_recordCount (pp_header ?parsed) = int (length ?recs)"
      "hd_byteLength (pp_header ?parsed) = byteLength ?hb" "pp_footerOffset ?parsed = byteLength ?hb + frames_length ?recs"
    by (simp_all add: parsed_of_def Let_def len frames_length_def)
  have "authenticatePackIndexInternal v (bytes_source ?bs) expected = Inr (pp_index ?parsed)"
    using walk expected id by (simp add: authenticatePackIndexInternal_def read hashed [simplified] fields)
  then show ?thesis using expected id by (auto simp: authenticatePackReader_def parsePackId_def ck facts(2) split: option.splits)
qed

text \<open>A published pack is authentic: the authenticating reader, which hashes the file, walks over all frames through its
  window and checks every delta against its base, accepts it and returns the same index.\<close>

theorem published_packs_authenticate:
  assumes "encodePack v input = Inr ep" and "\<And>bs. length (sha256 v bs) = 32"
  shows "authenticatePackReader v (bytes_source (ep_bytes ep)) (Some (px_packId (ep_index ep))) = Inr (ep_index ep) \<and>
    authenticatePackReader v (bytes_source (ep_bytes ep)) None = Inr (ep_index ep)"
  using published_authenticates [OF assms] by simp

theorem published_packs_authenticate_witness:
  "\<exists>ep. encodePack sample_verification sample_input = Inr ep \<and>
     authenticatePackReader sample_verification (bytes_source (ep_bytes ep)) (Some (px_packId (ep_index ep))) = Inr (ep_index ep)"
  using published_packs_authenticate [OF _ sample_hash] sample_published by blast

end
