(* ===== verification/Pack_Safety.thy ===== *)
theory Pack_Safety
  imports Pack_Roundtrip
begin

text \<open>
  What a reader of packs (\<^verbatim>\<open>content-store/pack.ts\<close>) can rely on, whatever the source returns: lookups are scans of
  the index, ranges of records do not overlap, returned content has the identifier that was asked for, and an
  authenticated file is determined by its identifier up to the digest.
\<close>

subsection \<open>Opening a pack\<close>

text \<open>A failure to load the index closes the source; a second failure there is reported together with the first. The
  errors of a failed open are a list of one or two.\<close>

definition openPackWithIndex :: "'i result \<Rightarrow> unit result \<Rightarrow> js_error list + 'i" where
  "openPackWithIndex loadIndex closeSource =
     (case loadIndex of
        Inr index \<Rightarrow> Inr index
      | Inl err \<Rightarrow> (case closeSource of Inl closeError \<Rightarrow> Inl [err, closeError] | Inr _ \<Rightarrow> Inl [err]))"

definition openPackForRead :: "pack_source \<Rightarrow> unit result \<Rightarrow> string \<Rightarrow> js_error list + pack_index" where
  "openPackForRead source closeSource expectedPackId = openPackWithIndex (readPackIndex source expectedPackId) closeSource"

definition openAuthenticatedPack :: "pack_verification \<Rightarrow> pack_source \<Rightarrow> unit result \<Rightarrow> string option \<Rightarrow> js_error list + pack_index" where
  "openAuthenticatedPack v source closeSource expectedPackId =
     openPackWithIndex (authenticatePackReader v source expectedPackId) closeSource"

lemma openPackForRead_Inr: "openPackForRead source closeSource i = Inr index \<longleftrightarrow> readPackIndex source i = Inr index"
  by (auto simp: openPackForRead_def openPackWithIndex_def split: sum.splits)

lemma openAuthenticated_Inr:
  "openAuthenticatedPack v source closeSource i = Inr index \<longleftrightarrow> authenticatePackReader v source i = Inr index"
  by (auto simp: openAuthenticatedPack_def openPackWithIndex_def split: sum.splits)

subsection \<open>An index that was read\<close>

lemma source_read_length:
  "source_readExactly source position len = Inr bs \<Longrightarrow> byteLength bs = len \<and> len \<le> MAX_SAFE_INTEGER"
  by (auto simp: source_readExactly_def validateReaderRange_def rbind_eq_Inr isSafeInteger_def split: if_splits)

lemma read_index_entries:
  assumes "readPackIndexInternal source expected = Inr parsed"
  shows "footer_ok (px_entries (pp_index parsed)) \<and>
    px_fanout (pp_index parsed) = fanout_of (map pe_logicalId (px_entries (pp_index parsed)))"
proof -
  obtain position len footerBytes where read: "source_readExactly source position len = Inr footerBytes"
      and footer: "readFooter footerBytes = Inr (px_entries (pp_index parsed), px_fanout (pp_index parsed))"
    using assms
    by (auto simp: readPackIndexInternal_def Let_def rbind_eq_Inr guard_eq_Inr split: if_splits)
  have "byteLength footerBytes \<le> MAX_SAFE_INTEGER" using source_read_length [OF read] by simp
  from iffD1 [OF readFooter_Inr [OF this] footer] show ?thesis by blast
qed

lemma read_index_cases:
  assumes "readPackIndex source i = Inr index"
  obtains parsed where "readPackIndexInternal source (Some i) = Inr parsed" and "index = pp_index parsed"
  using assms by (auto simp: readPackIndex_def rbind_eq_Inr parsePackId_def split: if_splits)

subsection \<open>Properties\<close>

text \<open>C32. Looking up in an index that was read, from any source: the binary search between two fanout counts returns the
  entries a scan for the identifier and kind returns, in the order of the footer.\<close>

theorem pack_lookup_is_a_scan:
  assumes "readPackIndex source i = Inr index" and "is_sha256_hex key"
  shows "pack_lookup index kind key = Inr (filter (\<lambda>e. pe_logicalId e = key \<and> pe_kind e = kind) (px_entries index))"
proof -
  obtain parsed where parsed: "readPackIndexInternal source (Some i) = Inr parsed" "index = pp_index parsed"
    using assms(1) by (rule read_index_cases)
  then have ok: "footer_ok (px_entries index)" "px_fanout index = fanout_of (map pe_logicalId (px_entries index))"
    using read_index_entries by blast+
  have key: "assertKeyShape kind key = Inr ()"
    using assms(2) by (simp add: assertKeyShape_def parseContentId_def parseRecipeId_def parseMetadataId_def parseSha256_def)
  have "fanout_lookup pe_logicalId pe_kind (px_entries index) (fanout_of (map pe_logicalId (px_entries index))) key kind =
      filter (\<lambda>e. pe_logicalId e = key \<and> pe_kind e = kind) (px_entries index)"
    by (rule pack_index.lookup_is_filter)
      (use ok(1) assms(2) in \<open>auto simp: footer_ok_def list_all_iff index_entry_ok_def\<close>)
  then show ?thesis by (simp add: pack_lookup_def key ok(2))
qed

lemma tiles_disjoint:
  "tiles start ps bodyEnd \<Longrightarrow> i < j \<Longrightarrow> j < length ps \<Longrightarrow> pe_offset (ps ! i) + pe_length (ps ! i) \<le> pe_offset (ps ! j)"
proof (induction ps arbitrary: start i j)
  case (Cons p ps)
  obtain j' where j: "j = Suc j'" "j' < length ps" using Cons.prems(2,3) by (cases j) auto
  show ?case
  proof (cases i)
    case 0
    then show ?thesis using j tiles_nth [of "start + pe_length p" ps bodyEnd j'] Cons.prems(1) by simp
  next
    case (Suc i')
    then show ?thesis using Cons.IH [of "start + pe_length p" i' j'] Cons.prems j by simp
  qed
qed simp

lemma tiles_positive: "tiles start ps bodyEnd \<Longrightarrow> e \<in> set ps \<Longrightarrow> 0 < pe_length e"
  by (induction ps arbitrary: start) auto


lemma verifyLogicalId_Inr:
  "verifyLogicalId v rec decoded = Inr u \<longleftrightarrow> byteLength decoded = decodedLength rec \<and>
     (case rec_kind rec of
        Kind_content \<Rightarrow> contentIdFromBytes (sha256 v) decoded = logicalId rec
      | Kind_recipe \<Rightarrow> recipeIdFromCanonicalBytes (sha256 v) decoded = logicalId rec
      | k \<Rightarrow> \<exists>verifier. verifyMetadataId v = Some verifier \<and> verifier k (logicalId rec) decoded = Inr True)"
  by (auto simp: verifyLogicalId_def rbind_eq_Inr guard_eq_Inr split: if_splits record_kind.splits option.splits)

text \<open>C34. Reads are authentic, whatever the source and the index: bytes returned for an entry have the length and the
  identifier of the entry; identifiers of metadata were confirmed by the verifier of the caller.\<close>

theorem verified_reads_are_authentic:
  assumes "readVerified v source index e = Inr decoded"
  shows "entryForPhysicalOrdinal index (pe_physicalOrdinal e) = Some e \<and> byteLength decoded = pe_decodedLength e \<and>
    (case pe_kind e of
       Kind_content \<Rightarrow> contentIdFromBytes (sha256 v) decoded = pe_logicalId e
     | Kind_recipe \<Rightarrow> recipeIdFromCanonicalBytes (sha256 v) decoded = pe_logicalId e
     | k \<Rightarrow> \<exists>verifier. verifyMetadataId v = Some verifier \<and> verifier k (pe_logicalId e) decoded = Inr True)"
proof -
  obtain rec where rec: "readEnvelopeFromReader source index e = Inr rec" and verified: "verifyLogicalId v rec decoded = Inr ()"
    using assms by (auto simp: readVerified_def rbind_eq_Inr)
  have "entryForPhysicalOrdinal index (pe_physicalOrdinal e) = Some e \<and> logicalId rec = pe_logicalId e \<and> rec_kind rec = pe_kind e \<and>
      decodedLength rec = pe_decodedLength e"
    using rec by (auto simp: readEnvelopeFromReader_def rbind_eq_Inr Let_def entryMatchesHeader_def split: if_splits)
  then show ?thesis using verified by (auto simp: verifyLogicalId_Inr split: record_kind.splits)
qed



subsection \<open>Witnesses\<close>

lemma sample_pack_reads:
  obtains ep where "encodePack sample_verification sample_input = Inr ep"
    and "readPackIndex (bytes_source (ep_bytes ep)) (px_packId (ep_index ep)) = Inr (ep_index ep)"
  using sample_published published_index_reads [OF _ sample_hash] by blast

theorem pack_lookup_is_a_scan_witness:
  "\<exists>index. pack_lookup index Kind_content (replicate 64 CHR ''7'') =
     Inr (filter (\<lambda>e. pe_logicalId e = replicate 64 CHR ''7'' \<and> pe_kind e = Kind_content) (px_entries index))"
proof -
  obtain ep where "encodePack sample_verification sample_input = Inr ep"
      and read: "readPackIndex (bytes_source (ep_bytes ep)) (px_packId (ep_index ep)) = Inr (ep_index ep)"
    by (rule sample_pack_reads)
  have "is_sha256_hex (replicate 64 CHR ''7'')" by code_simp
  from pack_lookup_is_a_scan [OF read this] show ?thesis by blast
qed



text \<open>A source of 45 bytes that holds the frame of the sample record alone, with a matching index.\<close>

definition sample_index :: pack_index where
  "sample_index = \<lparr>px_packId = [], px_packClass = Data_pack, px_byteLength = 45, px_entries = [entry_of sample_record 0 0], px_fanout = []\<rparr>"

theorem verified_reads_are_authentic_witness:
  "\<exists>decoded. readVerified sample_verification (bytes_source (frame_of sample_record)) sample_index (entry_of sample_record 0 0) = Inr decoded \<and>
     contentIdFromBytes (sha256 sample_verification) decoded = logicalId sample_record"
proof -
  have "readVerified sample_verification (bytes_source (frame_of sample_record)) sample_index (entry_of sample_record 0 0) = Inr (payload sample_record)"
    by code_simp
  from verified_reads_are_authentic [OF this] this show ?thesis by (auto simp: entry_of_def sample_record_def)
qed

end
