(* ===== verification/Pack_Handles.thy ===== *)
theory Pack_Handles
  imports Prelude
begin

text \<open>
  The lifetimes of open packs: the \<^verbatim>\<open>PackReader\<close> of \<^verbatim>\<open>content-store/pack.ts\<close>, whose \<^verbatim>\<open>close\<close> waits for reads in
  flight, and the \<^verbatim>\<open>PackHandlePool\<close> of \<^verbatim>\<open>content-store/pack-handle-pool.ts\<close>, a bounded pool whose leases hold a permit.
  Between two awaits a function of the source runs without interruption; such a stretch is one step here, and the steps
  of all callers interleave. A waiting caller may retry whenever its condition holds: wake-ups only narrow this down.
\<close>

subsection \<open>The reader of a pack\<close>

datatype close_state = Close_not_called | Close_waiting | Close_done

text \<open>The waiter of \<^verbatim>\<open>closeWaiter\<close>: absent, pending, or resolved. \<open>sourceCloses\<close> counts calls of \<^verbatim>\<open>source.close\<close>.\<close>

datatype drain_waiter = No_waiter | Pending_waiter | Resolved_waiter

record reader_state =
  acceptingReads :: bool
  activeReads :: nat
  drained :: drain_waiter
  closing :: close_state
  sourceCloses :: nat

definition new_reader_state :: reader_state where
  "new_reader_state = \<lparr>acceptingReads = True, activeReads = 0, drained = No_waiter, closing = Close_not_called, sourceCloses = 0\<rparr>"

text \<open>\<^verbatim>\<open>#withRead\<close> up to its action, and its \<^verbatim>\<open>finally\<close>.\<close>

definition begin_read :: "reader_state \<Rightarrow> reader_state result" where
  "begin_read s =
     (if \<not> acceptingReads s then Inl (PackFormatError Pack_invalid_input)
      else Inr (s\<lparr>activeReads := activeReads s + 1\<rparr>))"

definition end_read :: "reader_state \<Rightarrow> reader_state" where
  "end_read s =
     (let s = s\<lparr>activeReads := activeReads s - 1\<rparr> in
      if activeReads s = 0 \<and> drained s \<noteq> No_waiter then s\<lparr>drained := Resolved_waiter\<rparr> else s)"

text \<open>\<^verbatim>\<open>close\<close> up to its first await, and the rest behind the drained waiter.\<close>

definition close_reader :: "reader_state \<Rightarrow> reader_state" where
  "close_reader s =
     (if closing s \<noteq> Close_not_called then s
      else let s = s\<lparr>acceptingReads := False\<rparr> in
        if activeReads s \<noteq> 0 then s\<lparr>drained := (if drained s = No_waiter then Pending_waiter else drained s), closing := Close_waiting\<rparr>
        else s\<lparr>closing := Close_done, sourceCloses := sourceCloses s + 1\<rparr>)"

definition close_drained :: "reader_state \<Rightarrow> reader_state" where
  "close_drained s = s\<lparr>closing := Close_done, sourceCloses := sourceCloses s + 1\<rparr>"

inductive reader_step :: "reader_state \<Rightarrow> reader_state \<Rightarrow> bool" where
  read_starts: "begin_read s = Inr s' \<Longrightarrow> reader_step s s'"
| read_ends: "0 < activeReads s \<Longrightarrow> reader_step s (end_read s)"
| close_called: "reader_step s (close_reader s)"
| close_continues: "closing s = Close_waiting \<Longrightarrow> drained s = Resolved_waiter \<Longrightarrow> reader_step s (close_drained s)"

inductive_cases reader_stepE: "reader_step s s'"

definition reader_inv :: "reader_state \<Rightarrow> bool" where
  "reader_inv s \<longleftrightarrow> (acceptingReads s \<longleftrightarrow> closing s = Close_not_called) \<and>
     (closing s = Close_not_called \<longrightarrow> drained s = No_waiter \<and> sourceCloses s = 0) \<and>
     (closing s = Close_waiting \<longrightarrow> sourceCloses s = 0 \<and>
        (if activeReads s = 0 then drained s = Resolved_waiter else drained s = Pending_waiter)) \<and>
     (closing s = Close_done \<longrightarrow> sourceCloses s = 1 \<and> activeReads s = 0)"

lemma reader_inv_step: "reader_step s s' \<Longrightarrow> reader_inv s \<Longrightarrow> reader_inv s'"
  by (erule reader_stepE)
    (auto simp: reader_inv_def begin_read_def end_read_def close_reader_def close_drained_def Let_def split: if_splits)

lemma reader_inv_reachable: "reader_step\<^sup>*\<^sup>* new_reader_state s \<Longrightarrow> reader_inv s"
  by (induction rule: rtranclp_induct) (auto simp: reader_inv_step, simp add: reader_inv_def new_reader_state_def)

subsection \<open>The pool\<close>

datatype handle_open = Open_pending | Open_found | Open_missing | Open_failed

datatype retirement = No_retirement | Retiring | Retired bool

record cached_handle =
  ch_pending :: handle_open
  ch_users :: nat
  ch_retirement :: retirement

text \<open>Where an \<^verbatim>\<open>acquire\<close> call stands: waiting for a permit, in \<^verbatim>\<open>#reserve\<close>, waiting there for a retirement, waiting for the
  open of its entry, holding the lease, waiting in \<^verbatim>\<open>release\<close> for the retirement of its entry, or returned. \<open>Violated\<close> is
  the error that the capacity invariant was violated.\<close>

datatype acquire_state =
    Wanting string
  | Reserving string
  | Awaiting string nat
  | Opening string nat
  | Leased string nat
  | Draining nat
  | Returned
  | Violated

text \<open>The \<^verbatim>\<open>Map\<close> keeps insertion order; its values are references into \<open>handles\<close>.\<close>

record handle_pool =
  maximumHandles :: nat
  poolEntries :: "(string \<times> nat) list"
  handles :: "cached_handle list"
  availablePermits :: nat
  activeLeases :: nat
  poolClosed :: bool
  callers :: "acquire_state list"

definition new_pool :: "nat \<Rightarrow> handle_pool" where
  "new_pool n = \<lparr>maximumHandles = n, poolEntries = [], handles = [], availablePermits = n, activeLeases = 0, poolClosed = False, callers = []\<rparr>"

definition returnPermit :: "handle_pool \<Rightarrow> handle_pool" where
  "returnPermit p = p\<lparr>availablePermits := min (maximumHandles p) (availablePermits p + 1)\<rparr>"

definition set_caller :: "nat \<Rightarrow> acquire_state \<Rightarrow> handle_pool \<Rightarrow> handle_pool" where
  "set_caller i a p = p\<lparr>callers := (callers p)[i := a]\<rparr>"

definition update_handle :: "nat \<Rightarrow> (cached_handle \<Rightarrow> cached_handle) \<Rightarrow> handle_pool \<Rightarrow> handle_pool" where
  "update_handle e f p = p\<lparr>handles := (handles p)[e := f (handles p ! e)]\<rparr>"

definition activate :: "nat \<Rightarrow> handle_pool \<Rightarrow> handle_pool" where
  "activate e p = (update_handle e (\<lambda>h. h\<lparr>ch_users := ch_users h + 1\<rparr>) p)\<lparr>activeLeases := activeLeases p + 1\<rparr>"

definition deleteEntry :: "string \<Rightarrow> nat \<Rightarrow> handle_pool \<Rightarrow> handle_pool" where
  "deleteEntry packId e p = p\<lparr>poolEntries := filter (\<lambda>x. x \<noteq> (packId, e)) (poolEntries p)\<rparr>"

definition retire :: "nat \<Rightarrow> handle_pool \<Rightarrow> handle_pool" where
  "retire e p =
     (if ch_retirement (handles p ! e) \<noteq> No_retirement then p
      else update_handle e (\<lambda>h. h\<lparr>ch_retirement := Retiring\<rparr>) p)"

text \<open>\<^verbatim>\<open>#takePermit\<close>: nothing happens while no permit is left and the pool is open.\<close>

definition takePermit :: "nat \<Rightarrow> string \<Rightarrow> handle_pool \<Rightarrow> handle_pool option" where
  "takePermit i packId p =
     (if availablePermits p = 0 \<and> \<not> poolClosed p then None
      else if poolClosed p then Some (set_caller i Returned p)
      else Some (set_caller i (Reserving packId) (p\<lparr>availablePermits := availablePermits p - 1\<rparr>)))"

text \<open>One round of the loop of \<^verbatim>\<open>#reserve\<close>, with the checks of the caller for a closed pool.\<close>

definition reserve :: "nat \<Rightarrow> string \<Rightarrow> handle_pool \<Rightarrow> handle_pool" where
  "reserve i packId p =
     (if poolClosed p then set_caller i Returned (returnPermit p)
      else case map_of (poolEntries p) packId of
        Some e \<Rightarrow>
          if ch_retirement (handles p ! e) \<noteq> No_retirement then set_caller i (Awaiting packId e) p
          else let p = p\<lparr>poolEntries := filter (\<lambda>x. fst x \<noteq> packId) (poolEntries p) @ [(packId, e)]\<rparr>
               in set_caller i (Opening packId e) (activate e p)
      | None \<Rightarrow>
          if length (poolEntries p) < maximumHandles p
          then let e = length (handles p);
                   p = p\<lparr>handles := handles p @ [\<lparr>ch_pending = Open_pending, ch_users = 0, ch_retirement = No_retirement\<rparr>],
                     poolEntries := poolEntries p @ [(packId, e)]\<rparr>
               in set_caller i (Opening packId e) (activate e p)
          else case find (\<lambda>(_, e). ch_retirement (handles p ! e) = No_retirement \<and> ch_users (handles p ! e) = 0) (poolEntries p) of
            Some (_, e) \<Rightarrow> set_caller i (Awaiting packId e) (retire e p)
          | None \<Rightarrow>
              case find (\<lambda>(_, e). ch_retirement (handles p ! e) \<noteq> No_retirement \<and> ch_users (handles p ! e) = 0) (poolEntries p) of
                Some (_, e) \<Rightarrow> set_caller i (Awaiting packId e) p
              | None \<Rightarrow> set_caller i Violated (returnPermit p))"

text \<open>A retirement settled: the reservation tries again, or throws what closing the handle threw.\<close>

definition retirement_awaited :: "nat \<Rightarrow> string \<Rightarrow> bool \<Rightarrow> handle_pool \<Rightarrow> handle_pool" where
  "retirement_awaited i packId ok p =
     (if ok then set_caller i (Reserving packId) p else set_caller i Returned (returnPermit p))"

text \<open>\<^verbatim>\<open>release\<close> up to its await, and its \<^verbatim>\<open>finally\<close>.\<close>

definition finish_release :: "nat \<Rightarrow> handle_pool \<Rightarrow> handle_pool" where
  "finish_release i p = set_caller i Returned (returnPermit (p\<lparr>activeLeases := activeLeases p - 1\<rparr>))"

definition release :: "nat \<Rightarrow> nat \<Rightarrow> handle_pool \<Rightarrow> handle_pool" where
  "release i e p =
     (let p = update_handle e (\<lambda>h. h\<lparr>ch_users := ch_users h - 1\<rparr>) p in
      if ch_users (handles p ! e) = 0 \<and> ch_retirement (handles p ! e) \<noteq> No_retirement then set_caller i (Draining e) p
      else finish_release i p)"

text \<open>The open of the entry settled; \<open>sameIdentity\<close> is the comparison with the expected identity.\<close>

definition acquire_opened :: "nat \<Rightarrow> string \<Rightarrow> nat \<Rightarrow> bool \<Rightarrow> handle_pool \<Rightarrow> handle_pool" where
  "acquire_opened i packId e sameIdentity p =
     (case ch_pending (handles p ! e) of
        Open_pending \<Rightarrow> p
      | Open_found \<Rightarrow> if sameIdentity then set_caller i (Leased packId e) p else release i e p
      | _ \<Rightarrow> release i e (if ch_retirement (handles p ! e) = No_retirement then deleteEntry packId e p else p))"

text \<open>The body of a retirement behind its awaits: the handle was closed, or closing it or opening it failed.\<close>

definition finish_retirement :: "string \<Rightarrow> nat \<Rightarrow> bool \<Rightarrow> handle_pool \<Rightarrow> handle_pool" where
  "finish_retirement packId e closedOk p =
     deleteEntry packId e (update_handle e
       (\<lambda>h. h\<lparr>ch_retirement := Retired (ch_pending h = Open_missing \<or> ch_pending h = Open_found \<and> closedOk)\<rparr>) p)"

definition invalidate :: "string \<Rightarrow> handle_pool \<Rightarrow> handle_pool" where
  "invalidate packId p = (case map_of (poolEntries p) packId of None \<Rightarrow> p | Some e \<Rightarrow> retire e p)"

definition close_pool :: "handle_pool \<Rightarrow> handle_pool" where
  "close_pool p = p\<lparr>poolClosed := True\<rparr>"

text \<open>The rest of \<^verbatim>\<open>close\<close>: with no active lease left, every entry is retired.\<close>

definition close_retires :: "handle_pool \<Rightarrow> handle_pool" where
  "close_retires p = fold (\<lambda>(_, e). retire e) (poolEntries p) p"

inductive pool_step :: "handle_pool \<Rightarrow> handle_pool \<Rightarrow> bool" where
  acquire_called: "pool_step p (p\<lparr>callers := callers p @ [Wanting packId]\<rparr>)"
| permit_taken: "i < length (callers p) \<Longrightarrow> callers p ! i = Wanting packId \<Longrightarrow> takePermit i packId p = Some p' \<Longrightarrow> pool_step p p'"
| reserved: "i < length (callers p) \<Longrightarrow> callers p ! i = Reserving packId \<Longrightarrow> pool_step p (reserve i packId p)"
| retirement_settled: "i < length (callers p) \<Longrightarrow> callers p ! i = Awaiting packId e \<Longrightarrow> ch_retirement (handles p ! e) = Retired ok \<Longrightarrow>
    pool_step p (retirement_awaited i packId ok p)"
| open_settled: "e < length (handles p) \<Longrightarrow> ch_pending (handles p ! e) = Open_pending \<Longrightarrow>
    pool_step p (update_handle e (\<lambda>h. h\<lparr>ch_pending := outcome\<rparr>) p)"
| opened: "i < length (callers p) \<Longrightarrow> callers p ! i = Opening packId e \<Longrightarrow> ch_pending (handles p ! e) \<noteq> Open_pending \<Longrightarrow>
    pool_step p (acquire_opened i packId e sameIdentity p)"
| released: "i < length (callers p) \<Longrightarrow> callers p ! i = Leased packId e \<Longrightarrow> pool_step p (release i e p)"
| release_drained: "i < length (callers p) \<Longrightarrow> callers p ! i = Draining e \<Longrightarrow> ch_retirement (handles p ! e) = Retired ok \<Longrightarrow>
    pool_step p (finish_release i p)"
| retired: "e < length (handles p) \<Longrightarrow> ch_retirement (handles p ! e) = Retiring \<Longrightarrow> ch_users (handles p ! e) = 0 \<Longrightarrow>
    ch_pending (handles p ! e) \<noteq> Open_pending \<Longrightarrow> list_all (\<lambda>(k, x). x = e \<longrightarrow> k = packId) (poolEntries p) \<Longrightarrow>
    pool_step p (finish_retirement packId e closedOk p)"
| invalidated: "pool_step p (invalidate packId p)"
| closed: "pool_step p (close_pool p)"
| close_drains: "poolClosed p \<Longrightarrow> activeLeases p = 0 \<Longrightarrow> pool_step p (close_retires p)"

inductive_cases pool_stepE: "pool_step p p'"


subsection \<open>Counting callers\<close>

fun holds_permit :: "acquire_state \<Rightarrow> bool" where
  "holds_permit (Reserving k) \<longleftrightarrow> True"
| "holds_permit (Awaiting k e) \<longleftrightarrow> True"
| "holds_permit (Opening k e) \<longleftrightarrow> True"
| "holds_permit (Leased k e) \<longleftrightarrow> True"
| "holds_permit (Draining e) \<longleftrightarrow> True"
| "holds_permit a \<longleftrightarrow> False"

fun uses :: "nat \<Rightarrow> acquire_state \<Rightarrow> bool" where
  "uses e (Opening k x) \<longleftrightarrow> x = e"
| "uses e (Leased k x) \<longleftrightarrow> x = e"
| "uses e a \<longleftrightarrow> False"

fun leasing :: "acquire_state \<Rightarrow> bool" where
  "leasing (Opening k e) \<longleftrightarrow> True"
| "leasing (Leased k e) \<longleftrightarrow> True"
| "leasing (Draining e) \<longleftrightarrow> True"
| "leasing a \<longleftrightarrow> False"

fun refers :: "nat \<Rightarrow> acquire_state \<Rightarrow> bool" where
  "refers n (Awaiting k e) \<longleftrightarrow> e < n"
| "refers n (Opening k e) \<longleftrightarrow> e < n"
| "refers n (Leased k e) \<longleftrightarrow> e < n"
| "refers n (Draining e) \<longleftrightarrow> e < n"
| "refers n a \<longleftrightarrow> True"

definition count_callers :: "(acquire_state \<Rightarrow> bool) \<Rightarrow> acquire_state list \<Rightarrow> nat" where
  "count_callers P as = length (filter P as)"

lemma count_callers_simps [simp]:
  "count_callers P [] = 0" "count_callers P (a # as) = (if P a then 1 else 0) + count_callers P as"
  "count_callers P (as @ bs) = count_callers P as + count_callers P bs"
  by (simp_all add: count_callers_def)

lemma count_update:
  "i < length as \<Longrightarrow> count_callers P (as[i := a]) + (if P (as ! i) then 1 else 0) = count_callers P as + (if P a then 1 else 0)"
proof (induction as arbitrary: i)
  case (Cons x as)
  then show ?case by (cases i) auto
qed simp

lemma count_update_same: "i < length as \<Longrightarrow> P (as ! i) = P a \<Longrightarrow> count_callers P (as[i := a]) = count_callers P as"
  using count_update [of i as P a] by simp

lemma count_pos: "i < length as \<Longrightarrow> P (as ! i) \<Longrightarrow> 0 < count_callers P as"
  by (auto simp: count_callers_def filter_empty_conv)

lemma count_zero: "(\<And>a. a \<in> set as \<Longrightarrow> \<not> P a) \<Longrightarrow> count_callers P as = 0"
  by (simp add: count_callers_def filter_empty_conv)

definition using_any :: "acquire_state \<Rightarrow> bool" where
  "using_any a \<longleftrightarrow> (case a of Opening k e \<Rightarrow> True | Leased k e \<Rightarrow> True | _ \<Rightarrow> False)"

lemma users_sum: "distinct es \<Longrightarrow> sum_list (map (\<lambda>e. count_callers (uses e) as) es) \<le> count_callers using_any as"
proof (induction as)
  case (Cons a as)
  have one: "sum_list (map (\<lambda>e. if uses e a then 1 else 0) es) \<le> (if using_any a then 1 else (0 :: nat))"
  proof -
    have "sum_list (map (\<lambda>e. if x = e then 1 else 0) es) \<le> (1 :: nat)" for x
      using Cons.prems by (induction es) (auto simp: sum_list_eq_0_iff)
    then show ?thesis by (cases a) (auto simp: using_any_def sum_list_eq_0_iff)
  qed
  then show ?case using Cons by (simp add: sum_list_addf)
qed (induction es, auto)

subsection \<open>The invariant\<close>

definition pool_inv :: "handle_pool \<Rightarrow> bool" where
  "pool_inv p \<longleftrightarrow>
     availablePermits p + count_callers holds_permit (callers p) = maximumHandles p \<and>
     activeLeases p = count_callers leasing (callers p) \<and>
     (\<forall>e < length (handles p). ch_users (handles p ! e) = count_callers (uses e) (callers p)) \<and>
     list_all (refers (length (handles p))) (callers p) \<and>
     distinct (map fst (poolEntries p)) \<and> distinct (map snd (poolEntries p)) \<and>
     (\<forall>x \<in> set (poolEntries p). snd x < length (handles p)) \<and> length (poolEntries p) \<le> maximumHandles p \<and>
     (\<forall>e < length (handles p). \<forall>ok. ch_retirement (handles p ! e) = Retired ok \<longrightarrow> ch_users (handles p ! e) = 0) \<and>
     Violated \<notin> set (callers p)"

text \<open>The heart of it: a caller inside \<^verbatim>\<open>#reserve\<close> holds a permit and uses no entry, so some entry of a full pool is unused.\<close>

lemma full_pool_has_unused:
  assumes inv: "pool_inv p" and i: "i < length (callers p)" "callers p ! i = Reserving k" and "length (poolEntries p) = maximumHandles p"
  shows "\<exists>x \<in> set (poolEntries p). ch_users (handles p ! snd x) = 0"
proof (rule ccontr)
  assume "\<not> ?thesis"
  then have each: "1 \<le> count_callers (uses (snd x)) (callers p)" if "x \<in> set (poolEntries p)" for x
    using inv that by (fastforce simp: pool_inv_def)
  have bound: "length xs \<le> sum_list (map f xs)" if "\<And>x. x \<in> set xs \<Longrightarrow> 1 \<le> f x" for f :: "'x \<Rightarrow> nat" and xs
    using that by (induction xs) fastforce+
  have "length (map snd (poolEntries p)) \<le> sum_list (map (\<lambda>e. count_callers (uses e) (callers p)) (map snd (poolEntries p)))"
    by (rule bound) (use each in auto)
  then have "length (poolEntries p) \<le> sum_list (map (\<lambda>e. count_callers (uses e) (callers p)) (map snd (poolEntries p)))"
    by simp
  also have "\<dots> \<le> count_callers using_any (callers p)" using inv by (intro users_sum) (simp add: pool_inv_def)
  also have "\<dots> < count_callers holds_permit (callers p)"
  proof -
    have "count_callers using_any ((callers p)[i := Returned]) \<le> count_callers holds_permit ((callers p)[i := Returned])"
    proof -
      have "count_callers using_any as \<le> count_callers holds_permit as" for as
        by (induction as) (auto simp: using_any_def split: acquire_state.splits)
      then show ?thesis .
    qed
    then show ?thesis using count_update [OF i(1), of using_any Returned] count_update [OF i(1), of holds_permit Returned] i(2)
      by (simp add: using_any_def)
  qed
  finally show False using inv assms(4) by (simp add: pool_inv_def)
qed


lemma inv_caller:
  assumes inv: "pool_inv p" and i: "i < length (callers p)" and same: "\<And>e. uses e a = uses e (callers p ! i)" "leasing a = leasing (callers p ! i)"
    "holds_permit a = holds_permit (callers p ! i)" and "refers (length (handles p)) a" and "a \<noteq> Violated"
  shows "pool_inv (set_caller i a p)"
proof -
  have "count_callers (uses e) ((callers p)[i := a]) = count_callers (uses e) (callers p)" for e
    by (rule count_update_same [OF i]) (simp add: same)
  moreover have "count_callers leasing ((callers p)[i := a]) = count_callers leasing (callers p)"
      "count_callers holds_permit ((callers p)[i := a]) = count_callers holds_permit (callers p)"
    by (rule count_update_same [OF i], simp add: same)+
  ultimately show ?thesis
    using inv assms(6,7) set_update_subset_insert [of "callers p" i a] by (auto simp: pool_inv_def set_caller_def list_all_iff)
qed

lemma inv_return:
  assumes inv: "pool_inv p" and i: "i < length (callers p)" and was: "holds_permit (callers p ! i)" "\<not> leasing (callers p ! i)"
  shows "pool_inv (set_caller i Returned (returnPermit p))"
proof -
  have "uses e (callers p ! i) = uses e Returned" for e using was by (cases "callers p ! i") auto
  then have uses: "count_callers (uses e) ((callers p)[i := Returned]) = count_callers (uses e) (callers p)" for e
    by (rule count_update_same [OF i])
  show ?thesis
    using inv was count_update [OF i, of holds_permit Returned] count_update_same [OF i, of leasing Returned]
      uses set_update_subset_insert [of "callers p" i Returned]
    by (auto simp: pool_inv_def set_caller_def returnPermit_def list_all_iff)
qed

lemma inv_handle:
  assumes "pool_inv p" and "ch_users (f (handles p ! e)) = ch_users (handles p ! e)"
    and "\<And>ok. ch_retirement (f (handles p ! e)) = Retired ok \<Longrightarrow> ch_users (handles p ! e) = 0"
  shows "pool_inv (update_handle e f p)"
proof (cases "e < length (handles p)")
  case True
  then show ?thesis using assms by (auto simp: pool_inv_def update_handle_def nth_list_update)
next
  case False
  then show ?thesis using assms(1) by (simp add: update_handle_def list_update_beyond)
qed

lemma inv_entries:
  assumes "pool_inv p" and "distinct (map fst xs)" and "distinct (map snd xs)" and "set xs \<subseteq> set (poolEntries p)" and "length xs \<le> length (poolEntries p)"
  shows "pool_inv (p\<lparr>poolEntries := xs\<rparr>)"
  using assms by (auto simp: pool_inv_def)

lemma inv_delete: "pool_inv p \<Longrightarrow> pool_inv (deleteEntry k e p)"
  unfolding deleteEntry_def by (rule inv_entries) (auto simp: pool_inv_def distinct_map_filter)

lemma inv_retire: "pool_inv p \<Longrightarrow> pool_inv (retire e p)"
  by (auto simp: retire_def intro: inv_handle)

lemma inv_activate:
  assumes inv: "pool_inv p" and i: "i < length (callers p)" "callers p ! i = Reserving k"
    and e: "e < length (handles p)" "ch_retirement (handles p ! e) = No_retirement"
  shows "pool_inv (set_caller i (Opening k' e) (activate e p))"
proof -
  have "count_callers (uses x) ((callers p)[i := Opening k' e]) = count_callers (uses x) (callers p) + (if x = e then 1 else 0)" for x
    using count_update [OF i(1), of "uses x" "Opening k' e"] i(2) by auto
  moreover have "count_callers leasing ((callers p)[i := Opening k' e]) = count_callers leasing (callers p) + 1"
    using count_update [OF i(1), of leasing "Opening k' e"] i(2) by simp
  moreover have "count_callers holds_permit ((callers p)[i := Opening k' e]) = count_callers holds_permit (callers p)"
    using count_update_same [OF i(1), of holds_permit "Opening k' e"] i(2) by simp
  ultimately show ?thesis
    using inv e set_update_subset_insert [of "callers p" i "Opening k' e"]
    by (auto simp: pool_inv_def set_caller_def activate_def update_handle_def nth_list_update list_all_iff)
qed

lemma inv_finish_release:
  assumes inv: "pool_inv p" and i: "i < length (callers p)" "leasing (callers p ! i)" "\<And>e. \<not> uses e (callers p ! i)"
  shows "pool_inv (finish_release i p)"
proof -
  have holds: "holds_permit (callers p ! i)" using i(2) by (cases "callers p ! i") auto
  have users: "count_callers (uses e) ((callers p)[i := Returned]) = count_callers (uses e) (callers p)" for e
    by (rule count_update_same [OF i(1)]) (simp add: i(3))
  show ?thesis
    using inv i(2,3) holds count_update [OF i(1), of holds_permit Returned] count_update [OF i(1), of leasing Returned]
      users set_update_subset_insert [of "callers p" i Returned]
    by (auto simp: pool_inv_def finish_release_def set_caller_def returnPermit_def list_all_iff)
qed

lemma inv_release:
  assumes inv: "pool_inv p" and i: "i < length (callers p)" "callers p ! i = Opening k e \<or> callers p ! i = Leased k e"
  shows "pool_inv (release i e p)"
proof -
  define p' where "p' = update_handle e (\<lambda>h. h\<lparr>ch_users := ch_users h - 1\<rparr>) p"
  have e: "e < length (handles p)" using inv i by (auto simp: pool_inv_def list_all_length)
  have callers: "callers p' = callers p" by (simp add: p'_def update_handle_def)
  have mid: "pool_inv (set_caller i (Draining e) p')"
  proof -
    have users: "count_callers (uses x) ((callers p)[i := Draining e]) + (if x = e then 1 else 0) = count_callers (uses x) (callers p)" for x
      using count_update [OF i(1), of "uses x" "Draining e"] i(2) by auto
    have "count_callers leasing ((callers p)[i := Draining e]) = count_callers leasing (callers p)"
        "count_callers holds_permit ((callers p)[i := Draining e]) = count_callers holds_permit (callers p)"
      using count_update_same [OF i(1), of leasing "Draining e"] count_update_same [OF i(1), of holds_permit "Draining e"] i(2) by auto
    moreover have "ch_users (handles p' ! x) = count_callers (uses x) ((callers p)[i := Draining e])" if "x < length (handles p)" for x
    proof -
      have "ch_users (handles p ! x) = count_callers (uses x) (callers p)" using inv that by (simp add: pool_inv_def)
      then show ?thesis using users [of x] that e by (simp add: p'_def update_handle_def nth_list_update split: if_splits)
    qed
    moreover have "ch_users (handles p' ! x) = 0" if "x < length (handles p)" "ch_retirement (handles p' ! x) = Retired ok" for x ok
    proof -
      have "ch_retirement (handles p ! x) = Retired ok" using that e by (simp add: p'_def update_handle_def nth_list_update split: if_splits)
      then have "ch_users (handles p ! x) = 0" using inv that(1) by (auto simp: pool_inv_def)
      then show ?thesis using that(1) e by (simp add: p'_def update_handle_def nth_list_update)
    qed
    ultimately show ?thesis
      using inv e set_update_subset_insert [of "callers p" i "Draining e"]
      by (auto simp: pool_inv_def set_caller_def p'_def update_handle_def list_all_iff)
  qed
  have "pool_inv (finish_release i (set_caller i (Draining e) p'))"
    by (rule inv_finish_release [OF mid]) (use i callers in \<open>simp_all add: set_caller_def\<close>)
  moreover have "finish_release i (set_caller i (Draining e) p') = finish_release i p'"
    by (simp add: finish_release_def set_caller_def returnPermit_def)
  ultimately show ?thesis using mid unfolding release_def p'_def [symmetric] Let_def by simp
qed


lemma inv_new_handle:
  assumes inv: "pool_inv p" and new: "packId \<notin> fst ` set (poolEntries p)" and room: "length (poolEntries p) < maximumHandles p"
  defines "e \<equiv> length (handles p)"
  shows "pool_inv (p\<lparr>handles := handles p @ [\<lparr>ch_pending = Open_pending, ch_users = 0, ch_retirement = No_retirement\<rparr>],
    poolEntries := poolEntries p @ [(packId, e)]\<rparr>)"
proof -
  have "refers n a \<Longrightarrow> \<not> uses n a" "refers n a \<Longrightarrow> refers (Suc n) a" for n a by (cases a; simp)+
  then have "count_callers (uses e) (callers p) = 0" "list_all (refers (Suc (length (handles p)))) (callers p)"
    using inv by (auto simp: pool_inv_def list_all_iff e_def intro!: count_zero)
  then show ?thesis
    using inv new room by (auto simp: pool_inv_def e_def nth_append less_Suc_eq)
qed

lemma inv_reserve:
  assumes inv: "pool_inv p" and i: "i < length (callers p)" "callers p ! i = Reserving packId"
  shows "pool_inv (reserve i packId p)"
proof -
  have valid: "e < length (handles p)" if "(k, e) \<in> set (poolEntries p)" for k e using inv that by (auto simp: pool_inv_def)
  have await: "pool_inv (set_caller i (Awaiting packId e) q)"
    if "pool_inv q" "callers q = callers p" "e < length (handles q)" for e q
    by (rule inv_caller) (use that i in auto)
  show ?thesis
  proof (cases "map_of (poolEntries p) packId")
    case (Some e)
    then have e: "(packId, e) \<in> set (poolEntries p)" by (rule map_of_SomeD)
    let ?xs = "filter (\<lambda>x. fst x \<noteq> packId) (poolEntries p) @ [(packId, e)]"
    have "pool_inv (set_caller i (Opening packId e) (activate e (p\<lparr>poolEntries := ?xs\<rparr>)))"
      if "ch_retirement (handles p ! e) = No_retirement"
    proof (rule inv_activate)
      have d: "distinct (map fst (poolEntries p))" "distinct (map snd (poolEntries p))" using inv by (auto simp: pool_inv_def)
      have other: "x = (packId, e)" if "x \<in> set (poolEntries p)" "snd x = e" for x
        using d(2) that inj_onD [of snd "set (poolEntries p)" x "(packId, e)"] e by (simp add: distinct_map)
      have "length (filter (\<lambda>x. fst x \<noteq> packId) (poolEntries p)) < length (poolEntries p)"
        using e by (intro length_filter_less) auto
      then have "length ?xs \<le> length (poolEntries p)" by simp
      moreover have "e \<notin> snd ` set (filter (\<lambda>x. fst x \<noteq> packId) (poolEntries p))" using other by fastforce
      then have "distinct (map snd ?xs)" using d(2) by (simp add: distinct_map_filter)
      moreover have "distinct (map fst ?xs)" using d(1) by (auto simp: distinct_map_filter)
      ultimately show "pool_inv (p\<lparr>poolEntries := ?xs\<rparr>)" using e by (intro inv_entries [OF inv]) auto
    qed (use that i valid [OF e] in simp_all)
    then show ?thesis
      using inv_return [OF inv i(1)] await [OF inv refl valid [OF e]] i(2) by (simp add: reserve_def Some Let_def)
  next
    case None
    then have new: "packId \<notin> fst ` set (poolEntries p)" by (simp add: map_of_eq_None_iff)
    show ?thesis
    proof (cases "length (poolEntries p) < maximumHandles p")
      case True
      let ?q = "p\<lparr>handles := handles p @ [\<lparr>ch_pending = Open_pending, ch_users = 0, ch_retirement = No_retirement\<rparr>],
        poolEntries := poolEntries p @ [(packId, length (handles p))]\<rparr>"
      have "pool_inv (set_caller i (Opening packId (length (handles p))) (activate (length (handles p)) ?q))"
        by (rule inv_activate [OF inv_new_handle [OF inv new True]]) (use i in simp_all)
      then show ?thesis using inv_return [OF inv i(1)] i(2) True by (simp add: reserve_def None Let_def)
    next
      case False
      then have "length (poolEntries p) = maximumHandles p" using inv by (simp add: pool_inv_def)
      then obtain k e where unused: "(k, e) \<in> set (poolEntries p)" "ch_users (handles p ! e) = 0"
        using full_pool_has_unused [OF inv i] by auto
      let ?idle = "find (\<lambda>(_, e). ch_retirement (handles p ! e) = No_retirement \<and> ch_users (handles p ! e) = 0) (poolEntries p)"
      let ?retiring = "find (\<lambda>(_, e). ch_retirement (handles p ! e) \<noteq> No_retirement \<and> ch_users (handles p ! e) = 0) (poolEntries p)"
      have member: "find P xs = Some x \<Longrightarrow> x \<in> set xs" for P and xs :: "(string \<times> nat) list" and x
        by (auto simp: find_Some_iff)
      show ?thesis
      proof (cases ?idle)
        case idle: (Some x)
        have "snd x < length (handles p)" using member [OF idle] valid [of "fst x" "snd x"] by simp
        then have "pool_inv (set_caller i (Awaiting packId (snd x)) (retire (snd x) p))"
          by (intro await inv_retire [OF inv]) (auto simp: retire_def update_handle_def)
        then show ?thesis using inv_return [OF inv i(1)] i(2) None False idle by (cases x) (simp add: reserve_def)
      next
        case busy: None
        have "?retiring \<noteq> None"
          using busy unused unfolding find_None_iff by fastforce
        then obtain x where retiring: "?retiring = Some x" by blast
        have "snd x < length (handles p)" using member [OF retiring] valid [of "fst x" "snd x"] by simp
        then have "pool_inv (set_caller i (Awaiting packId (snd x)) p)" by (intro await inv) auto
        then show ?thesis using inv_return [OF inv i(1)] i(2) None False busy retiring by (cases x) (simp add: reserve_def)
      qed
    qed
  qed
qed

lemma inv_retires: "pool_inv p \<Longrightarrow> pool_inv (fold (\<lambda>(_, e). retire e) xs p)"
  by (induction xs arbitrary: p) (auto intro: inv_retire)

lemma pool_inv_step: "pool_step p p' \<Longrightarrow> pool_inv p \<Longrightarrow> pool_inv p'"
proof (induction rule: pool_step.induct)
  case (acquire_called p packId)
  then show ?case by (auto simp: pool_inv_def)
next
  case (permit_taken i p packId p')
  show ?case
  proof (cases "poolClosed p")
    case True
    have "pool_inv (set_caller i Returned p)" by (rule inv_caller) (use permit_taken in auto)
    then show ?thesis using permit_taken True by (simp add: takePermit_def)
  next
    case False
    let ?a = "Reserving packId"
    have free: "0 < availablePermits p" and p': "p' = set_caller i ?a (p\<lparr>availablePermits := availablePermits p - 1\<rparr>)"
      using permit_taken.hyps(3) False by (auto simp: takePermit_def split: if_splits)
    have users: "count_callers (uses e) ((callers p)[i := ?a]) = count_callers (uses e) (callers p)" for e
      by (rule count_update_same [OF permit_taken.hyps(1)]) (simp add: permit_taken.hyps(2))
    show ?thesis
      using permit_taken.prems free users count_update [OF permit_taken.hyps(1), of holds_permit ?a] permit_taken.hyps(2)
        count_update [OF permit_taken.hyps(1), of leasing ?a] set_update_subset_insert [of "callers p" i ?a]
      by (auto simp: p' pool_inv_def set_caller_def list_all_iff)
  qed
next
  case (reserved i p packId)
  then show ?case by (intro inv_reserve)
next
  case (retirement_settled i p packId e ok)
  then show ?case
    using inv_return [OF retirement_settled.prems retirement_settled.hyps(1)] inv_caller [OF retirement_settled.prems retirement_settled.hyps(1), of "Reserving packId"]
    by (simp add: retirement_awaited_def)
next
  case (open_settled e p outcome)
  then show ?case by (intro inv_handle) (auto simp: pool_inv_def)
next
  case (opened i p packId e sameIdentity)
  have released: "pool_inv (release i e q)" if "pool_inv q" "callers q = callers p" for q
    by (rule inv_release [OF that(1), of i packId]) (use opened that in auto)
  have "pool_inv (set_caller i (Leased packId e) p)"
    by (rule inv_caller) (use opened in \<open>auto simp: pool_inv_def list_all_length\<close>)
  then show ?case
    using opened.hyps(3) released [OF opened.prems refl] released [OF inv_delete [OF opened.prems]]
    by (auto simp: acquire_opened_def deleteEntry_def split: handle_open.splits)
next
  case (released i p packId e)
  then show ?case by (intro inv_release) auto
next
  case (release_drained i p e ok)
  then show ?case by (intro inv_finish_release) auto
next
  case (retired e p packId closedOk)
  then show ?case unfolding finish_retirement_def by (intro inv_delete inv_handle) auto
next
  case (invalidated p packId)
  then show ?case by (auto simp: invalidate_def intro: inv_retire split: option.splits)
next
  case (closed p)
  moreover have "pool_inv (close_pool p) = pool_inv p" by (simp add: pool_inv_def close_pool_def)
  ultimately show ?case by simp
next
  case (close_drains p)
  then show ?case unfolding close_retires_def by (intro inv_retires)
qed

lemma pool_inv_reachable: "pool_step\<^sup>*\<^sup>* (new_pool n) p \<Longrightarrow> pool_inv p"
  by (induction rule: rtranclp_induct) (auto simp: pool_inv_step, simp add: pool_inv_def new_pool_def)


text \<open>No step changes the size of the pool.\<close>

lemma maximumHandles_simps [simp]:
  "maximumHandles (set_caller i a p) = maximumHandles p" "maximumHandles (returnPermit p) = maximumHandles p"
  "maximumHandles (update_handle e f p) = maximumHandles p" "maximumHandles (activate e p) = maximumHandles p"
  "maximumHandles (deleteEntry k e p) = maximumHandles p" "maximumHandles (retire e p) = maximumHandles p"
  "maximumHandles (finish_release i p) = maximumHandles p"
  by (simp_all add: set_caller_def returnPermit_def update_handle_def activate_def deleteEntry_def retire_def finish_release_def)

lemma maximumHandles_steps [simp]:
  "maximumHandles (release i e p) = maximumHandles p" "maximumHandles (acquire_opened i k e same p) = maximumHandles p"
  "maximumHandles (close_retires p) = maximumHandles p" "maximumHandles (reserve i k p) = maximumHandles p"
proof -
  show release: "maximumHandles (release i e p) = maximumHandles p" for p by (simp add: release_def Let_def)
  show "maximumHandles (acquire_opened i k e same p) = maximumHandles p"
    by (cases "ch_pending (handles p ! e)") (simp_all add: acquire_opened_def release)
  have "maximumHandles (fold (\<lambda>(_, e). retire e) xs q) = maximumHandles q" for xs q by (induction xs arbitrary: q) auto
  then show "maximumHandles (close_retires p) = maximumHandles p" by (simp add: close_retires_def)
  show "maximumHandles (reserve i k p) = maximumHandles p"
    by (simp add: reserve_def Let_def split: option.split prod.split)
qed

subsection \<open>Properties\<close>

text \<open>Closing a pack reader: in every reachable state the source was closed at most once, and only after the reader
  stopped accepting reads and no read is in flight; a close that waits is resolved as soon as the last read has ended.\<close>

theorem readers_close_once_after_their_reads:
  assumes "reader_step\<^sup>*\<^sup>* new_reader_state s"
  shows "sourceCloses s \<le> 1 \<and> (if sourceCloses s = 1 then \<not> acceptingReads s \<and> activeReads s = 0
    else closing s \<noteq> Close_done \<and> (closing s = Close_waiting \<and> activeReads s = 0 \<longrightarrow> drained s = Resolved_waiter))"
  using reader_inv_reachable [OF assms] by (cases "closing s") (auto simp: reader_inv_def)

theorem readers_close_once_after_their_reads_witness:
  "\<exists>s. reader_step\<^sup>*\<^sup>* new_reader_state s \<and> sourceCloses s = 1 \<and> \<not> acceptingReads s"
proof -
  let ?s = "close_reader new_reader_state"
  have run: "reader_step\<^sup>*\<^sup>* new_reader_state ?s" by (intro r_into_rtranclp close_called)
  have closed: "sourceCloses ?s = 1" by (simp add: close_reader_def new_reader_state_def)
  show ?thesis using readers_close_once_after_their_reads [OF run] run closed by auto
qed

text \<open>C36. The pool never runs into its own capacity error: whatever the interleaving of acquisitions, releases, opens,
  invalidations and a close, a reservation in a full pool finds an unused entry. The pool keeps at most the given number
  of entries, and at most as many leases are active.\<close>

theorem pool_capacity_is_never_violated:
  assumes "pool_step\<^sup>*\<^sup>* (new_pool n) p"
  shows "Violated \<notin> set (callers p) \<and> length (poolEntries p) \<le> n \<and> activeLeases p \<le> n"
proof -
  have "maximumHandles p = n" using assms
  proof (induction rule: rtranclp_induct)
    case (step p p')
    have "maximumHandles p' = maximumHandles p"
      using step.hyps(2)
      by (rule pool_stepE) (auto simp: takePermit_def retirement_awaited_def finish_retirement_def invalidate_def close_pool_def
        split: if_splits option.splits)
    then show ?case using step.IH by simp
  qed (simp add: new_pool_def)
  then have inv: "availablePermits p + count_callers holds_permit (callers p) = n" "activeLeases p = count_callers leasing (callers p)"
      "Violated \<notin> set (callers p)" "length (poolEntries p) \<le> n"
    using pool_inv_reachable [OF assms] unfolding pool_inv_def by blast+
  have "count_callers leasing as \<le> count_callers holds_permit as" for as
  proof (induction as)
    case (Cons a as)
    then show ?case by (cases a) auto
  qed simp
  from this [of "callers p"] show ?thesis using inv by simp
qed

text \<open>A pool of one handle with one caller that has acquired it.\<close>

definition sample_pool :: handle_pool where
  "sample_pool = \<lparr>maximumHandles = 1, poolEntries = [(''p'', 0)],
     handles = [\<lparr>ch_pending = Open_found, ch_users = 1, ch_retirement = No_retirement\<rparr>], availablePermits = 0, activeLeases = 1,
     poolClosed = False, callers = [Leased ''p'' 0]\<rparr>"

lemma sample_pool_reachable: "pool_step\<^sup>*\<^sup>* (new_pool 1) sample_pool"
proof -
  let ?p1 = "(new_pool 1)\<lparr>callers := callers (new_pool 1) @ [Wanting ''p'']\<rparr>"
  let ?p2 = "set_caller 0 (Reserving ''p'') (?p1\<lparr>availablePermits := availablePermits ?p1 - 1\<rparr>)"
  let ?p3 = "reserve 0 ''p'' ?p2"
  let ?p4 = "update_handle 0 (\<lambda>h. h\<lparr>ch_pending := Open_found\<rparr>) ?p3"
  let ?p5 = "acquire_opened 0 ''p'' 0 True ?p4"
  have s1: "pool_step (new_pool 1) ?p1" by (rule acquire_called)
  have s2: "pool_step ?p1 ?p2" by (rule permit_taken [of 0 _ "''p''"]) (simp_all add: new_pool_def takePermit_def)
  have s3: "pool_step ?p2 ?p3" by (rule reserved) (simp_all add: new_pool_def set_caller_def)
  have p3: "?p3 = \<lparr>maximumHandles = 1, poolEntries = [(''p'', 0)],
      handles = [\<lparr>ch_pending = Open_pending, ch_users = 1, ch_retirement = No_retirement\<rparr>], availablePermits = 0, activeLeases = 1,
      poolClosed = False, callers = [Opening ''p'' 0]\<rparr>"
    by (simp add: reserve_def set_caller_def new_pool_def activate_def update_handle_def Let_def)
  have s4: "pool_step ?p3 ?p4" unfolding p3 by (rule open_settled) simp_all
  have s5: "pool_step ?p4 ?p5" unfolding p3 by (rule opened) (simp_all add: update_handle_def)
  have p5: "?p5 = sample_pool"
    unfolding p3 by (simp add: acquire_opened_def set_caller_def update_handle_def sample_pool_def)
  show ?thesis
    using s1 s2 s3 s4 s5 unfolding p5 by (meson rtranclp.rtrancl_into_rtrancl rtranclp.rtrancl_refl)
qed

theorem pool_capacity_is_never_violated_witness:
  "pool_step\<^sup>*\<^sup>* (new_pool 1) sample_pool \<and> Violated \<notin> set (callers sample_pool) \<and> length (poolEntries sample_pool) \<le> 1"
  using pool_capacity_is_never_violated [OF sample_pool_reachable] sample_pool_reachable by simp



end
