(* ===== verification/Multi_Pack_Index.thy ===== *)
theory Multi_Pack_Index
  imports Pack_Reader
begin

text \<open>
  The multi-pack index (\<^verbatim>\<open>content-store/multi-pack-index.ts\<close>): one sorted table over the entries of all packs, a
  cache that is built from the footers of the packs, decoded from a file, validated against the packs that are
  there, and used to locate records. It shares the fanout search with the footers of packs. Identifiers of packs
  are parsed ones: 64 hexadecimal digits. SHA-256 is an argument.
\<close>

subsection \<open>Data\<close>

definition MULTI_PACK_INDEX_HARD_MAX_BYTES :: int where "MULTI_PACK_INDEX_HARD_MAX_BYTES = 64 * 1024 * 1024"
definition MAX_MULTI_PACK_INDEX_PACKS :: int where "MAX_MULTI_PACK_INDEX_PACKS = 65535"
definition MAX_MULTI_PACK_INDEX_ENTRIES :: int where "MAX_MULTI_PACK_INDEX_ENTRIES = 1000000"
definition MIDX_MAGIC :: bytes where "MIDX_MAGIC = [0x43, 0x59, 0x4d, 0x49, 0x44, 0x58, 0x30, 0x31]"
definition MIDX_TRAILER_MAGIC :: bytes where "MIDX_TRAILER_MAGIC = [0x43, 0x59, 0x4d, 0x54, 0x52, 0x4c, 0x30, 0x31]"
definition MULTI_PACK_INDEX_FORMAT_VERSION :: int where "MULTI_PACK_INDEX_FORMAT_VERSION = 1"
definition MIDX_FLAGS_NONE :: int where "MIDX_FLAGS_NONE = 0"

record multi_pack_descriptor =
  mp_packId :: string
  mp_packClass :: pack_class
  mp_byteLength :: int

record multi_pack_index_entry =
  me_logicalId :: string
  me_kind :: record_kind
  me_encoding :: record_encoding
  me_decodedLength :: int
  me_packOrdinal :: int
  me_packId :: string
  me_physicalOrdinal :: int
  me_offset :: int
  me_length :: int

record multi_pack_index =
  mi_packs :: "multi_pack_descriptor list"
  mi_entries :: "multi_pack_index_entry list"
  mi_fanout :: "int list"

record pack_index_view =
  vw_packId :: string
  vw_packClass :: pack_class
  vw_byteLength :: int
  vw_entries :: "pack_index_entry list"

definition indexView :: "pack_index \<Rightarrow> pack_index_view" where
  "indexView index = \<lparr>vw_packId = px_packId index, vw_packClass = px_packClass index, vw_byteLength = px_byteLength index,
     vw_entries = px_entries index\<rparr>"

abbreviation invalid_midx :: "midx_error_code \<Rightarrow> 'a result" where
  "invalid_midx code \<equiv> Inl (MultiPackIndexError code)"

definition compareMidxEntries :: "multi_pack_index_entry \<Rightarrow> multi_pack_index_entry \<Rightarrow> int" where
  "compareMidxEntries left right =
     (let idOrder = compareHex (me_logicalId left) (me_logicalId right);
          kindOrder = recordKindCode (me_kind left) - recordKindCode (me_kind right);
          encodingOrder = recordEncodingCode (me_encoding left) - recordEncodingCode (me_encoding right);
          packOrder = me_packOrdinal left - me_packOrdinal right
      in if idOrder \<noteq> 0 then idOrder
         else if kindOrder \<noteq> 0 then kindOrder
         else if encodingOrder \<noteq> 0 then encodingOrder
         else if packOrder \<noteq> 0 then packOrder
         else me_offset left - me_offset right)"

definition entryFor :: "pack_index_view \<Rightarrow> int \<Rightarrow> pack_index_entry \<Rightarrow> multi_pack_index_entry" where
  "entryFor pack packOrdinal e =
     \<lparr>me_logicalId = pe_logicalId e, me_kind = pe_kind e, me_encoding = pe_encoding e, me_decodedLength = pe_decodedLength e,
      me_packOrdinal = packOrdinal, me_packId = vw_packId pack, me_physicalOrdinal = pe_physicalOrdinal e,
      me_offset = pe_offset e, me_length = pe_length e\<rparr>"

subsection \<open>Writing\<close>

definition write_descriptor :: "multi_pack_descriptor \<Rightarrow> canonical_writer \<Rightarrow> canonical_writer result" where
  "write_descriptor d w =
     rbind (writeBytes (fromHex (mp_packId d)) w) (\<lambda>w.
     rbind (writeByte (PACK_CLASS_CODES (mp_packClass d)) w) (writeVarint (mp_byteLength d)))"

definition write_midx_entry :: "multi_pack_index_entry \<Rightarrow> canonical_writer \<Rightarrow> canonical_writer result" where
  "write_midx_entry e w =
     rbind (idToBytes (me_logicalId e)) (\<lambda>digest.
     rbind (writeBytes digest w) (\<lambda>w.
     rbind (writeByte (recordKindCode (me_kind e)) w) (\<lambda>w.
     rbind (writeByte (recordEncodingCode (me_encoding e)) w) (\<lambda>w.
     rbind (writeVarint (me_decodedLength e) w) (\<lambda>w.
     rbind (writeVarint (me_packOrdinal e) w) (\<lambda>w.
     rbind (writeVarint (me_physicalOrdinal e) w) (\<lambda>w.
     rbind (writeVarint (me_offset e) w) (writeVarint (me_length e)))))))))"

definition writeIndex :: "multi_pack_descriptor list \<Rightarrow> multi_pack_index_entry list \<Rightarrow> bytes result" where
  "writeIndex packs entries =
     rbind (fanoutFor (MultiPackIndexError Midx_corrupt) (map me_logicalId entries)) (\<lambda>fanout.
     rbind (writeBytes MIDX_MAGIC newCanonicalWriter) (\<lambda>w.
     rbind (writeByte MULTI_PACK_INDEX_FORMAT_VERSION w) (\<lambda>w.
     rbind (writeVarint MIDX_FLAGS_NONE w) (\<lambda>w.
     rbind (writeVarint (int (length packs)) w) (\<lambda>w.
     rbind (writeVarint (int (length entries)) w) (\<lambda>w.
     rbind (write_items write_descriptor packs w) (\<lambda>w.
     rbind (write_items writeVarint fanout w) (\<lambda>w.
     rbind (write_items write_midx_entry entries w) (\<lambda>w.
       Inr (finish w))))))))))"

subsection \<open>Reading\<close>

definition read_descriptor :: "canonical_reader \<Rightarrow> (multi_pack_descriptor \<times> canonical_reader) result" where
  "read_descriptor r =
     rbind (readBytes SHA256_BYTE_LENGTH r) (\<lambda>(digest, r).
     rbind (readByte r) (\<lambda>(classCode, r).
     rbind (classFromCode (MultiPackIndexError Midx_corrupt) classCode) (\<lambda>packClass.
     rbind (readVarint r) (\<lambda>(len, r).
       let hardMax = (if packClass = Data_pack then DATA_PACK_HARD_MAX_BYTES else METADATA_PACK_HARD_MAX_BYTES) in
       if len = 0 \<or> len > hardMax then invalid_midx Midx_corrupt
       else Inr (\<lparr>mp_packId = toHex digest, mp_packClass = packClass, mp_byteLength = len\<rparr>, r)))))"

text \<open>The checks of an entry behind its nine fields, and the entry.\<close>

definition check_midx_entry :: "multi_pack_descriptor list \<Rightarrow> bytes \<Rightarrow> record_kind \<Rightarrow> record_encoding \<Rightarrow> int \<Rightarrow> int \<Rightarrow> int \<Rightarrow> int \<Rightarrow> int \<Rightarrow>
    multi_pack_index_entry result" where
  "check_midx_entry packs digest kind encoding decodedLen packOrdinal physicalOrdinal offset len =
     (case element_at packs packOrdinal of
        None \<Rightarrow> invalid_midx Midx_corrupt
      | Some pack \<Rightarrow>
          if physicalOrdinal \<ge> MAX_PACK_RECORDS then invalid_midx Midx_corrupt
          else if len = 0 \<or> offset > mp_byteLength pack \<or> len > mp_byteLength pack - offset then invalid_midx Midx_corrupt
          else if packClassForRecordKind kind \<noteq> mp_packClass pack then invalid_midx Midx_corrupt
          else if (encoding = Chunked_v1 \<or> encoding = Delta1) \<and> kind \<noteq> Kind_content then invalid_midx Midx_corrupt
          else rbind (idFromDigest kind digest) (\<lambda>i.
            Inr \<lparr>me_logicalId = i, me_kind = kind, me_encoding = encoding, me_decodedLength = decodedLen,
              me_packOrdinal = packOrdinal, me_packId = mp_packId pack, me_physicalOrdinal = physicalOrdinal,
              me_offset = offset, me_length = len\<rparr>))"

definition read_midx_entry :: "multi_pack_descriptor list \<Rightarrow> canonical_reader \<Rightarrow> (multi_pack_index_entry \<times> canonical_reader) result" where
  "read_midx_entry packs r =
     rbind (readBytes SHA256_BYTE_LENGTH r) (\<lambda>(digest, r).
     rbind (readByte r) (\<lambda>(kindCode, r).
     rbind (index_kindFromCode (MultiPackIndexError Midx_corrupt) kindCode) (\<lambda>kind.
     rbind (readByte r) (\<lambda>(encodingCode, r).
     rbind (index_encodingFromCode (MultiPackIndexError Midx_corrupt) encodingCode) (\<lambda>encoding.
     rbind (readVarint r) (\<lambda>(decodedLen, r).
     rbind (readVarint r) (\<lambda>(packOrdinal, r).
     rbind (readVarint r) (\<lambda>(physicalOrdinal, r).
     rbind (readVarint r) (\<lambda>(offset, r).
     rbind (readVarint r) (\<lambda>(len, r).
     rbind (check_midx_entry packs digest kind encoding decodedLen packOrdinal physicalOrdinal offset len) (\<lambda>e.
       Inr (e, r))))))))))))"

text \<open>The part of the body behind the two counts.\<close>

definition read_midx_tables :: "int \<Rightarrow> int \<Rightarrow> canonical_reader \<Rightarrow> multi_pack_index result" where
  "read_midx_tables packCount entryCount r =
     rbind (read_many read_descriptor (nat packCount) r) (\<lambda>(packs, r).
       if \<not> strictly_sorted (\<lambda>a b. compareHex (mp_packId a) (mp_packId b)) packs then invalid_midx Midx_corrupt
       else rbind (read_fanout (MultiPackIndexError Midx_corrupt) entryCount FANOUT_ENTRIES 0 r) (\<lambda>(fanout, r).
         if last fanout \<noteq> entryCount then invalid_midx Midx_corrupt
         else rbind (read_many (read_midx_entry packs) (nat entryCount) r) (\<lambda>(entries, r).
         rbind (assertEnd r) (\<lambda>_.
           if \<not> strictly_sorted compareMidxEntries entries then invalid_midx Midx_corrupt
           else rbind (fanoutFor (MultiPackIndexError Midx_corrupt) (map me_logicalId entries)) (\<lambda>expected.
             if expected \<noteq> fanout then invalid_midx Midx_corrupt
             else Inr \<lparr>mi_packs = packs, mi_entries = entries, mi_fanout = fanout\<rparr>)))))"

definition read_midx_body :: "bytes \<Rightarrow> multi_pack_index result" where
  "read_midx_body body =
     rbind (expectBytes MIDX_MAGIC (newCanonicalReader body)) (\<lambda>r.
     rbind (readByte r) (\<lambda>(version, r).
       if version \<noteq> MULTI_PACK_INDEX_FORMAT_VERSION then invalid_midx Midx_corrupt
       else rbind (readVarint r) (\<lambda>(flags, r).
         if flags \<noteq> MIDX_FLAGS_NONE then invalid_midx Midx_corrupt
         else rbind (readVarint r) (\<lambda>(packCount, r).
           if packCount > MAX_MULTI_PACK_INDEX_PACKS then invalid_midx Midx_limit_exceeded
           else rbind (readVarint r) (\<lambda>(entryCount, r).
             if entryCount > MAX_MULTI_PACK_INDEX_ENTRIES then invalid_midx Midx_limit_exceeded
             else read_midx_tables packCount entryCount r)))))"

fun rethrow_midx :: "'a result \<Rightarrow> 'a result" where
  "rethrow_midx (Inl (CanonicalBinaryError c)) = invalid_midx Midx_corrupt"
| "rethrow_midx (Inl TypeError) = invalid_midx Midx_corrupt"
| "rethrow_midx m = m"

definition decodeMultiPackIndex :: "(bytes \<Rightarrow> bytes) \<Rightarrow> bytes \<Rightarrow> multi_pack_index result" where
  "decodeMultiPackIndex hash source =
     rethrow_midx
       (if byteLength source > MULTI_PACK_INDEX_HARD_MAX_BYTES then invalid_midx Midx_limit_exceeded
        else let fixedTrailerBytes = CHECKSUM_BYTES + byteLength MIDX_TRAILER_MAGIC in
        if byteLength source \<le> fixedTrailerBytes then invalid_midx Midx_corrupt
        else let trailerOffset = nat (byteLength source - byteLength MIDX_TRAILER_MAGIC) in
        if drop trailerOffset source \<noteq> MIDX_TRAILER_MAGIC then invalid_midx Midx_corrupt
        else let checksumOffset = trailerOffset - nat CHECKSUM_BYTES;
                 expectedChecksum = take (nat CHECKSUM_BYTES) (drop checksumOffset source);
                 body = take checksumOffset source in
        if expectedChecksum \<noteq> hash body then invalid_midx Midx_corrupt
        else read_midx_body body)"

subsection \<open>Building and looking up\<close>

definition sort_views :: "pack_index_view list \<Rightarrow> pack_index_view list" where
  "sort_views packs = js_sort (\<lambda>left right. compareHex (vw_packId left) (vw_packId right)) packs"

text \<open>The loop over neighbours that looks for a duplicate identifier.\<close>

fun adjacent_duplicate :: "pack_index_view list \<Rightarrow> bool" where
  "adjacent_duplicate (x # y # rest) \<longleftrightarrow> vw_packId x = vw_packId y \<or> adjacent_duplicate (y # rest)"
| "adjacent_duplicate packs \<longleftrightarrow> False"

text \<open>The loop that counts entries; it stops when one pack has more entries than are left of the bound.\<close>

fun count_entries :: "int \<Rightarrow> pack_index_view list \<Rightarrow> int \<Rightarrow> int option" where
  "count_entries bound [] entryCount = Some entryCount"
| "count_entries bound (pack # packs) entryCount =
     (if int (length (vw_entries pack)) > bound - entryCount then None
      else count_entries bound packs (entryCount + int (length (vw_entries pack))))"

definition all_entries :: "pack_index_view list \<Rightarrow> multi_pack_index_entry list" where
  "all_entries packs = concat (map (\<lambda>(ordinal, pack). map (entryFor pack (int ordinal)) (vw_entries pack)) (enumerate 0 packs))"

definition descriptor_of :: "pack_index_view \<Rightarrow> multi_pack_descriptor" where
  "descriptor_of pack = \<lparr>mp_packId = vw_packId pack, mp_packClass = vw_packClass pack, mp_byteLength = vw_byteLength pack\<rparr>"

definition buildMultiPackIndexFromViews :: "(bytes \<Rightarrow> bytes) \<Rightarrow> pack_index_view list \<Rightarrow> (bytes \<times> multi_pack_index) result" where
  "buildMultiPackIndexFromViews hash sourcePacks =
     (if int (length sourcePacks) > MAX_MULTI_PACK_INDEX_PACKS then invalid_midx Midx_limit_exceeded
      else let packs = sort_views sourcePacks in
      if adjacent_duplicate packs then invalid_midx Midx_invalid_input
      else if count_entries MAX_MULTI_PACK_INDEX_ENTRIES packs 0 = None then invalid_midx Midx_limit_exceeded
      else let descriptors = map descriptor_of packs; entries = js_sort compareMidxEntries (all_entries packs) in
      if int (length entries) > MAX_MULTI_PACK_INDEX_ENTRIES then invalid_midx Midx_limit_exceeded
      else rbind (writeIndex descriptors entries) (\<lambda>body.
        rbind (writeBytes body newCanonicalWriter) (\<lambda>w.
        rbind (writeBytes (hash body) w) (\<lambda>w.
        rbind (writeBytes MIDX_TRAILER_MAGIC w) (\<lambda>w.
          let bs = finish w in
          if byteLength bs > MULTI_PACK_INDEX_HARD_MAX_BYTES then invalid_midx Midx_limit_exceeded
          else rbind (decodeMultiPackIndex hash bs) (\<lambda>index. Inr (bs, index)))))))"

definition midx_lookup :: "multi_pack_index \<Rightarrow> record_kind \<Rightarrow> string \<Rightarrow> multi_pack_index_entry list result" where
  "midx_lookup index kind i =
     (if \<not> is_sha256_hex i then invalid_midx Midx_invalid_input
      else Inr (fanout_lookup me_logicalId me_kind (mi_entries index) (mi_fanout index) i kind))"

subsection \<open>Validating and resolving\<close>

datatype midx_validation = Midx_current | Midx_stale string

definition canonicalPackList :: "pack_index_view list \<Rightarrow> pack_index_view list option" where
  "canonicalPackList packs = (let sorted = sort_views packs in if adjacent_duplicate sorted then None else Some sorted)"

definition validateMultiPackIndexViews :: "multi_pack_index \<Rightarrow> pack_index_view list \<Rightarrow> midx_validation" where
  "validateMultiPackIndexViews index sourcePacks =
     (case canonicalPackList sourcePacks of
        None \<Rightarrow> Midx_stale ''available pack set contains duplicates''
      | Some packs \<Rightarrow>
          if length packs \<noteq> length (mi_packs index) then Midx_stale ''available pack set differs from MIDX''
          else case count_entries (int (length (mi_entries index))) packs 0 of
            None \<Rightarrow> Midx_stale ''MIDX entry set is incomplete''
          | Some expectedEntryCount \<Rightarrow>
              if expectedEntryCount \<noteq> int (length (mi_entries index)) then Midx_stale ''MIDX entry set is incomplete''
              else if map descriptor_of packs \<noteq> mi_packs index then Midx_stale ''MIDX pack table is obsolete''
              else let expected = js_sort compareMidxEntries (all_entries packs) in
                if length expected \<noteq> length (mi_entries index) then Midx_stale ''MIDX entry set is incomplete''
                else if expected \<noteq> mi_entries index then Midx_stale ''MIDX entry set is obsolete''
                else Midx_current)"

text \<open>What locating needs of a pack: the interface \<^verbatim>\<open>PackIndexLookup\<close>.\<close>

record pack_index_lookup =
  pl_packId :: string
  pl_packClass :: pack_class
  pl_byteLength :: int
  pl_entryForPhysicalOrdinal :: "int \<Rightarrow> pack_index_entry option"

datatype 'p midx_location = Midx_hit 'p pack_index_entry | Location_stale string

definition resolveMultiPackIndexEntry :: "multi_pack_index \<Rightarrow> multi_pack_index_entry \<Rightarrow> (string \<Rightarrow> pack_index_lookup option) \<Rightarrow>
    pack_index_lookup midx_location result" where
  "resolveMultiPackIndexEntry index candidate packsById =
     rbind (midx_lookup index (me_kind candidate) (me_logicalId candidate)) (\<lambda>matches.
       if candidate \<notin> set matches then Inr (Location_stale ''candidate is not present in this MIDX'')
       else case packsById (me_packId candidate) of
         None \<Rightarrow> Inr (Location_stale ''candidate pack is unavailable'')
       | Some pack \<Rightarrow>
           if pl_packId pack \<noteq> me_packId candidate then Inr (Location_stale ''candidate pack id is obsolete'')
           else if element_at (mi_packs index) (me_packOrdinal candidate) \<noteq>
             Some \<lparr>mp_packId = pl_packId pack, mp_packClass = pl_packClass pack, mp_byteLength = pl_byteLength pack\<rparr>
           then Inr (Location_stale ''candidate pack descriptor is obsolete'')
           else case pl_entryForPhysicalOrdinal pack (me_physicalOrdinal candidate) of
             None \<Rightarrow> Inr (Location_stale ''candidate does not match the pack footer'')
           | Some packEntry \<Rightarrow>
               if packEntry \<noteq> \<lparr>pe_logicalId = me_logicalId candidate, pe_kind = me_kind candidate, pe_encoding = me_encoding candidate,
                   pe_decodedLength = me_decodedLength candidate, pe_physicalOrdinal = me_physicalOrdinal candidate,
                   pe_offset = me_offset candidate, pe_length = me_length candidate\<rparr>
               then Inr (Location_stale ''candidate does not match the pack footer'')
               else Inr (Midx_hit pack packEntry))"


subsection \<open>Descriptors and entries in a file\<close>

definition descriptor_ok :: "multi_pack_descriptor \<Rightarrow> bool" where
  "descriptor_ok d \<longleftrightarrow> is_sha256_hex (mp_packId d) \<and> 0 < mp_byteLength d \<and> mp_byteLength d \<le> packHardMax (mp_packClass d)"

definition descriptor_chunks :: "multi_pack_descriptor \<Rightarrow> bytes list" where
  "descriptor_chunks d = [fromHex (mp_packId d), byte1 (PACK_CLASS_CODES (mp_packClass d)), varint (mp_byteLength d)]"

definition midx_entry_ok :: "multi_pack_descriptor list \<Rightarrow> multi_pack_index_entry \<Rightarrow> bool" where
  "midx_entry_ok packs e \<longleftrightarrow> is_sha256_hex (me_logicalId e) \<and> safe_unsigned (me_decodedLength e) \<and> safe_unsigned (me_packOrdinal e) \<and>
     0 \<le> me_physicalOrdinal e \<and> me_physicalOrdinal e < MAX_PACK_RECORDS \<and> safe_unsigned (me_offset e) \<and> safe_unsigned (me_length e) \<and>
     0 < me_length e \<and> ((me_encoding e = Chunked_v1 \<or> me_encoding e = Delta1) \<longrightarrow> me_kind e = Kind_content) \<and>
     (case element_at packs (me_packOrdinal e) of None \<Rightarrow> False
      | Some pack \<Rightarrow> me_packId e = mp_packId pack \<and> me_offset e \<le> mp_byteLength pack \<and> me_length e \<le> mp_byteLength pack - me_offset e \<and>
          packClassForRecordKind (me_kind e) = mp_packClass pack)"

definition midx_entry_chunks :: "multi_pack_index_entry \<Rightarrow> bytes list" where
  "midx_entry_chunks e = [fromHex (me_logicalId e), byte1 (recordKindCode (me_kind e)), byte1 (recordEncodingCode (me_encoding e)),
     varint (me_decodedLength e), varint (me_packOrdinal e), varint (me_physicalOrdinal e), varint (me_offset e), varint (me_length e)]"

lemma hard_max_safe: "n \<le> packHardMax c \<Longrightarrow> n \<le> MAX_SAFE_INTEGER"
  using packHardMax_range(2) [of c] by linarith

lemma read_descriptor_canonical:
  assumes "reader_ok r"
  shows "read_descriptor r = Inr (d, r') \<longleftrightarrow>
    descriptor_ok d \<and> starts r (concat (descriptor_chunks d)) \<and> r' = after (concat (descriptor_chunks d)) r"
proof (cases d)
  case (fields i c n)
  have hex: "length a = 32 \<and> toHex a = i \<longleftrightarrow> is_sha256_hex i \<and> a = fromHex i" for a
    using id_bytes [of i] by auto
  have safe: "0 < n \<Longrightarrow> n \<le> packHardMax c \<Longrightarrow> isSafeInteger n"
    using hard_max_safe [of n c] by (simp add: isSafeInteger_def)
  have "read_descriptor r = Inr (d, r') \<longleftrightarrow> (\<exists>digest. (length digest = 32 \<and> toHex digest = i) \<and> isSafeInteger n \<and> 0 < n \<and> n \<le> packHardMax c \<and>
      starts r (digest @ byte1 (PACK_CLASS_CODES c) @ varint n) \<and> r' = after (digest @ byte1 (PACK_CLASS_CODES c) @ varint n) r)"
    using assms unfolding fields
    by (simp add: read_descriptor_def decoding_chunks layout classFromCode_Inr Let_def SHA256_BYTE_LENGTH_def cong: conj_cong)
      (cases c; auto simp: packHardMax_def)
  also have "\<dots> \<longleftrightarrow> descriptor_ok d \<and> starts r (concat (descriptor_chunks d)) \<and> r' = after (concat (descriptor_chunks d)) r"
    unfolding hex using safe by (auto simp: fields descriptor_ok_def descriptor_chunks_def)
  finally show ?thesis .
qed

interpretation descriptor_codec: canonical_codec "\<lambda>d. concat (descriptor_chunks d)" descriptor_ok read_descriptor
  by unfold_locales (rule read_descriptor_canonical)

lemma check_midx_entry_Inr:
  assumes "safe_unsigned dl" "safe_unsigned po" "safe_unsigned ph" "safe_unsigned off" "safe_unsigned len"
  shows "check_midx_entry packs digest k enc dl po ph off len = Inr e \<longleftrightarrow> midx_entry_ok packs e \<and> digest = fromHex (me_logicalId e) \<and>
    me_kind e = k \<and> me_encoding e = enc \<and> me_decodedLength e = dl \<and> me_packOrdinal e = po \<and> me_physicalOrdinal e = ph \<and>
    me_offset e = off \<and> me_length e = len"
proof (cases "element_at packs po")
  case (Some pack)
  show ?thesis using assms
    by (cases e) (auto simp: check_midx_entry_def Some rbind_eq_Inr guard_eq_Inr idFromDigest_Inr midx_entry_ok_def not_le)
qed (auto simp: check_midx_entry_def midx_entry_ok_def)

lemma read_midx_entry_canonical:
  assumes "reader_ok r"
  shows "read_midx_entry packs r = Inr (e, r') \<longleftrightarrow>
    midx_entry_ok packs e \<and> starts r (concat (midx_entry_chunks e)) \<and> r' = after (concat (midx_entry_chunks e)) r"
proof -
  have small: "safe_unsigned (me_physicalOrdinal e)" if "midx_entry_ok packs e"
    using that by (simp add: midx_entry_ok_def isSafeInteger_def MAX_PACK_RECORDS_def MAX_SAFE_INTEGER_def)
  show ?thesis
    using assms small
    by (simp add: read_midx_entry_def midx_entry_chunks_def decoding_chunks layout index_kindFromCode_Inr index_encodingFromCode_Inr
        check_midx_entry_Inr SHA256_BYTE_LENGTH_def cong: conj_cong)
      (auto simp: midx_entry_ok_def id_bytes)
qed


lemma compareMidxEntries_then:
  "compareMidxEntries = cmp_then (\<lambda>x y. compareHex (me_logicalId x) (me_logicalId y))
     (cmp_then (\<lambda>x y. recordKindCode (me_kind x) - recordKindCode (me_kind y))
     (cmp_then (\<lambda>x y. recordEncodingCode (me_encoding x) - recordEncodingCode (me_encoding y))
     (cmp_then (\<lambda>x y. me_packOrdinal x - me_packOrdinal y) (\<lambda>x y. me_offset x - me_offset y))))"
  by (simp add: fun_eq_iff compareMidxEntries_def cmp_then_def Let_def)

lemma compareMidxEntries_id: "compareMidxEntries x y < 0 \<Longrightarrow> me_logicalId x \<le> me_logicalId y"
  by (auto simp: compareMidxEntries_def compareHex_def Let_def split: if_splits)

lemma compareMidxEntries_zero:
  "compareMidxEntries x y = 0 \<Longrightarrow> me_packOrdinal x = me_packOrdinal y \<and> me_offset x = me_offset y"
  by (auto simp: compareMidxEntries_def compareHex_def Let_def split: if_splits)

interpretation midx_index: fanout_index compareMidxEntries me_logicalId me_kind
proof (intro fanout_index.intro fanout_index_axioms.intro compareMidxEntries_id)
  show "sign_comparator compareMidxEntries"
    unfolding compareMidxEntries_then by (intro sign_comparator_then sign_comparator_hex sign_comparator_diff)
qed

interpretation by_pack_id: sign_comparator "\<lambda>x y. compareHex (f x) (f y)" for f
  by (rule sign_comparator_hex)

text \<open>The tables an index may have, and their bytes.\<close>

definition midx_ok :: "multi_pack_descriptor list \<Rightarrow> multi_pack_index_entry list \<Rightarrow> bool" where
  "midx_ok packs es \<longleftrightarrow> int (length packs) \<le> MAX_MULTI_PACK_INDEX_PACKS \<and> int (length es) \<le> MAX_MULTI_PACK_INDEX_ENTRIES \<and>
     list_all descriptor_ok packs \<and> list_all (midx_entry_ok packs) es \<and>
     strictly_sorted (\<lambda>a b. compareHex (mp_packId a) (mp_packId b)) packs \<and> strictly_sorted compareMidxEntries es"

definition midx_tables :: "multi_pack_descriptor list \<Rightarrow> multi_pack_index_entry list \<Rightarrow> bytes" where
  "midx_tables packs es = concat (map (concat \<circ> descriptor_chunks) packs) @ concat (map varint (fanout_of (map me_logicalId es))) @
     concat (map (concat \<circ> midx_entry_chunks) es)"

definition midx_bytes :: "multi_pack_descriptor list \<Rightarrow> multi_pack_index_entry list \<Rightarrow> bytes" where
  "midx_bytes packs es = (MIDX_MAGIC @ byte1 1 @ varint 0 @ varint (int (length packs)) @ varint (int (length es))) @ midx_tables packs es"

lemma midx_ids_hex: "list_all (midx_entry_ok packs) es \<Longrightarrow> list_all is_sha256_hex (map me_logicalId es)"
  by (auto simp: list_all_iff midx_entry_ok_def)

lemma read_midx_tables_Inr:
  assumes r: "reader_ok r" and m: "safe_unsigned m" and n: "safe_unsigned n"
  shows "read_midx_tables m n r = Inr idx \<longleftrightarrow> int (length (mi_packs idx)) = m \<and> int (length (mi_entries idx)) = n \<and>
    list_all descriptor_ok (mi_packs idx) \<and> list_all (midx_entry_ok (mi_packs idx)) (mi_entries idx) \<and>
    strictly_sorted (\<lambda>a b. compareHex (mp_packId a) (mp_packId b)) (mi_packs idx) \<and> strictly_sorted compareMidxEntries (mi_entries idx) \<and>
    mi_fanout idx = fanout_of (map me_logicalId (mi_entries idx)) \<and> rest_of r = midx_tables (mi_packs idx) (mi_entries idx)"
    (is "_ \<longleftrightarrow> ?right")
proof -
  define ps es f where "ps = mi_packs idx" and "es = mi_entries idx" and "f = mi_fanout idx"
  let ?ps = "concat (map (concat \<circ> descriptor_chunks) ps)" and ?f = "concat (map varint f)" and ?es = "concat (map (concat \<circ> midx_entry_chunks) es)"
  let ?ids = "map me_logicalId es"
  have steps: "read_midx_tables m n r = Inr idx \<longleftrightarrow> (\<exists>r1 r2 r3. read_many read_descriptor (nat m) r = Inr (ps, r1) \<and>
      strictly_sorted (\<lambda>a b. compareHex (mp_packId a) (mp_packId b)) ps \<and>
      read_fanout (MultiPackIndexError Midx_corrupt) n FANOUT_ENTRIES 0 r1 = Inr (f, r2) \<and> last f = n \<and>
      read_many (read_midx_entry ps) (nat n) r2 = Inr (es, r3) \<and> assertEnd r3 = Inr () \<and>
      strictly_sorted compareMidxEntries es \<and> list_all is_sha256_hex ?ids \<and> f = fanout_of ?ids)"
    by (cases idx) (auto simp: read_midx_tables_def rbind_eq_Inr guard_eq_Inr fanoutFor_Inr ps_def es_def f_def split: if_splits)
  have many1: "read_many read_descriptor (nat m) r = Inr (ps, r1) \<longleftrightarrow>
      length ps = nat m \<and> list_all descriptor_ok ps \<and> starts r ?ps \<and> r1 = after ?ps r" for r1
    using descriptor_codec.read_many_canonical [OF r, of "nat m" ps r1] by (simp add: comp_def)
  have codec: "canonical_codec (\<lambda>e. concat (midx_entry_chunks e)) (midx_entry_ok ps) (read_midx_entry ps)"
    by unfold_locales (rule read_midx_entry_canonical)
  have many2: "read_many (read_midx_entry ps) (nat n) r' = Inr (es, r3) \<longleftrightarrow>
      length es = nat n \<and> list_all (midx_entry_ok ps) es \<and> starts r' ?es \<and> r3 = after ?es r'" if "reader_ok r'" for r' r3
    using canonical_codec.read_many_canonical [OF codec that, of "nat n" es r3] by (simp add: comp_def)
  have body: "midx_tables ps es = ?ps @ concat (map varint (fanout_of ?ids)) @ ?es" by (simp add: midx_tables_def)
  show ?thesis
    unfolding ps_def [symmetric] es_def [symmetric] f_def [symmetric]
  proof
    assume "read_midx_tables m n r = Inr idx"
    then obtain r1 r2 r3 where ps: "read_many read_descriptor (nat m) r = Inr (ps, r1)"
        and fan: "read_fanout (MultiPackIndexError Midx_corrupt) n FANOUT_ENTRIES 0 r1 = Inr (f, r2)"
        and es: "read_many (read_midx_entry ps) (nat n) r2 = Inr (es, r3)" and fin: "assertEnd r3 = Inr ()"
        and f: "strictly_sorted (\<lambda>a b. compareHex (mp_packId a) (mp_packId b)) ps" "strictly_sorted compareMidxEntries es" "f = fanout_of ?ids"
      unfolding steps by blast
    have p1: "length ps = nat m" "list_all descriptor_ok ps" "starts r ?ps" "r1 = after ?ps r" using ps unfolding many1 by auto
    note r1 = starts_ok [OF r p1(3)]
    have f1: "starts (after ?ps r) ?f" "r2 = after ?f (after ?ps r)" using fan read_fanout_Inr [OF r1 order_refl] p1(4) by auto
    note r2 = starts_ok [OF r1 f1(1)]
    have e1: "length es = nat n" "list_all (midx_entry_ok ps) es" "starts r2 ?es" "r3 = after ?es r2"
      using es unfolding many2 [OF r2, folded f1(2)] by auto
    have "rest_of r3 = []" using fin starts_ok [OF r2, folded f1(2), OF e1(3)] unfolding e1(4) by simp
    then have "rest_of r2 = ?es" using rest_chunk [OF r2, folded f1(2)] e1(3,4) by blast
    then have "rest_of (after ?ps r) = ?f @ ?es" using rest_append [OF r1] f1 by blast
    then have "rest_of r = ?ps @ ?f @ ?es" using rest_append [OF r] p1(3) by blast
    then show "int (length ps) = m \<and> int (length es) = n \<and> list_all descriptor_ok ps \<and> list_all (midx_entry_ok ps) es \<and>
        strictly_sorted (\<lambda>a b. compareHex (mp_packId a) (mp_packId b)) ps \<and> strictly_sorted compareMidxEntries es \<and>
        f = fanout_of ?ids \<and> rest_of r = midx_tables ps es"
      using p1 e1 f m n unfolding body by simp
  next
    assume right: "int (length ps) = m \<and> int (length es) = n \<and> list_all descriptor_ok ps \<and> list_all (midx_entry_ok ps) es \<and>
        strictly_sorted (\<lambda>a b. compareHex (mp_packId a) (mp_packId b)) ps \<and> strictly_sorted compareMidxEntries es \<and>
        f = fanout_of ?ids \<and> rest_of r = midx_tables ps es"
    then have ids: "list_all is_sha256_hex ?ids" using midx_ids_hex by blast
    have p1: "starts r ?ps" "rest_of (after ?ps r) = ?f @ ?es" using right rest_append [OF r] unfolding body by auto
    note r1 = starts_ok [OF r p1(1)]
    have f1: "starts (after ?ps r) ?f" "rest_of (after ?f (after ?ps r)) = ?es" using p1(2) rest_append [OF r1] by auto
    note r2 = starts_ok [OF r1 f1(1)]
    have e1: "starts (after ?f (after ?ps r)) ?es" "rest_of (after ?es (after ?f (after ?ps r))) = []"
      using f1(2) rest_chunk [OF r2] by auto
    show "read_midx_tables m n r = Inr idx"
      unfolding steps
    proof (intro exI conjI)
      show "read_many read_descriptor (nat m) r = Inr (ps, after ?ps r)" using many1 right p1 by auto
      show "read_fanout (MultiPackIndexError Midx_corrupt) n FANOUT_ENTRIES 0 (after ?ps r) = Inr (f, after ?f (after ?ps r))"
        using fanout_readable [of ?ids n] ids right n f1 by (simp add: read_fanout_Inr [OF r1 order_refl])
      show "last f = n" using fanout_readable [of ?ids n] ids right n by simp
      show "read_many (read_midx_entry ps) (nat n) (after ?f (after ?ps r)) = Inr (es, after ?es (after ?f (after ?ps r)))"
        using many2 [OF r2] right e1 by auto
      show "assertEnd (after ?es (after ?f (after ?ps r))) = Inr ()" using e1 starts_ok [OF r2 e1(1)] by simp
    qed (use right ids in simp_all)
  qed
qed

lemma read_midx_body_Inr:
  assumes size: "byteLength body \<le> MAX_SAFE_INTEGER"
  shows "read_midx_body body = Inr idx \<longleftrightarrow> midx_ok (mi_packs idx) (mi_entries idx) \<and> body = midx_bytes (mi_packs idx) (mi_entries idx) \<and>
    mi_fanout idx = fanout_of (map me_logicalId (mi_entries idx))"
proof -
  obtain r where new: "newCanonicalReader body = r" and r: "reader_ok r" and whole: "body = rest_of r"
    using size by (metis new_reader)
  let ?head = "\<lambda>m n. MIDX_MAGIC @ byte1 1 @ varint 0 @ varint m @ varint n"
  have small: "isSafeInteger n" if "0 \<le> n" "n \<le> MAX_MULTI_PACK_INDEX_PACKS \<or> n \<le> MAX_MULTI_PACK_INDEX_ENTRIES" for n
    using that by (auto simp: isSafeInteger_def MAX_MULTI_PACK_INDEX_PACKS_def MAX_MULTI_PACK_INDEX_ENTRIES_def MAX_SAFE_INTEGER_def)
  have "read_midx_body body = Inr idx \<longleftrightarrow> (\<exists>m n. starts r (?head m n) \<and> safe_unsigned m \<and> m \<le> MAX_MULTI_PACK_INDEX_PACKS \<and>
      safe_unsigned n \<and> n \<le> MAX_MULTI_PACK_INDEX_ENTRIES \<and> read_midx_tables m n (after (?head m n) r) = Inr idx)"
    unfolding read_midx_body_def new
    using r by (auto simp: decoding_chunks starts_append after_append MULTI_PACK_INDEX_FORMAT_VERSION_def MIDX_FLAGS_NONE_def not_less
        cong: conj_cong simp del: append.simps)
  also have "\<dots> \<longleftrightarrow> (\<exists>m n. starts r (?head m n) \<and> safe_unsigned m \<and> m \<le> MAX_MULTI_PACK_INDEX_PACKS \<and>
      safe_unsigned n \<and> n \<le> MAX_MULTI_PACK_INDEX_ENTRIES \<and>
      int (length (mi_packs idx)) = m \<and> int (length (mi_entries idx)) = n \<and>
      list_all descriptor_ok (mi_packs idx) \<and> list_all (midx_entry_ok (mi_packs idx)) (mi_entries idx) \<and>
      strictly_sorted (\<lambda>a b. compareHex (mp_packId a) (mp_packId b)) (mi_packs idx) \<and> strictly_sorted compareMidxEntries (mi_entries idx) \<and>
      mi_fanout idx = fanout_of (map me_logicalId (mi_entries idx)) \<and>
      rest_of (after (?head m n) r) = midx_tables (mi_packs idx) (mi_entries idx))"
    using read_midx_tables_Inr [OF starts_ok [OF r]] by (intro ex_cong1) blast
  also have "\<dots> \<longleftrightarrow> midx_ok (mi_packs idx) (mi_entries idx) \<and> rest_of r = midx_bytes (mi_packs idx) (mi_entries idx) \<and>
      mi_fanout idx = fanout_of (map me_logicalId (mi_entries idx))"
    unfolding midx_bytes_def rest_append [OF r]
    using small [of "int (length (mi_packs idx))"] small [of "int (length (mi_entries idx))"] by (auto simp: midx_ok_def)
  finally show ?thesis unfolding whole .
qed


subsection \<open>What is written\<close>

lemma write_descriptor_at:
  "write_descriptor d (writer_at vs) = Inr w \<longleftrightarrow> safe_unsigned (mp_byteLength d) \<and>
     byteLength (concat vs) + byteLength (concat (descriptor_chunks d)) \<le> MAX_SAFE_INTEGER \<and> w = writer_at (vs @ descriptor_chunks d)"
  by (cases "mp_packClass d")
    (auto simp: write_descriptor_def descriptor_chunks_def rbind_eq_Inr writeBytes_at writeVarint_at writeByte_one_at)

definition writable_entry :: "multi_pack_index_entry \<Rightarrow> bool" where
  "writable_entry e \<longleftrightarrow> is_sha256_hex (me_logicalId e) \<and> safe_unsigned (me_decodedLength e) \<and> safe_unsigned (me_packOrdinal e) \<and>
     safe_unsigned (me_physicalOrdinal e) \<and> safe_unsigned (me_offset e) \<and> safe_unsigned (me_length e)"

lemma write_midx_entry_at:
  "write_midx_entry e (writer_at vs) = Inr w \<longleftrightarrow> writable_entry e \<and>
     byteLength (concat vs) + byteLength (concat (midx_entry_chunks e)) \<le> MAX_SAFE_INTEGER \<and> w = writer_at (vs @ midx_entry_chunks e)"
  by (auto simp: write_midx_entry_def midx_entry_chunks_def writable_entry_def rbind_eq_Inr idToBytes_Inr writeBytes_at writeVarint_at
      writeByte_one_at)

lemma midx_entry_writable: "midx_entry_ok packs e \<Longrightarrow> writable_entry e"
  by (simp add: midx_entry_ok_def writable_entry_def isSafeInteger_def MAX_PACK_RECORDS_def MAX_SAFE_INTEGER_def)

lemma descriptor_writable: "descriptor_ok d \<Longrightarrow> safe_unsigned (mp_byteLength d)"
  using hard_max_safe [of "mp_byteLength d" "mp_packClass d"] by (auto simp: descriptor_ok_def isSafeInteger_def MAX_SAFE_INTEGER_def)

lemma midx_size:
  assumes "midx_ok packs es"
  shows "length (midx_bytes packs es) \<le> 2081 + 41 * length packs + 74 * length es"
proof -
  have n: "safe_unsigned (int (length packs))" "safe_unsigned (int (length es))" using assms
    by (simp_all add: midx_ok_def isSafeInteger_def MAX_MULTI_PACK_INDEX_PACKS_def MAX_MULTI_PACK_INDEX_ENTRIES_def MAX_SAFE_INTEGER_def)
  have "length (concat (map varint (fanout_of (map me_logicalId es)))) \<le> 8 * length (fanout_of (map me_logicalId es))"
    by (rule concat_bound) (use fanout_varints [of _ "map me_logicalId es"] n varint_length_safe in \<open>auto simp: isSafeInteger_def\<close>)
  moreover have "length ((concat \<circ> descriptor_chunks) d) \<le> 41" if "d \<in> set packs" for d
  proof -
    have d: "descriptor_ok d" using assms that by (simp add: midx_ok_def list_all_iff)
    then show ?thesis using varint_length_safe [OF descriptor_writable [OF d]] id_bytes [of "mp_packId d"]
      by (simp add: descriptor_chunks_def descriptor_ok_def)
  qed
  then have "length (concat (map (concat \<circ> descriptor_chunks) packs)) \<le> 41 * length packs" by (rule concat_bound)
  moreover have "length ((concat \<circ> midx_entry_chunks) e) \<le> 74" if "e \<in> set es" for e
  proof -
    have e: "writable_entry e" using assms that midx_entry_writable by (auto simp: midx_ok_def list_all_iff)
    then show ?thesis
      using varint_length_safe [of "me_decodedLength e"] varint_length_safe [of "me_packOrdinal e"] varint_length_safe [of "me_physicalOrdinal e"]
        varint_length_safe [of "me_offset e"] varint_length_safe [of "me_length e"] id_bytes [of "me_logicalId e"]
      by (simp add: midx_entry_chunks_def writable_entry_def)
  qed
  then have "length (concat (map (concat \<circ> midx_entry_chunks) es)) \<le> 74 * length es" by (rule concat_bound)
  ultimately show ?thesis
    using varint_length_safe [OF n(1)] varint_length_safe [OF n(2)] varint_length_safe [of 0]
    by (simp add: midx_bytes_def midx_tables_def MIDX_MAGIC_def)
qed

lemma midx_size_safe: "midx_ok packs es \<Longrightarrow> byteLength (midx_bytes packs es) + 1000 \<le> MAX_SAFE_INTEGER"
  using midx_size [of packs es]
  by (simp add: midx_ok_def MAX_MULTI_PACK_INDEX_PACKS_def MAX_MULTI_PACK_INDEX_ENTRIES_def MAX_SAFE_INTEGER_def)

lemma writeIndex_ok:
  assumes "midx_ok packs es"
  shows "writeIndex packs es = Inr (midx_bytes packs es)"
proof -
  let ?f = "fanout_of (map me_logicalId es)"
  define head where "head = [MIDX_MAGIC, byte1 1, varint 0, varint (int (length packs)), varint (int (length es))]"
  define v1 where "v1 = head @ concat (map descriptor_chunks packs)"
  define v2 where "v2 = v1 @ concat (map (\<lambda>c. [varint c]) ?f)"
  define v3 where "v3 = v2 @ concat (map midx_entry_chunks es)"
  have n: "safe_unsigned (int (length packs))" "safe_unsigned (int (length es))" using assms
    by (simp_all add: midx_ok_def isSafeInteger_def MAX_MULTI_PACK_INDEX_PACKS_def MAX_MULTI_PACK_INDEX_ENTRIES_def MAX_SAFE_INTEGER_def)
  have bytes: "concat v3 = midx_bytes packs es"
    by (simp add: v3_def v2_def v1_def head_def midx_bytes_def midx_tables_def concat_map_singleton comp_def concat_concat)
  then have size: "byteLength (concat v3) \<le> MAX_SAFE_INTEGER" using midx_size_safe [OF assms] by simp
  then have sizes: "byteLength (concat v2) \<le> MAX_SAFE_INTEGER" "byteLength (concat v1) \<le> MAX_SAFE_INTEGER" "byteLength (concat head) \<le> MAX_SAFE_INTEGER"
    by (simp_all add: v3_def v2_def v1_def)
  have fan: "fanoutFor (MultiPackIndexError Midx_corrupt) (map me_logicalId es) = Inr ?f"
    by (rule fanoutFor_ok, rule midx_ids_hex [of packs]) (use assms in \<open>simp add: midx_ok_def\<close>)
  have start: "rbind (writeBytes MIDX_MAGIC newCanonicalWriter) (\<lambda>w. rbind (writeByte MULTI_PACK_INDEX_FORMAT_VERSION w) (\<lambda>w.
      rbind (writeVarint MIDX_FLAGS_NONE w) (\<lambda>w. rbind (writeVarint (int (length packs)) w) (\<lambda>w.
      rbind (writeVarint (int (length es)) w) k)))) = k (writer_at head)" for k :: "canonical_writer \<Rightarrow> bytes result"
  proof -
    have b: "writeBytes MIDX_MAGIC newCanonicalWriter = Inr (writer_at [MIDX_MAGIC])" using sizes(3) by (simp add: writeBytes_at head_def)
    have v: "writeByte MULTI_PACK_INDEX_FORMAT_VERSION (writer_at [MIDX_MAGIC]) = Inr (writer_at [MIDX_MAGIC, byte1 1])"
      using sizes(3) by (simp add: writeByte_one_at head_def MULTI_PACK_INDEX_FORMAT_VERSION_def)
    have f: "writeVarint MIDX_FLAGS_NONE (writer_at [MIDX_MAGIC, byte1 1]) = Inr (writer_at [MIDX_MAGIC, byte1 1, varint 0])"
      using sizes(3) by (simp add: writeVarint_at head_def MIDX_FLAGS_NONE_def)
    have p: "writeVarint (int (length packs)) (writer_at [MIDX_MAGIC, byte1 1, varint 0]) =
        Inr (writer_at [MIDX_MAGIC, byte1 1, varint 0, varint (int (length packs))])"
      using sizes(3) n by (simp add: writeVarint_at head_def)
    have e: "writeVarint (int (length es)) (writer_at [MIDX_MAGIC, byte1 1, varint 0, varint (int (length packs))]) = Inr (writer_at head)"
      using sizes(3) n by (simp add: writeVarint_at head_def)
    show ?thesis by (simp only: b v f p e rbind_Inr)
  qed
  have w1: "write_items write_descriptor packs (writer_at head) = Inr (writer_at v1)"
    using write_items_at [of packs write_descriptor "\<lambda>d. safe_unsigned (mp_byteLength d)" descriptor_chunks head] sizes assms descriptor_writable
    by (auto simp: write_descriptor_at v1_def midx_ok_def list_all_iff)
  have w2: "write_items writeVarint ?f (writer_at v1) = Inr (writer_at v2)"
    using write_items_at [of ?f writeVarint safe_unsigned "\<lambda>c. [varint c]" v1] sizes fanout_varints [of _ "map me_logicalId es"] n
    by (auto simp: writeVarint_at v2_def list_all_iff isSafeInteger_def)
  have w3: "write_items write_midx_entry es (writer_at v2) = Inr (writer_at v3)"
    using write_items_at [of es write_midx_entry writable_entry midx_entry_chunks v2] size sizes assms midx_entry_writable
    by (auto simp: write_midx_entry_at v3_def midx_ok_def list_all_iff)
  show ?thesis
    unfolding writeIndex_def fan rbind_Inr start w1 w2 w3 by (simp add: bytes)
qed


subsection \<open>What the decoder accepts\<close>

lemma rethrow_midx_Inr [simp]: "rethrow_midx m = Inr x \<longleftrightarrow> m = Inr x"
  by (cases m rule: rethrow_midx.cases) auto

lemma midx_trailer: "byteLength MIDX_TRAILER_MAGIC = 8" "CHECKSUM_BYTES = 32"
  by (simp_all add: MIDX_TRAILER_MAGIC_def CHECKSUM_BYTES_def SHA256_BYTE_LENGTH_def)

lemma decode_midx_Inr:
  assumes hash: "\<And>bs. length (hash bs) = 32"
  shows "decodeMultiPackIndex hash source = Inr idx \<longleftrightarrow>
    byteLength source \<le> MULTI_PACK_INDEX_HARD_MAX_BYTES \<and> midx_ok (mi_packs idx) (mi_entries idx) \<and>
    source = midx_bytes (mi_packs idx) (mi_entries idx) @ hash (midx_bytes (mi_packs idx) (mi_entries idx)) @ MIDX_TRAILER_MAGIC \<and>
    mi_fanout idx = fanout_of (map me_logicalId (mi_entries idx))" (is "_ \<longleftrightarrow> ?right")
proof
  let ?n = "length source - 40"
  assume left: "decodeMultiPackIndex hash source = Inr idx"
  have size: "byteLength source \<le> MULTI_PACK_INDEX_HARD_MAX_BYTES" and long: "40 < length source"
      and parts: "drop (?n + 32) source = MIDX_TRAILER_MAGIC" "take 32 (drop ?n source) = hash (take ?n source)"
      and body: "read_midx_body (take ?n source) = Inr idx"
    using left by (auto simp: decodeMultiPackIndex_def Let_def midx_trailer nat_diff_distrib split: if_splits)
  have whole: "source = take ?n source @ hash (take ?n source) @ MIDX_TRAILER_MAGIC"
    using parts by (metis add.commute append_take_drop_id drop_drop)
  have "byteLength (take ?n source) \<le> MAX_SAFE_INTEGER"
    using size by (simp add: MULTI_PACK_INDEX_HARD_MAX_BYTES_def MAX_SAFE_INTEGER_def)
  from read_midx_body_Inr [OF this, of idx] body have "midx_ok (mi_packs idx) (mi_entries idx)"
      "take ?n source = midx_bytes (mi_packs idx) (mi_entries idx)" "mi_fanout idx = fanout_of (map me_logicalId (mi_entries idx))"
    by simp_all
  then show ?right using size whole by simp
next
  let ?b = "midx_bytes (mi_packs idx) (mi_entries idx)"
  assume right: ?right
  then have source: "source = ?b @ hash ?b @ MIDX_TRAILER_MAGIC" by simp
  have "?b \<noteq> []" by (simp add: midx_bytes_def MIDX_MAGIC_def)
  moreover have "length source = length ?b + 40" using hash arg_cong [OF source, of length] by (simp add: MIDX_TRAILER_MAGIC_def)
  moreover have "byteLength ?b \<le> MAX_SAFE_INTEGER" using right midx_size_safe [of "mi_packs idx" "mi_entries idx"] by simp
  then have "read_midx_body ?b = Inr idx" using right read_midx_body_Inr by blast
  moreover have "drop (length ?b + 32) source = MIDX_TRAILER_MAGIC" "take 32 (drop (length ?b) source) = hash ?b" "take (length ?b) source = ?b"
    unfolding source using hash by simp_all
  ultimately have facts: "?b \<noteq> []" "length source = length ?b + 40" "read_midx_body ?b = Inr idx"
      "drop (length ?b + 32) source = MIDX_TRAILER_MAGIC" "take 32 (drop (length ?b) source) = hash ?b" "take (length ?b) source = ?b"
    by blast+
  have "nat (byteLength source - 8) = length ?b + 32" "byteLength source \<le> MULTI_PACK_INDEX_HARD_MAX_BYTES" "\<not> byteLength source \<le> 40"
    using facts(1,2) right [THEN conjunct1] by simp_all
  then show "decodeMultiPackIndex hash source = Inr idx"
    unfolding decodeMultiPackIndex_def Let_def midx_trailer rethrow_midx_Inr using facts by simp
qed

subsection \<open>Views of packs\<close>

text \<open>What the index of a pack guarantees of its view.\<close>

definition view_ok :: "pack_index_view \<Rightarrow> bool" where
  "view_ok v \<longleftrightarrow> is_sha256_hex (vw_packId v) \<and> 0 < vw_byteLength v \<and> vw_byteLength v \<le> packHardMax (vw_packClass v) \<and>
     distinct (map pe_offset (vw_entries v)) \<and>
     list_all (\<lambda>e. index_entry_ok e \<and> pe_physicalOrdinal e < MAX_PACK_RECORDS \<and> 0 < pe_length e \<and> pe_offset e + pe_length e \<le> vw_byteLength v \<and>
       packClassForRecordKind (pe_kind e) = vw_packClass v \<and>
       (pe_encoding e = Chunked_v1 \<or> pe_encoding e = Delta1 \<longrightarrow> pe_kind e = Kind_content)) (vw_entries v)"

definition numbered_entries :: "nat \<Rightarrow> pack_index_view list \<Rightarrow> multi_pack_index_entry list" where
  "numbered_entries n packs = concat (map (\<lambda>(ordinal, pack). map (entryFor pack (int ordinal)) (vw_entries pack)) (enumerate n packs))"

lemma all_entries_numbered: "all_entries packs = numbered_entries 0 packs"
  by (simp add: all_entries_def numbered_entries_def)

lemma numbered_simps [simp]:
  "numbered_entries n [] = []"
  "numbered_entries n (v # vs) = map (entryFor v (int n)) (vw_entries v) @ numbered_entries (Suc n) vs"
  by (simp_all add: numbered_entries_def)

lemma numbered_mem:
  "e \<in> set (numbered_entries n packs) \<longleftrightarrow> (\<exists>i < length packs. \<exists>x \<in> set (vw_entries (packs ! i)). e = entryFor (packs ! i) (int (n + i)) x)"
proof (induction packs arbitrary: n)
  case (Cons v vs)
  show ?case unfolding numbered_simps set_append Un_iff Cons
    by (simp add: Ex_less_Suc2 image_iff Bex_def add.left_commute add.commute)
qed simp

lemma entryFor_key [simp]: "me_logicalId (entryFor v n x) = pe_logicalId x" "me_kind (entryFor v n x) = pe_kind x"
  by (simp_all add: entryFor_def)

lemma length_numbered: "length (numbered_entries n packs) = sum_list (map (\<lambda>v. length (vw_entries v)) packs)"
  by (induction packs arbitrary: n) simp_all

lemma numbered_distinct:
  "list_all view_ok packs \<Longrightarrow> distinct (map (\<lambda>e. (me_packOrdinal e, me_offset e)) (numbered_entries n packs))"
proof (induction packs arbitrary: n)
  case (Cons v vs)
  have one: "map ((\<lambda>e. (me_packOrdinal e, me_offset e)) \<circ> entryFor v (int n)) (vw_entries v) = map (\<lambda>o'. (int n, o')) (map pe_offset (vw_entries v))"
    by (simp add: entryFor_def)
  have "distinct (map (\<lambda>o'. (int n, o')) (map pe_offset (vw_entries v)))"
    unfolding distinct_map [of "\<lambda>o'. (int n, o')"] using Cons.prems by (simp add: view_ok_def inj_on_def)
  moreover have "int n < me_packOrdinal e" if "e \<in> set (numbered_entries (Suc n) vs)" for e
    using that by (auto simp: numbered_mem entryFor_def)
  then have "(int n, o') \<notin> (\<lambda>e. (me_packOrdinal e, me_offset e)) ` set (numbered_entries (Suc n) vs)" for o' by fastforce
  moreover have "(\<lambda>e. (me_packOrdinal e, me_offset e)) ` entryFor v (int n) ` set (vw_entries v) \<subseteq> {int n} \<times> UNIV"
    by (auto simp: entryFor_def)
  ultimately show ?case using Cons.IH [of "Suc n"] Cons.prems
    unfolding numbered_simps map_append distinct_append set_map map_map one by auto
qed simp

lemma count_entries_sum:
  "acc \<le> bound \<Longrightarrow> count_entries bound packs acc =
     (if acc + int (sum_list (map (\<lambda>v. length (vw_entries v)) packs)) \<le> bound
      then Some (acc + int (sum_list (map (\<lambda>v. length (vw_entries v)) packs))) else None)"
  by (induction packs arbitrary: acc) auto

lemma sort_views_ids: "sorted (map vw_packId (sort_views views))"
proof -
  have "sorted_wrt (\<lambda>x y. compareHex (vw_packId x) (vw_packId y) \<le> 0) (sort_views views)"
    unfolding sort_views_def by (rule by_pack_id.ascending_sort)
  then show ?thesis unfolding sorted_map by (rule sorted_wrt_mono_rel [rotated]) (auto simp: compareHex_def split: if_splits)
qed

lemma sort_views_members [simp]: "set (sort_views views) = set views" "length (sort_views views) = length views"
    "distinct (map vw_packId (sort_views views)) = distinct (map vw_packId views)"
  by (simp_all add: sort_views_def)

lemma adjacent_duplicate_sorted: "sorted (map vw_packId packs) \<Longrightarrow> adjacent_duplicate packs \<longleftrightarrow> \<not> distinct (map vw_packId packs)"
  by (induction packs rule: adjacent_duplicate.induct) auto

lemma ids_strict: "sorted (map vw_packId packs) \<Longrightarrow> distinct (map vw_packId packs) \<Longrightarrow>
    strictly_sorted (\<lambda>a b. compareHex (mp_packId a) (mp_packId b)) (map descriptor_of packs)"
  by (induction packs rule: adjacent_duplicate.induct) (auto simp: compareHex_def descriptor_of_def)


definition midx_of :: "pack_index_view list \<Rightarrow> multi_pack_index" where
  "midx_of views = (let packs = sort_views views; es = js_sort compareMidxEntries (all_entries packs)
     in \<lparr>mi_packs = map descriptor_of packs, mi_entries = es, mi_fanout = fanout_of (map me_logicalId es)\<rparr>)"

definition total_entries :: "pack_index_view list \<Rightarrow> nat" where
  "total_entries views = sum_list (map (\<lambda>v. length (vw_entries v)) views)"

lemma total_sorted: "sum_list (map (\<lambda>v. length (vw_entries v)) (sort_views views)) = total_entries views"
proof -
  have "mset (map (\<lambda>v. length (vw_entries v)) (sort_views views)) = mset (map (\<lambda>v. length (vw_entries v)) views)"
    by (simp add: sort_views_def)
  then show ?thesis unfolding total_entries_def by (metis sum_mset_sum_list)
qed

lemma view_entry_ok:
  assumes "list_all view_ok packs" and "int (length packs) \<le> MAX_MULTI_PACK_INDEX_PACKS" and "e \<in> set (numbered_entries 0 packs)"
  shows "midx_entry_ok (map descriptor_of packs) e"
proof -
  obtain i x where i: "i < length packs" "x \<in> set (vw_entries (packs ! i))" and e: "e = entryFor (packs ! i) (int i) x"
    using assms(3) by (auto simp: numbered_mem)
  have "view_ok (packs ! i)" using assms(1) i(1) by (simp add: list_all_length)
  then have x: "index_entry_ok x" "pe_physicalOrdinal x < MAX_PACK_RECORDS" "0 < pe_length x" "pe_offset x + pe_length x \<le> vw_byteLength (packs ! i)"
      "packClassForRecordKind (pe_kind x) = vw_packClass (packs ! i)" "pe_encoding x = Chunked_v1 \<or> pe_encoding x = Delta1 \<longrightarrow> pe_kind x = Kind_content"
    using i(2) by (auto simp: view_ok_def list_all_iff)
  have "element_at (map descriptor_of packs) (int i) = Some (descriptor_of (packs ! i))" using i(1) by (simp add: element_at_def)
  moreover have "isSafeInteger (int i)"
    using i(1) assms(2) by (simp add: isSafeInteger_def MAX_MULTI_PACK_INDEX_PACKS_def MAX_SAFE_INTEGER_def)
  ultimately show ?thesis using x unfolding e by (simp add: midx_entry_ok_def entryFor_def index_entry_ok_def descriptor_of_def)
qed

lemma midx_of_ok:
  assumes views: "list_all view_ok views" "distinct (map vw_packId views)"
    and "int (length views) \<le> MAX_MULTI_PACK_INDEX_PACKS" and "int (total_entries views) \<le> MAX_MULTI_PACK_INDEX_ENTRIES"
  shows "midx_ok (mi_packs (midx_of views)) (mi_entries (midx_of views))"
proof -
  let ?ps = "sort_views views"
  have ps: "list_all view_ok ?ps" using views(1) by (simp add: list_all_iff)
  have entries: "list_all (midx_entry_ok (map descriptor_of ?ps)) (js_sort compareMidxEntries (all_entries ?ps))"
    using view_entry_ok [OF ps] assms(3) by (simp add: list_all_iff all_entries_numbered)
  have descriptors: "list_all descriptor_ok (map descriptor_of ?ps)"
    using ps by (auto simp: list_all_iff descriptor_ok_def descriptor_of_def view_ok_def)
  have strict: "strictly_sorted compareMidxEntries (js_sort compareMidxEntries (all_entries ?ps))"
    unfolding midx_index.strictly_sorted_iff
    by (rule midx_index.sort_strict [where key = "\<lambda>e. (me_packOrdinal e, me_offset e)"])
      (use compareMidxEntries_zero numbered_distinct [OF ps] in \<open>auto simp: all_entries_numbered\<close>)
  show ?thesis
    using entries descriptors strict assms(3,4) ids_strict [OF sort_views_ids, of views] views(2)
    by (simp add: midx_ok_def midx_of_def Let_def all_entries_numbered length_numbered total_sorted)
qed

lemma build_midx_Inr:
  assumes hash: "\<And>bs. length (hash bs) = 32" and views: "list_all view_ok views"
  defines "body \<equiv> midx_bytes (mi_packs (midx_of views)) (mi_entries (midx_of views))"
  shows "buildMultiPackIndexFromViews hash views = Inr (bs, index) \<longleftrightarrow>
    int (length views) \<le> MAX_MULTI_PACK_INDEX_PACKS \<and> distinct (map vw_packId views) \<and> int (total_entries views) \<le> MAX_MULTI_PACK_INDEX_ENTRIES \<and>
    byteLength body + 40 \<le> MULTI_PACK_INDEX_HARD_MAX_BYTES \<and> bs = body @ hash body @ MIDX_TRAILER_MAGIC \<and> index = midx_of views"
proof (cases "int (length views) \<le> MAX_MULTI_PACK_INDEX_PACKS \<and> distinct (map vw_packId views) \<and> int (total_entries views) \<le> MAX_MULTI_PACK_INDEX_ENTRIES")
  case True
  have ok: "midx_ok (mi_packs (midx_of views)) (mi_entries (midx_of views))" using midx_of_ok [OF views] True by blast
  have dup: "\<not> adjacent_duplicate (sort_views views)" using True by (simp add: adjacent_duplicate_sorted [OF sort_views_ids])
  have bound: "(0 :: int) \<le> MAX_MULTI_PACK_INDEX_ENTRIES" by (simp add: MAX_MULTI_PACK_INDEX_ENTRIES_def)
  have count: "count_entries MAX_MULTI_PACK_INDEX_ENTRIES (sort_views views) 0 \<noteq> None"
    using True by (simp add: count_entries_sum [OF bound] total_sorted)
  have tables: "map descriptor_of (sort_views views) = mi_packs (midx_of views)"
      "js_sort compareMidxEntries (all_entries (sort_views views)) = mi_entries (midx_of views)"
    by (simp_all add: midx_of_def Let_def)
  have len: "int (length (mi_entries (midx_of views))) \<le> MAX_MULTI_PACK_INDEX_ENTRIES" using ok by (simp add: midx_ok_def)
  have size: "byteLength body + 40 \<le> MAX_SAFE_INTEGER" using midx_size_safe [OF ok] by (simp add: body_def)
  have w1: "writeBytes body newCanonicalWriter = Inr (writer_at [body])" using size by (simp add: writeBytes_at)
  have w2: "writeBytes (hash body) (writer_at [body]) = Inr (writer_at [body, hash body])" using size hash by (simp add: writeBytes_at)
  have w3: "writeBytes MIDX_TRAILER_MAGIC (writer_at [body, hash body]) = Inr (writer_at [body, hash body, MIDX_TRAILER_MAGIC])"
    using size hash by (simp add: writeBytes_at MIDX_TRAILER_MAGIC_def)
  have fin: "finish (writer_at [body, hash body, MIDX_TRAILER_MAGIC]) = body @ hash body @ MIDX_TRAILER_MAGIC" by simp
  let ?bs = "body @ hash body @ MIDX_TRAILER_MAGIC"
  have total: "byteLength ?bs = byteLength body + 40" using hash by (simp add: MIDX_TRAILER_MAGIC_def)
  have dec: "decodeMultiPackIndex hash ?bs = Inr (midx_of views)" if "byteLength body + 40 \<le> MULTI_PACK_INDEX_HARD_MAX_BYTES"
    unfolding decode_midx_Inr [OF hash] total using that ok by (simp add: body_def midx_of_def Let_def)
  have "buildMultiPackIndexFromViews hash views = (if byteLength body + 40 > MULTI_PACK_INDEX_HARD_MAX_BYTES then invalid_midx Midx_limit_exceeded
      else rbind (decodeMultiPackIndex hash ?bs) (\<lambda>index. Inr (?bs, index)))"
    unfolding buildMultiPackIndexFromViews_def Let_def tables writeIndex_ok [OF ok, folded body_def] rbind_Inr w1 w2 w3 fin total
    using True dup count len by auto
  then show ?thesis using dec True by auto
next
  case False
  have bound: "(0 :: int) \<le> MAX_MULTI_PACK_INDEX_ENTRIES" by (simp add: MAX_MULTI_PACK_INDEX_ENTRIES_def)
  show ?thesis using False
    by (auto simp: buildMultiPackIndexFromViews_def Let_def adjacent_duplicate_sorted [OF sort_views_ids] count_entries_sum [OF bound] total_sorted)
qed

lemma sort_views_unique:
  assumes "mset vs = mset views" and "distinct (map vw_packId views)"
  shows "sort_views vs = sort_views views"
proof -
  have sets: "set vs = set views" and ids: "distinct (map vw_packId vs)"
    using assms mset_eq_setD [OF assms(1)] by (auto dest: mset_eq_imp_distinct_iff simp: distinct_map)
  have "map vw_packId (sort_views vs) = map vw_packId (sort_views views)"
    by (rule sorted_distinct_set_unique) (use assms ids sets sort_views_ids in simp_all)
  moreover have "inj_on vw_packId (set (sort_views vs) \<union> set (sort_views views))"
    using assms(2) sets by (simp add: distinct_map)
  ultimately show ?thesis by (rule map_inj_on)
qed

lemma validate_current_iff:
  "validateMultiPackIndexViews index views = Midx_current \<longleftrightarrow> distinct (map vw_packId views) \<and>
     mi_packs index = mi_packs (midx_of views) \<and> mi_entries index = mi_entries (midx_of views)"
proof (cases "distinct (map vw_packId views)")
  case True
  then have canon: "canonicalPackList views = Some (sort_views views)"
    by (simp add: canonicalPackList_def Let_def adjacent_duplicate_sorted [OF sort_views_ids])
  have len: "length (all_entries (sort_views views)) = total_entries views"
    by (simp add: all_entries_numbered length_numbered total_sorted)
  have count: "count_entries (int (length (mi_entries index))) (sort_views views) 0 =
      (if total_entries views \<le> length (mi_entries index) then Some (int (total_entries views)) else None)"
    using count_entries_sum [of 0 "int (length (mi_entries index))" "sort_views views"] by (simp add: total_sorted)
  show ?thesis
    unfolding validateMultiPackIndexViews_def canon
    using True len by (auto simp: midx_of_def Let_def count dest: arg_cong [of _ _ length])
next
  case False
  then show ?thesis
    by (simp add: validateMultiPackIndexViews_def canonicalPackList_def Let_def adjacent_duplicate_sorted [OF sort_views_ids])
qed


subsection \<open>Properties\<close>

text \<open>C38. A multi-pack index file round trips: the decoder accepts exactly the files made of what is written for admissible
  tables, its digest and the trailer, and returns these tables.\<close>

theorem midx_codec_is_canonical:
  assumes "\<And>bs. length (hash bs) = 32"
  shows "decodeMultiPackIndex hash source = Inr index \<longleftrightarrow>
    byteLength source \<le> MULTI_PACK_INDEX_HARD_MAX_BYTES \<and> midx_ok (mi_packs index) (mi_entries index) \<and>
    fanoutFor (MultiPackIndexError Midx_corrupt) (map me_logicalId (mi_entries index)) = Inr (mi_fanout index) \<and>
    (\<exists>body. writeIndex (mi_packs index) (mi_entries index) = Inr body \<and> source = body @ hash body @ MIDX_TRAILER_MAGIC)"
proof (cases "midx_ok (mi_packs index) (mi_entries index)")
  case True
  have "list_all is_sha256_hex (map me_logicalId (mi_entries index))"
    using True midx_ids_hex by (auto simp: midx_ok_def)
  then show ?thesis using True by (auto simp: decode_midx_Inr [OF assms] writeIndex_ok fanoutFor_Inr)
qed (simp add: decode_midx_Inr [OF assms])

text \<open>C39. A freshly built index is current: it is what its file decodes to, and validating it against the same packs in any
  order finds it current; it holds the descriptors and the entries of all packs, in order.\<close>

theorem built_index_is_current:
  assumes "buildMultiPackIndexFromViews hash views = Inr (bs, index)" and "\<And>bs. length (hash bs) = 32"
    and "list_all view_ok views" and "mset available = mset views"
  shows "decodeMultiPackIndex hash bs = Inr index \<and> validateMultiPackIndexViews index available = Midx_current \<and>
    mset (mi_packs index) = mset (map descriptor_of views) \<and> length (mi_entries index) = total_entries views"
proof -
  note built = assms(1) [unfolded build_midx_Inr [OF assms(2,3)]]
  then have index: "index = midx_of views" and ids: "distinct (map vw_packId views)" by blast+
  have "validateMultiPackIndexViews index available = Midx_current"
    unfolding validate_current_iff index midx_of_def [of available] sort_views_unique [OF assms(4) ids] midx_of_def [of views, symmetric]
    using ids assms(4) mset_eq_imp_distinct_iff [of "map vw_packId available" "map vw_packId views"] by simp
  moreover have "decodeMultiPackIndex hash bs = Inr index"
    using assms(1) by (auto simp: buildMultiPackIndexFromViews_def Let_def rbind_eq_Inr split: if_splits)
  moreover have "length (mi_entries index) = total_entries views"
    by (simp add: index midx_of_def Let_def all_entries_numbered length_numbered total_sorted)
  moreover have "mset (mi_packs index) = mset (map descriptor_of views)"
    by (simp add: index midx_of_def Let_def sort_views_def)
  ultimately show ?thesis by blast
qed

text \<open>C40. A current index answers for all packs: looking up a key returns one candidate for each entry of a pack with that key,
  and every candidate is resolved to that entry of its pack, never called stale.\<close>

theorem current_lookups_resolve:
  assumes "decodeMultiPackIndex hash source = Inr index" and "\<And>bs. length (hash bs) = 32"
    and "validateMultiPackIndexViews index views = Midx_current" and "is_sha256_hex key"
    and opened: "list_all (\<lambda>v. \<exists>pack. packsById (vw_packId v) = Some pack \<and> pl_packId pack = vw_packId v \<and> pl_packClass pack = vw_packClass v \<and>
      pl_byteLength pack = vw_byteLength v \<and>
      list_all (\<lambda>e. pl_entryForPhysicalOrdinal pack (pe_physicalOrdinal e) = Some e) (vw_entries v)) views"
  shows "\<exists>matches. midx_lookup index kind key = Inr matches \<and>
    {(me_packId m, me_physicalOrdinal m) | m. m \<in> set matches} =
      {(vw_packId v, pe_physicalOrdinal e) | v e. v \<in> set views \<and> e \<in> set (vw_entries v) \<and> pe_logicalId e = key \<and> pe_kind e = kind} \<and>
    list_all (\<lambda>m. \<exists>pack e. resolveMultiPackIndexEntry index m packsById = Inr (Midx_hit pack e) \<and> packsById (me_packId m) = Some pack \<and>
      pe_logicalId e = key \<and> pe_kind e = kind \<and> pe_physicalOrdinal e = me_physicalOrdinal m) matches"
proof -
  let ?ps = "sort_views views"
  have ok: "midx_ok (mi_packs index) (mi_entries index)" and fan: "mi_fanout index = fanout_of (map me_logicalId (mi_entries index))"
    using assms(1) unfolding decode_midx_Inr [OF assms(2)] by blast+
  have tables: "mi_packs index = map descriptor_of ?ps" "mi_entries index = js_sort compareMidxEntries (numbered_entries 0 ?ps)"
    using assms(3) unfolding validate_current_iff by (simp_all add: midx_of_def Let_def all_entries_numbered)
  have found: "midx_lookup index k i = Inr (filter (\<lambda>e. me_logicalId e = i \<and> me_kind e = k) (mi_entries index))" if "is_sha256_hex i" for i k
  proof -
    have "list_all (\<lambda>e. is_sha256_hex (me_logicalId e)) (mi_entries index)" using ok by (auto simp: midx_ok_def list_all_iff midx_entry_ok_def)
    moreover have "sorted_wrt (\<lambda>x y. compareMidxEntries x y < 0) (mi_entries index)"
      using ok by (simp add: midx_ok_def midx_index.strictly_sorted_iff)
    ultimately show ?thesis using midx_index.lookup_is_filter [OF _ _ that] by (simp add: midx_lookup_def that fan)
  qed
  let ?ms = "filter (\<lambda>e. me_logicalId e = key \<and> me_kind e = kind) (mi_entries index)"
  have coordinates: "me_packId (entryFor v n x) = vw_packId v" "me_physicalOrdinal (entryFor v n x) = pe_physicalOrdinal x" for v n x
    by (simp_all add: entryFor_def)
  have members: "m \<in> set ?ms \<longleftrightarrow> (\<exists>n < length ?ps. \<exists>x \<in> set (vw_entries (?ps ! n)). m = entryFor (?ps ! n) (int n) x \<and>
      pe_logicalId x = key \<and> pe_kind x = kind)" for m
    by (simp add: tables numbered_mem) (metis entryFor_key)
  have "{(me_packId m, me_physicalOrdinal m) | m. m \<in> set ?ms} =
      {(vw_packId v, pe_physicalOrdinal e) | v e. v \<in> set ?ps \<and> e \<in> set (vw_entries v) \<and> pe_logicalId e = key \<and> pe_kind e = kind}"
    unfolding members in_set_conv_nth [of _ ?ps]
    by (intro set_eqI iffI; elim CollectE exE conjE bexE; simp add: coordinates; metis coordinates)
  moreover have "\<exists>pack e. resolveMultiPackIndexEntry index m packsById = Inr (Midx_hit pack e) \<and> packsById (me_packId m) = Some pack \<and>
      pe_logicalId e = key \<and> pe_kind e = kind \<and> pe_physicalOrdinal e = me_physicalOrdinal m" if m: "m \<in> set ?ms" for m
  proof -
    obtain n x where n: "n < length ?ps" "x \<in> set (vw_entries (?ps ! n))" and mx: "m = entryFor (?ps ! n) (int n) x"
        "pe_logicalId x = key" "pe_kind x = kind"
      using m unfolding members by blast
    have "?ps ! n \<in> set views" using n(1) nth_mem [of n ?ps] by simp
    then obtain pack where pack: "packsById (vw_packId (?ps ! n)) = Some pack" "pl_packId pack = vw_packId (?ps ! n)"
        "pl_packClass pack = vw_packClass (?ps ! n)" "pl_byteLength pack = vw_byteLength (?ps ! n)"
        "pl_entryForPhysicalOrdinal pack (pe_physicalOrdinal x) = Some x"
      using opened n(2) by (auto simp: list_all_iff)
    have "element_at (mi_packs index) (int n) = Some (descriptor_of (?ps ! n))" using n(1) by (simp add: tables element_at_def)
    moreover have "m \<in> set (filter (\<lambda>e. me_logicalId e = me_logicalId m \<and> me_kind e = me_kind m) (mi_entries index))" using m by simp
    ultimately have "resolveMultiPackIndexEntry index m packsById = Inr (Midx_hit pack x)"
      using pack assms(4) mx(2,3) unfolding mx(1)
      by (simp add: resolveMultiPackIndexEntry_def found entryFor_def descriptor_of_def)
    then show ?thesis using pack mx by (auto simp: entryFor_def)
  qed
  ultimately show ?thesis using found [OF assms(4)] by (intro exI [of _ ?ms]) (auto simp: list_all_iff)
qed


subsection \<open>Witnesses\<close>

definition sample_view :: pack_index_view where
  "sample_view = \<lparr>vw_packId = replicate 64 CHR ''3'', vw_packClass = Data_pack, vw_byteLength = 200,
     vw_entries = [sample_entry (replicate 64 CHR ''7'') 0]\<rparr>"

definition sample_digest :: "bytes \<Rightarrow> bytes" where "sample_digest bs = replicate 32 0x77"

definition sample_lookup :: pack_index_lookup where
  "sample_lookup = \<lparr>pl_packId = vw_packId sample_view, pl_packClass = vw_packClass sample_view, pl_byteLength = vw_byteLength sample_view,
     pl_entryForPhysicalOrdinal = element_at (vw_entries sample_view)\<rparr>"

lemma sample_digest_length: "length (sample_digest bs) = 32"
  by (simp add: sample_digest_def)

lemma sample_views_ok: "list_all view_ok [sample_view]"
  by code_simp

lemma sample_index_built: "\<exists>bs. buildMultiPackIndexFromViews sample_digest [sample_view] = Inr (bs, midx_of [sample_view])"
proof -
  have total: "total_entries [sample_view] = 1" by code_simp
  then have "midx_ok (mi_packs (midx_of [sample_view])) (mi_entries (midx_of [sample_view]))"
    by (intro midx_of_ok [OF sample_views_ok]) (simp_all add: MAX_MULTI_PACK_INDEX_PACKS_def MAX_MULTI_PACK_INDEX_ENTRIES_def)
  from midx_size [OF this] have "length (midx_bytes (mi_packs (midx_of [sample_view])) (mi_entries (midx_of [sample_view]))) \<le> 3000"
    using total by (simp add: midx_of_def Let_def all_entries_numbered length_numbered total_sorted)
  then show ?thesis
    using total unfolding build_midx_Inr [OF sample_digest_length sample_views_ok]
    by (simp add: MAX_MULTI_PACK_INDEX_PACKS_def MAX_MULTI_PACK_INDEX_ENTRIES_def MULTI_PACK_INDEX_HARD_MAX_BYTES_def)
qed

lemma sample_index_decoded:
  obtains bs where "buildMultiPackIndexFromViews sample_digest [sample_view] = Inr (bs, midx_of [sample_view])"
    and "decodeMultiPackIndex sample_digest bs = Inr (midx_of [sample_view])"
proof -
  obtain bs where built: "buildMultiPackIndexFromViews sample_digest [sample_view] = Inr (bs, midx_of [sample_view])"
    using sample_index_built by blast
  then have "decodeMultiPackIndex sample_digest bs = Inr (midx_of [sample_view])"
    by (auto simp: buildMultiPackIndexFromViews_def Let_def rbind_eq_Inr split: if_splits)
  then show ?thesis using that built by blast
qed

theorem midx_codec_is_canonical_witness:
  "\<exists>body. writeIndex (mi_packs (midx_of [sample_view])) (mi_entries (midx_of [sample_view])) = Inr body \<and>
     decodeMultiPackIndex sample_digest (body @ sample_digest body @ MIDX_TRAILER_MAGIC) = Inr (midx_of [sample_view])"
proof -
  obtain bs where decoded: "decodeMultiPackIndex sample_digest bs = Inr (midx_of [sample_view])"
    by (rule sample_index_decoded)
  note parts = midx_codec_is_canonical [where hash = sample_digest, OF sample_digest_length, THEN iffD1, OF decoded]
  obtain body where body: "writeIndex (mi_packs (midx_of [sample_view])) (mi_entries (midx_of [sample_view])) = Inr body"
      "bs = body @ sample_digest body @ MIDX_TRAILER_MAGIC"
    using parts by blast
  show ?thesis by (rule exI [of _ body], rule conjI [OF body(1)]) (use decoded in \<open>simp only: body(2)\<close>)
qed

theorem built_index_is_current_witness:
  "\<exists>bs index. buildMultiPackIndexFromViews sample_digest [sample_view] = Inr (bs, index) \<and>
     validateMultiPackIndexViews index [sample_view] = Midx_current"
proof -
  obtain bs where built: "buildMultiPackIndexFromViews sample_digest [sample_view] = Inr (bs, midx_of [sample_view])"
    by (rule sample_index_decoded)
  note built_index_is_current [where hash = sample_digest, OF built sample_digest_length sample_views_ok refl]
  then show ?thesis using built by (intro exI conjI) (assumption, elim conjE)
qed

theorem current_lookups_resolve_witness:
  "\<exists>index matches m pack e. midx_lookup index Kind_content (replicate 64 CHR ''7'') = Inr matches \<and> m \<in> set matches \<and>
     resolveMultiPackIndexEntry index m (\<lambda>i. if i = vw_packId sample_view then Some sample_lookup else None) = Inr (Midx_hit pack e) \<and>
     pe_logicalId e = replicate 64 CHR ''7''"
proof -
  let ?key = "replicate 64 CHR ''7''" and ?open = "\<lambda>i. if i = vw_packId sample_view then Some sample_lookup else None"
  let ?index = "midx_of [sample_view]"
  obtain bs where decoded: "decodeMultiPackIndex sample_digest bs = Inr ?index" by (rule sample_index_decoded)
  have current: "validateMultiPackIndexViews ?index [sample_view] = Midx_current" by (simp add: validate_current_iff)
  have key: "is_sha256_hex ?key" by code_simp
  have opened: "list_all (\<lambda>v. \<exists>pack. ?open (vw_packId v) = Some pack \<and> pl_packId pack = vw_packId v \<and> pl_packClass pack = vw_packClass v \<and>
      pl_byteLength pack = vw_byteLength v \<and>
      list_all (\<lambda>e. pl_entryForPhysicalOrdinal pack (pe_physicalOrdinal e) = Some e) (vw_entries v)) [sample_view]"
    by (simp add: sample_lookup_def) (simp add: sample_view_def sample_entry_def element_at_def)
  obtain matches where ms: "midx_lookup ?index Kind_content ?key = Inr matches"
      and all: "{(me_packId m, me_physicalOrdinal m) | m. m \<in> set matches} = {(vw_packId v, pe_physicalOrdinal e) | v e. v \<in> set [sample_view] \<and>
        e \<in> set (vw_entries v) \<and> pe_logicalId e = ?key \<and> pe_kind e = Kind_content}"
      and each: "list_all (\<lambda>m. \<exists>pack e. resolveMultiPackIndexEntry ?index m ?open = Inr (Midx_hit pack e) \<and> ?open (me_packId m) = Some pack \<and>
        pe_logicalId e = ?key \<and> pe_kind e = Kind_content \<and> pe_physicalOrdinal e = me_physicalOrdinal m) matches"
    using current_lookups_resolve [where hash = sample_digest, OF decoded sample_digest_length current key opened] by blast
  have "(vw_packId sample_view, 0) \<in> {(vw_packId v, pe_physicalOrdinal e) | v e. v \<in> set [sample_view] \<and>
        e \<in> set (vw_entries v) \<and> pe_logicalId e = ?key \<and> pe_kind e = Kind_content}"
    by (simp add: sample_view_def sample_entry_def)
  then obtain m where m: "m \<in> set matches" unfolding all [symmetric] by blast
  obtain pack e where "resolveMultiPackIndexEntry ?index m ?open = Inr (Midx_hit pack e)" "pe_logicalId e = ?key"
    using each m unfolding list_all_iff by blast
  then show ?thesis using ms m by blast
qed

end
