(* ===== verification/Spec2Isabelle.thy ===== *)
theory Spec2Isabelle
  imports Pack_Delta Recipe_Graph Restore_Service Pack_Safety Pack_Handles Multi_Pack_Index
begin

text \<open>
  Cyclotomy records checkpoints of a workspace along the session tree of a host (the Pi coding agent) and restores them.
  Paths below are those under \<^verbatim>\<open>src/\<close>. A session is a tree of entries; some entries are stable coordinates. A capture
  scans the workspace twice, publishes its files as content-addressed objects and a tree manifest, and commits the tree at
  a coordinate in the metadata store. A coordinate resolves to the nearest checkpoint at or above it. A restore reads the
  resolved tree, plans the difference to the workspace, stages the blobs, applies the plan under a one-shot lease and
  verifies the result with another scan. Objects are kept loose or in packs, which are found through footers and one
  multi-pack index.

  \<^bold>\<open>Domain and metadata.\<close> \<^verbatim>\<open>Checkpoint_Slot\<close> holds \<^verbatim>\<open>domain/checkpoint-slot.ts\<close> and \<^verbatim>\<open>domain/checkpoint-lineage.ts\<close>: the states
  of a slot, its transitions and the inheritance law. \<^verbatim>\<open>Metadata_Store\<close> and \<^verbatim>\<open>Session_Projection\<close> hold \<^verbatim>\<open>infrastructure/metadata.ts\<close>
  over the tables of layout V5: tables are association lists, a connection carries its verified generation of a session's
  history, and an operation returns its result with the new connection and tables, or an error that leaves the tables as
  they were (the transaction). \<^verbatim>\<open>Metadata_Laws\<close> states the invariant of the tables and the interface of a slot store as a
  locale, with its interpretation; \<^verbatim>\<open>Metadata_Effects\<close> and \<^verbatim>\<open>Metadata_Machine\<close> give one inversion lemma per operation and the
  operations as steps; \<^verbatim>\<open>Metadata_Properties\<close> holds what is true of every run.

  \<^bold>\<open>Content store.\<close> \<^verbatim>\<open>Canonical_Binary\<close> (\<^verbatim>\<open>canonical-binary.ts\<close>) has varints, the bounded writer and the reader, with the
  locale of a canonical codec that every format below instantiates: a reader accepts exactly the bytes of valid values.
  \<^verbatim>\<open>Record_Envelope\<close> has \<^verbatim>\<open>ids.ts\<close> and \<^verbatim>\<open>record.ts\<close>, \<^verbatim>\<open>FastCDC\<close> has \<^verbatim>\<open>fastcdc.ts\<close> with its 64-bit gear hash as words,
  \<^verbatim>\<open>Pack_Delta\<close> has \<^verbatim>\<open>pack-delta.ts\<close>, \<^verbatim>\<open>Chunk_Recipe\<close> and \<^verbatim>\<open>Recipe_Graph\<close> have \<^verbatim>\<open>chunk-recipe.ts\<close>. Packs are \<^verbatim>\<open>pack.ts\<close>:
  \<^verbatim>\<open>Fanout_Index\<close> is the fanout search shared with the multi-pack index, \<^verbatim>\<open>Pack_Footer\<close> the footer codec, \<^verbatim>\<open>Pack_Layout\<close> the encoder
  and the planning bound, \<^verbatim>\<open>Pack_Reader\<close> the readers over a positional source with the characterisation of the files they
  accept, \<^verbatim>\<open>Pack_Roundtrip\<close> the round trips, \<^verbatim>\<open>Pack_Safety\<close> what holds for any source. \<^verbatim>\<open>Multi_Pack_Index\<close> is
  \<^verbatim>\<open>multi-pack-index.ts\<close>. \<^verbatim>\<open>Pack_Handles\<close> is the lifecycle of a reader in \<^verbatim>\<open>pack.ts\<close> and the pool of
  \<^verbatim>\<open>pack-handle-pool.ts\<close>, as step relations with an invariant.

  \<^bold>\<open>Workspace.\<close> \<^verbatim>\<open>Workspace_Paths\<close> (\<^verbatim>\<open>utf8-order.ts\<close>, \<^verbatim>\<open>workspace-path-relations.ts\<close>) works on strings of UTF-16 code units.
  \<^verbatim>\<open>Json_Text\<close> is what \<^verbatim>\<open>JSON.stringify\<close> and the guards of unknown values need. \<^verbatim>\<open>Workspace_Scope\<close> is \<^verbatim>\<open>workspace-scope.ts\<close>,
  \<^verbatim>\<open>Tree_Manifest\<close> is \<^verbatim>\<open>tree-formats/manifest-codec.ts\<close>, \<^verbatim>\<open>Restore_Plan\<close> is \<^verbatim>\<open>restore-plan.ts\<close>, \<^verbatim>\<open>git-replay-risk.ts\<close> and the
  inventory types of \<^verbatim>\<open>workspace-scan.ts\<close>.

  \<^bold>\<open>Services.\<close> \<^verbatim>\<open>Failure_Settlement\<close> (\<^verbatim>\<open>failure-settlement.ts\<close>, \<^verbatim>\<open>workspace-operation.ts\<close>, \<^verbatim>\<open>metadata-error.ts\<close>) keeps error objects
  in a store of addresses, because identity and mutation of causes matter there. \<^verbatim>\<open>Snapshot_Publication\<close>
  (\<^verbatim>\<open>snapshot-publication.ts\<close>) runs its lane pool under an explicit schedule. \<^verbatim>\<open>Session_Graph\<close> is \<^verbatim>\<open>pi/extension-boundary.ts\<close>.
  \<^verbatim>\<open>Checkpoint_Service\<close> (\<^verbatim>\<open>application/capture.ts\<close>, \<^verbatim>\<open>application/checkpoint-service.ts\<close>) composes scanning, publication and the
  metadata store; \<^verbatim>\<open>Restore_Service\<close> (\<^verbatim>\<open>application/restore.ts\<close>, \<^verbatim>\<open>application/mutation-lease.ts\<close>, the gate of
  \<^verbatim>\<open>infrastructure/apply.ts\<close>) composes reading, planning, staging and applying, recording the calls it makes.

  \<^bold>\<open>Conventions.\<close> An exception is a value of \<open>js_error\<close>, a fallible step returns \<open>js_error + 'a\<close>, and messages are
  dropped. Numbers of the source are unbounded integers with the checks for safe integers written out; bytes are 8-bit
  words, the gear hash 64-bit words. \<open>await\<close> is sequencing where one caller runs, and a step of a relation where several
  interleave. SHA-256, Zstandard, Unicode tables, the scanner, the object store, blob staging, the file operations of
  apply and the evaluator of ignore rules are arguments.

  \<^bold>\<open>Bounds and fuel.\<close> The loop over target ancestors and the walk along causes may run forever in the source; they are
  partial functions into an option, and returning is proved where it holds. The traversal of recipes is bounded by the
  depth the code itself enforces. The lane pool takes its schedule as a list and is drained at the end, which completes
  whatever the schedule left. All other recursion is structural or has a measure. Size limits of the formats are those of
  the code, and the lemmas on sizes show that no arithmetic on accepted values leaves the safe integers.

  \<^bold>\<open>Not modelled.\<close> Files and directories (locks, inode identities, renames, fsync), the SQL of migrations, the process of git,
  the events and dialogs of the host, compaction and collection of objects, and the stored tree formats: their behaviour is
  that of code outside the program or of calls whose results would all be parameters. The in-memory form of an
  authenticated pack and the evidence of a publication are not modelled either.
\<close>

end
